(* ===== verification/Prelude.thy ===== *)
theory Prelude
  imports Main "HOL-Library.Word"
begin

text \<open>
  What every component of the development shares: the failure values that stand for the aborts of
  the C++ code, the result type and its sequencing, memory copies on byte vectors, the containers of
  the standard library the sources use (\<open>std::set\<close> and \<open>std::map\<close> as strictly sorted lists), the
  decimal printing of \<open>snprintf\<close>, and reachability of step systems with its invariant rule.
\<close>

named_theorems model_defs \<open>definitions of the model that proofs unfold\<close>
named_theorems inv_intros \<open>each operation keeps its component's invariant\<close>
named_theorems abs_simps \<open>what an operation does to the abstraction of its component\<close>

type_synonym byte = "8 word"
type_synonym bytes = "byte list"
type_synonym loop_id = nat
type_synonym fd = int

section \<open>Failures and results\<close>

text \<open>
  The sources are built in debug mode, so \<open>assert\<close> is active: a failed assertion stops the process.
  \<open>LOG_FATAL\<close> and \<open>LOG_SYSFATAL\<close> log and call \<open>abort\<close>. \<open>Undefined\<close> stands for a call whose
  precondition in the C++ standard does not hold.
\<close>

datatype failure = AssertFail string | Fatal string | Undefined string | BadAnyCast

type_synonym 'a result = "failure + 'a"

definition rbind :: "'a result \<Rightarrow> ('a \<Rightarrow> 'b result) \<Rightarrow> 'b result" where
  "rbind m f = (case m of Inl e \<Rightarrow> Inl e | Inr x \<Rightarrow> f x)"

definition cassert :: "bool \<Rightarrow> string \<Rightarrow> unit result" where
  "cassert b w = (if b then Inr () else Inl (AssertFail w))"

definition rspec :: "'a result \<Rightarrow> ('a \<Rightarrow> bool) \<Rightarrow> bool" where
  "rspec m P = (case m of Inl e \<Rightarrow> False | Inr x \<Rightarrow> P x)"

lemma rbind_Inr [simp]: "rbind (Inr x) f = f x"
  by (simp add: rbind_def)

lemma rbind_Inl [simp]: "rbind (Inl e) f = Inl e"
  by (simp add: rbind_def)

lemma rbind_eq_Inr_iff: "rbind m f = Inr y \<longleftrightarrow> (\<exists>x. m = Inr x \<and> f x = Inr y)"
  by (cases m) auto

lemma rbind_eq_Inl_iff:
  "rbind m f = Inl e \<longleftrightarrow> m = Inl e \<or> (\<exists>x. m = Inr x \<and> f x = Inl e)"
  by (cases m) auto

lemma rbind_assoc: "rbind (rbind m f) g = rbind m (\<lambda>x. rbind (f x) g)"
  by (cases m) auto

lemma rbind_cong [fundef_cong]:
  "m = m' \<Longrightarrow> (\<And>x. m' = Inr x \<Longrightarrow> f x = f' x) \<Longrightarrow> rbind m f = rbind m' f'"
  by (cases m') auto

lemma cassert_True [simp]: "b \<Longrightarrow> cassert b w = Inr ()"
  by (simp add: cassert_def)

lemma cassert_False [simp]: "\<not> b \<Longrightarrow> cassert b w = Inl (AssertFail w)"
  by (simp add: cassert_def)

lemma cassert_eq_Inr_iff [simp]: "cassert b w = Inr u \<longleftrightarrow> b"
  by (simp add: cassert_def)

lemma cassert_eq_Inl_iff [simp]: "cassert b w = Inl e \<longleftrightarrow> \<not> b \<and> e = AssertFail w"
  by (auto simp: cassert_def)

lemma rspec_Inr [simp]: "rspec (Inr x) P \<longleftrightarrow> P x"
  by (simp add: rspec_def)

lemma rspec_Inl [simp]: "\<not> rspec (Inl e) P"
  by (simp add: rspec_def)

lemma rspec_iff: "rspec m P \<longleftrightarrow> (\<exists>x. m = Inr x \<and> P x)"
  by (cases m) auto

lemma rspec_rbind [simp]: "rspec (rbind m f) P \<longleftrightarrow> rspec m (\<lambda>x. rspec (f x) P)"
  by (cases m) auto

lemma rspec_cassert [simp]: "rspec (cassert b w) P \<longleftrightarrow> b \<and> P ()"
  by (cases b) auto

lemma rspec_mono: "rspec m P \<Longrightarrow> (\<And>x. m = Inr x \<Longrightarrow> P x \<Longrightarrow> Q x) \<Longrightarrow> rspec m Q"
  by (cases m) auto

lemma rspec_conjI: "rspec m P \<Longrightarrow> rspec m Q \<Longrightarrow> rspec m (\<lambda>x. P x \<and> Q x)"
  by (cases m) auto

text \<open>Running a list of steps, each of which may fail: the first failure stops the run.\<close>

fun rfold :: "('x \<Rightarrow> 's \<Rightarrow> 's result) \<Rightarrow> 'x list \<Rightarrow> 's \<Rightarrow> 's result" where
  "rfold f [] s = Inr s"
| "rfold f (x # xs) s = rbind (f x s) (rfold f xs)"

lemma rfold_append: "rfold f (xs @ ys) s = rbind (rfold f xs s) (rfold f ys)"
proof (induction xs arbitrary: s)
  case Nil
  then show ?case by simp
next
  case (Cons x xs)
  then show ?case by (cases "f x s") auto
qed

lemma rfold_invariant:
  assumes "\<And>x s. x \<in> set xs \<Longrightarrow> I s \<Longrightarrow> rspec (f x s) I" and "I s"
  shows "rspec (rfold f xs s) I"
  using assms
proof (induction xs arbitrary: s)
  case Nil
  then show ?case by simp
next
  case (Cons x xs)
  from Cons.prems have "rspec (f x s) I" by simp
  then show ?case
    using Cons.IH Cons.prems(1) by (auto simp: rspec_iff)
qed

section \<open>Copies on byte vectors\<close>

text \<open>\<open>blit d xs v\<close>: \<open>std::copy\<close> of the range \<open>xs\<close> to offset \<open>d\<close> of the vector \<open>v\<close>.\<close>

definition blit :: "nat \<Rightarrow> 'a list \<Rightarrow> 'a list \<Rightarrow> 'a list" where
  "blit d xs v = take d v @ xs @ drop (d + length xs) v"

text \<open>\<open>std::vector<char>::resize\<close>: cuts or pads with zero bytes.\<close>

definition vresize :: "nat \<Rightarrow> bytes \<Rightarrow> bytes" where
  "vresize n v = take n v @ replicate (n - length v) 0"

lemma length_blit [simp]: "d + length xs \<le> length v \<Longrightarrow> length (blit d xs v) = length v"
  by (simp add: blit_def)

lemma length_vresize [simp]: "length (vresize n v) = n"
  by (simp add: vresize_def)

lemma take_blit_before [simp]: "n \<le> d \<Longrightarrow> d \<le> length v \<Longrightarrow> take n (blit d xs v) = take n v"
  by (simp add: blit_def min_def)

lemma take_drop_blit [simp]:
  "d \<le> length v \<Longrightarrow> take (length xs) (drop d (blit d xs v)) = xs"
  by (simp add: blit_def)

lemma take_drop_vresize:
  "n \<le> length v \<Longrightarrow> n \<le> m \<Longrightarrow> take (n - r) (drop r (vresize m v)) = take (n - r) (drop r v)"
  by (cases "r \<le> n") (simp_all add: vresize_def drop_append take_drop min_def)

lemma take_vresize: "n \<le> length v \<Longrightarrow> n \<le> m \<Longrightarrow> take n (vresize m v) = take n v"
  by (simp add: vresize_def min_def)

lemma take_drop_cat:
  "r \<le> w \<Longrightarrow> w + n \<le> length v \<Longrightarrow>
     take (w + n - r) (drop r v) = take (w - r) (drop r v) @ take n (drop w v)"
proof -
  assume a: "r \<le> w" "w + n \<le> length v"
  have "take (w - r + n) (drop r v) = take (w - r) (drop r v) @ take n (drop (w - r) (drop r v))"
    by (rule take_add)
  with a show ?thesis by simp
qed

section \<open>\<open>std::set\<close> and \<open>std::map\<close>: strictly sorted lists\<close>

fun oset_insert :: "'a::linorder \<Rightarrow> 'a list \<Rightarrow> 'a list" where
  "oset_insert x [] = [x]"
| "oset_insert x (y # ys) =
     (if x < y then x # y # ys else if x = y then y # ys else y # oset_insert x ys)"

definition oset_erase :: "'a \<Rightarrow> 'a list \<Rightarrow> 'a list" where
  "oset_erase x xs = filter (\<lambda>y. y \<noteq> x) xs"

lemma set_oset_insert [simp]: "set (oset_insert x xs) = insert x (set xs)"
  by (induction xs) auto

lemma sorted_oset_insert [simp]:
  "sorted_wrt (<) xs \<Longrightarrow> sorted_wrt (<) (oset_insert x xs)"
  by (induction xs) auto

lemma length_oset_insert:
  "sorted_wrt (<) xs \<Longrightarrow> length (oset_insert x xs) = (if x \<in> set xs then length xs else Suc (length xs))"
  by (induction xs) (auto simp: not_less_iff_gr_or_eq)

lemma set_oset_erase [simp]: "set (oset_erase x xs) = set xs - {x}"
  by (auto simp: oset_erase_def)

lemma sorted_oset_erase [simp]: "sorted_wrt (<) xs \<Longrightarrow> sorted_wrt (<) (oset_erase x xs)"
  by (simp add: oset_erase_def sorted_wrt_filter)

lemma strict_sorted_distinct: "sorted_wrt (<) (xs :: 'a::linorder list) \<Longrightarrow> distinct xs"
  by (simp add: strict_sorted_iff)

lemma length_oset_erase:
  "distinct xs \<Longrightarrow> length (oset_erase x xs) = (if x \<in> set xs then length xs - 1 else length xs)"
proof (induction xs)
  case Nil
  then show ?case by (simp add: oset_erase_def)
next
  case (Cons y ys)
  then show ?case
    by (cases "x = y") (auto simp: oset_erase_def filter_id_conv dest: length_pos_if_in_set)
qed

section \<open>Decimal printing (\<open>snprintf\<close> with \<open>%d\<close> and \<open>%u\<close>)\<close>

definition digit_char :: "nat \<Rightarrow> char" where
  "digit_char d = char_of (48 + d)"

fun show_nat :: "nat \<Rightarrow> string" where
  "show_nat n = (if n < 10 then [digit_char n] else show_nat (n div 10) @ [digit_char (n mod 10)])"

declare show_nat.simps [simp del]

definition show_int :: "int \<Rightarrow> string" where
  "show_int i = (if i < 0 then CHR ''-'' # show_nat (nat (- i)) else show_nat (nat i))"

text \<open>\<open>snprintf(buf, n, ...)\<close> keeps at most \<open>n - 1\<close> characters of what it formats.\<close>

definition snprintf_cut :: "nat \<Rightarrow> string \<Rightarrow> string" where
  "snprintf_cut n s = take (n - 1) s"

definition digit_val :: "char \<Rightarrow> nat" where
  "digit_val c = of_char c - 48"

definition read_nat :: "string \<Rightarrow> nat" where
  "read_nat s = foldl (\<lambda>a c. 10 * a + digit_val c) 0 s"

lemma digit_val_char [simp]: "d < 10 \<Longrightarrow> digit_val (digit_char d) = d"
  by (simp add: digit_val_def digit_char_def)

lemma read_show_nat [simp]: "read_nat (show_nat n) = n"
proof (induction n rule: show_nat.induct)
  case (1 n)
  show ?case
  proof (cases "n < 10")
    case True
    then show ?thesis by (simp add: show_nat.simps [of n] read_nat_def)
  next
    case False
    with 1 have "read_nat (show_nat (n div 10)) = n div 10" by simp
    then have "foldl (\<lambda>a c. 10 * a + digit_val c) 0 (show_nat (n div 10)) = n div 10"
      by (simp add: read_nat_def)
    with False show ?thesis by (simp add: show_nat.simps [of n] read_nat_def)
  qed
qed

lemma show_nat_inject [simp]: "show_nat m = show_nat n \<longleftrightarrow> m = n"
  by (metis read_show_nat)

lemma digit_char_inject: "a < 10 \<Longrightarrow> b < 10 \<Longrightarrow> digit_char a = digit_char b \<longleftrightarrow> a = b"
  by (metis digit_val_char)

lemma show_nat_digits: "c \<in> set (show_nat n) \<Longrightarrow> \<exists>d < 10. c = digit_char d"
proof (induction n rule: show_nat.induct)
  case (1 n)
  show ?case
  proof (cases "n < 10")
    case True
    with "1.prems" show ?thesis by (auto simp: show_nat.simps [of n])
  next
    case False
    with "1.prems" have "c \<in> set (show_nat (n div 10)) \<or> c = digit_char (n mod 10)"
      by (auto simp: show_nat.simps [of n])
    with "1.IH" [OF False] show ?thesis by force
  qed
qed

lemma show_nat_nonempty [simp]: "show_nat n \<noteq> []"
  by (subst show_nat.simps) simp

lemma length_show_nat: "n < 10 ^ k \<Longrightarrow> 0 < k \<Longrightarrow> length (show_nat n) \<le> k"
proof (induction k arbitrary: n)
  case 0
  then show ?case by simp
next
  case (Suc k)
  show ?case
  proof (cases "n < 10")
    case True
    then show ?thesis by (simp add: show_nat.simps [of n])
  next
    case False
    with Suc.prems have "n div 10 < 10 ^ k" by auto
    moreover have "0 < k"
    proof (rule ccontr)
      assume "\<not> 0 < k"
      with Suc.prems False show False by simp
    qed
    ultimately have "length (show_nat (n div 10)) \<le> k" by (rule Suc.IH)
    with False show ?thesis by (simp add: show_nat.simps [of n])
  qed
qed

text \<open>The largest \<open>int\<close>; counting past it is undefined.\<close>

definition INT_MAX :: int where "INT_MAX = 2 ^ 31 - 1"

lemma show_int_inject: "0 \<le> a \<Longrightarrow> 0 \<le> b \<Longrightarrow> show_int a = show_int b \<longleftrightarrow> a = b"
  by (auto simp: show_int_def)

lemma length_show_id: "1 \<le> i \<Longrightarrow> i \<le> INT_MAX \<Longrightarrow> length (show_int i) \<le> 10"
  by (auto simp: show_int_def INT_MAX_def intro!: length_show_nat)

section \<open>Step systems\<close>

text \<open>The states a step relation reaches from its initial states.\<close>

inductive reaches :: "('s \<Rightarrow> bool) \<Rightarrow> ('s \<Rightarrow> 's \<Rightarrow> bool) \<Rightarrow> 's \<Rightarrow> bool"
  for init :: "'s \<Rightarrow> bool" and step :: "'s \<Rightarrow> 's \<Rightarrow> bool" where
  reaches_init: "init s \<Longrightarrow> reaches init step s"
| reaches_step: "reaches init step s \<Longrightarrow> step s t \<Longrightarrow> reaches init step t"

text \<open>
  The contract a component's steps have with its invariant, and what it gives: the invariant holds
  in every reachable state.
\<close>

locale inductive_invariant =
  fixes init :: "'s \<Rightarrow> bool" and step :: "'s \<Rightarrow> 's \<Rightarrow> bool" and inv :: "'s \<Rightarrow> bool"
  assumes inv_init: "init s \<Longrightarrow> inv s"
    and inv_step: "inv s \<Longrightarrow> step s t \<Longrightarrow> inv t"
begin

lemma inv_reaches: "reaches init step s \<Longrightarrow> inv s"
  by (induction rule: reaches.induct) (auto intro: inv_init inv_step)

lemma inv_star: "step\<^sup>*\<^sup>* s t \<Longrightarrow> inv s \<Longrightarrow> inv t"
  by (induction rule: rtranclp_induct) (auto intro: inv_step)

end

section \<open>Counting\<close>

definition num :: "('a \<Rightarrow> bool) \<Rightarrow> 'a list \<Rightarrow> nat" where
  "num P xs = length (filter P xs)"

lemma num_update: "i < length xs \<Longrightarrow> num P (xs[i := y]) + (if P (xs ! i) then 1 else 0) = num P xs + (if P y then 1 else 0)"
proof (induction xs arbitrary: i)
  case (Cons x xs)
  then show ?case by (cases i) (auto simp: num_def)
qed simp

lemma num_simps [simp]: "num P [] = 0" "num P (xs @ ys) = num P xs + num P ys" "num P (x # xs) = (if P x then 1 else 0) + num P xs"
  by (simp_all add: num_def)

lemma num_pos: "0 < num P xs \<longleftrightarrow> (\<exists>x \<in> set xs. P x)"
  by (auto simp: num_def filter_empty_conv)

end
