(* ===== verification/Endian.thy ===== *)
theory Endian
  imports Prelude
begin

text \<open>
  Byte order (\<open>third/muduo/net/Endian.h\<close>). The host stores integers least significant byte first
  (the build targets x86, \<open>-march=native\<close>), so \<open>htobe32\<close> and \<open>be32toh\<close> reverse the bytes of the
  object representation. \<open>to_mem\<close> and \<open>of_mem\<close> are that representation: what \<open>memcpy\<close> from and to
  an integer object reads and writes.
\<close>

unbundle bit_operations_syntax

definition to_mem :: "nat \<Rightarrow> 'a::len word \<Rightarrow> bytes" where
  "to_mem n x = map (\<lambda>i. ucast (drop_bit (8 * i) x)) [0..<n]"

fun of_mem :: "bytes \<Rightarrow> 'a::len word" where
  "of_mem [] = 0"
| "of_mem (b # bs) = ucast b OR push_bit 8 (of_mem bs)"

definition htobe :: "nat \<Rightarrow> 'a::len word \<Rightarrow> 'a word" where
  "htobe n x = of_mem (rev (to_mem n x))"

definition hostToNetwork64 :: "64 word \<Rightarrow> 64 word" where
  "hostToNetwork64 host64 = htobe 8 host64"

definition hostToNetwork32 :: "32 word \<Rightarrow> 32 word" where
  "hostToNetwork32 host32 = htobe 4 host32"

definition hostToNetwork16 :: "16 word \<Rightarrow> 16 word" where
  "hostToNetwork16 host16 = htobe 2 host16"

definition networkToHost64 :: "64 word \<Rightarrow> 64 word" where
  "networkToHost64 net64 = htobe 8 net64"

definition networkToHost32 :: "32 word \<Rightarrow> 32 word" where
  "networkToHost32 net32 = htobe 4 net32"

definition networkToHost16 :: "16 word \<Rightarrow> 16 word" where
  "networkToHost16 net16 = htobe 2 net16"

lemmas endian_defs = hostToNetwork64_def hostToNetwork32_def hostToNetwork16_def
  networkToHost64_def networkToHost32_def networkToHost16_def

section \<open>The object representation\<close>

lemma length_to_mem [simp]: "length (to_mem n x) = n"
  by (simp add: to_mem_def)

lemma bit_of_mem:
  "bit (of_mem bs :: 'a::len word) i \<longleftrightarrow>
     i < LENGTH('a) \<and> i div 8 < length bs \<and> bit (bs ! (i div 8)) (i mod 8)"
proof (induction bs arbitrary: i)
  case Nil
  then show ?case by simp
next
  case (Cons b bs)
  show ?case
  proof (cases "i < 8")
    case True
    then show ?thesis by (auto simp: bit_or_iff bit_push_bit_iff bit_ucast_iff)
  next
    case False
    then obtain j where j: "i = j + 8" by (metis add.commute le_Suc_ex not_less)
    have "\<not> bit b i" using False by (auto dest: bit_imp_le_length)
    then show ?thesis
      using j Cons.IH [of j] by (auto simp: bit_or_iff bit_push_bit_iff bit_ucast_iff div_add_self2)
  qed
qed

lemma of_to_mem [simp]:
  assumes "8 * n = LENGTH('a)"
  shows "of_mem (to_mem n x) = (x :: 'a::len word)"
proof (rule bit_word_eqI)
  fix i
  assume i: "i < LENGTH('a)"
  with assms have d: "i div 8 < n" by auto
  have "8 * (i div 8) + i mod 8 = i" by simp
  with i d show "bit (of_mem (to_mem n x) :: 'a word) i = bit x i"
    by (simp add: bit_of_mem to_mem_def bit_ucast_iff bit_drop_bit_eq)
qed

lemma to_of_mem [simp]:
  assumes "length bs = n" and "8 * n = LENGTH('a)"
  shows "to_mem n (of_mem bs :: 'a::len word) = bs"
proof (rule nth_equalityI)
  show "length (to_mem n (of_mem bs :: 'a word)) = length bs"
    using assms by simp
next
  fix k
  assume "k < length (to_mem n (of_mem bs :: 'a word))"
  then have k: "k < n" by simp
  show "to_mem n (of_mem bs :: 'a word) ! k = bs ! k"
  proof (rule bit_word_eqI)
    fix i
    assume "i < LENGTH(8)"
    then have i: "i < 8" by simp
    then have "8 * k + i < LENGTH('a)" using k assms(2) by auto
    moreover have "(8 * k + i) div 8 = k" and "(8 * k + i) mod 8 = i" using i by auto
    ultimately show "bit (to_mem n (of_mem bs :: 'a word) ! k) i = bit (bs ! k) i"
      using k i assms(1)
      by (simp add: to_mem_def bit_ucast_iff bit_drop_bit_eq bit_of_mem)
  qed
qed

lemma htobe_htobe [simp]:
  "8 * n = LENGTH('a) \<Longrightarrow> htobe n (htobe n x) = (x :: 'a::len word)"
  by (simp add: htobe_def)

text \<open>What the wire carries: the bytes of the swapped integer are the big-endian bytes.\<close>

lemma to_mem_htobe [simp]:
  "8 * n = LENGTH('a) \<Longrightarrow> to_mem n (htobe n x) = rev (to_mem n (x :: 'a::len word))"
  by (simp add: htobe_def)

lemma networkToHost_hostToNetwork [simp]:
  "networkToHost64 (hostToNetwork64 a) = a"
  "networkToHost32 (hostToNetwork32 b) = b"
  "networkToHost16 (hostToNetwork16 c) = c"
  by (simp_all add: endian_defs)

section \<open>The value on the wire\<close>

text \<open>\<open>be_value\<close> reads a byte string as a number in base 256, first byte most significant.\<close>

definition be_value :: "bytes \<Rightarrow> int" where
  "be_value bs = foldl (\<lambda>a b. 256 * a + uint b) 0 bs"

lemma be_value_snoc: "be_value (bs @ [b]) = 256 * be_value bs + uint b"
  by (simp add: be_value_def)

lemma to_mem_Suc: "to_mem (Suc n) x = ucast x # to_mem n (drop_bit 8 x)"
  unfolding to_mem_def upt_conv_Cons [OF zero_less_Suc] map_Suc_upt [symmetric]
  by (simp add: comp_def drop_bit_drop_bit ac_simps)

lemma be_value_rev_to_mem:
  "be_value (rev (to_mem n x)) = take_bit (8 * n) (uint (x :: 'a::len word))"
proof (induction n arbitrary: x)
  case 0
  then show ?case by (simp add: to_mem_def be_value_def)
next
  case (Suc n)
  have "be_value (rev (to_mem (Suc n) x))
      = 256 * take_bit (8 * n) (uint (drop_bit 8 x)) + uint (ucast x :: byte)"
    by (simp add: to_mem_Suc be_value_snoc Suc)
  also have "uint (ucast x :: byte) = take_bit 8 (uint x)"
    by (simp add: unsigned_ucast_eq)
  also have "uint (drop_bit 8 x) = drop_bit 8 (uint x)"
    by (rule bit_eqI) (auto simp: bit_uint_iff bit_drop_bit_eq dest: bit_imp_le_length)
  also have "256 * take_bit (8 * n) (drop_bit 8 (uint x)) + take_bit 8 (uint x)
      = take_bit (8 * Suc n) (uint x)"
    by (simp add: take_bit_eq_mod drop_bit_eq_div power_add zmod_zmult2_eq)
  finally show ?case .
qed

text \<open>
  Network byte order is the most significant byte first: for every 32-bit value, the four bytes
  that \<open>hostToNetwork32\<close> leaves in memory, and that the buffer and the codec put on the wire, spell
  the value in base 256 high byte first, and \<open>networkToHost32\<close> recovers the value from them.
\<close>

theorem network_order_value:
  "be_value (to_mem 4 (hostToNetwork32 x)) = uint x \<and>
   networkToHost32 (of_mem (to_mem 4 (hostToNetwork32 x))) = x"
proof -
  have "take_bit 32 (uint x) = uint x"
    using uint_lt2p [of x] by (simp add: take_bit_int_eq_self)
  then have "be_value (to_mem 4 (hostToNetwork32 x)) = uint x"
    by (simp add: hostToNetwork32_def be_value_rev_to_mem)
  moreover have "networkToHost32 (of_mem (to_mem 4 (hostToNetwork32 x))) = x"
    by (subst of_to_mem) simp_all
  ultimately show ?thesis ..
qed

end
