(* ===== verification/Buffer.thy ===== *)
theory Buffer
  imports Endian
begin

text \<open>
  The byte buffer of connections (\<open>third/muduo/net/Buffer.h\<close>, \<open>Buffer.cc\<close>): a vector with a reader
  and a writer index. The record is the class, every method is a definition of the same name, a
  failed \<open>assert\<close> is the value \<open>Inl (AssertFail _)\<close>, and a \<open>const char*\<close> into the vector is its
  offset. \<open>size_t\<close> is \<open>nat\<close>: under the invariant every difference the code forms is of a larger
  and a smaller index, so none wraps. The abstraction \<open>content\<close> is the readable byte string; the
  lemmas say what each method does to it, and the locale \<open>byte_fifo\<close> is the contract the codec and
  the connections rely on.
\<close>

section \<open>The class\<close>

record buffer =
  buffer :: bytes
  readerIndex :: nat
  writerIndex :: nat

definition kCheapPrepend :: nat where "kCheapPrepend = 8"
definition kInitialSize :: nat where "kInitialSize = 1024"
definition kCRLF :: bytes where "kCRLF = [13, 10]"

definition Buffer_ctor :: "nat \<Rightarrow> buffer" where
  "Buffer_ctor initialSize =
     \<lparr>buffer = replicate (kCheapPrepend + initialSize) 0,
      readerIndex = kCheapPrepend, writerIndex = kCheapPrepend\<rparr>"

definition Buffer_swap :: "buffer \<Rightarrow> buffer \<Rightarrow> buffer \<times> buffer" where
  "Buffer_swap b rhs =
     (b\<lparr>buffer := buffer rhs, readerIndex := readerIndex rhs, writerIndex := writerIndex rhs\<rparr>,
      rhs\<lparr>buffer := buffer b, readerIndex := readerIndex b, writerIndex := writerIndex b\<rparr>)"

definition readableBytes :: "buffer \<Rightarrow> nat" where
  "readableBytes b = writerIndex b - readerIndex b"

definition writableBytes :: "buffer \<Rightarrow> nat" where
  "writableBytes b = length (buffer b) - writerIndex b"

definition prependableBytes :: "buffer \<Rightarrow> nat" where
  "prependableBytes b = readerIndex b"

definition peek :: "buffer \<Rightarrow> nat" where
  "peek b = readerIndex b"

definition beginWrite :: "buffer \<Rightarrow> nat" where
  "beginWrite b = writerIndex b"

text \<open>The bytes of the vector in the range \<open>[p, q)\<close>.\<close>

definition span :: "buffer \<Rightarrow> nat \<Rightarrow> nat \<Rightarrow> bytes" where
  "span b p q = take (q - p) (drop p (buffer b))"

text \<open>\<open>std::search\<close> for a needle and \<open>memchr\<close>: the offset of the first match.\<close>

fun std_search :: "bytes \<Rightarrow> bytes \<Rightarrow> nat option" where
  "std_search needle [] = (if needle = [] then Some 0 else None)"
| "std_search needle (x # xs) =
     (if take (length needle) (x # xs) = needle then Some 0
      else map_option Suc (std_search needle xs))"

definition Buffer_findCRLF_from :: "nat \<Rightarrow> buffer \<Rightarrow> nat option result" where
  "Buffer_findCRLF_from start b =
     rbind (cassert (peek b \<le> start) ''peek() <= start'') (\<lambda>_.
     rbind (cassert (start \<le> beginWrite b) ''start <= beginWrite()'') (\<lambda>_.
     Inr (map_option (\<lambda>i. start + i) (std_search kCRLF (span b start (beginWrite b))))))"

definition Buffer_findCRLF :: "buffer \<Rightarrow> nat option" where
  "Buffer_findCRLF b =
     map_option (\<lambda>i. peek b + i) (std_search kCRLF (span b (peek b) (beginWrite b)))"

definition Buffer_findEOL :: "buffer \<Rightarrow> nat option" where
  "Buffer_findEOL b =
     map_option (\<lambda>i. peek b + i) (std_search [10] (span b (peek b) (peek b + readableBytes b)))"

definition Buffer_findEOL_from :: "nat \<Rightarrow> buffer \<Rightarrow> nat option result" where
  "Buffer_findEOL_from start b =
     rbind (cassert (peek b \<le> start) ''peek() <= start'') (\<lambda>_.
     rbind (cassert (start \<le> beginWrite b) ''start <= beginWrite()'') (\<lambda>_.
     Inr (map_option (\<lambda>i. start + i) (std_search [10] (span b start (beginWrite b))))))"

definition Buffer_retrieveAll :: "buffer \<Rightarrow> buffer" where
  "Buffer_retrieveAll b = b\<lparr>readerIndex := kCheapPrepend, writerIndex := kCheapPrepend\<rparr>"

definition Buffer_retrieve :: "nat \<Rightarrow> buffer \<Rightarrow> buffer result" where
  "Buffer_retrieve len b =
     rbind (cassert (len \<le> readableBytes b) ''len <= readableBytes()'') (\<lambda>_.
     if len < readableBytes b
     then Inr (b\<lparr>readerIndex := readerIndex b + len\<rparr>)
     else Inr (Buffer_retrieveAll b))"

definition Buffer_retrieveUntil :: "nat \<Rightarrow> buffer \<Rightarrow> buffer result" where
  "Buffer_retrieveUntil endp b =
     rbind (cassert (peek b \<le> endp) ''peek() <= end'') (\<lambda>_.
     rbind (cassert (endp \<le> beginWrite b) ''end <= beginWrite()'') (\<lambda>_.
     Buffer_retrieve (endp - peek b) b))"

definition Buffer_retrieveInt64 :: "buffer \<Rightarrow> buffer result" where
  "Buffer_retrieveInt64 b = Buffer_retrieve 8 b"
definition Buffer_retrieveInt32 :: "buffer \<Rightarrow> buffer result" where
  "Buffer_retrieveInt32 b = Buffer_retrieve 4 b"
definition Buffer_retrieveInt16 :: "buffer \<Rightarrow> buffer result" where
  "Buffer_retrieveInt16 b = Buffer_retrieve 2 b"
definition Buffer_retrieveInt8 :: "buffer \<Rightarrow> buffer result" where
  "Buffer_retrieveInt8 b = Buffer_retrieve 1 b"

definition Buffer_retrieveAsString :: "nat \<Rightarrow> buffer \<Rightarrow> (bytes \<times> buffer) result" where
  "Buffer_retrieveAsString len b =
     rbind (cassert (len \<le> readableBytes b) ''len <= readableBytes()'') (\<lambda>_.
     rbind (Buffer_retrieve len b) (\<lambda>b'.
     Inr (span b (peek b) (peek b + len), b')))"

definition Buffer_retrieveAllAsString :: "buffer \<Rightarrow> (bytes \<times> buffer) result" where
  "Buffer_retrieveAllAsString b = Buffer_retrieveAsString (readableBytes b) b"

text \<open>\<open>toStringPiece\<close> narrows the length to \<open>int\<close>; beyond \<open>INT_MAX\<close> the piece has no meaning.\<close>

definition Buffer_toStringPiece :: "buffer \<Rightarrow> bytes result" where
  "Buffer_toStringPiece b =
     (if readableBytes b < 2 ^ 31 then Inr (span b (peek b) (peek b + readableBytes b))
      else Inl (Undefined ''StringPiece length''))"

definition Buffer_makeSpace :: "nat \<Rightarrow> buffer \<Rightarrow> buffer result" where
  "Buffer_makeSpace len b =
     (if writableBytes b + prependableBytes b < len + kCheapPrepend
      then Inr (b\<lparr>buffer := vresize (writerIndex b + len) (buffer b)\<rparr>)
      else
        rbind (cassert (kCheapPrepend < readerIndex b) ''kCheapPrepend < readerIndex_'') (\<lambda>_.
        let readable = readableBytes b;
            b' = b\<lparr>buffer := blit kCheapPrepend (span b (readerIndex b) (writerIndex b)) (buffer b),
                   readerIndex := kCheapPrepend, writerIndex := kCheapPrepend + readable\<rparr>
        in rbind (cassert (readable = readableBytes b') ''readable == readableBytes()'') (\<lambda>_.
           Inr b')))"

definition Buffer_ensureWritableBytes :: "nat \<Rightarrow> buffer \<Rightarrow> buffer result" where
  "Buffer_ensureWritableBytes len b =
     rbind (if writableBytes b < len then Buffer_makeSpace len b else Inr b) (\<lambda>b'.
     rbind (cassert (len \<le> writableBytes b') ''writableBytes() >= len'') (\<lambda>_. Inr b'))"

definition Buffer_hasWritten :: "nat \<Rightarrow> buffer \<Rightarrow> buffer result" where
  "Buffer_hasWritten len b =
     rbind (cassert (len \<le> writableBytes b) ''len <= writableBytes()'') (\<lambda>_.
     Inr (b\<lparr>writerIndex := writerIndex b + len\<rparr>))"

definition Buffer_unwrite :: "nat \<Rightarrow> buffer \<Rightarrow> buffer result" where
  "Buffer_unwrite len b =
     rbind (cassert (len \<le> readableBytes b) ''len <= readableBytes()'') (\<lambda>_.
     Inr (b\<lparr>writerIndex := writerIndex b - len\<rparr>))"

definition Buffer_append :: "bytes \<Rightarrow> buffer \<Rightarrow> buffer result" where
  "Buffer_append data b =
     rbind (Buffer_ensureWritableBytes (length data) b) (\<lambda>b'.
     Buffer_hasWritten (length data) (b'\<lparr>buffer := blit (beginWrite b') data (buffer b')\<rparr>))"

definition Buffer_appendInt64 :: "64 word \<Rightarrow> buffer \<Rightarrow> buffer result" where
  "Buffer_appendInt64 x b = Buffer_append (to_mem 8 (hostToNetwork64 x)) b"
definition Buffer_appendInt32 :: "32 word \<Rightarrow> buffer \<Rightarrow> buffer result" where
  "Buffer_appendInt32 x b = Buffer_append (to_mem 4 (hostToNetwork32 x)) b"
definition Buffer_appendInt16 :: "16 word \<Rightarrow> buffer \<Rightarrow> buffer result" where
  "Buffer_appendInt16 x b = Buffer_append (to_mem 2 (hostToNetwork16 x)) b"
definition Buffer_appendInt8 :: "8 word \<Rightarrow> buffer \<Rightarrow> buffer result" where
  "Buffer_appendInt8 x b = Buffer_append [x] b"

definition Buffer_peekInt64 :: "buffer \<Rightarrow> 64 word result" where
  "Buffer_peekInt64 b =
     rbind (cassert (8 \<le> readableBytes b) ''readableBytes() >= sizeof(int64_t)'') (\<lambda>_.
     Inr (networkToHost64 (of_mem (span b (peek b) (peek b + 8)))))"
definition Buffer_peekInt32 :: "buffer \<Rightarrow> 32 word result" where
  "Buffer_peekInt32 b =
     rbind (cassert (4 \<le> readableBytes b) ''readableBytes() >= sizeof(int32_t)'') (\<lambda>_.
     Inr (networkToHost32 (of_mem (span b (peek b) (peek b + 4)))))"
definition Buffer_peekInt16 :: "buffer \<Rightarrow> 16 word result" where
  "Buffer_peekInt16 b =
     rbind (cassert (2 \<le> readableBytes b) ''readableBytes() >= sizeof(int16_t)'') (\<lambda>_.
     Inr (networkToHost16 (of_mem (span b (peek b) (peek b + 2)))))"
definition Buffer_peekInt8 :: "buffer \<Rightarrow> 8 word result" where
  "Buffer_peekInt8 b =
     rbind (cassert (1 \<le> readableBytes b) ''readableBytes() >= sizeof(int8_t)'') (\<lambda>_.
     Inr (buffer b ! peek b))"

definition Buffer_readInt64 :: "buffer \<Rightarrow> (64 word \<times> buffer) result" where
  "Buffer_readInt64 b =
     rbind (Buffer_peekInt64 b) (\<lambda>x. rbind (Buffer_retrieveInt64 b) (\<lambda>b'. Inr (x, b')))"
definition Buffer_readInt32 :: "buffer \<Rightarrow> (32 word \<times> buffer) result" where
  "Buffer_readInt32 b =
     rbind (Buffer_peekInt32 b) (\<lambda>x. rbind (Buffer_retrieveInt32 b) (\<lambda>b'. Inr (x, b')))"
definition Buffer_readInt16 :: "buffer \<Rightarrow> (16 word \<times> buffer) result" where
  "Buffer_readInt16 b =
     rbind (Buffer_peekInt16 b) (\<lambda>x. rbind (Buffer_retrieveInt16 b) (\<lambda>b'. Inr (x, b')))"
definition Buffer_readInt8 :: "buffer \<Rightarrow> (8 word \<times> buffer) result" where
  "Buffer_readInt8 b =
     rbind (Buffer_peekInt8 b) (\<lambda>x. rbind (Buffer_retrieveInt8 b) (\<lambda>b'. Inr (x, b')))"

definition Buffer_prepend :: "bytes \<Rightarrow> buffer \<Rightarrow> buffer result" where
  "Buffer_prepend data b =
     rbind (cassert (length data \<le> prependableBytes b) ''len <= prependableBytes()'') (\<lambda>_.
     let r = readerIndex b - length data
     in Inr (b\<lparr>readerIndex := r, buffer := blit r data (buffer b)\<rparr>))"

definition Buffer_prependInt64 :: "64 word \<Rightarrow> buffer \<Rightarrow> buffer result" where
  "Buffer_prependInt64 x b = Buffer_prepend (to_mem 8 (hostToNetwork64 x)) b"
definition Buffer_prependInt32 :: "32 word \<Rightarrow> buffer \<Rightarrow> buffer result" where
  "Buffer_prependInt32 x b = Buffer_prepend (to_mem 4 (hostToNetwork32 x)) b"
definition Buffer_prependInt16 :: "16 word \<Rightarrow> buffer \<Rightarrow> buffer result" where
  "Buffer_prependInt16 x b = Buffer_prepend (to_mem 2 (hostToNetwork16 x)) b"
definition Buffer_prependInt8 :: "8 word \<Rightarrow> buffer \<Rightarrow> buffer result" where
  "Buffer_prependInt8 x b = Buffer_prepend [x] b"

definition Buffer_shrink :: "nat \<Rightarrow> buffer \<Rightarrow> buffer result" where
  "Buffer_shrink reserve b =
     rbind (Buffer_ensureWritableBytes (readableBytes b + reserve) (Buffer_ctor kInitialSize)) (\<lambda>other.
     rbind (Buffer_toStringPiece b) (\<lambda>piece.
     rbind (Buffer_append piece other) (\<lambda>other'.
     Inr (fst (Buffer_swap b other')))))"

text \<open>
  \<open>readFd\<close>: one \<open>readv\<close> into the writable part and a 64 KiB stack buffer. The kernel's answer is an
  argument: an error number, or the bytes it delivered into the two parts in order.
\<close>

datatype kread = ReadErr int | ReadOk bytes

definition extrabuf_size :: nat where "extrabuf_size = 65536"

definition readFd_offer :: "buffer \<Rightarrow> nat" where
  "readFd_offer b =
     (if writableBytes b < extrabuf_size then writableBytes b + extrabuf_size else writableBytes b)"

definition Buffer_readFd :: "kread \<Rightarrow> buffer \<Rightarrow> (int \<times> int \<times> buffer) result" where
  "Buffer_readFd r b =
     (let writable = writableBytes b in
      case r of
        ReadErr e \<Rightarrow> Inr (-1, e, b)
      | ReadOk data \<Rightarrow>
          (let n = length data;
               b1 = b\<lparr>buffer := blit (writerIndex b) (take writable data) (buffer b)\<rparr>
           in if n \<le> writable
              then Inr (int n, 0, b1\<lparr>writerIndex := writerIndex b1 + n\<rparr>)
              else rbind (Buffer_append (drop writable data)
                            (b1\<lparr>writerIndex := length (buffer b1)\<rparr>)) (\<lambda>b2.
                   Inr (int n, 0, b2))))"

lemmas Buffer_defs = readableBytes_def writableBytes_def prependableBytes_def peek_def
  beginWrite_def span_def kCheapPrepend_def

lemma Buffer_retrieve_readable_le:
  "Buffer_retrieve n b = Inr b' \<Longrightarrow> readableBytes b' \<le> readableBytes b - n"
  by (auto simp: Buffer_retrieve_def Buffer_retrieveAll_def readableBytes_def rbind_eq_Inr_iff
      split: if_splits)

section \<open>Invariant and abstraction\<close>

text \<open>The picture in the class comment, and room for the prepended header.\<close>

definition buffer_inv :: "buffer \<Rightarrow> bool" where
  "buffer_inv b \<longleftrightarrow> readerIndex b \<le> writerIndex b \<and> writerIndex b \<le> length (buffer b) \<and>
     kCheapPrepend \<le> length (buffer b)"

definition content :: "buffer \<Rightarrow> bytes" where
  "content b = span b (readerIndex b) (writerIndex b)"

lemma length_content [simp]: "buffer_inv b \<Longrightarrow> length (content b) = readableBytes b"
  by (auto simp: buffer_inv_def content_def Buffer_defs)

lemma buffer_inv_ctor [simp]: "buffer_inv (Buffer_ctor n)"
  by (simp add: buffer_inv_def Buffer_ctor_def kCheapPrepend_def)

lemma content_ctor [simp]: "content (Buffer_ctor n) = []"
  by (simp add: content_def Buffer_ctor_def Buffer_defs)

lemma span_content:
  "buffer_inv b \<Longrightarrow> n \<le> readableBytes b \<Longrightarrow> span b (peek b) (peek b + n) = take n (content b)"
  by (simp add: buffer_inv_def content_def Buffer_defs min_def)

lemma content_nth: "buffer_inv b \<Longrightarrow> 0 < readableBytes b \<Longrightarrow> buffer b ! peek b = content b ! 0"
  by (simp add: buffer_inv_def content_def Buffer_defs)

lemma retrieveAll_spec [simp]:
  "buffer_inv b \<Longrightarrow> buffer_inv (Buffer_retrieveAll b)"
  "content (Buffer_retrieveAll b) = []"
  by (simp_all add: buffer_inv_def content_def Buffer_retrieveAll_def Buffer_defs)

lemma retrieve_ok:
  assumes "buffer_inv b" and "len \<le> length (content b)"
  shows "rspec (Buffer_retrieve len b) (\<lambda>b'. buffer_inv b' \<and> content b' = drop len (content b))"
proof (cases "len < readableBytes b")
  case True
  with assms have "content (b\<lparr>readerIndex := readerIndex b + len\<rparr>) = drop len (content b)"
    by (simp add: buffer_inv_def content_def Buffer_defs drop_take ac_simps)
  with assms True show ?thesis
    by (simp add: Buffer_retrieve_def buffer_inv_def readableBytes_def)
next
  case False
  with assms show ?thesis by (simp add: Buffer_retrieve_def)
qed

lemma retrieve_fail:
  "buffer_inv b \<Longrightarrow> length (content b) < len \<Longrightarrow>
     Buffer_retrieve len b = Inl (AssertFail ''len <= readableBytes()'')"
  by (simp add: Buffer_retrieve_def)

lemma makeSpace_ok:
  assumes "buffer_inv b" and "writableBytes b < len"
  shows "rspec (Buffer_makeSpace len b)
     (\<lambda>b'. buffer_inv b' \<and> content b' = content b \<and> len \<le> writableBytes b')"
proof (cases "writableBytes b + prependableBytes b < len + kCheapPrepend")
  case True
  let ?b = "b\<lparr>buffer := vresize (writerIndex b + len) (buffer b)\<rparr>"
  have "content ?b = content b"
    using assms by (simp add: content_def span_def take_drop_vresize buffer_inv_def writableBytes_def)
  with True assms show ?thesis
    by (auto simp: Buffer_makeSpace_def buffer_inv_def writableBytes_def)
next
  case False
  with assms have "kCheapPrepend < readerIndex b"
    by (simp add: prependableBytes_def)
  with False assms show ?thesis
    by (simp add: Buffer_makeSpace_def Let_def buffer_inv_def content_def Buffer_defs blit_def min_def)
      linarith
qed

lemma ensureWritable_ok:
  assumes "buffer_inv b"
  shows "rspec (Buffer_ensureWritableBytes len b)
     (\<lambda>b'. buffer_inv b' \<and> content b' = content b \<and> len \<le> writableBytes b')"
proof (cases "writableBytes b < len")
  case True
  then show ?thesis
    using makeSpace_ok [OF assms True]
    by (auto simp: Buffer_ensureWritableBytes_def rspec_iff)
next
  case False
  with assms show ?thesis by (simp add: Buffer_ensureWritableBytes_def)
qed

lemma write_content:
  assumes "buffer_inv b" and "length data \<le> writableBytes b"
  shows "rspec (Buffer_hasWritten (length data)
        (b\<lparr>buffer := blit (beginWrite b) data (buffer b)\<rparr>))
     (\<lambda>b'. buffer_inv b' \<and> content b' = content b @ data)"
proof -
  let ?v = "blit (writerIndex b) data (buffer b)"
  have w: "writerIndex b + length data \<le> length (buffer b)"
    using assms by (auto simp: buffer_inv_def writableBytes_def)
  have "take (writerIndex b + length data - readerIndex b) (drop (readerIndex b) ?v)
     = take (writerIndex b - readerIndex b) (drop (readerIndex b) ?v)
       @ take (length data) (drop (writerIndex b) ?v)"
    using assms(1) w by (intro take_drop_cat) (simp_all add: buffer_inv_def)
  also have "take (writerIndex b - readerIndex b) (drop (readerIndex b) ?v) = content b"
  proof -
    have "take (writerIndex b) ?v = take (writerIndex b) (buffer b)" using w by simp
    then show ?thesis by (simp add: content_def span_def flip: drop_take)
  qed
  also have "take (length data) (drop (writerIndex b) ?v) = data" using w by simp
  finally show ?thesis
    using assms w
    by (simp add: Buffer_hasWritten_def buffer_inv_def content_def [of "buffer_update _ _"]
        content_def [of "writerIndex_update _ _"] Buffer_defs)
qed

lemma append_ok:
  assumes "buffer_inv b"
  shows "rspec (Buffer_append data b) (\<lambda>b'. buffer_inv b' \<and> content b' = content b @ data)"
  using ensureWritable_ok [OF assms, of "length data"] write_content
  by (fastforce simp: Buffer_append_def rspec_iff)

lemma prepend_ok:
  assumes "buffer_inv b" and "length data \<le> prependableBytes b"
  shows "rspec (Buffer_prepend data b) (\<lambda>b'. buffer_inv b' \<and> content b' = data @ content b)"
proof -
  let ?r = "readerIndex b - length data"
  let ?v = "blit ?r data (buffer b)"
  have r: "?r + length data = readerIndex b" using assms by (simp add: prependableBytes_def)
  have l: "readerIndex b \<le> writerIndex b" "writerIndex b \<le> length (buffer b)"
    using assms by (simp_all add: buffer_inv_def)
  have "drop ?r ?v = data @ drop (readerIndex b) (buffer b)"
    using r l by (simp add: blit_def)
  moreover have "writerIndex b - ?r = length data + (writerIndex b - readerIndex b)"
    using r l by simp
  ultimately have "take (writerIndex b - ?r) (drop ?r ?v) = data @ content b"
    by (simp add: content_def span_def)
  with assms r l show ?thesis
    by (simp add: Buffer_prepend_def Let_def buffer_inv_def content_def [of "buffer_update _ _"]
        content_def [of "readerIndex_update _ _"] span_def prependableBytes_def)
qed


lemma prepend_fail:
  "prependableBytes b < length data \<Longrightarrow>
     Buffer_prepend data b = Inl (AssertFail ''len <= prependableBytes()'')"
  by (simp add: Buffer_prepend_def)

lemma unwrite_ok:
  assumes "buffer_inv b" and "len \<le> length (content b)"
  shows "rspec (Buffer_unwrite len b)
     (\<lambda>b'. buffer_inv b' \<and> content b' = take (length (content b) - len) (content b))"
proof -
  have c: "content (b\<lparr>writerIndex := writerIndex b - len\<rparr>)
      = take (readableBytes b - len) (content b)"
    by (simp add: content_def span_def readableBytes_def add.commute)
  with assms show ?thesis
    by (auto simp: Buffer_unwrite_def buffer_inv_def readableBytes_def)
qed

lemma retrieveAsString_ok:
  assumes "buffer_inv b" and "len \<le> length (content b)"
  shows "rspec (Buffer_retrieveAsString len b)
     (\<lambda>(s, b'). s = take len (content b) \<and> buffer_inv b' \<and> content b' = drop len (content b))"
  using retrieve_ok [OF assms] assms
  by (auto simp: Buffer_retrieveAsString_def rspec_iff span_content)

lemma retrieveAllAsString_ok:
  assumes "buffer_inv b"
  shows "rspec (Buffer_retrieveAllAsString b)
     (\<lambda>(s, b'). s = content b \<and> buffer_inv b' \<and> content b' = [])"
proof -
  have "length (content b) \<le> length (content b)" by simp
  from retrieveAsString_ok [OF assms this] assms show ?thesis
    by (simp add: Buffer_retrieveAllAsString_def)
qed

lemma retrieveUntil_ok:
  assumes "buffer_inv b" and "readerIndex b \<le> e" and "e \<le> writerIndex b"
  shows "rspec (Buffer_retrieveUntil e b)
     (\<lambda>b'. buffer_inv b' \<and> content b' = drop (e - readerIndex b) (content b))"
  using assms retrieve_ok [OF assms(1), of "e - readerIndex b"]
  by (simp add: Buffer_retrieveUntil_def peek_def beginWrite_def readableBytes_def)

lemma toStringPiece_ok:
  "buffer_inv b \<Longrightarrow> length (content b) < 2 ^ 31 \<Longrightarrow> Buffer_toStringPiece b = Inr (content b)"
  by (simp add: Buffer_toStringPiece_def span_content)

lemma shrink_ok:
  assumes "buffer_inv b" and "length (content b) < 2 ^ 31"
  shows "rspec (Buffer_shrink reserve b)
     (\<lambda>b'. buffer_inv b' \<and> content b' = content b \<and> reserve \<le> writableBytes b')"
proof -
  obtain o1 where o1: "Buffer_ensureWritableBytes (readableBytes b + reserve) (Buffer_ctor kInitialSize) = Inr o1"
      "buffer_inv o1" "content o1 = []" "readableBytes b + reserve \<le> writableBytes o1"
    using ensureWritable_ok [OF buffer_inv_ctor, of "readableBytes b + reserve" kInitialSize]
    by (auto simp: rspec_iff)
  obtain o2 where o2: "Buffer_append (content b) o1 = Inr o2" "buffer_inv o2" "content o2 = content b"
    using append_ok [OF o1(2), of "content b"] o1(3) by (auto simp: rspec_iff)
  have "writerIndex o1 + length (content b) \<le> length (buffer o1)"
    using o1(2,4) assms(1) by (auto simp: buffer_inv_def writableBytes_def)
  then have "reserve \<le> writableBytes o2"
    using o2(1) o1(4) assms(1)
    by (auto simp: Buffer_append_def Buffer_ensureWritableBytes_def Buffer_hasWritten_def
        rbind_eq_Inr_iff writableBytes_def beginWrite_def split: if_splits)
  moreover have "fst (Buffer_swap b o2) = o2" by (simp add: Buffer_swap_def)
  ultimately show ?thesis
    using o1(1) o2 toStringPiece_ok [OF assms] by (simp add: Buffer_shrink_def)
qed

lemma readFd_ok:
  assumes inv: "buffer_inv b" and kernel: "length data \<le> readFd_offer b"
  shows "rspec (Buffer_readFd (ReadOk data) b)
     (\<lambda>(n, e, b'). n = int (length data) \<and> buffer_inv b' \<and> content b' = content b @ data)"
proof (cases "length data \<le> writableBytes b")
  case True
  then have t: "take (writableBytes b) data = data" by simp
  from write_content [OF inv True] True show ?thesis
    by (simp add: Buffer_readFd_def Let_def t Buffer_hasWritten_def beginWrite_def)
next
  case False
  let ?h = "take (writableBytes b) data"
  let ?b1 = "b\<lparr>buffer := blit (writerIndex b) ?h (buffer b)\<rparr>"
  have lh: "length ?h = writableBytes b" using False by simp
  have w: "writerIndex b + length ?h = length (buffer b)"
    using inv lh by (simp add: buffer_inv_def writableBytes_def)
  have full: "length (buffer ?b1) = writerIndex b + length ?h"
    using w by simp
  from write_content [OF inv, of ?h] lh have
    "buffer_inv (?b1\<lparr>writerIndex := length (buffer ?b1)\<rparr>)"
    "content (?b1\<lparr>writerIndex := length (buffer ?b1)\<rparr>) = content b @ ?h"
    using full by (auto simp: Buffer_hasWritten_def beginWrite_def rspec_iff rbind_eq_Inr_iff)
  with append_ok [of "?b1\<lparr>writerIndex := length (buffer ?b1)\<rparr>" "drop (writableBytes b) data"] False
  show ?thesis by (auto simp: Buffer_readFd_def Let_def rspec_iff)
qed

text \<open>The comment on \<open>readFd\<close>: with the extra buffer in use, one call reads at most 128k-1 bytes.\<close>

lemma readFd_offer_bound:
  "writableBytes b < extrabuf_size \<Longrightarrow> readFd_offer b \<le> 128 * 1024 - 1"
  by (simp add: readFd_offer_def extrabuf_size_def)

section \<open>Searching\<close>

lemma std_search_Some:
  "std_search needle xs = Some i \<Longrightarrow>
     take (length needle) (drop i xs) = needle \<and>
     (\<forall>j < i. take (length needle) (drop j xs) \<noteq> needle)"
proof (induction xs arbitrary: i)
  case Nil
  then show ?case by (auto split: if_splits)
next
  case (Cons x xs)
  show ?case
  proof (cases "take (length needle) (x # xs) = needle")
    case True
    with Cons.prems show ?thesis by simp
  next
    case False
    with Cons.prems obtain k where k: "std_search needle xs = Some k" "i = Suc k" by auto
    have "take (length needle) (drop j (x # xs)) \<noteq> needle" if "j < i" for j
      using that False Cons.IH [OF k(1)] k(2) by (cases j) auto
    with Cons.IH [OF k(1)] k(2) show ?thesis by auto
  qed
qed

lemma std_search_None:
  "std_search needle xs = None \<Longrightarrow> take (length needle) (drop j xs) \<noteq> needle"
proof (induction xs arbitrary: j)
  case Nil
  then show ?case by (auto split: if_splits)
next
  case (Cons x xs)
  show ?case
  proof (cases j)
    case 0
    with Cons.prems show ?thesis by (auto split: if_splits)
  next
    case (Suc k)
    with Cons show ?thesis by (auto split: if_splits)
  qed
qed

lemma findCRLF_content:
  "buffer_inv b \<Longrightarrow>
     Buffer_findCRLF b = map_option (\<lambda>i. readerIndex b + i) (std_search kCRLF (content b))"
  by (simp add: Buffer_findCRLF_def content_def peek_def beginWrite_def)

section \<open>Integers\<close>

lemma appendInt32_ok:
  "buffer_inv b \<Longrightarrow> rspec (Buffer_appendInt32 x b)
     (\<lambda>b'. buffer_inv b' \<and> content b' = content b @ rev (to_mem 4 x))"
  using append_ok [of b "to_mem 4 (hostToNetwork32 x)"]
  by (simp add: Buffer_appendInt32_def hostToNetwork32_def)

lemma peekInt32_ok:
  assumes "buffer_inv b" and "content b = rev (to_mem 4 x) @ rest"
  shows "Buffer_peekInt32 b = Inr x"
proof -
  have r: "4 \<le> readableBytes b" using assms length_content [OF assms(1)] by simp
  then have "span b (peek b) (peek b + 4) = rev (to_mem 4 x)"
    using assms by (simp add: span_content)
  with r show ?thesis
    by (simp add: Buffer_peekInt32_def networkToHost32_def htobe_def)
qed

lemma readInt32_ok:
  assumes "buffer_inv b" and "content b = rev (to_mem 4 x) @ rest"
  shows "rspec (Buffer_readInt32 b) (\<lambda>(y, b'). y = x \<and> buffer_inv b' \<and> content b' = rest)"
  using retrieve_ok [OF assms(1), of 4] peekInt32_ok [OF assms] assms(2)
  by (auto simp: Buffer_readInt32_def Buffer_retrieveInt32_def rspec_iff)

lemma readInt64_ok:
  assumes "buffer_inv b" and "content b = rev (to_mem 8 x) @ rest"
  shows "rspec (Buffer_readInt64 b) (\<lambda>(y, b'). y = x \<and> buffer_inv b' \<and> content b' = rest)"
proof -
  have r: "8 \<le> readableBytes b" using assms length_content [OF assms(1)] by simp
  then have "span b (peek b) (peek b + 8) = rev (to_mem 8 x)"
    using assms by (simp add: span_content)
  with r have "Buffer_peekInt64 b = Inr x"
    by (simp add: Buffer_peekInt64_def networkToHost64_def htobe_def)
  with retrieve_ok [OF assms(1), of 8] assms(2) show ?thesis
    by (auto simp: Buffer_readInt64_def Buffer_retrieveInt64_def rspec_iff)
qed

lemma readInt16_ok:
  assumes "buffer_inv b" and "content b = rev (to_mem 2 x) @ rest"
  shows "rspec (Buffer_readInt16 b) (\<lambda>(y, b'). y = x \<and> buffer_inv b' \<and> content b' = rest)"
proof -
  have r: "2 \<le> readableBytes b" using assms length_content [OF assms(1)] by simp
  have "span b (peek b) (peek b + 2) = rev (to_mem 2 x)"
    unfolding span_content [OF assms(1) r] using assms(2) by simp
  with r have "Buffer_peekInt16 b = Inr x"
    by (simp add: Buffer_peekInt16_def networkToHost16_def htobe_def)
  with retrieve_ok [OF assms(1), of 2] assms(2) show ?thesis
    by (auto simp: Buffer_readInt16_def Buffer_retrieveInt16_def rspec_iff)
qed

lemma readInt8_ok:
  assumes "buffer_inv b" and "content b = x # rest"
  shows "rspec (Buffer_readInt8 b) (\<lambda>(y, b'). y = x \<and> buffer_inv b' \<and> content b' = rest)"
proof -
  have r: "1 \<le> readableBytes b" using assms length_content [OF assms(1)] by simp
  then have "Buffer_peekInt8 b = Inr x"
    using assms by (simp add: Buffer_peekInt8_def content_nth)
  with retrieve_ok [OF assms(1), of 1] assms(2) show ?thesis
    by (auto simp: Buffer_readInt8_def Buffer_retrieveInt8_def rspec_iff)
qed

section \<open>The interface: a first-in first-out byte string\<close>

text \<open>
  What the codec and the connections rely on: a buffer holds a byte string, \<open>append\<close> extends it at
  the back and never fails, \<open>retrieve\<close> drops bytes at the front and fails exactly when there are
  fewer than it is asked to drop.
\<close>

locale byte_fifo =
  fixes inv :: "'b \<Rightarrow> bool" and cont :: "'b \<Rightarrow> bytes"
    and app :: "bytes \<Rightarrow> 'b \<Rightarrow> 'b result" and ret :: "nat \<Rightarrow> 'b \<Rightarrow> 'b result"
  assumes app_law: "inv b \<Longrightarrow> rspec (app d b) (\<lambda>b'. inv b' \<and> cont b' = cont b @ d)"
    and ret_law: "inv b \<Longrightarrow> n \<le> length (cont b) \<Longrightarrow>
          rspec (ret n b) (\<lambda>b'. inv b' \<and> cont b' = drop n (cont b))"
    and ret_short: "inv b \<Longrightarrow> length (cont b) < n \<Longrightarrow> \<exists>e. ret n b = Inl e"
begin

lemma app_all:
  "inv b \<Longrightarrow> rspec (rfold app ds b) (\<lambda>b'. inv b' \<and> cont b' = cont b @ concat ds)"
proof (induction ds arbitrary: b)
  case Nil
  then show ?case by simp
next
  case (Cons d ds)
  from app_law [OF Cons.prems, of d]
  obtain b' where b': "app d b = Inr b'" "inv b'" "cont b' = cont b @ d"
    by (auto simp: rspec_iff)
  with Cons.IH [OF b'(2)] show ?case by simp
qed

lemma app_chunks_eq:
  assumes "inv b" and "concat ds = concat es"
    and "rfold app ds b = Inr x" and "rfold app es b = Inr y"
  shows "cont x = cont y"
  using app_all [OF assms(1), of ds] app_all [OF assms(1), of es] assms by simp

lemma app_then_ret:
  "inv b \<Longrightarrow> cont b = [] \<Longrightarrow>
     rspec (rbind (app (d @ e) b) (ret (length d))) (\<lambda>b'. inv b' \<and> cont b' = e)"
proof -
  assume "inv b" and "cont b = []"
  then obtain b' where b': "app (d @ e) b = Inr b'" "inv b'" "cont b' = d @ e"
    using app_law by (fastforce simp: rspec_iff)
  with ret_law [OF b'(2), of "length d"] show ?thesis by simp
qed

lemma ret_total: "inv b \<Longrightarrow> (\<exists>b'. ret n b = Inr b') \<longleftrightarrow> n \<le> length (cont b)"
  using ret_law ret_short by (fastforce simp: rspec_iff not_le [symmetric])

end

interpretation buf: byte_fifo buffer_inv content Buffer_append Buffer_retrieve
  by unfold_locales (auto intro: append_ok retrieve_ok simp: retrieve_fail)

section \<open>The buffer implements a byte string\<close>

text \<open>
  The abstract machine: the readable bytes and nothing else. Each operation of the class that a
  client can call without pointers, on the byte string; a failed assertion is \<open>None\<close>.
\<close>

datatype buf_op =
    OpAppend bytes | OpRetrieve nat | OpRetrieveAll | OpUnwrite nat | OpEnsure nat
  | OpAppend32 "32 word" | OpShrink nat | OpReadFd bytes

fun spec_op :: "buf_op \<Rightarrow> bytes \<Rightarrow> bytes option" where
  "spec_op (OpAppend d) s = Some (s @ d)"
| "spec_op (OpRetrieve n) s = (if n \<le> length s then Some (drop n s) else None)"
| "spec_op OpRetrieveAll s = Some []"
| "spec_op (OpUnwrite n) s = (if n \<le> length s then Some (take (length s - n) s) else None)"
| "spec_op (OpEnsure n) s = Some s"
| "spec_op (OpAppend32 x) s = Some (s @ rev (to_mem 4 x))"
| "spec_op (OpShrink n) s = Some s"
| "spec_op (OpReadFd d) s = Some (s @ d)"

fun impl_op :: "buf_op \<Rightarrow> buffer \<Rightarrow> buffer result" where
  "impl_op (OpAppend d) b = Buffer_append d b"
| "impl_op (OpRetrieve n) b = Buffer_retrieve n b"
| "impl_op OpRetrieveAll b = Inr (Buffer_retrieveAll b)"
| "impl_op (OpUnwrite n) b = Buffer_unwrite n b"
| "impl_op (OpEnsure n) b = Buffer_ensureWritableBytes n b"
| "impl_op (OpAppend32 x) b = Buffer_appendInt32 x b"
| "impl_op (OpShrink n) b = Buffer_shrink n b"
| "impl_op (OpReadFd d) b = rbind (Buffer_readFd (ReadOk d) b) (\<lambda>(n, e, b'). Inr b')"

fun spec_run :: "buf_op list \<Rightarrow> bytes \<Rightarrow> bytes option" where
  "spec_run [] s = Some s"
| "spec_run (p # ps) s = (case spec_op p s of None \<Rightarrow> None | Some s' \<Rightarrow> spec_run ps s')"

text \<open>
  The kernel never delivers more than the call offers, and the contents stay below the 2 GiB that
  \<open>shrink\<close>'s \<open>StringPiece\<close> can describe.
\<close>

fun op_env :: "buf_op \<Rightarrow> bool" where
  "op_env (OpReadFd d) = (length d \<le> extrabuf_size)"
| "op_env p = True"

definition refines :: "buffer result \<Rightarrow> bytes option \<Rightarrow> bool" where
  "refines r s = (case s of None \<Rightarrow> (\<exists>w. r = Inl (AssertFail w))
                  | Some t \<Rightarrow> rspec r (\<lambda>b. buffer_inv b \<and> content b = t))"

lemma impl_op_refines:
  assumes inv: "buffer_inv b" and env: "op_env p" and small: "length (content b) < 2 ^ 31"
  shows "refines (impl_op p b) (spec_op p (content b))"
proof (cases p)
  case (OpRetrieve n)
  then show ?thesis
    using retrieve_ok [OF inv, of n] retrieve_fail [OF inv, of n] by (simp add: refines_def)
next
  case (OpUnwrite n)
  then show ?thesis
    using unwrite_ok [OF inv, of n] inv
    by (auto simp: refines_def Buffer_unwrite_def)
next
  case (OpShrink n)
  then show ?thesis
    using shrink_ok [OF inv small, of n] by (auto simp: refines_def rspec_iff)
next
  case (OpReadFd d)
  with env have "length d \<le> readFd_offer b" by (simp add: readFd_offer_def)
  with OpReadFd readFd_ok [OF inv, of d] show ?thesis
    by (auto simp: refines_def rspec_iff)
next
  case (OpEnsure n)
  then show ?thesis
    using ensureWritable_ok [OF inv, of n] by (auto simp: refines_def rspec_iff)
qed (use inv in \<open>simp_all add: refines_def append_ok appendInt32_ok\<close>)

fun run_small :: "buf_op list \<Rightarrow> bytes \<Rightarrow> bool" where
  "run_small [] s = (length s < 2 ^ 31)"
| "run_small (p # ps) s =
     (length s < 2 ^ 31 \<and> (case spec_op p s of None \<Rightarrow> True | Some s' \<Rightarrow> run_small ps s'))"

lemma impl_run_refines:
  "buffer_inv b \<Longrightarrow> list_all op_env ps \<Longrightarrow> run_small ps (content b) \<Longrightarrow>
     refines (rfold impl_op ps b) (spec_run ps (content b))"
proof (induction ps arbitrary: b)
  case Nil
  then show ?case by (simp add: refines_def)
next
  case (Cons p ps)
  then have step: "refines (impl_op p b) (spec_op p (content b))"
    by (intro impl_op_refines) simp_all
  show ?case
  proof (cases "spec_op p (content b)")
    case None
    with step show ?thesis by (auto simp: refines_def)
  next
    case (Some s)
    with step obtain b' where "impl_op p b = Inr b'" "buffer_inv b'" "content b' = s"
      by (auto simp: refines_def rspec_iff)
    with Some Cons show ?thesis by auto
  qed
qed

section \<open>Properties\<close>



text \<open>
  The header trick: after a message is appended to a fresh buffer, prepending the four-byte
  length never fails and never moves the message, and reading the integer back yields the length
  and leaves exactly the message. This is the buffer's use in both codecs.
\<close>

theorem prepend_header_roundtrip:
  assumes "buffer_inv b" and "4 \<le> prependableBytes b"
  shows "rspec (rbind (Buffer_prependInt32 x b) Buffer_readInt32)
     (\<lambda>(y, b'). y = x \<and> buffer_inv b' \<and> content b' = content b)"
proof -
  have "rspec (Buffer_prependInt32 x b)
     (\<lambda>b'. buffer_inv b' \<and> content b' = rev (to_mem 4 x) @ content b)"
    using prepend_ok [of b "to_mem 4 (hostToNetwork32 x)"] assms
    by (simp add: Buffer_prependInt32_def hostToNetwork32_def)
  then show ?thesis using readInt32_ok by (auto simp: rspec_iff)
qed

theorem prepend_header_roundtrip_witness:
  "buffer_inv (Buffer_ctor 4) \<and> 4 \<le> prependableBytes (Buffer_ctor 4) \<and>
   rspec (rbind (Buffer_prependInt32 258 (Buffer_ctor 4)) Buffer_readInt32)
     (\<lambda>(y, b'). y = 258 \<and> buffer_inv b' \<and> content b' = [])"
proof -
  have h: "4 \<le> prependableBytes (Buffer_ctor 4)"
    by (simp add: prependableBytes_def Buffer_ctor_def kCheapPrepend_def)
  from prepend_header_roundtrip [OF buffer_inv_ctor h, of 258] h show ?thesis by simp
qed

text \<open>
  Every integer width round-trips: for any buffer contents, appending a 64-, 32-, 16- or 8-bit
  value to an emptied buffer and reading it back returns the same value and leaves nothing behind.
\<close>

theorem append_read_roundtrip:
  assumes "buffer_inv b" and "content b = []"
  shows "rspec (rbind (Buffer_appendInt64 w b) Buffer_readInt64) (\<lambda>(y, b'). y = w \<and> content b' = []) \<and>
    rspec (rbind (Buffer_appendInt32 x b) Buffer_readInt32) (\<lambda>(y, b'). y = x \<and> content b' = []) \<and>
    rspec (rbind (Buffer_appendInt16 h b) Buffer_readInt16) (\<lambda>(y, b'). y = h \<and> content b' = []) \<and>
    rspec (rbind (Buffer_appendInt8 k b) Buffer_readInt8) (\<lambda>(y, b'). y = k \<and> content b' = [])"
    (is "?r64 \<and> ?r32 \<and> ?r16 \<and> ?r8")
proof -
  have a: "rspec (Buffer_append d b) (\<lambda>b'. buffer_inv b' \<and> content b' = d)" for d
    using append_ok [OF assms(1), of d] assms(2) by simp
  have r64: "?r64"
    using a [of "rev (to_mem 8 w)"] readInt64_ok [where x = w and rest = "[]"]
    by (fastforce simp: Buffer_appendInt64_def hostToNetwork64_def rspec_iff)
  have r32: "?r32"
    using a [of "rev (to_mem 4 x)"] readInt32_ok [where x = x and rest = "[]"]
    by (fastforce simp: Buffer_appendInt32_def hostToNetwork32_def rspec_iff)
  have r16: "?r16"
    using a [of "rev (to_mem 2 h)"] readInt16_ok [where x = h and rest = "[]"]
    by (fastforce simp: Buffer_appendInt16_def hostToNetwork16_def rspec_iff)
  have r8: "?r8"
    using a [of "[k]"] readInt8_ok [where x = k and rest = "[]"]
    by (fastforce simp: Buffer_appendInt8_def rspec_iff)
  from r64 r32 r16 r8 show ?thesis by blast
qed

theorem append_read_roundtrip_witness:
  "buffer_inv (Buffer_ctor 0) \<and> content (Buffer_ctor 0) = [] \<and>
   rspec (rbind (Buffer_appendInt64 (2 ^ 40 + 7) (Buffer_ctor 0)) Buffer_readInt64)
     (\<lambda>(y, b'). y = 2 ^ 40 + 7 \<and> content b' = [])"
  using append_read_roundtrip [OF buffer_inv_ctor content_ctor, of "2 ^ 40 + 7" 0] by simp

end
