(* ===== verification/Codec.thy ===== *)
theory Codec
  imports Buffer
begin

text \<open>
  The length-header codecs of the chat programs (\<open>test/udp_codec.h\<close>, \<open>test/tcp_codec.h\<close>). A frame is
  a four-byte length in network order and that many bytes. \<open>onMessage\<close> is the loop of the source on
  the concrete buffer; the user's message callback (with the connection and the receive time it is
  called with) and \<open>conn->shutdown()\<close> are state transformers of the caller's state. The pure parser
  \<open>deframe\<close> is the specification, and the locale \<open>framing\<close> proves the stream properties once for both
  codecs.
\<close>

definition kHeaderLen :: nat where "kHeaderLen = 4"
definition kMaxFrame :: nat where "kMaxFrame = 65536"

section \<open>The UDP codec\<close>

function UdpLengthHeaderCodec_onMessage ::
  "(bytes \<Rightarrow> 's \<Rightarrow> 's) \<Rightarrow> ('s \<Rightarrow> 's) \<Rightarrow> buffer \<Rightarrow> 's \<Rightarrow> (buffer \<times> 's) result" where
  "UdpLengthHeaderCodec_onMessage cb shut buf s =
     (if kHeaderLen \<le> readableBytes buf
      then
        (let be32 = of_mem (span buf (peek buf) (peek buf + 4)) :: 32 word;
             len = sint (networkToHost32 be32)
         in if 65536 < len \<or> len < 0 then Inr (buf, shut s)
            else if nat len + kHeaderLen \<le> readableBytes buf
            then rbind (Buffer_retrieve kHeaderLen buf) (\<lambda>buf1.
                 let message = span buf1 (peek buf1) (peek buf1 + nat len)
                 in rbind (Buffer_retrieve (nat len) buf1) (\<lambda>buf2.
                    UdpLengthHeaderCodec_onMessage cb shut buf2 (cb message s)))
            else Inr (buf, s))
      else Inr (buf, s))"
  by pat_completeness auto
termination
proof (relation "measure (\<lambda>(cb, shut, buf, s). readableBytes buf)", goal_cases)
  case 1
  show ?case by simp
next
  case (2 cb shut buf s be32 len buf1 message buf2)
  then have "readableBytes buf1 \<le> readableBytes buf - 4" "readableBytes buf2 \<le> readableBytes buf1"
    using Buffer_retrieve_readable_le [of _ buf buf1] Buffer_retrieve_readable_le [of _ buf1 buf2]
    by (force simp: kHeaderLen_def)+
  with 2 show ?case by (simp add: kHeaderLen_def)
qed

definition UdpLengthHeaderCodec_send :: "bytes \<Rightarrow> buffer result" where
  "UdpLengthHeaderCodec_send message =
     rbind (Buffer_append message (Buffer_ctor kInitialSize)) (\<lambda>buf.
     let len = of_nat (length message) :: 32 word;
         be32 = hostToNetwork32 len
     in Buffer_prepend (to_mem 4 be32) buf)"

section \<open>The TCP codec\<close>

function TcpLengthHeaderCodec_onMessage ::
  "(bytes \<Rightarrow> 's \<Rightarrow> 's) \<Rightarrow> ('s \<Rightarrow> 's) \<Rightarrow> buffer \<Rightarrow> 's \<Rightarrow> (buffer \<times> 's) result" where
  "TcpLengthHeaderCodec_onMessage cb shut buf s =
     (if kHeaderLen \<le> readableBytes buf
      then
        (let be32 = of_mem (span buf (peek buf) (peek buf + 4)) :: 32 word;
             len = sint (networkToHost32 be32)
         in if 65536 < len \<or> len < 0 then Inr (buf, shut s)
            else if nat len + kHeaderLen \<le> readableBytes buf
            then rbind (Buffer_retrieve kHeaderLen buf) (\<lambda>buf1.
                 let message = span buf1 (peek buf1) (peek buf1 + nat len)
                 in rbind (Buffer_retrieve (nat len) buf1) (\<lambda>buf2.
                    TcpLengthHeaderCodec_onMessage cb shut buf2 (cb message s)))
            else Inr (buf, s))
      else Inr (buf, s))"
  by pat_completeness auto
termination
proof (relation "measure (\<lambda>(cb, shut, buf, s). readableBytes buf)", goal_cases)
  case 1
  show ?case by simp
next
  case (2 cb shut buf s be32 len buf1 message buf2)
  then have "readableBytes buf1 \<le> readableBytes buf - 4" "readableBytes buf2 \<le> readableBytes buf1"
    using Buffer_retrieve_readable_le [of _ buf buf1] Buffer_retrieve_readable_le [of _ buf1 buf2]
    by (force simp: kHeaderLen_def)+
  with 2 show ?case by (simp add: kHeaderLen_def)
qed

definition TcpLengthHeaderCodec_send :: "bytes \<Rightarrow> buffer result" where
  "TcpLengthHeaderCodec_send message =
     rbind (Buffer_append message (Buffer_ctor kInitialSize)) (\<lambda>buf.
     let len = of_nat (length message) :: 32 word;
         be32 = hostToNetwork32 len
     in Buffer_prepend (to_mem 4 be32) buf)"

declare UdpLengthHeaderCodec_onMessage.simps [simp del]
declare TcpLengthHeaderCodec_onMessage.simps [simp del]

section \<open>Specification: frames of a byte string\<close>

definition frame :: "bytes \<Rightarrow> bytes" where
  "frame m = rev (to_mem 4 (of_nat (length m) :: 32 word)) @ m"

text \<open>The signed value of the four header bytes.\<close>

definition header_len :: "bytes \<Rightarrow> int" where
  "header_len s = sint (networkToHost32 (of_mem (take 4 s)))"

definition bad_header :: "bytes \<Rightarrow> bool" where
  "bad_header s \<longleftrightarrow> 65536 < header_len s \<or> header_len s < 0"

text \<open>\<open>deframe s = (ms, bad, rest)\<close>: the whole frames at the front, and what stops the parse.\<close>

function deframe :: "bytes \<Rightarrow> bytes list \<times> bool \<times> bytes" where
  "deframe s =
     (if length s < 4 then ([], False, s)
      else if bad_header s then ([], True, s)
      else if length s < nat (header_len s) + 4 then ([], False, s)
      else (let n = nat (header_len s); (ms, bad, rest) = deframe (drop (n + 4) s)
            in (take n (drop 4 s) # ms, bad, rest)))"
  by pat_completeness auto
termination
  by (relation "measure length") auto

declare deframe.simps [simp del]

lemma header_len_append: "4 \<le> length s \<Longrightarrow> header_len (s @ t) = header_len s"
  by (simp add: header_len_def)

lemma bad_header_append: "4 \<le> length s \<Longrightarrow> bad_header (s @ t) = bad_header s"
  by (simp add: bad_header_def header_len_append)

lemma sint_of_nat32:
  assumes "n < 2 ^ 31"
  shows "sint (of_nat n :: 32 word) = int n"
proof -
  have "signed_take_bit 31 (int n) = int n"
    using assms by (intro signed_take_bit_int_eq_self) auto
  then show ?thesis by (simp add: signed_of_nat)
qed

lemma header_len_frame [simp]:
  "length m < 2 ^ 31 \<Longrightarrow> header_len (frame m @ t) = int (length m)"
  by (simp add: header_len_def frame_def networkToHost32_def htobe_def sint_of_nat32)

lemma length_frame [simp]: "length (frame m) = length m + 4"
  by (simp add: frame_def)

lemma deframe_frame:
  assumes "length m \<le> kMaxFrame"
  shows "deframe (frame m @ t) = (let (ms, bad, rest) = deframe t in (m # ms, bad, rest))"
proof -
  have h: "header_len (frame m @ t) = int (length m)"
    using assms by (simp add: kMaxFrame_def)
  have "drop 4 (frame m @ t) = m @ t" by (simp add: frame_def)
  moreover have "drop (length m + 4) (frame m @ t) = t" by simp
  ultimately show ?thesis
    using h assms by (subst deframe.simps) (simp add: bad_header_def kMaxFrame_def)
qed

lemma deframe_frames:
  "list_all (\<lambda>m. length m \<le> kMaxFrame) ms \<Longrightarrow> deframe (concat (map frame ms)) = (ms, False, [])"
proof (induction ms)
  case Nil
  then show ?case by (simp add: deframe.simps)
next
  case (Cons m ms)
  then show ?case by (simp add: deframe_frame)
qed

text \<open>Parsing may stop anywhere and go on when more bytes arrive.\<close>

lemma deframe_append:
  "deframe s = (ms, False, rest) \<Longrightarrow>
     deframe (s @ t) = (let (ms', bad, rest') = deframe (rest @ t) in (ms @ ms', bad, rest'))"
proof (induction s arbitrary: ms rest rule: deframe.induct)
  case (1 s)
  show ?case
  proof (cases "length s < 4 \<or> bad_header s \<or> length s < nat (header_len s) + 4")
    case True
    with "1.prems" have "ms = []" "rest = s"
      by (auto simp: deframe.simps [of s] split: if_splits)
    then show ?thesis by simp
  next
    case False
    let ?n = "nat (header_len s)"
    obtain ms1 bad1 rest1 where d: "deframe (drop (?n + 4) s) = (ms1, bad1, rest1)"
      by (metis prod_cases3)
    with False "1.prems" have e: "bad1 = False" "rest1 = rest" "ms = take ?n (drop 4 s) # ms1"
      by (auto simp: deframe.simps [of s])
    from "1.IH" [of ?n ms1 rest] False d e
    have IH: "deframe (drop (?n + 4) s @ t)
        = (let (ms', bad, rest') = deframe (rest @ t) in (ms1 @ ms', bad, rest'))"
      by simp
    have "deframe (s @ t) = (let (ms', bad, rest') = deframe (drop (?n + 4) s @ t)
        in (take ?n (drop 4 s) # ms', bad, rest'))"
      using False by (subst deframe.simps) (simp add: header_len_append bad_header_append Let_def)
    with IH e show ?thesis by (simp split: prod.splits)
  qed
qed

text \<open>What is left over starts no whole frame; an invalid header stays where it is.\<close>

lemma deframe_rest: "deframe s = (ms, False, rest) \<Longrightarrow> deframe rest = ([], False, rest)"
proof (induction s arbitrary: ms rule: deframe.induct)
  case (1 s)
  show ?case
  proof (cases "length s < 4 \<or> bad_header s \<or> length s < nat (header_len s) + 4")
    case True
    with "1.prems" have "ms = []" "rest = s"
      by (auto simp: deframe.simps [of s] split: if_splits)
    with "1.prems" show ?thesis by simp
  next
    case False
    with "1.prems" obtain ms1 where "deframe (drop (nat (header_len s) + 4) s) = (ms1, False, rest)"
      by (auto simp: deframe.simps [of s] Let_def split: prod.splits)
    with "1.IH" [of "nat (header_len s)" ms1] False show ?thesis by simp
  qed
qed

lemma deframe_bad_append:
  "deframe s = (ms, True, rest) \<Longrightarrow> deframe (s @ t) = (ms, True, rest @ t)"
proof (induction s arbitrary: ms rest rule: deframe.induct)
  case (1 s)
  show ?case
  proof (cases "length s < 4 \<or> bad_header s \<or> length s < nat (header_len s) + 4")
    case True
    with "1.prems" have "ms = []" "rest = s" "\<not> length s < 4" "bad_header s"
      by (auto simp: deframe.simps [of s] split: if_splits)
    then show ?thesis by (simp add: deframe.simps [of "s @ t"] bad_header_append)
  next
    case False
    let ?n = "nat (header_len s)"
    from False "1.prems" obtain ms1 where d: "deframe (drop (?n + 4) s) = (ms1, True, rest)"
        "ms = take ?n (drop 4 s) # ms1"
      by (auto simp: deframe.simps [of s] Let_def split: prod.splits)
    with "1.IH" [of ?n ms1 rest] False have "deframe (drop (?n + 4) s @ t) = (ms1, True, rest @ t)"
      by simp
    with False d show ?thesis
      by (simp add: deframe.simps [of "s @ t"] header_len_append bad_header_append Let_def)
  qed
qed

section \<open>The contract of a codec, and what follows from it\<close>

text \<open>What a connection does with each chunk it receives: append it, then call the codec.\<close>

definition feed_codec :: "((bytes \<Rightarrow> 's \<Rightarrow> 's) \<Rightarrow> ('s \<Rightarrow> 's) \<Rightarrow> buffer \<Rightarrow> 's \<Rightarrow> (buffer \<times> 's) result) \<Rightarrow>
    (bytes \<Rightarrow> 's \<Rightarrow> 's) \<Rightarrow> ('s \<Rightarrow> 's) \<Rightarrow> bytes \<Rightarrow> buffer \<times> 's \<Rightarrow> (buffer \<times> 's) result" where
  "feed_codec on_msg cb shut chunk =
     (\<lambda>(b, s). rbind (Buffer_append chunk b) (\<lambda>b'. on_msg cb shut b' s))"

text \<open>
  \<open>send_law\<close>: \<open>send\<close> builds one frame. \<open>msg_law\<close>: one call of \<open>onMessage\<close> delivers the whole
  frames of the buffer in order, calls \<open>shutdown\<close> exactly when an invalid header stops it, and
  leaves the rest in the buffer. Everything about streams follows.
\<close>

locale framing =
  fixes on_msg :: "(bytes \<Rightarrow> 's \<Rightarrow> 's) \<Rightarrow> ('s \<Rightarrow> 's) \<Rightarrow> buffer \<Rightarrow> 's \<Rightarrow> (buffer \<times> 's) result"
    and snd_msg :: "bytes \<Rightarrow> buffer result"
  assumes send_law: "rspec (snd_msg m) (\<lambda>b. buffer_inv b \<and> content b = frame m)"
    and msg_law: "buffer_inv b \<Longrightarrow> deframe (content b) = (ms, bad, rest) \<Longrightarrow>
      rspec (on_msg cb shut b s)
        (\<lambda>(b', s'). buffer_inv b' \<and> content b' = rest \<and>
           s' = (if bad then shut (fold cb ms s) else fold cb ms s))"
begin

lemma feed_all:
  assumes "buffer_inv b" and "deframe (content b) = ([], False, content b)"
    and "deframe (content b @ concat chunks) = (ms, False, rest)"
  shows "rspec (rfold (feed_codec on_msg cb shut) chunks (b, s))
     (\<lambda>(b', s'). buffer_inv b' \<and> content b' = rest \<and> s' = fold cb ms s)"
  using assms
proof (induction chunks arbitrary: b s ms)
  case Nil
  then show ?case by simp
next
  case (Cons c cs)
  obtain b1 where b1: "Buffer_append c b = Inr b1" "buffer_inv b1" "content b1 = content b @ c"
    using append_ok [OF Cons.prems(1), of c] by (auto simp: rspec_iff)
  obtain ms1 bad1 r1 where d1: "deframe (content b1) = (ms1, bad1, r1)"
    by (metis prod_cases3)
  have nb: "bad1 = False"
  proof (rule ccontr)
    assume "bad1 \<noteq> False"
    with d1 b1(3) Cons.prems(3) show False
      using deframe_bad_append [of "content b1" ms1 r1 "concat cs"] by simp
  qed
  obtain ms2 where d2: "deframe (r1 @ concat cs) = (ms2, False, rest)" and ms: "ms = ms1 @ ms2"
    using deframe_append [OF d1 [unfolded nb], of "concat cs"] Cons.prems(3) b1(3)
    by (auto split: prod.splits)
  obtain b2 where b2: "on_msg cb shut b1 s = Inr (b2, fold cb ms1 s)" "buffer_inv b2" "content b2 = r1"
    using msg_law [OF b1(2) d1, of cb shut s] nb by (auto simp: rspec_iff)
  have "deframe r1 = ([], False, r1)" using d1 nb deframe_rest by blast
  with Cons.IH [of b2 ms2 "fold cb ms1 s"] b1 b2 d2 ms show ?case
    by (simp add: feed_codec_def)
qed

lemma stream_roundtrip:
  assumes "list_all (\<lambda>m. length m \<le> kMaxFrame) ms" and "concat chunks = concat (map frame ms)"
  shows "rspec (rfold (feed_codec on_msg cb shut) chunks (Buffer_ctor n, s))
     (\<lambda>(b', s'). content b' = [] \<and> s' = fold cb ms s)"
proof -
  have "deframe (content (Buffer_ctor n) @ concat chunks) = (ms, False, [])"
    using assms by (simp add: deframe_frames)
  moreover have "deframe (content (Buffer_ctor n)) = ([], False, content (Buffer_ctor n))"
    by (simp add: deframe.simps)
  ultimately show ?thesis
    using feed_all [OF buffer_inv_ctor, of n chunks ms "[]" cb shut s] by (auto simp: rspec_iff)
qed

lemma msg_inv: "buffer_inv b \<Longrightarrow> on_msg cb shut b s = Inr (b', s') \<Longrightarrow> buffer_inv b'"
  using msg_law [of b _ _ _ cb shut s] by (cases "deframe (content b)") auto

text \<open>A buffer that holds what is left of a stream, one more chunk of it, and the codec's call.\<close>

lemma msg_stream:
  assumes "buffer_inv b" "content b = rest @ d" "deframe s = (ms, False, rest)" "on_msg cb shut b st = Inr (b', st')"
  shows "\<exists>ms2 bad. deframe (s @ d) = (ms @ ms2, bad, content b') \<and> buffer_inv b' \<and>
     st' = (if bad then shut (fold cb ms2 st) else fold cb ms2 st)"
proof -
  obtain ms2 bad rest2 where D: "deframe (content b) = (ms2, bad, rest2)" by (metis prod_cases3)
  then have "deframe (s @ d) = (ms @ ms2, bad, rest2)"
    using deframe_append [OF assms(3), of d] assms(2) by simp
  then show ?thesis using msg_law [OF assms(1) D, of cb shut st] assms(4) by auto
qed

lemma oversize_shuts:
  assumes "kMaxFrame < length m" and "length m < 2 ^ 31" and "buffer_inv b" and "content b = frame m @ t"
  shows "rspec (on_msg cb shut b s) (\<lambda>(b', s'). content b' = content b \<and> s' = shut s)"
proof -
  have "deframe (content b) = ([], True, content b)"
    using assms by (subst deframe.simps) (simp add: bad_header_def kMaxFrame_def)
  from msg_law [OF assms(3) this, of cb shut s] show ?thesis by (auto simp: rspec_iff)
qed

end

lemma fold_collect [simp]: "fold (\<lambda>m (as, ms). (as, ms @ [m])) xs (as, ys) = (as, ys @ xs)"
  by (induction xs arbitrary: ys) auto

section \<open>Both codecs meet the contract\<close>

lemma span_after_retrieve:
  "buffer_inv b \<Longrightarrow> n \<le> length (content b) \<Longrightarrow> span b (peek b) (peek b + n) = take n (content b)"
  by (simp add: span_content)

text \<open>One pass of the loop body, on any function that unfolds to it.\<close>

lemma codec_loop_law:
  assumes unfold: "\<And>buf s. f cb shut buf s =
     (if kHeaderLen \<le> readableBytes buf
      then
        (let be32 = of_mem (span buf (peek buf) (peek buf + 4)) :: 32 word;
             len = sint (networkToHost32 be32)
         in if 65536 < len \<or> len < 0 then Inr (buf, shut s)
            else if nat len + kHeaderLen \<le> readableBytes buf
            then rbind (Buffer_retrieve kHeaderLen buf) (\<lambda>buf1.
                 let message = span buf1 (peek buf1) (peek buf1 + nat len)
                 in rbind (Buffer_retrieve (nat len) buf1) (\<lambda>buf2. f cb shut buf2 (cb message s)))
            else Inr (buf, s))
      else Inr (buf, s))"
    and inv: "buffer_inv b" and parse: "deframe (content b) = (ms, bad, rest)"
  shows "rspec (f cb shut b s) (\<lambda>(b', s'). buffer_inv b' \<and> content b' = rest \<and>
     s' = (if bad then shut (fold cb ms s) else fold cb ms s))"
  using inv parse
proof (induction "content b" arbitrary: b s ms rule: deframe.induct)
  case 1
  let ?c = "content b"
  let ?n = "nat (header_len ?c)"
  have len: "length ?c = readableBytes b" using 1(2) by simp
  have hdr: "4 \<le> length ?c \<Longrightarrow>
      sint (networkToHost32 (of_mem (span b (peek b) (peek b + 4)))) = header_len ?c"
    using 1(2) by (simp add: span_after_retrieve header_len_def)
  show ?case
  proof (cases "length ?c < 4 \<or> bad_header ?c \<or> length ?c < ?n + 4")
    case True
    with 1(2,3) show ?thesis
      using hdr len unfold [of b s]
      by (auto simp: deframe.simps [of ?c] kHeaderLen_def bad_header_def Let_def split: if_splits)
  next
    case False
    obtain b1 where b1: "Buffer_retrieve 4 b = Inr b1" "buffer_inv b1" "content b1 = drop 4 ?c"
      using retrieve_ok [OF 1(2), of 4] False by (auto simp: rspec_iff)
    have l1: "?n \<le> length (content b1)" using False b1(3) by auto
    obtain b2 where b2: "Buffer_retrieve ?n b1 = Inr b2" "buffer_inv b2" "content b2 = drop (?n + 4) ?c"
      using retrieve_ok [OF b1(2) l1] b1(3) by (auto simp: rspec_iff)
    have m: "span b1 (peek b1) (peek b1 + ?n) = take ?n (drop 4 ?c)"
      using span_after_retrieve [OF b1(2) l1] b1(3) by simp
    obtain ms' where d: "deframe (content b2) = (ms', bad, rest)" "ms = take ?n (drop 4 ?c) # ms'"
      using 1(3) False b2(3) by (auto simp: deframe.simps [of ?c] Let_def split: prod.splits)
    have "f cb shut b s = f cb shut b2 (cb (take ?n (drop 4 ?c)) s)"
      using False hdr len b1(1) b2(1) m unfold [of b s]
      by (simp add: kHeaderLen_def bad_header_def Let_def)
    moreover have "rspec (f cb shut b2 (cb (take ?n (drop 4 ?c)) s))
        (\<lambda>(b', s'). buffer_inv b' \<and> content b' = rest \<and>
           s' = (if bad then shut (fold cb ms' (cb (take ?n (drop 4 ?c)) s))
                 else fold cb ms' (cb (take ?n (drop 4 ?c)) s)))"
      using 1(1) [of ?n b2 ms'] False b2 d(1) by simp
    ultimately show ?thesis using d(2) by (cases bad) simp_all
  qed
qed

lemma codec_send_law:
  "rspec (rbind (Buffer_append m (Buffer_ctor kInitialSize))
       (\<lambda>buf. Buffer_prepend (to_mem 4 (hostToNetwork32 (of_nat (length m)))) buf))
     (\<lambda>b. buffer_inv b \<and> content b = frame m)"
proof -
  have "rspec (Buffer_append m (Buffer_ctor kInitialSize))
      (\<lambda>b. buffer_inv b \<and> content b = m \<and> 8 \<le> prependableBytes b)"
  proof -
    have "prependableBytes b = 8" if "Buffer_append m (Buffer_ctor kInitialSize) = Inr b" for b
      using that
      by (auto simp: Buffer_append_def Buffer_ensureWritableBytes_def Buffer_makeSpace_def
          Buffer_hasWritten_def Buffer_ctor_def rbind_eq_Inr_iff prependableBytes_def Let_def
          kCheapPrepend_def split: if_splits)
    with append_ok [OF buffer_inv_ctor, of m kInitialSize] show ?thesis
      by (auto simp: rspec_iff)
  qed
  moreover have "rspec (Buffer_prepend (to_mem 4 (hostToNetwork32 (of_nat (length m)))) b)
      (\<lambda>b'. buffer_inv b' \<and> content b' = frame m)"
    if "buffer_inv b" "content b = m" "8 \<le> prependableBytes b" for b
    using prepend_ok [OF that(1), of "to_mem 4 (hostToNetwork32 (of_nat (length m)))"] that
    by (simp add: frame_def hostToNetwork32_def)
  ultimately show ?thesis by (auto simp: rspec_iff)
qed

interpretation udp_codec: framing UdpLengthHeaderCodec_onMessage UdpLengthHeaderCodec_send
proof unfold_locales
  show "rspec (UdpLengthHeaderCodec_send m) (\<lambda>b. buffer_inv b \<and> content b = frame m)" for m
    using codec_send_law [of m] by (simp add: UdpLengthHeaderCodec_send_def Let_def)
qed (rule codec_loop_law [where f = UdpLengthHeaderCodec_onMessage],
    rule UdpLengthHeaderCodec_onMessage.simps, assumption+)

interpretation tcp_codec: framing TcpLengthHeaderCodec_onMessage TcpLengthHeaderCodec_send
proof unfold_locales
  show "rspec (TcpLengthHeaderCodec_send m) (\<lambda>b. buffer_inv b \<and> content b = frame m)" for m
    using codec_send_law [of m] by (simp add: TcpLengthHeaderCodec_send_def Let_def)
qed (rule codec_loop_law [where f = TcpLengthHeaderCodec_onMessage],
    rule TcpLengthHeaderCodec_onMessage.simps, assumption+)

section \<open>Properties\<close>

text \<open>
  C3. The UDP codec transports messages over any fragmentation: whatever messages of at most 65536
  bytes one side sends, and however the bytes of their frames are cut into chunks on the way, the
  other side, appending each chunk to its buffer and calling \<open>onMessage\<close>, calls the user's callback
  exactly with those messages in order, never calls \<open>shutdown\<close>, runs into no assertion of the
  buffer, and ends with an empty buffer.
\<close>

theorem udp_codec_stream_roundtrip:
  assumes "list_all (\<lambda>m. length m \<le> kMaxFrame) ms"
    and "concat chunks = concat (map (\<lambda>m. content (projr (UdpLengthHeaderCodec_send m))) ms)"
  shows "rspec (rfold (feed_codec UdpLengthHeaderCodec_onMessage (\<lambda>m. (#) m) shut) chunks
           (Buffer_ctor kInitialSize, []))
     (\<lambda>(b', delivered). content b' = [] \<and> rev delivered = ms)"
proof -
  have "content (projr (UdpLengthHeaderCodec_send m)) = frame m" for m
    using udp_codec.send_law [of m] by (auto simp: rspec_iff)
  with assms have "concat chunks = concat (map frame ms)" by simp
  from udp_codec.stream_roundtrip [OF assms(1) this, of "\<lambda>m. (#) m" shut kInitialSize "[]"]
  show ?thesis by (auto simp: rspec_iff fold_Cons_rev)
qed

theorem udp_codec_stream_roundtrip_witness:
  "\<exists>chunks. length chunks = 3 \<and> chunks = [[0, 0], [0, 2, 7], [8]] \<and>
     rspec (rfold (feed_codec UdpLengthHeaderCodec_onMessage (\<lambda>m. (#) m) id) chunks
           (Buffer_ctor kInitialSize, []))
       (\<lambda>(b', delivered). content b' = [] \<and> rev delivered = [[7, 8]])"
proof -
  have f: "content (projr (UdpLengthHeaderCodec_send [7, 8])) = [0, 0, 0, 2, 7, 8]"
  proof -
    have "frame [7, 8] = [0, 0, 0, 2, 7, 8]"
      by (simp add: frame_def to_mem_def upt_rec)
    then show ?thesis using udp_codec.send_law [of "[7, 8]"] by (auto simp: rspec_iff)
  qed
  have h: "list_all (\<lambda>m. length m \<le> kMaxFrame) [[7, 8 :: byte]]" by (simp add: kMaxFrame_def)
  have c: "concat [[0, 0], [0, 2, 7], [8]]
      = concat (map (\<lambda>m. content (projr (UdpLengthHeaderCodec_send m))) [[7, 8]])"
    by (simp add: f)
  from udp_codec_stream_roundtrip [OF h c, of id] show ?thesis by simp
qed

text \<open>
  The sender does not enforce the limit the receiver does: a message longer than 65536 bytes (up
  to the 2 GiB a \<open>StringPiece\<close> can describe) is framed and sent by the UDP codec without complaint,
  and the receiving codec rejects the frame, delivers nothing and calls \<open>shutdown\<close>, with the frame
  still at the front of its buffer.
\<close>

theorem udp_codec_oversize_rejected:
  assumes "kMaxFrame < length m" and "length m < 2 ^ 31"
  shows "rspec (rbind (UdpLengthHeaderCodec_send m)
           (\<lambda>b. UdpLengthHeaderCodec_onMessage (\<lambda>m. (#) (Inl m)) ((#) (Inr ())) b []))
     (\<lambda>(b', log). content b' = frame m \<and> log = [Inr ()])"
proof -
  obtain b where b: "UdpLengthHeaderCodec_send m = Inr b" "buffer_inv b" "content b = frame m"
    using udp_codec.send_law [of m] by (auto simp: rspec_iff)
  with udp_codec.oversize_shuts [OF assms b(2), of "[]" "\<lambda>m. (#) (Inl m)" "(#) (Inr ())" "[]"]
  show ?thesis by (auto simp: rspec_iff)
qed

theorem udp_codec_oversize_rejected_witness:
  "kMaxFrame < length (replicate 65537 (0 :: byte)) \<and>
   rspec (rbind (UdpLengthHeaderCodec_send (replicate 65537 0))
           (\<lambda>b. UdpLengthHeaderCodec_onMessage (\<lambda>m. (#) (Inl m)) ((#) (Inr ())) b []))
     (\<lambda>(b', log). content b' = frame (replicate 65537 0) \<and> log = [Inr ()])"
proof -
  have h: "kMaxFrame < length (replicate 65537 (0 :: byte))"
    "length (replicate 65537 (0 :: byte)) < 2 ^ 31"
    by (simp_all only: kMaxFrame_def length_replicate) simp_all
  from h(1) udp_codec_oversize_rejected [OF h] show ?thesis by (rule conjI)
qed

text \<open>
  The TCP codec, a second copy of the same code, transports messages the same way over any
  fragmentation of the byte stream.
\<close>

theorem tcp_codec_stream_roundtrip:
  assumes "list_all (\<lambda>m. length m \<le> kMaxFrame) ms"
    and "concat chunks = concat (map (\<lambda>m. content (projr (TcpLengthHeaderCodec_send m))) ms)"
  shows "rspec (rfold (feed_codec TcpLengthHeaderCodec_onMessage (\<lambda>m. (#) m) shut) chunks
           (Buffer_ctor kInitialSize, []))
     (\<lambda>(b', delivered). content b' = [] \<and> rev delivered = ms)"
proof -
  have "content (projr (TcpLengthHeaderCodec_send m)) = frame m" for m
    using tcp_codec.send_law [of m] by (auto simp: rspec_iff)
  with assms have "concat chunks = concat (map frame ms)" by simp
  from tcp_codec.stream_roundtrip [OF assms(1) this, of "\<lambda>m. (#) m" shut kInitialSize "[]"]
  show ?thesis by (auto simp: rspec_iff fold_Cons_rev)
qed

theorem tcp_codec_stream_roundtrip_witness:
  "rspec (rfold (feed_codec TcpLengthHeaderCodec_onMessage (\<lambda>m. (#) m) id) [[]]
           (Buffer_ctor kInitialSize, []))
     (\<lambda>(b', delivered). content b' = [] \<and> rev delivered = [])"
  using tcp_codec_stream_roundtrip [of "[]" "[[]]" id] by simp

end
