(* ===== verification/Channel.thy ===== *)
theory Channel
  imports Prelude
begin

text \<open>
  \<open>Channel\<close> (\<open>third/muduo/net/Channel.h\<close>, \<open>Channel.cc\<close>): the interest and the returned events of one
  file descriptor, and the dispatch of returned events to callbacks. \<open>update\<close> and \<open>remove\<close> call the
  poller through the loop; here they are the state change of the channel itself, the poller's part is
  in theory \<open>Poller\<close>. Callbacks are state transformers that may fail; an empty \<open>std::function\<close> is
  \<open>None\<close>.
\<close>

unbundle bit_operations_syntax

definition POLLIN :: "32 word" where "POLLIN = 1"
definition POLLPRI :: "32 word" where "POLLPRI = 2"
definition POLLOUT :: "32 word" where "POLLOUT = 4"
definition POLLERR :: "32 word" where "POLLERR = 8"
definition POLLHUP :: "32 word" where "POLLHUP = 16"
definition POLLNVAL :: "32 word" where "POLLNVAL = 32"
definition POLLRDHUP :: "32 word" where "POLLRDHUP = 0x2000"

definition kNoneEvent :: "32 word" where "kNoneEvent = 0"
definition kReadEvent :: "32 word" where "kReadEvent = POLLIN OR POLLPRI"
definition kWriteEvent :: "32 word" where "kWriteEvent = POLLOUT"

lemmas poll_flags = POLLIN_def POLLPRI_def POLLOUT_def POLLERR_def POLLHUP_def POLLNVAL_def
  POLLRDHUP_def kNoneEvent_def kReadEvent_def kWriteEvent_def

record channel =
  ch_fd :: fd
  events :: "32 word"
  revents :: "32 word"
  index :: int
  logHup :: bool
  tied :: bool
  eventHandling :: bool
  addedToLoop :: bool

definition Channel_ctor :: "fd \<Rightarrow> channel" where
  "Channel_ctor f = \<lparr>ch_fd = f, events = 0, revents = 0, index = -1, logHup = True, tied = False,
     eventHandling = False, addedToLoop = False\<rparr>"

text \<open>The destructor's checks; \<open>registered\<close> is \<open>loop_->hasChannel(this)\<close>.\<close>

definition Channel_dtor :: "bool \<Rightarrow> bool \<Rightarrow> channel \<Rightarrow> unit result" where
  "Channel_dtor inLoopThread registered c =
     rbind (cassert (\<not> eventHandling c) ''!eventHandling_'') (\<lambda>_.
     rbind (cassert (\<not> addedToLoop c) ''!addedToLoop_'') (\<lambda>_.
     if inLoopThread then cassert (\<not> registered) ''!loop_->hasChannel(this)'' else Inr ()))"

definition isNoneEvent :: "channel \<Rightarrow> bool" where
  "isNoneEvent c \<longleftrightarrow> events c = kNoneEvent"
definition isWriting :: "channel \<Rightarrow> bool" where
  "isWriting c \<longleftrightarrow> events c AND kWriteEvent \<noteq> 0"
definition isReading :: "channel \<Rightarrow> bool" where
  "isReading c \<longleftrightarrow> events c AND kReadEvent \<noteq> 0"

definition Channel_tie :: "channel \<Rightarrow> channel" where
  "Channel_tie c = c\<lparr>tied := True\<rparr>"

definition Channel_update :: "channel \<Rightarrow> channel" where
  "Channel_update c = c\<lparr>addedToLoop := True\<rparr>"

definition enableReading :: "channel \<Rightarrow> channel" where
  "enableReading c = Channel_update (c\<lparr>events := events c OR kReadEvent\<rparr>)"
definition disableReading :: "channel \<Rightarrow> channel" where
  "disableReading c = Channel_update (c\<lparr>events := events c AND NOT kReadEvent\<rparr>)"
definition enableWriting :: "channel \<Rightarrow> channel" where
  "enableWriting c = Channel_update (c\<lparr>events := events c OR kWriteEvent\<rparr>)"
definition disableWriting :: "channel \<Rightarrow> channel" where
  "disableWriting c = Channel_update (c\<lparr>events := events c AND NOT kWriteEvent\<rparr>)"
definition disableAll :: "channel \<Rightarrow> channel" where
  "disableAll c = Channel_update (c\<lparr>events := kNoneEvent\<rparr>)"

definition Channel_remove :: "channel \<Rightarrow> channel result" where
  "Channel_remove c =
     rbind (cassert (isNoneEvent c) ''isNoneEvent()'') (\<lambda>_. Inr (c\<lparr>addedToLoop := False\<rparr>))"

lemmas Channel_defs = isNoneEvent_def isWriting_def isReading_def Channel_update_def
  enableReading_def disableReading_def enableWriting_def disableWriting_def disableAll_def

section \<open>Dispatch\<close>

record 's callbacks =
  readCallback :: "(int \<Rightarrow> 's \<Rightarrow> 's result) option"
  writeCallback :: "('s \<Rightarrow> 's result) option"
  closeCallback :: "('s \<Rightarrow> 's result) option"
  errorCallback :: "('s \<Rightarrow> 's result) option"

definition call_opt :: "('s \<Rightarrow> 's result) option \<Rightarrow> 's \<Rightarrow> 's result" where
  "call_opt cb s = (case cb of None \<Rightarrow> Inr s | Some f \<Rightarrow> f s)"

definition handleEventWithGuard :: "'s callbacks \<Rightarrow> int \<Rightarrow> 32 word \<Rightarrow> 's \<Rightarrow> 's result" where
  "handleEventWithGuard cbs receiveTime revt s =
     rbind (if revt AND POLLHUP \<noteq> 0 \<and> \<not> (revt AND POLLIN \<noteq> 0)
            then call_opt (closeCallback cbs) s else Inr s) (\<lambda>s1.
     rbind (if revt AND (POLLERR OR POLLNVAL) \<noteq> 0
            then call_opt (errorCallback cbs) s1 else Inr s1) (\<lambda>s2.
     rbind (if revt AND (POLLIN OR POLLPRI OR POLLRDHUP) \<noteq> 0
            then call_opt (map_option (\<lambda>f. f receiveTime) (readCallback cbs)) s2 else Inr s2) (\<lambda>s3.
     if revt AND POLLOUT \<noteq> 0 then call_opt (writeCallback cbs) s3 else Inr s3)))"

text \<open>\<open>alive\<close> is whether \<open>tie_.lock()\<close> still finds the owner.\<close>

definition handleEvent :: "'s callbacks \<Rightarrow> bool \<Rightarrow> int \<Rightarrow> channel \<Rightarrow> 's \<Rightarrow> 's result" where
  "handleEvent cbs alive receiveTime c s =
     (if tied c
      then (if alive then handleEventWithGuard cbs receiveTime (revents c) s else Inr s)
      else handleEventWithGuard cbs receiveTime (revents c) s)"

section \<open>Event masks\<close>

definition eventsToString :: "fd \<Rightarrow> 32 word \<Rightarrow> string" where
  "eventsToString f ev =
     show_int f @ '': '' @
     (if ev AND POLLIN \<noteq> 0 then ''IN '' else []) @
     (if ev AND POLLPRI \<noteq> 0 then ''PRI '' else []) @
     (if ev AND POLLOUT \<noteq> 0 then ''OUT '' else []) @
     (if ev AND POLLHUP \<noteq> 0 then ''HUP '' else []) @
     (if ev AND POLLRDHUP \<noteq> 0 then ''RDHUP '' else []) @
     (if ev AND POLLERR \<noteq> 0 then ''ERR '' else []) @
     (if ev AND POLLNVAL \<noteq> 0 then ''NVAL '' else [])"

text \<open>The masks a channel can hold: reads and writes, on or off.\<close>

definition mask_ok :: "32 word \<Rightarrow> bool" where
  "mask_ok ev \<longleftrightarrow> ev \<in> {0, kReadEvent, kWriteEvent, kReadEvent OR kWriteEvent}"

lemma mask_cases:
  assumes "mask_ok ev"
  shows "ev = 0 \<or> ev = 3 \<or> ev = 4 \<or> ev = 7"
  using assms by (auto simp: mask_ok_def poll_flags)

lemma mask_ok_ops [simp]:
  assumes "mask_ok (events c)"
  shows "mask_ok (events (enableReading c))" "mask_ok (events (disableReading c))"
    "mask_ok (events (enableWriting c))" "mask_ok (events (disableWriting c))"
    "mask_ok (events (disableAll c))"
  using mask_cases [OF assms]
  by (auto simp: Channel_defs mask_ok_def poll_flags)

lemma mask_bits:
  assumes "mask_ok (events c)"
  shows "isNoneEvent c \<longleftrightarrow> \<not> isReading c \<and> \<not> isWriting c"
    and "isReading (enableReading c)" and "isWriting (enableReading c) = isWriting c"
    and "\<not> isReading (disableReading c)" and "isWriting (disableReading c) = isWriting c"
    and "isWriting (enableWriting c)" and "isReading (enableWriting c) = isReading c"
    and "\<not> isWriting (disableWriting c)" and "isReading (disableWriting c) = isReading c"
  using mask_cases [OF assms] by (auto simp: Channel_defs poll_flags)

lemma disableAll_none [simp]: "isNoneEvent (disableAll c)"
  "\<not> isReading (disableAll c)" "\<not> isWriting (disableAll c)"
  by (simp_all add: Channel_defs poll_flags)

lemma events_frame [simp]:
  "ch_fd (enableReading c) = ch_fd c" "ch_fd (disableReading c) = ch_fd c"
  "ch_fd (enableWriting c) = ch_fd c" "ch_fd (disableWriting c) = ch_fd c"
  "ch_fd (disableAll c) = ch_fd c" "index (disableAll c) = index c" "index (enableReading c) = index c"
  "addedToLoop (enableReading c)" "addedToLoop (disableReading c)" "addedToLoop (disableAll c)"
  by (simp_all add: Channel_defs)

section \<open>Properties\<close>

text \<open>
  Dispatch order: for any returned events, the callbacks that run are exactly the registered ones
  among close (hang-up without readable data), error, read and write whose condition holds, each at
  most once and in that order; an owner that is gone (a tied channel whose \<open>weak_ptr\<close> is dead) gets
  none.
\<close>

definition log_callbacks :: "string list callbacks" where
  "log_callbacks = \<lparr>readCallback = Some (\<lambda>t log. Inr (log @ [''read''])),
     writeCallback = Some (\<lambda>log. Inr (log @ [''write''])),
     closeCallback = Some (\<lambda>log. Inr (log @ [''close''])),
     errorCallback = Some (\<lambda>log. Inr (log @ [''error'']))\<rparr>"

theorem dispatch_order:
  "handleEvent log_callbacks alive t c [] =
     Inr (if tied c \<and> \<not> alive then [] else
       (if revents c AND POLLHUP \<noteq> 0 \<and> revents c AND POLLIN = 0 then [''close''] else []) @
       (if revents c AND POLLERR \<noteq> 0 \<or> revents c AND POLLNVAL \<noteq> 0 then [''error''] else []) @
       (if revents c AND POLLIN \<noteq> 0 \<or> revents c AND POLLPRI \<noteq> 0 \<or> revents c AND POLLRDHUP \<noteq> 0
        then [''read''] else []) @
       (if revents c AND POLLOUT \<noteq> 0 then [''write''] else []))"
proof -
  have or2: "revents c AND (a OR b) \<noteq> 0 \<longleftrightarrow> revents c AND a \<noteq> 0 \<or> revents c AND b \<noteq> 0" for a b
    by (simp add: bit.conj_disj_distrib or_eq_0_iff)
  show ?thesis
    unfolding handleEvent_def handleEventWithGuard_def log_callbacks_def call_opt_def or2
    by simp
qed

end
