(* ===== verification/Poller.thy ===== *)
theory Poller
  imports Channel
begin

text \<open>
  The two I/O multiplexers (\<open>third/muduo/net/Poller.cc\<close>, \<open>poller/PollPoller.cc\<close>,
  \<open>poller/EPollPoller.cc\<close>). Channels live in a store from pointers to channel records, because
  \<open>PollPoller::removeChannel\<close> writes the index of another channel. The kernel's epoll set is part of
  the epoll poller's state: \<open>epoll_ctl\<close> fails to add a descriptor twice and to change or delete one
  that is not there; what \<open>poll\<close> and \<open>epoll_wait\<close> report is an argument. The locale \<open>io_poller\<close> is the
  contract \<open>Channel\<close> relies on; both pollers are interpretations of it.
\<close>

type_synonym cptr = nat
type_synonym cstore = "cptr \<Rightarrow> channel"

section \<open>PollPoller\<close>

record pollfd =
  pfd_fd :: int
  pfd_events :: "16 word"
  pfd_revents :: "16 word"

record poll_poller =
  pp_channels :: "fd \<rightharpoonup> cptr"
  pollfds :: "pollfd list"

definition PollPoller_ctor :: poll_poller where
  "PollPoller_ctor = \<lparr>pp_channels = Map.empty, pollfds = []\<rparr>"

definition PollPoller_hasChannel :: "cptr \<Rightarrow> poll_poller \<Rightarrow> cstore \<Rightarrow> bool" where
  "PollPoller_hasChannel c p h \<longleftrightarrow> pp_channels p (ch_fd (h c)) = Some c"

definition PollPoller_updateChannel ::
  "cptr \<Rightarrow> poll_poller \<Rightarrow> cstore \<Rightarrow> (poll_poller \<times> cstore) result" where
  "PollPoller_updateChannel c p h =
     (let ch = h c; f = ch_fd ch in
      if index ch < 0
      then
        rbind (cassert (pp_channels p f = None) ''channels_.find(fd) == end'') (\<lambda>_.
        let pfds = pollfds p @ [\<lparr>pfd_fd = f, pfd_events = ucast (events ch), pfd_revents = 0\<rparr>]
        in Inr (p\<lparr>pollfds := pfds, pp_channels := (pp_channels p)(f \<mapsto> c)\<rparr>,
                h(c := ch\<lparr>index := int (length pfds) - 1\<rparr>)))
      else
        rbind (cassert (pp_channels p f \<noteq> None) ''channels_.find(fd) != end'') (\<lambda>_.
        rbind (cassert (pp_channels p f = Some c) ''channels_[fd] == channel'') (\<lambda>_.
        let idx = nat (index ch) in
        rbind (cassert (idx < length (pollfds p)) ''0 <= idx && idx < pollfds_.size()'') (\<lambda>_.
        rbind (cassert (pfd_fd (pollfds p ! idx) = f \<or> pfd_fd (pollfds p ! idx) = - f - 1)
                 ''pfd.fd == fd || pfd.fd == -fd-1'') (\<lambda>_.
        Inr (p\<lparr>pollfds := (pollfds p)[idx :=
               \<lparr>pfd_fd = (if isNoneEvent ch then - f - 1 else f),
                pfd_events = ucast (events ch), pfd_revents = 0\<rparr>]\<rparr>, h))))))"

definition PollPoller_removeChannel ::
  "cptr \<Rightarrow> poll_poller \<Rightarrow> cstore \<Rightarrow> (poll_poller \<times> cstore) result" where
  "PollPoller_removeChannel c p h =
     (let ch = h c; f = ch_fd ch; idx = index ch; n = length (pollfds p) in
      rbind (cassert (pp_channels p f \<noteq> None) ''channels_.find(fd) != end'') (\<lambda>_.
      rbind (cassert (pp_channels p f = Some c) ''channels_[fd] == channel'') (\<lambda>_.
      rbind (cassert (isNoneEvent ch) ''channel->isNoneEvent()'') (\<lambda>_.
      rbind (cassert (0 \<le> idx \<and> idx < int n) ''0 <= idx && idx < pollfds_.size()'') (\<lambda>_.
      let i = nat idx; pfd = pollfds p ! i in
      rbind (cassert (pfd_fd pfd = - f - 1 \<and> ucast (pfd_events pfd) = events ch)
               ''pfd.fd == -fd-1 && pfd.events == events()'') (\<lambda>_.
      let chans = (pp_channels p)(f := None) in
      if i = n - 1
      then Inr (p\<lparr>pollfds := butlast (pollfds p), pp_channels := chans\<rparr>, h)
      else
        (let atEnd = pfd_fd (last (pollfds p));
             atEnd' = (if atEnd < 0 then - atEnd - 1 else atEnd) in
         case chans atEnd' of
           None \<Rightarrow> Inl (Undefined ''channels_[channelAtEnd] is null'')
         | Some d \<Rightarrow> Inr (p\<lparr>pollfds := butlast ((pollfds p)[i := last (pollfds p)]),
                            pp_channels := chans\<rparr>,
                          h(d := (h d)\<lparr>index := idx\<rparr>)))))))))"

text \<open>\<open>fillActiveChannels\<close>, over the pollfd array with the \<open>revents\<close> the kernel filled in.\<close>

fun PollPoller_fillActiveChannels ::
  "int \<Rightarrow> pollfd list \<Rightarrow> (fd \<rightharpoonup> cptr) \<Rightarrow> cstore \<Rightarrow> cptr list \<Rightarrow> (cptr list \<times> cstore) result" where
  "PollPoller_fillActiveChannels numEvents [] chans h active = Inr (active, h)"
| "PollPoller_fillActiveChannels numEvents (pfd # pfds) chans h active =
     (if numEvents > 0
      then (if 0 < sint (pfd_revents pfd)
            then (case chans (pfd_fd pfd) of
                    None \<Rightarrow> Inl (AssertFail ''ch != channels_.end()'')
                  | Some c \<Rightarrow>
                      rbind (cassert (ch_fd (h c) = pfd_fd pfd) ''channel->fd() == pfd->fd'') (\<lambda>_.
                      PollPoller_fillActiveChannels (numEvents - 1) pfds chans
                        (h(c := (h c)\<lparr>revents := scast (pfd_revents pfd)\<rparr>)) (active @ [c])))
            else PollPoller_fillActiveChannels numEvents pfds chans h active)
      else Inr (active, h))"

section \<open>EPollPoller\<close>

definition kNew :: int where "kNew = -1"
definition kAdded :: int where "kAdded = 1"
definition kDeleted :: int where "kDeleted = 2"

datatype epoll_op = EPOLL_CTL_ADD | EPOLL_CTL_MOD | EPOLL_CTL_DEL

record epoll_poller =
  ep_channels :: "fd \<rightharpoonup> cptr"
  ep_kernel :: "fd \<rightharpoonup> 32 word \<times> cptr"
  ep_events_size :: nat

definition kInitEventListSize :: nat where "kInitEventListSize = 16"

definition EPollPoller_ctor :: epoll_poller where
  "EPollPoller_ctor = \<lparr>ep_channels = Map.empty, ep_kernel = Map.empty, ep_events_size = kInitEventListSize\<rparr>"

definition epoll_ctl ::
  "epoll_op \<Rightarrow> fd \<Rightarrow> 32 word \<times> cptr \<Rightarrow> (fd \<rightharpoonup> 32 word \<times> cptr) \<Rightarrow> (fd \<rightharpoonup> 32 word \<times> cptr) option" where
  "epoll_ctl op f ev k =
     (case op of
        EPOLL_CTL_ADD \<Rightarrow> (if k f = None then Some (k(f \<mapsto> ev)) else None)
      | EPOLL_CTL_MOD \<Rightarrow> (if k f = None then None else Some (k(f \<mapsto> ev)))
      | EPOLL_CTL_DEL \<Rightarrow> (if k f = None then None else Some (k(f := None))))"

definition EPollPoller_update :: "epoll_op \<Rightarrow> cptr \<Rightarrow> epoll_poller \<Rightarrow> cstore \<Rightarrow> epoll_poller result" where
  "EPollPoller_update op c p h =
     (case epoll_ctl op (ch_fd (h c)) (events (h c), c) (ep_kernel p) of
        Some k \<Rightarrow> Inr (p\<lparr>ep_kernel := k\<rparr>)
      | None \<Rightarrow> (if op = EPOLL_CTL_DEL then Inr p else Inl (Fatal ''epoll_ctl'')))"

definition EPollPoller_updateChannel ::
  "cptr \<Rightarrow> epoll_poller \<Rightarrow> cstore \<Rightarrow> (epoll_poller \<times> cstore) result" where
  "EPollPoller_updateChannel c p h =
     (let ch = h c; idx = index ch; f = ch_fd ch in
      if idx = kNew \<or> idx = kDeleted
      then
        rbind (if idx = kNew
               then rbind (cassert (ep_channels p f = None) ''channels_.find(fd) == end'') (\<lambda>_.
                    Inr (p\<lparr>ep_channels := (ep_channels p)(f \<mapsto> c)\<rparr>))
               else rbind (cassert (ep_channels p f \<noteq> None) ''channels_.find(fd) != end'') (\<lambda>_.
                    rbind (cassert (ep_channels p f = Some c) ''channels_[fd] == channel'') (\<lambda>_.
                    Inr p))) (\<lambda>p1.
        let h1 = h(c := ch\<lparr>index := kAdded\<rparr>) in
        rbind (EPollPoller_update EPOLL_CTL_ADD c p1 h1) (\<lambda>p2. Inr (p2, h1)))
      else
        rbind (cassert (ep_channels p f \<noteq> None) ''channels_.find(fd) != end'') (\<lambda>_.
        rbind (cassert (ep_channels p f = Some c) ''channels_[fd] == channel'') (\<lambda>_.
        rbind (cassert (idx = kAdded) ''index == kAdded'') (\<lambda>_.
        if isNoneEvent ch
        then rbind (EPollPoller_update EPOLL_CTL_DEL c p h) (\<lambda>p1.
             Inr (p1, h(c := ch\<lparr>index := kDeleted\<rparr>)))
        else rbind (EPollPoller_update EPOLL_CTL_MOD c p h) (\<lambda>p1. Inr (p1, h))))))"

definition EPollPoller_removeChannel ::
  "cptr \<Rightarrow> epoll_poller \<Rightarrow> cstore \<Rightarrow> (epoll_poller \<times> cstore) result" where
  "EPollPoller_removeChannel c p h =
     (let ch = h c; f = ch_fd ch; idx = index ch in
      rbind (cassert (ep_channels p f \<noteq> None) ''channels_.find(fd) != end'') (\<lambda>_.
      rbind (cassert (ep_channels p f = Some c) ''channels_[fd] == channel'') (\<lambda>_.
      rbind (cassert (isNoneEvent ch) ''channel->isNoneEvent()'') (\<lambda>_.
      rbind (cassert (idx = kAdded \<or> idx = kDeleted) ''index == kAdded || index == kDeleted'') (\<lambda>_.
      let p1 = p\<lparr>ep_channels := (ep_channels p)(f := None)\<rparr> in
      rbind (if idx = kAdded then EPollPoller_update EPOLL_CTL_DEL c p1 h else Inr p1) (\<lambda>p2.
      Inr (p2, h(c := ch\<lparr>index := kNew\<rparr>))))))))"

text \<open>\<open>poll\<close>: the kernel's answer is the list of ready channels with their events.\<close>

fun EPollPoller_fillActiveChannels ::
  "(cptr \<times> 32 word) list \<Rightarrow> epoll_poller \<Rightarrow> cstore \<Rightarrow> cptr list \<Rightarrow> (cptr list \<times> cstore) result" where
  "EPollPoller_fillActiveChannels [] p h active = Inr (active, h)"
| "EPollPoller_fillActiveChannels ((c, ev) # evs) p h active =
     rbind (cassert (ep_channels p (ch_fd (h c)) \<noteq> None) ''it != channels_.end()'') (\<lambda>_.
     rbind (cassert (ep_channels p (ch_fd (h c)) = Some c) ''it->second == channel'') (\<lambda>_.
     EPollPoller_fillActiveChannels evs p (h(c := (h c)\<lparr>revents := ev\<rparr>)) (active @ [c])))"

definition EPollPoller_poll ::
  "(cptr \<times> 32 word) list \<Rightarrow> epoll_poller \<Rightarrow> cstore \<Rightarrow> (cptr list \<times> epoll_poller \<times> cstore) result" where
  "EPollPoller_poll ready p h =
     (if ready \<noteq> []
      then rbind (cassert (length ready \<le> ep_events_size p) ''numEvents <= events_.size()'') (\<lambda>_.
           rbind (EPollPoller_fillActiveChannels ready p h []) (\<lambda>(active, h').
           Inr (active,
                (if length ready = ep_events_size p
                 then p\<lparr>ep_events_size := ep_events_size p * 2\<rparr> else p), h')))
      else Inr ([], p, h))"

section \<open>The contract\<close>

text \<open>
  \<open>set_events\<close> is what \<open>enableReading\<close>, \<open>disableAll\<close> and the others do: write the mask, then
  \<open>update\<close>. A registered channel is \<open>muted\<close> when the poller no longer watches it; \<open>remove\<close> needs it
  muted.
\<close>

definition with_events :: "cptr \<Rightarrow> 32 word \<Rightarrow> cstore \<Rightarrow> cstore" where
  "with_events c ev h = h(c := (h c)\<lparr>events := ev, addedToLoop := True\<rparr>)"

text \<open>What a poller may change in a channel: its index, nothing else.\<close>

definition same_but_index :: "cstore \<Rightarrow> cstore \<Rightarrow> bool" where
  "same_but_index h h' \<longleftrightarrow> (\<forall>d. h' d = (h d)\<lparr>index := index (h' d)\<rparr>)"

lemma same_but_index_refl [simp]: "same_but_index h h"
  by (simp add: same_but_index_def)

lemma same_but_index_upd [simp]: "same_but_index h (h(c := (h c)\<lparr>index := i\<rparr>))"
  by (simp add: same_but_index_def)

lemma same_but_indexD:
  "same_but_index h h' \<Longrightarrow> ch_fd (h' d) = ch_fd (h d) \<and> events (h' d) = events (h d)"
  unfolding same_but_index_def by (metis channel.select_convs(1,2) channel.surjective channel.update_convs(4))

text \<open>The masks a channel goes through while it is in use, each handed to the poller.\<close>

fun run_masks :: "(cptr \<Rightarrow> 'p \<Rightarrow> cstore \<Rightarrow> ('p \<times> cstore) result) \<Rightarrow>
    cptr \<Rightarrow> 32 word list \<Rightarrow> 'p \<Rightarrow> cstore \<Rightarrow> ('p \<times> cstore) result" where
  "run_masks upd c [] p h = Inr (p, h)"
| "run_masks upd c (ev # evs) p h =
     rbind (upd c p (with_events c ev h)) (\<lambda>(p', h'). run_masks upd c evs p' h')"

locale io_poller =
  fixes inv :: "'p \<Rightarrow> cstore \<Rightarrow> bool" and reg :: "'p \<Rightarrow> fd \<rightharpoonup> cptr"
    and muted :: "'p \<Rightarrow> cstore \<Rightarrow> cptr \<Rightarrow> bool"
    and upd :: "cptr \<Rightarrow> 'p \<Rightarrow> cstore \<Rightarrow> ('p \<times> cstore) result"
    and rem :: "cptr \<Rightarrow> 'p \<Rightarrow> cstore \<Rightarrow> ('p \<times> cstore) result"
  assumes upd_new: "inv p h \<Longrightarrow> reg p (ch_fd (h c)) = None \<Longrightarrow> index (h c) = -1 \<Longrightarrow> 0 \<le> ch_fd (h c) \<Longrightarrow>
      ev \<noteq> 0 \<Longrightarrow> c \<notin> ran (reg p) \<Longrightarrow>
      rspec (upd c p (with_events c ev h)) (\<lambda>(p', h'). inv p' h' \<and> same_but_index (with_events c ev h) h' \<and>
        reg p' = (reg p)(ch_fd (h c) \<mapsto> c) \<and> \<not> muted p' h' c)"
    and upd_old: "inv p h \<Longrightarrow> reg p (ch_fd (h c)) = Some c \<Longrightarrow> \<not> muted p h c \<or> ev \<noteq> 0 \<Longrightarrow> ev = ucast (ucast ev :: 16 word) \<Longrightarrow>
      rspec (upd c p (with_events c ev h)) (\<lambda>(p', h'). inv p' h' \<and> same_but_index (with_events c ev h) h' \<and>
        reg p' = reg p \<and> muted p' h' c = (ev = 0))"
    and rem_muted: "inv p h \<Longrightarrow> reg p (ch_fd (h c)) = Some c \<Longrightarrow> muted p h c \<Longrightarrow>
      rspec (rem c p h) (\<lambda>(p', h'). inv p' h' \<and> same_but_index h h' \<and>
        reg p' = (reg p)(ch_fd (h c) := None))"
begin

lemma run_masks_ok:
  assumes "inv p h" "reg p (ch_fd (h c)) = Some c" "\<not> muted p h c"
    and "list_all (\<lambda>ev. ev \<noteq> 0 \<and> ev = ucast (ucast ev :: 16 word)) evs"
  shows "rspec (run_masks upd c evs p h) (\<lambda>(p', h'). inv p' h' \<and> reg p' = reg p \<and>
     ch_fd (h' c) = ch_fd (h c) \<and> \<not> muted p' h' c)"
  using assms
proof (induction evs arbitrary: p h)
  case Nil
  then show ?case by simp
next
  case (Cons ev evs)
  then obtain p1 h1 where u: "upd c p (with_events c ev h) = Inr (p1, h1)" "inv p1 h1"
      "same_but_index (with_events c ev h) h1" "reg p1 = reg p" "\<not> muted p1 h1 c"
    using upd_old [of p h c ev] by (auto simp: rspec_iff)
  have f: "ch_fd (h1 c) = ch_fd (h c)"
    using same_but_indexD [OF u(3), of c] by (simp add: with_events_def)
  from Cons.IH [of p1 h1] u f Cons.prems show ?case by simp
qed

lemma lifecycle:
  assumes new: "inv p h" "reg p (ch_fd (h c)) = None" "index (h c) = -1" "0 \<le> ch_fd (h c)" "c \<notin> ran (reg p)"
    and evs: "list_all (\<lambda>ev. ev \<noteq> 0 \<and> ev = ucast (ucast ev :: 16 word)) (ev # evs)"
  shows "rspec (rbind (run_masks upd c (ev # evs @ [0]) p h) (\<lambda>(p', h'). rem c p' h'))
     (\<lambda>(p', h'). inv p' h' \<and> reg p' = reg p)"
proof -
  obtain p1 h1 where a: "upd c p (with_events c ev h) = Inr (p1, h1)" "inv p1 h1"
      "same_but_index (with_events c ev h) h1" "reg p1 = (reg p)(ch_fd (h c) \<mapsto> c)" "\<not> muted p1 h1 c"
    using upd_new [OF new(1-4), of ev] new(5) evs by (auto simp: rspec_iff)
  have f1: "ch_fd (h1 c) = ch_fd (h c)"
    using same_but_indexD [OF a(3), of c] by (simp add: with_events_def)
  obtain p2 h2 where b: "run_masks upd c evs p1 h1 = Inr (p2, h2)" "inv p2 h2" "reg p2 = reg p1"
      "ch_fd (h2 c) = ch_fd (h c)" "\<not> muted p2 h2 c"
    using run_masks_ok [OF a(2) _ a(5), of evs] a(4) f1 evs by (auto simp: rspec_iff)
  obtain p3 h3 where d: "upd c p2 (with_events c 0 h2) = Inr (p3, h3)" "inv p3 h3"
      "same_but_index (with_events c 0 h2) h3" "reg p3 = reg p2" "muted p3 h3 c"
    using upd_old [OF b(2), of c 0] b a(4) by (auto simp: rspec_iff)
  have f3: "ch_fd (h3 c) = ch_fd (h c)"
    using same_but_indexD [OF d(3), of c] b(4) by (simp add: with_events_def)
  have "reg p3 (ch_fd (h3 c)) = Some c" using d(4) b(3) a(4) f3 by simp
  from rem_muted [OF d(2) this d(5)]
  obtain p4 h4 where r: "rem c p3 h3 = Inr (p4, h4)" "inv p4 h4" "reg p4 = (reg p3)(ch_fd (h3 c) := None)"
    by (auto simp: rspec_iff)
  have "reg p4 = reg p" using r(3) d(4) b(3) a(4) f3 new(2) by (simp add: fun_upd_idem)
  moreover have "run_masks upd c (ev # evs @ [0]) p h = Inr (p3, h3)"
  proof -
    have "run_masks upd c (evs @ [0]) p1 h1 = Inr (p3, h3)"
      using b(1) d(1) by (induction evs arbitrary: p1 h1) (auto simp: rbind_eq_Inr_iff split: prod.splits)
    with a(1) show ?thesis by simp
  qed
  ultimately show ?thesis using r by simp
qed

end

section \<open>EPollPoller meets the contract\<close>

text \<open>One registered channel: watched with its mask, or muted by \<open>EPOLL_CTL_DEL\<close>.\<close>

definition ep_entry :: "(32 word \<times> cptr) option \<Rightarrow> channel \<Rightarrow> fd \<Rightarrow> cptr \<Rightarrow> bool" where
  "ep_entry k ch f c \<longleftrightarrow> ch_fd ch = f \<and>
     (index ch = kAdded \<and> k = Some (events ch, c) \<or> index ch = kDeleted \<and> k = None \<and> events ch = 0)"

definition ep_inv :: "epoll_poller \<Rightarrow> cstore \<Rightarrow> bool" where
  "ep_inv p h \<longleftrightarrow>
     (\<forall>f c. ep_channels p f = Some c \<longrightarrow> ep_entry (ep_kernel p f) (h c) f c) \<and>
     dom (ep_kernel p) \<subseteq> dom (ep_channels p)"

definition ep_muted :: "epoll_poller \<Rightarrow> cstore \<Rightarrow> cptr \<Rightarrow> bool" where
  "ep_muted p h c \<longleftrightarrow> index (h c) = kDeleted"

lemmas ep_ops = EPollPoller_updateChannel_def EPollPoller_removeChannel_def EPollPoller_update_def
  epoll_ctl_def isNoneEvent_def kNoneEvent_def with_events_def Let_def

lemma ep_index_distinct [simp]: "kNew \<noteq> kAdded" "kNew \<noteq> kDeleted" "kAdded \<noteq> kDeleted"
  "kAdded \<noteq> kNew" "kDeleted \<noteq> kNew" "kDeleted \<noteq> kAdded"
  by (simp_all add: kNew_def kAdded_def kDeleted_def)

lemma channel_index_idem:
  "index ch = i \<Longrightarrow> ch\<lparr>events := ev, addedToLoop := a, index := i\<rparr> = ch\<lparr>events := ev, addedToLoop := a\<rparr>"
  by (cases ch) simp

lemma ep_invD: "ep_inv p h \<Longrightarrow> ep_channels p f = Some c \<Longrightarrow> ep_entry (ep_kernel p f) (h c) f c"
  by (simp add: ep_inv_def)

lemma ep_inv_other:
  "ep_inv p h \<Longrightarrow> ep_channels p f = Some c \<Longrightarrow> ep_channels p g = Some c \<Longrightarrow> f = g"
  unfolding ep_inv_def ep_entry_def by metis

text \<open>Setting one entry, and deleting one, keeps the invariant.\<close>

lemma ep_inv_set:
  assumes "ep_inv p h" "ep_entry k ch f c" "\<And>g. ep_channels p g = Some c \<Longrightarrow> g = f"
  shows "ep_inv (p\<lparr>ep_channels := (ep_channels p)(f \<mapsto> c), ep_kernel := (ep_kernel p)(f := k)\<rparr>) (h(c := ch))"
  using assms unfolding ep_inv_def by (auto split: if_splits)

lemma ep_inv_del:
  assumes "ep_inv p h" "ep_channels p f = Some c"
  shows "ep_inv (p\<lparr>ep_channels := (ep_channels p)(f := None), ep_kernel := (ep_kernel p)(f := None)\<rparr>) (h(c := ch))"
  using assms(1) ep_inv_other [OF assms(1) assms(2)] unfolding ep_inv_def by (auto split: if_splits)

lemma ep_upd_new:
  assumes "ep_inv p h" "ep_channels p (ch_fd (h c)) = None" "index (h c) = -1" "c \<notin> ran (ep_channels p)"
  shows "rspec (EPollPoller_updateChannel c p (with_events c ev h)) (\<lambda>(p', h'). ep_inv p' h' \<and>
     same_but_index (with_events c ev h) h' \<and> ep_channels p' = (ep_channels p)(ch_fd (h c) \<mapsto> c) \<and>
     \<not> ep_muted p' h' c)"
proof -
  let ?f = "ch_fd (h c)"
  let ?ch = "(h c)\<lparr>events := ev, addedToLoop := True, index := kAdded\<rparr>"
  have k: "ep_kernel p ?f = None" using assms(1,2) by (auto simp: ep_inv_def)
  have "EPollPoller_updateChannel c p (with_events c ev h) =
      Inr (p\<lparr>ep_channels := (ep_channels p)(?f \<mapsto> c), ep_kernel := (ep_kernel p)(?f := Some (ev, c))\<rparr>, h(c := ?ch))"
    using assms(2,3) k by (simp add: ep_ops kNew_def)
  moreover have "ep_inv (p\<lparr>ep_channels := (ep_channels p)(?f \<mapsto> c),
      ep_kernel := (ep_kernel p)(?f := Some (ev, c))\<rparr>) (h(c := ?ch))"
    using assms(1,4) by (intro ep_inv_set) (auto simp: ep_entry_def ran_def)
  ultimately show ?thesis by (simp add: ep_muted_def same_but_index_def with_events_def)
qed

lemma ep_upd_old:
  assumes inv: "ep_inv p h" and r: "ep_channels p (ch_fd (h c)) = Some c"
    and m: "\<not> ep_muted p h c \<or> ev \<noteq> 0"
  shows "rspec (EPollPoller_updateChannel c p (with_events c ev h)) (\<lambda>(p', h'). ep_inv p' h' \<and>
     same_but_index (with_events c ev h) h' \<and> ep_channels p' = ep_channels p \<and>
     ep_muted p' h' c = (ev = 0))"
proof -
  let ?f = "ch_fd (h c)"
  let ?i = "if ev = 0 then kDeleted else kAdded"
  let ?k = "if ev = 0 then None else Some (ev, c)"
  let ?ch = "(h c)\<lparr>events := ev, addedToLoop := True, index := ?i\<rparr>"
  have e: "ep_entry (ep_kernel p ?f) (h c) ?f c" using ep_invD [OF inv r] .
  have same: "(ep_channels p)(?f \<mapsto> c) = ep_channels p" using r by (simp add: fun_upd_idem)
  have "EPollPoller_updateChannel c p (with_events c ev h) =
      Inr (p\<lparr>ep_kernel := (ep_kernel p)(?f := ?k)\<rparr>, h(c := ?ch))"
    using e r m by (auto simp: ep_ops ep_entry_def ep_muted_def channel_index_idem)
  moreover have "ep_inv (p\<lparr>ep_channels := (ep_channels p)(?f \<mapsto> c), ep_kernel := (ep_kernel p)(?f := ?k)\<rparr>) (h(c := ?ch))"
    using ep_inv_other [OF inv r] by (intro ep_inv_set [OF inv]) (auto simp: ep_entry_def)
  moreover have "p\<lparr>ep_channels := ep_channels p, ep_kernel := k\<rparr> = p\<lparr>ep_kernel := k\<rparr>" for k by simp
  ultimately show ?thesis by (simp add: same ep_muted_def same_but_index_def with_events_def)
qed

lemma ep_rem:
  assumes inv: "ep_inv p h" and r: "ep_channels p (ch_fd (h c)) = Some c" and none: "events (h c) = 0"
  shows "rspec (EPollPoller_removeChannel c p h) (\<lambda>(p', h'). ep_inv p' h' \<and> same_but_index h h' \<and>
     ep_channels p' = (ep_channels p)(ch_fd (h c) := None) \<and> index (h' c) = kNew)"
proof -
  let ?f = "ch_fd (h c)"
  have e: "ep_entry (ep_kernel p ?f) (h c) ?f c" using ep_invD [OF inv r] .
  have "EPollPoller_removeChannel c p h =
      Inr (p\<lparr>ep_channels := (ep_channels p)(?f := None), ep_kernel := (ep_kernel p)(?f := None)\<rparr>,
        h(c := (h c)\<lparr>index := kNew\<rparr>))"
    using e r none by (auto simp: ep_ops ep_entry_def fun_upd_idem)
  with ep_inv_del [OF inv r] show ?thesis by (simp add: same_but_index_def)
qed

lemma ep_muted_none:
  "ep_inv p h \<Longrightarrow> ep_channels p (ch_fd (h c)) = Some c \<Longrightarrow> ep_muted p h c \<Longrightarrow> events (h c) = 0"
  using ep_invD [of p h "ch_fd (h c)" c] by (auto simp: ep_entry_def ep_muted_def)

interpretation epoll: io_poller ep_inv ep_channels ep_muted EPollPoller_updateChannel EPollPoller_removeChannel
proof unfold_locales
  fix p h c ev
  assume "ep_inv p h" "ep_channels p (ch_fd (h c)) = None" "index (h c) = -1" "c \<notin> ran (ep_channels p)"
  then show "rspec (EPollPoller_updateChannel c p (with_events c ev h)) (\<lambda>(p', h'). ep_inv p' h' \<and>
     same_but_index (with_events c ev h) h' \<and> ep_channels p' = (ep_channels p)(ch_fd (h c) \<mapsto> c) \<and>
     \<not> ep_muted p' h' c)" by (rule ep_upd_new)
next
  fix p h c
  assume a: "ep_inv p h" "ep_channels p (ch_fd (h c)) = Some c" "ep_muted p h c"
  from ep_rem [OF a(1,2) ep_muted_none [OF a]]
  show "rspec (EPollPoller_removeChannel c p h) (\<lambda>(p', h'). ep_inv p' h' \<and> same_but_index h h' \<and>
     ep_channels p' = (ep_channels p)(ch_fd (h c) := None))"
    by (rule rspec_mono) auto
qed (rule ep_upd_old)

section \<open>PollPoller meets the contract\<close>

text \<open>The descriptor a pollfd entry is for: entries are muted by storing \<open>-fd-1\<close>.\<close>

definition pfd_owner :: "pollfd \<Rightarrow> fd" where
  "pfd_owner e = (if pfd_fd e < 0 then - pfd_fd e - 1 else pfd_fd e)"

text \<open>One registered channel and its entry in the array.\<close>

definition pp_entry :: "pollfd list \<Rightarrow> channel \<Rightarrow> fd \<Rightarrow> bool" where
  "pp_entry fds ch f \<longleftrightarrow> 0 \<le> f \<and> ch_fd ch = f \<and> 0 \<le> index ch \<and> nat (index ch) < length fds \<and>
     pfd_owner (fds ! nat (index ch)) = f \<and>
     (pfd_fd (fds ! nat (index ch)) < 0 \<longrightarrow> events ch = 0 \<and> pfd_events (fds ! nat (index ch)) = 0)"

definition pp_inv :: "poll_poller \<Rightarrow> cstore \<Rightarrow> bool" where
  "pp_inv p h \<longleftrightarrow>
     (\<forall>f c. pp_channels p f = Some c \<longrightarrow> pp_entry (pollfds p) (h c) f) \<and>
     (\<forall>i < length (pollfds p). \<exists>c. pp_channels p (pfd_owner (pollfds p ! i)) = Some c \<and>
        index (h c) = int i)"

definition pp_muted :: "poll_poller \<Rightarrow> cstore \<Rightarrow> cptr \<Rightarrow> bool" where
  "pp_muted p h c \<longleftrightarrow> pfd_fd (pollfds p ! nat (index (h c))) < 0"

lemma pp_invD: "pp_inv p h \<Longrightarrow> pp_channels p f = Some c \<Longrightarrow> pp_entry (pollfds p) (h c) f"
  by (simp add: pp_inv_def)

lemma pp_slot:
  "pp_inv p h \<Longrightarrow> i < length (pollfds p) \<Longrightarrow>
     \<exists>c. pp_channels p (pfd_owner (pollfds p ! i)) = Some c \<and> index (h c) = int i"
  by (simp add: pp_inv_def)

lemma pp_inv_other:
  "pp_inv p h \<Longrightarrow> pp_channels p f = Some c \<Longrightarrow> pp_channels p g = Some c \<Longrightarrow> f = g"
  unfolding pp_inv_def pp_entry_def by metis

lemma pp_index_inj:
  assumes "pp_inv p h" "pp_channels p f = Some c" "pp_channels p g = Some d" "index (h c) = index (h d)"
  shows "f = g"
  using pp_invD [OF assms(1,2)] pp_invD [OF assms(1,3)] assms(4) by (simp add: pp_entry_def)

lemma pp_upd_new:
  assumes inv: "pp_inv p h" and n: "pp_channels p (ch_fd (h c)) = None" "index (h c) = -1"
      "0 \<le> ch_fd (h c)" "c \<notin> ran (pp_channels p)"
  shows "rspec (PollPoller_updateChannel c p (with_events c ev h)) (\<lambda>(p', h'). pp_inv p' h' \<and>
     same_but_index (with_events c ev h) h' \<and> pp_channels p' = (pp_channels p)(ch_fd (h c) \<mapsto> c) \<and>
     \<not> pp_muted p' h' c)"
proof -
  let ?f = "ch_fd (h c)" and ?l = "length (pollfds p)"
  let ?fds = "pollfds p @ [\<lparr>pfd_fd = ?f, pfd_events = ucast ev, pfd_revents = 0\<rparr>]"
  let ?ch = "(h c)\<lparr>events := ev, addedToLoop := True, index := int ?l\<rparr>"
  let ?p = "p\<lparr>pollfds := ?fds, pp_channels := (pp_channels p)(?f \<mapsto> c)\<rparr>"
  have eq: "PollPoller_updateChannel c p (with_events c ev h) = Inr (?p, h(c := ?ch))"
    using n by (simp add: PollPoller_updateChannel_def with_events_def Let_def)
  have o: "d \<noteq> c" if "pp_channels p g = Some d" for g d
    using that n(4) by (auto simp: ran_def)
  have entry: "pp_entry ?fds ((h(c := ?ch)) d) g" if "pp_channels ?p g = Some d" for g d
  proof (cases "g = ?f")
    case True
    with that n show ?thesis by (auto simp: pp_entry_def pfd_owner_def nth_append)
  next
    case False
    with that have "pp_channels p g = Some d" by simp
    with pp_invD [OF inv this] o show ?thesis by (auto simp: pp_entry_def nth_append)
  qed
  have slot: "\<exists>d. pp_channels ?p (pfd_owner (?fds ! i)) = Some d \<and> index ((h(c := ?ch)) d) = int i"
    if "i < length ?fds" for i
  proof (cases "i = ?l")
    case True
    with n show ?thesis by (auto simp: pfd_owner_def)
  next
    case False
    with that have i: "i < ?l" by simp
    from pp_slot [OF inv i] obtain d where d: "pp_channels p (pfd_owner (pollfds p ! i)) = Some d" "index (h d) = int i"
      by blast
    have "pfd_owner (pollfds p ! i) \<noteq> ?f" using d(1) n(1) by auto
    with d i o show ?thesis by (auto simp: nth_append)
  qed
  have "pp_inv ?p (h(c := ?ch))" unfolding pp_inv_def using entry slot by simp
  with eq n show ?thesis by (simp add: pp_muted_def same_but_index_def with_events_def nth_append)
qed

lemma pp_upd_old:
  assumes inv: "pp_inv p h" and r: "pp_channels p (ch_fd (h c)) = Some c"
  shows "rspec (PollPoller_updateChannel c p (with_events c ev h)) (\<lambda>(p', h'). pp_inv p' h' \<and>
     same_but_index (with_events c ev h) h' \<and> pp_channels p' = pp_channels p \<and>
     pp_muted p' h' c = (ev = 0))"
proof -
  let ?f = "ch_fd (h c)" and ?i = "nat (index (h c))"
  let ?e = "\<lparr>pfd_fd = (if ev = 0 then - ?f - 1 else ?f), pfd_events = ucast ev, pfd_revents = 0\<rparr>"
  let ?fds = "(pollfds p)[?i := ?e]"
  let ?h = "with_events c ev h"
  have e: "pp_entry (pollfds p) (h c) ?f" using pp_invD [OF inv r] .
  then have i: "?i < length (pollfds p)" "0 \<le> index (h c)" "0 \<le> ?f" by (auto simp: pp_entry_def)
  have own: "pfd_fd (pollfds p ! ?i) = ?f \<or> pfd_fd (pollfds p ! ?i) = - ?f - 1"
    using e by (auto simp: pp_entry_def pfd_owner_def split: if_splits)
  have eq: "PollPoller_updateChannel c p ?h = Inr (p\<lparr>pollfds := ?fds\<rparr>, ?h)"
    using i r own by (auto simp: PollPoller_updateChannel_def with_events_def Let_def isNoneEvent_def kNoneEvent_def)
  have own': "pfd_owner (?fds ! j) = pfd_owner (pollfds p ! j)" if "j < length (pollfds p)" for j
    using e that i by (cases "j = ?i") (auto simp: pp_entry_def pfd_owner_def)
  have entry: "pp_entry ?fds (?h d) g" if d: "pp_channels p g = Some d" for g d
  proof (cases "d = c")
    case True
    with pp_inv_other [OF inv r] d have "g = ?f" by simp
    with True i e show ?thesis
      by (auto simp: pp_entry_def with_events_def pfd_owner_def)
  next
    case False
    have "g \<noteq> ?f" using d r False by auto
    with pp_index_inj [OF inv d r] have "index (h d) \<noteq> index (h c)" by auto
    with pp_invD [OF inv d] i(2) have "nat (index (h d)) \<noteq> ?i" by (auto simp: pp_entry_def)
    with pp_invD [OF inv d] False show ?thesis by (auto simp: pp_entry_def with_events_def)
  qed
  have idx: "index (?h d) = index (h d)" for d by (simp add: with_events_def)
  have "pp_inv (p\<lparr>pollfds := ?fds\<rparr>) ?h"
    unfolding pp_inv_def using entry own' pp_slot [OF inv] by (simp add: idx)
  with eq i show ?thesis by (auto simp: pp_muted_def idx)
qed

text \<open>Dropping the last entry, and moving the last entry into a hole.\<close>

lemma pp_inv_pop:
  assumes inv: "pp_inv p h" and r: "pp_channels p f = Some c"
    and i: "nat (index (h c)) = length (pollfds p) - 1"
  shows "pp_inv (p\<lparr>pollfds := butlast (pollfds p), pp_channels := (pp_channels p)(f := None)\<rparr>) h"
proof -
  let ?n = "length (pollfds p)"
  have ec: "pp_entry (pollfds p) (h c) f" using pp_invD [OF inv r] .
  have ne: "nat (index (h d)) < ?n - 1" if "pp_channels p g = Some d" "g \<noteq> f" for g d
  proof -
    have "index (h d) \<noteq> index (h c)" using pp_index_inj [OF inv that(1) r] that(2) by auto
    moreover have "0 \<le> index (h d)" "0 \<le> index (h c)" "nat (index (h d)) < ?n"
      using pp_invD [OF inv that(1)] ec by (simp_all add: pp_entry_def)
    ultimately have "nat (index (h d)) \<noteq> nat (index (h c))" by (simp add: eq_nat_nat_iff)
    with \<open>nat (index (h d)) < ?n\<close> i show ?thesis by linarith
  qed
  have entry: "pp_entry (butlast (pollfds p)) (h d) g" if "pp_channels p g = Some d" "g \<noteq> f" for g d
    using pp_invD [OF inv that(1)] ne [OF that] by (auto simp: pp_entry_def nth_butlast)
  have slot: "\<exists>d. ((pp_channels p)(f := None)) (pfd_owner (butlast (pollfds p) ! j)) = Some d \<and> index (h d) = int j"
    if j: "j < ?n - 1" for j
  proof -
    have "j < ?n" using j by linarith
    from pp_slot [OF inv this] obtain d where
      d: "pp_channels p (pfd_owner (pollfds p ! j)) = Some d" "index (h d) = int j" by auto
    have "pfd_owner (pollfds p ! j) \<noteq> f" using d r i j by auto
    with d j show ?thesis by (auto simp: nth_butlast)
  qed
  show ?thesis unfolding pp_inv_def using entry slot by auto
qed

lemma pp_inv_move:
  assumes inv: "pp_inv p h" and r: "pp_channels p f = Some c"
    and i: "nat (index (h c)) < length (pollfds p) - 1"
    and d: "pp_channels p (pfd_owner (last (pollfds p))) = Some d"
  shows "pp_inv (p\<lparr>pollfds := butlast ((pollfds p)[nat (index (h c)) := last (pollfds p)]),
           pp_channels := (pp_channels p)(f := None)\<rparr>) (h(d := (h d)\<lparr>index := index (h c)\<rparr>))"
    and "pfd_owner (last (pollfds p)) \<noteq> f"
proof -
  let ?n = "length (pollfds p)" and ?i = "nat (index (h c))" and ?g = "pfd_owner (last (pollfds p))"
  let ?fds = "butlast ((pollfds p)[?i := last (pollfds p)])"
  let ?h = "h(d := (h d)\<lparr>index := index (h c)\<rparr>)"
  have ec: "pp_entry (pollfds p) (h c) f" using pp_invD [OF inv r] .
  have last: "last (pollfds p) = pollfds p ! (?n - 1)" using i by (cases "pollfds p") (auto simp: last_conv_nth)
  have id: "index (h d) = int (?n - 1)"
    using pp_slot [OF inv, of "?n - 1"] i d last by auto
  show gf: "?g \<noteq> f" using d r id i by auto
  have fds: "j < ?n - 1 \<Longrightarrow> ?fds ! j = (if j = ?i then pollfds p ! (?n - 1) else pollfds p ! j)" for j
    using i last by (auto simp: nth_butlast)
  have entry: "pp_entry ?fds (?h e) g" if e: "pp_channels p g = Some e" "g \<noteq> f" for g e
  proof (cases "e = d")
    case True
    with pp_inv_other [OF inv d] e have "g = ?g" by simp
    moreover have nd: "nat (index (h d)) = ?n - 1" using id by simp
    moreover have "pp_entry (pollfds p) (h d) ?g" using pp_invD [OF inv d] .
    ultimately show ?thesis
      using True ec i fds [of ?i] unfolding pp_entry_def nd by simp
  next
    case False
    have "index (h e) \<noteq> index (h c)" using pp_index_inj [OF inv e(1) r] e(2) by auto
    moreover have "index (h e) \<noteq> index (h d)" using pp_index_inj [OF inv e(1) d] False e(1) d by auto
    ultimately have "nat (index (h e)) < ?n - 1" "nat (index (h e)) \<noteq> ?i"
      using pp_invD [OF inv e(1)] ec id by (auto simp: pp_entry_def)
    with pp_invD [OF inv e(1)] False fds show ?thesis by (auto simp: pp_entry_def)
  qed
  have slot: "\<exists>e. ((pp_channels p)(f := None)) (pfd_owner (?fds ! j)) = Some e \<and> index (?h e) = int j"
    if j: "j < ?n - 1" for j
  proof (cases "j = ?i")
    case True
    with j fds [OF j] d gf ec last show ?thesis by (auto simp: pp_entry_def)
  next
    case False
    have "j < ?n" using j by linarith
    from pp_slot [OF inv this] obtain e where
      e: "pp_channels p (pfd_owner (pollfds p ! j)) = Some e" "index (h e) = int j" by auto
    have "pfd_owner (pollfds p ! j) \<noteq> f" using e r False by auto
    moreover have "e \<noteq> d" using e(2) id j by auto
    ultimately show ?thesis using e j False fds [OF j] by auto
  qed
  show "pp_inv (p\<lparr>pollfds := ?fds, pp_channels := (pp_channels p)(f := None)\<rparr>) ?h"
    unfolding pp_inv_def using entry slot by auto
qed

lemma pp_rem:
  assumes inv: "pp_inv p h" and r: "pp_channels p (ch_fd (h c)) = Some c" and m: "pp_muted p h c"
  shows "rspec (PollPoller_removeChannel c p h) (\<lambda>(p', h'). pp_inv p' h' \<and> same_but_index h h' \<and>
     pp_channels p' = (pp_channels p)(ch_fd (h c) := None))"
proof -
  let ?f = "ch_fd (h c)" and ?i = "nat (index (h c))" and ?n = "length (pollfds p)"
  have e: "pp_entry (pollfds p) (h c) ?f" using pp_invD [OF inv r] .
  have pre: "isNoneEvent (h c)" "0 \<le> index (h c) \<and> index (h c) < int ?n"
    "pfd_fd (pollfds p ! ?i) = - ?f - 1 \<and> ucast (pfd_events (pollfds p ! ?i)) = events (h c)"
    using e m by (auto simp: pp_entry_def pp_muted_def isNoneEvent_def kNoneEvent_def pfd_owner_def)
  show ?thesis
  proof (cases "?i = ?n - 1")
    case True
    with pre r pp_inv_pop [OF inv r True] show ?thesis
      by (simp add: PollPoller_removeChannel_def Let_def)
  next
    case False
    with pre have i: "?i < ?n - 1" by linarith
    then have l: "last (pollfds p) = pollfds p ! (?n - 1)" by (cases "pollfds p") (auto simp: last_conv_nth)
    have "?n - 1 < ?n" using i by linarith
    from pp_slot [OF inv this] l obtain d where d: "pp_channels p (pfd_owner (last (pollfds p))) = Some d"
      by auto
    note mv = pp_inv_move [OF inv r i d]
    have "PollPoller_removeChannel c p h = Inr (p\<lparr>pollfds := butlast ((pollfds p)[?i := last (pollfds p)]),
           pp_channels := (pp_channels p)(?f := None)\<rparr>, h(d := (h d)\<lparr>index := index (h c)\<rparr>))"
      using pre r False d mv(2)
      by (simp add: PollPoller_removeChannel_def Let_def pfd_owner_def split: if_splits)
    with mv(1) show ?thesis by simp
  qed
qed

interpretation poll: io_poller pp_inv pp_channels pp_muted PollPoller_updateChannel PollPoller_removeChannel
  by unfold_locales (auto intro: pp_upd_new pp_upd_old pp_rem)

lemma ep_inv_ctor [simp]: "ep_inv EPollPoller_ctor h"
  by (simp add: ep_inv_def EPollPoller_ctor_def)

lemma pp_inv_ctor [simp]: "pp_inv PollPoller_ctor h"
  by (simp add: pp_inv_def PollPoller_ctor_def)

section \<open>Returned events\<close>

lemma ep_fill_ok:
  assumes "\<forall>(c, ev) \<in> set ready. ep_channels p (ch_fd (h c)) = Some c" and "distinct (map fst ready)"
  shows "rspec (EPollPoller_fillActiveChannels ready p h active) (\<lambda>(act, h').
     act = active @ map fst ready \<and> (\<forall>(c, ev) \<in> set ready. revents (h' c) = ev) \<and>
     (\<forall>d. d \<notin> fst ` set ready \<longrightarrow> h' d = h d))"
  using assms
proof (induction ready arbitrary: h active)
  case Nil
  then show ?case by simp
next
  case (Cons a ready)
  obtain c ev where a: "a = (c, ev)" by (cases a)
  let ?h = "h(c := (h c)\<lparr>revents := ev\<rparr>)"
  have "\<forall>(d, ev) \<in> set ready. ep_channels p (ch_fd (?h d)) = Some d"
    using Cons.prems a by auto
  with Cons.IH [of ?h "active @ [c]"] Cons.prems a show ?case
    by (fastforce simp: rspec_iff)
qed

section \<open>Properties\<close>

text \<open>
  A channel's life with the epoll poller: a channel that is not registered may go through any
  sequence of masks with some event, then \<open>disableAll\<close> and \<open>remove\<close>; no assertion of the poller and
  no \<open>epoll_ctl\<close> fails, the invariant between the channel table, the kernel's set and the channels'
  indices is kept, and afterwards the table is what it was before.
\<close>

theorem epoll_channel_lifecycle:
  assumes "ep_inv p h" and "ep_channels p (ch_fd (h c)) = None" and "index (h c) = -1"
    and "0 \<le> ch_fd (h c)" and "c \<notin> ran (ep_channels p)"
    and "list_all (\<lambda>ev. ev \<noteq> 0 \<and> ev = ucast (ucast ev :: 16 word)) (ev # evs)"
  shows "rspec (rbind (run_masks EPollPoller_updateChannel c (ev # evs @ [0]) p h)
        (\<lambda>(p', h'). EPollPoller_removeChannel c p' h'))
     (\<lambda>(p', h'). ep_inv p' h' \<and> ep_channels p' = ep_channels p)"
  using assms by (rule epoll.lifecycle)

theorem epoll_channel_lifecycle_witness:
  "rspec (rbind (run_masks EPollPoller_updateChannel 0 (3 # [7] @ [0]) EPollPoller_ctor (\<lambda>_. Channel_ctor 5))
        (\<lambda>(p', h'). EPollPoller_removeChannel 0 p' h'))
     (\<lambda>(p', h'). ep_inv p' h' \<and> ep_channels p' = ep_channels EPollPoller_ctor)"
  by (rule epoll_channel_lifecycle) (simp_all add: EPollPoller_ctor_def ep_inv_def Channel_ctor_def)



text \<open>
  The two pollers differ on a channel that was never enabled: \<open>disableAll\<close> followed by \<open>remove\<close>, as
  in the destructor of an acceptor that never listened, succeeds with epoll and stops the process
  with the \<open>poll\<close> poller, for every descriptor.
\<close>

theorem never_enabled_channel_removal:
  assumes "0 \<le> f"
  shows "rspec (rbind (EPollPoller_updateChannel 0 EPollPoller_ctor (with_events 0 0 (\<lambda>_. Channel_ctor f)))
           (\<lambda>(p, h). EPollPoller_removeChannel 0 p h))
         (\<lambda>(p', h'). ep_channels p' = Map.empty \<and> ep_kernel p' = Map.empty) \<and>
     rbind (PollPoller_updateChannel 0 PollPoller_ctor (with_events 0 0 (\<lambda>_. Channel_ctor f)))
           (\<lambda>(p, h). PollPoller_removeChannel 0 p h)
       = Inl (AssertFail ''pfd.fd == -fd-1 && pfd.events == events()'')"
  using assms
  by (simp add: ep_ops EPollPoller_ctor_def Channel_ctor_def kNew_def kAdded_def
      PollPoller_updateChannel_def PollPoller_removeChannel_def PollPoller_ctor_def)

theorem never_enabled_channel_removal_witness:
  "(0 :: int) \<le> 7 \<and>
   rbind (PollPoller_updateChannel 0 PollPoller_ctor (with_events 0 0 (\<lambda>_. Channel_ctor 7)))
           (\<lambda>(p, h). PollPoller_removeChannel 0 p h)
       = Inl (AssertFail ''pfd.fd == -fd-1 && pfd.events == events()'')"
  using never_enabled_channel_removal [of 7] by simp

end
