(* ===== verification/TimerQueue.thy ===== *)
theory TimerQueue
  imports Prelude "HOL-Library.Product_Lexorder" Complex_Main
begin

text \<open>
  Timers (\<open>third/muduo/net/Timer.h\<close>, \<open>TimerId.h\<close>, \<open>TimerQueue.cc\<close>, \<open>base/Timestamp.h\<close>). \<open>Timer*\<close> is an
  address in a heap of live timers, so use after free, double free and leaks are visible in the model:
  reading a dead pointer is \<open>Inl (Undefined _)\<close>. \<open>std::set<Entry>\<close> and \<open>std::set<ActiveTimer>\<close> are
  strictly sorted lists in the order of \<open>std::pair\<close>. A timer callback is the list of timer operations it
  performs (it runs in the loop thread, so they take effect at once). Microsecond timestamps are
  \<open>int\<close>; an interval in seconds, a \<open>double\<close> in the source, is a rational. The allocator is a parameter:
  it returns a fresh address or fails.
\<close>

section \<open>Timestamps\<close>

definition kMicroSecondsPerSecond :: int where "kMicroSecondsPerSecond = 1000 * 1000"

definition Timestamp_valid :: "int \<Rightarrow> bool" where
  "Timestamp_valid t \<longleftrightarrow> t > 0"

definition Timestamp_invalid :: int where "Timestamp_invalid = 0"

text \<open>The cast of a \<open>double\<close> to \<open>int64_t\<close> truncates towards zero.\<close>

definition trunc_rat :: "rat \<Rightarrow> int" where
  "trunc_rat r = (if r < 0 then - \<lfloor>- r\<rfloor> else \<lfloor>r\<rfloor>)"

definition addTime :: "int \<Rightarrow> rat \<Rightarrow> int" where
  "addTime timestamp seconds = timestamp + trunc_rat (seconds * of_int kMicroSecondsPerSecond)"

text \<open>\<open>howMuchTimeFromNow\<close>: seconds and nanoseconds, at least 100 microseconds.\<close>

definition howMuchTimeFromNow :: "int \<Rightarrow> int \<Rightarrow> int \<times> int" where
  "howMuchTimeFromNow now whn =
     (let us = whn - now; us' = (if us < 100 then 100 else us)
      in (us' div kMicroSecondsPerSecond, (us' mod kMicroSecondsPerSecond) * 1000))"

section \<open>Timers and the queue\<close>

type_synonym tptr = nat
type_synonym timer_id = "tptr \<times> int"

datatype timer_act = AddTimer int rat "timer_act list" | CancelTimer timer_id

record timer =
  callback :: "timer_act list"
  expiration :: int
  interval :: rat
  repeat :: bool
  seqno :: int

record timer_queue =
  timers :: "(int \<times> tptr) list"
  activeTimers :: "timer_id list"
  callingExpiredTimers :: bool
  cancelingTimers :: "timer_id list"
  theap :: "tptr \<rightharpoonup> timer"
  s_numCreated :: int
  timerfd_at :: "int option"          \<comment> \<open>what the timerfd was last armed for\<close>
  fired :: "(int \<times> int) list"         \<comment> \<open>sequence and expiration of every callback run\<close>

definition UINTPTR_MAX :: nat where "UINTPTR_MAX = 2 ^ 64 - 1"

type_synonym allocator = "(tptr \<rightharpoonup> timer) \<Rightarrow> tptr option"

definition TimerQueue_ctor :: timer_queue where
  "TimerQueue_ctor = \<lparr>timers = [], activeTimers = [], callingExpiredTimers = False, cancelingTimers = [],
     theap = Map.empty, s_numCreated = 0, timerfd_at = None, fired = []\<rparr>"

definition Timer_ctor :: "timer_act list \<Rightarrow> int \<Rightarrow> rat \<Rightarrow> int \<Rightarrow> timer" where
  "Timer_ctor cb whn ival n = \<lparr>callback = cb, expiration = whn, interval = ival, repeat = ival > 0, seqno = n\<rparr>"

definition Timer_restart :: "int \<Rightarrow> timer \<Rightarrow> timer" where
  "Timer_restart now t =
     (if repeat t then t\<lparr>expiration := addTime now (interval t)\<rparr>
      else t\<lparr>expiration := Timestamp_invalid\<rparr>)"

definition deref :: "tptr \<Rightarrow> timer_queue \<Rightarrow> timer result" where
  "deref p q = (case theap q p of None \<Rightarrow> Inl (Undefined ''dead Timer*'') | Some t \<Rightarrow> Inr t)"

definition delete_timer :: "tptr \<Rightarrow> timer_queue \<Rightarrow> timer_queue result" where
  "delete_timer p q =
     (case theap q p of None \<Rightarrow> Inl (Undefined ''double free'')
      | Some t \<Rightarrow> Inr (q\<lparr>theap := (theap q)(p := None)\<rparr>))"

definition sizes_agree :: "timer_queue \<Rightarrow> unit result" where
  "sizes_agree q = cassert (length (timers q) = length (activeTimers q)) ''timers_.size() == activeTimers_.size()''"

definition TimerQueue_insert :: "tptr \<Rightarrow> timer_queue \<Rightarrow> (bool \<times> timer_queue) result" where
  "TimerQueue_insert p q =
     rbind (sizes_agree q) (\<lambda>_.
     rbind (deref p q) (\<lambda>t.
     let whn = expiration t;
         earliestChanged = (case timers q of [] \<Rightarrow> True | e # _ \<Rightarrow> whn < fst e)
     in rbind (cassert ((whn, p) \<notin> set (timers q)) ''result.second'') (\<lambda>_.
        rbind (cassert ((p, seqno t) \<notin> set (activeTimers q)) ''result.second'') (\<lambda>_.
        let q' = q\<lparr>timers := oset_insert (whn, p) (timers q),
                   activeTimers := oset_insert (p, seqno t) (activeTimers q)\<rparr>
        in rbind (sizes_agree q') (\<lambda>_. Inr (earliestChanged, q'))))))"

definition resetTimerfd :: "int \<Rightarrow> timer_queue \<Rightarrow> timer_queue" where
  "resetTimerfd e q = q\<lparr>timerfd_at := Some e\<rparr>"

definition TimerQueue_addTimerInLoop :: "tptr \<Rightarrow> timer_queue \<Rightarrow> timer_queue result" where
  "TimerQueue_addTimerInLoop p q =
     rbind (TimerQueue_insert p q) (\<lambda>(earliestChanged, q').
     if earliestChanged then rbind (deref p q') (\<lambda>t. Inr (resetTimerfd (expiration t) q'))
     else Inr q')"

text \<open>\<open>addTimer\<close> called in the loop thread: allocate, construct, insert; the timer's id.\<close>

definition TimerQueue_addTimer ::
  "allocator \<Rightarrow> timer_act list \<Rightarrow> int \<Rightarrow> rat \<Rightarrow> timer_queue \<Rightarrow> (timer_id \<times> timer_queue) result" where
  "TimerQueue_addTimer alloc cb whn ival q =
     (case alloc (theap q) of
        None \<Rightarrow> Inl (Fatal ''bad_alloc'')
      | Some p \<Rightarrow>
          (let n = s_numCreated q + 1; t = Timer_ctor cb whn ival n
           in rbind (TimerQueue_addTimerInLoop p (q\<lparr>theap := (theap q)(p \<mapsto> t), s_numCreated := n\<rparr>)) (\<lambda>q'.
              Inr ((p, n), q'))))"

definition TimerQueue_cancelInLoop :: "timer_id \<Rightarrow> timer_queue \<Rightarrow> timer_queue result" where
  "TimerQueue_cancelInLoop tid q =
     rbind (sizes_agree q) (\<lambda>_.
     rbind (if tid \<in> set (activeTimers q)
            then rbind (deref (fst tid) q) (\<lambda>t.
                 rbind (cassert ((expiration t, fst tid) \<in> set (timers q)) ''n == 1'') (\<lambda>_.
                 rbind (delete_timer (fst tid) (q\<lparr>timers := oset_erase (expiration t, fst tid) (timers q)\<rparr>)) (\<lambda>q1.
                 Inr (q1\<lparr>activeTimers := oset_erase tid (activeTimers q1)\<rparr>))))
            else if callingExpiredTimers q
            then Inr (q\<lparr>cancelingTimers := oset_insert tid (cancelingTimers q)\<rparr>)
            else Inr q) (\<lambda>q'.
     rbind (sizes_agree q') (\<lambda>_. Inr q')))"

fun run_act :: "allocator \<Rightarrow> timer_act \<Rightarrow> timer_queue \<Rightarrow> timer_queue result" where
  "run_act alloc (AddTimer whn ival cb) q =
     rbind (TimerQueue_addTimer alloc cb whn ival q) (\<lambda>(_, q'). Inr q')"
| "run_act alloc (CancelTimer tid) q = TimerQueue_cancelInLoop tid q"

text \<open>\<open>Timer::run\<close>; the run is recorded.\<close>

definition Timer_run :: "allocator \<Rightarrow> tptr \<Rightarrow> timer_queue \<Rightarrow> timer_queue result" where
  "Timer_run alloc p q =
     rbind (deref p q) (\<lambda>t.
     rfold (run_act alloc) (callback t) (q\<lparr>fired := fired q @ [(seqno t, expiration t)]\<rparr>))"

definition erase_active :: "int \<times> tptr \<Rightarrow> timer_queue \<Rightarrow> timer_queue result" where
  "erase_active e q =
     rbind (deref (snd e) q) (\<lambda>t.
     rbind (cassert ((snd e, seqno t) \<in> set (activeTimers q)) ''n == 1'') (\<lambda>_.
     Inr (q\<lparr>activeTimers := oset_erase (snd e, seqno t) (activeTimers q)\<rparr>)))"

definition TimerQueue_getExpired :: "int \<Rightarrow> timer_queue \<Rightarrow> ((int \<times> tptr) list \<times> timer_queue) result" where
  "TimerQueue_getExpired now q =
     rbind (sizes_agree q) (\<lambda>_.
     let sentry = (now, UINTPTR_MAX);
         expired = takeWhile (\<lambda>e. e < sentry) (timers q);
         rest = dropWhile (\<lambda>e. e < sentry) (timers q)
     in rbind (cassert (case rest of [] \<Rightarrow> True | e # _ \<Rightarrow> now < fst e) ''end == timers_.end() || now < end->first'') (\<lambda>_.
        rbind (rfold erase_active expired (q\<lparr>timers := rest\<rparr>)) (\<lambda>q'.
        rbind (sizes_agree q') (\<lambda>_. Inr (expired, q')))))"

definition reset_one :: "int \<Rightarrow> int \<times> tptr \<Rightarrow> timer_queue \<Rightarrow> timer_queue result" where
  "reset_one now e q =
     rbind (deref (snd e) q) (\<lambda>t.
     if repeat t \<and> (snd e, seqno t) \<notin> set (cancelingTimers q)
     then rbind (TimerQueue_insert (snd e) (q\<lparr>theap := (theap q)(snd e \<mapsto> Timer_restart now t)\<rparr>)) (\<lambda>(_, q').
          Inr q')
     else delete_timer (snd e) q)"

definition TimerQueue_reset :: "(int \<times> tptr) list \<Rightarrow> int \<Rightarrow> timer_queue \<Rightarrow> timer_queue result" where
  "TimerQueue_reset expired now q =
     rbind (rfold (reset_one now) expired q) (\<lambda>q'.
     rbind (case timers q' of [] \<Rightarrow> Inr Timestamp_invalid
            | e # _ \<Rightarrow> rbind (deref (snd e) q') (\<lambda>t. Inr (expiration t))) (\<lambda>nextExpire.
     if Timestamp_valid nextExpire then Inr (resetTimerfd nextExpire q') else Inr q'))"

text \<open>
  \<open>readTimerfd\<close>: the timerfd is armed with a zero \<open>it_interval\<close>, so once it has expired and is read it is
  disarmed.
\<close>

definition readTimerfd :: "timer_queue \<Rightarrow> timer_queue" where
  "readTimerfd q = q\<lparr>timerfd_at := None\<rparr>"

definition TimerQueue_handleRead :: "allocator \<Rightarrow> int \<Rightarrow> timer_queue \<Rightarrow> timer_queue result" where
  "TimerQueue_handleRead alloc now q =
     rbind (TimerQueue_getExpired now (readTimerfd q)) (\<lambda>(expired, q1).
     let q2 = q1\<lparr>callingExpiredTimers := True, cancelingTimers := []\<rparr>
     in rbind (rfold (Timer_run alloc) (map snd expired) q2) (\<lambda>q3.
        TimerQueue_reset expired now (q3\<lparr>callingExpiredTimers := False\<rparr>)))"

definition TimerQueue_dtor :: "timer_queue \<Rightarrow> timer_queue result" where
  "TimerQueue_dtor q = rfold (\<lambda>e. delete_timer (snd e)) (timers q) q"

section \<open>Invariant\<close>

text \<open>Times after the epoch, in a timer and in what its callback schedules.\<close>

fun act_ok :: "timer_act \<Rightarrow> bool" where
  "act_ok (AddTimer whn ival cb) \<longleftrightarrow> 0 < whn \<and> list_all act_ok cb"
| "act_ok (CancelTimer tid) \<longleftrightarrow> True"

definition timer_ok :: "timer \<Rightarrow> bool" where
  "timer_ok t \<longleftrightarrow> 0 < expiration t \<and> (repeat t \<longleftrightarrow> interval t > 0) \<and> list_all act_ok (callback t)"

text \<open>
  \<open>tq_inv E q\<close>: both sets list the same timers, every listed timer is alive with the expiration it is
  filed under, and the live timers are exactly the listed ones and those of \<open>E\<close>, the expired timers
  that \<open>handleRead\<close> has taken out and not yet put back or deleted.
\<close>

definition tid_of :: "(tptr \<rightharpoonup> timer) \<Rightarrow> tptr \<Rightarrow> timer_id" where
  "tid_of h p = (p, seqno (the (h p)))"

definition filed :: "(tptr \<rightharpoonup> timer) \<Rightarrow> int \<times> tptr \<Rightarrow> bool" where
  "filed h e \<longleftrightarrow> (\<exists>t. h (snd e) = Some t \<and> expiration t = fst e)"

definition heap_ok :: "(tptr \<rightharpoonup> timer) \<Rightarrow> bool" where
  "heap_ok h \<longleftrightarrow> (\<forall>p t. h p = Some t \<longrightarrow> p < UINTPTR_MAX \<and> timer_ok t)"

definition tq_inv :: "tptr set \<Rightarrow> timer_queue \<Rightarrow> bool" where
  "tq_inv E q \<longleftrightarrow>
     sorted_wrt (<) (timers q) \<and> sorted_wrt (<) (activeTimers q) \<and>
     (\<forall>e \<in> set (timers q). filed (theap q) e) \<and>
     set (activeTimers q) = tid_of (theap q) ` snd ` set (timers q) \<and>
     dom (theap q) = snd ` set (timers q) \<union> E \<and> snd ` set (timers q) \<inter> E = {} \<and>
     heap_ok (theap q)"

text \<open>The timerfd is armed no later than the earliest timer.\<close>

definition tq_armed :: "timer_queue \<Rightarrow> bool" where
  "tq_armed q \<longleftrightarrow> timers q = [] \<or> (\<exists>a. timerfd_at q = Some a \<and> a \<le> fst (hd (timers q)))"

definition alloc_ok :: "allocator \<Rightarrow> bool" where
  "alloc_ok alloc \<longleftrightarrow> (\<forall>h p. alloc h = Some p \<longrightarrow> h p = None \<and> p < UINTPTR_MAX)"

lemma tq_inv_ctor [simp]: "tq_inv {} TimerQueue_ctor"
  by (simp add: tq_inv_def TimerQueue_ctor_def heap_ok_def)

lemma tq_invD:
  assumes "tq_inv E q"
  shows "sorted_wrt (<) (timers q)" "sorted_wrt (<) (activeTimers q)"
    "e \<in> set (timers q) \<Longrightarrow> filed (theap q) e"
    "set (activeTimers q) = tid_of (theap q) ` snd ` set (timers q)"
    "dom (theap q) = snd ` set (timers q) \<union> E" "snd ` set (timers q) \<inter> E = {}" "heap_ok (theap q)"
  using assms by (simp_all add: tq_inv_def)

lemma tq_inv_cong:
  "timers q' = timers q \<Longrightarrow> activeTimers q' = activeTimers q \<Longrightarrow> theap q' = theap q \<Longrightarrow>
     tq_inv E q' \<longleftrightarrow> tq_inv E q"
  by (simp add: tq_inv_def)

lemma filed_unique: "filed h (e, p) \<Longrightarrow> filed h (e', p) \<Longrightarrow> e = e'"
  by (auto simp: filed_def)

lemma inj_on_timers: "tq_inv E q \<Longrightarrow> inj_on snd (set (timers q))"
  by (rule inj_onI) (metis filed_unique prod.collapse tq_invD(3))

lemma inj_tid_of [simp]: "inj_on (tid_of h) A"
  by (simp add: inj_on_def tid_of_def)

lemma tid_of_eq [simp]: "tid_of h p = tid_of h' p' \<longleftrightarrow> p = p' \<and> seqno (the (h p)) = seqno (the (h' p'))"
  by (auto simp: tid_of_def)

lemma tq_inv_sizes:
  assumes "tq_inv E q"
  shows "length (timers q) = length (activeTimers q)"
proof -
  have "card (set (activeTimers q)) = card (set (timers q))"
    using inj_on_timers [OF assms] by (simp add: tq_invD(4) [OF assms] card_image)
  then show ?thesis
    using tq_invD(1,2) [OF assms] by (simp add: distinct_card strict_sorted_distinct)
qed

lemma sizes_agree_ok [simp]: "tq_inv E q \<Longrightarrow> sizes_agree q = Inr ()"
  by (simp add: sizes_agree_def tq_inv_sizes)

text \<open>A run either ends well or stops because memory is exhausted: no assertion fails, no dead pointer is used.\<close>

definition unless_oom :: "'a result \<Rightarrow> ('a \<Rightarrow> bool) \<Rightarrow> bool" where
  "unless_oom m P \<longleftrightarrow> (case m of Inl e \<Rightarrow> e = Fatal ''bad_alloc'' | Inr x \<Rightarrow> P x)"

lemma unless_oom_Inr [simp]: "unless_oom (Inr x) P \<longleftrightarrow> P x"
  by (simp add: unless_oom_def)

lemma unless_oom_Inl [simp]: "unless_oom (Inl e) P \<longleftrightarrow> e = Fatal ''bad_alloc''"
  by (simp add: unless_oom_def)

lemma unless_oom_rbind: "unless_oom m (\<lambda>x. unless_oom (f x) P) \<Longrightarrow> unless_oom (rbind m f) P"
  by (cases m) auto

lemma unless_oom_mono: "unless_oom m P \<Longrightarrow> (\<And>x. P x \<Longrightarrow> Q x) \<Longrightarrow> unless_oom m Q"
  by (cases m) auto

lemma rspec_unless_oom: "rspec m P \<Longrightarrow> unless_oom m P"
  by (cases m) auto

lemma unless_oom_rfold:
  assumes "\<And>x s. x \<in> set xs \<Longrightarrow> I s \<Longrightarrow> unless_oom (f x s) I" and "I s"
  shows "unless_oom (rfold f xs s) I"
  using assms
proof (induction xs arbitrary: s)
  case (Cons x xs)
  have "unless_oom (f x s) I" using Cons.prems by simp
  then have "unless_oom (f x s) (\<lambda>s'. unless_oom (rfold f xs s') I)"
    by (rule unless_oom_mono) (simp add: Cons)
  then show ?case by (simp add: unless_oom_rbind)
qed simp

section \<open>Insertion and cancellation\<close>

lemma deref_filed: "filed (theap q) (e, p) \<Longrightarrow> \<exists>t. deref p q = Inr t \<and> theap q p = Some t \<and> expiration t = e"
  by (auto simp: filed_def deref_def)

lemma tq_inv_live: "tq_inv E q \<Longrightarrow> p \<in> E \<Longrightarrow> \<exists>t. theap q p = Some t \<and> timer_ok t"
  using tq_invD(5,7) [of E q] unfolding heap_ok_def by blast

definition tq_file :: "tptr \<Rightarrow> timer \<Rightarrow> timer_queue \<Rightarrow> timer_queue" where
  "tq_file p t q = q\<lparr>timers := oset_insert (expiration t, p) (timers q),
                     activeTimers := oset_insert (p, seqno t) (activeTimers q)\<rparr>"

lemma insert_spec:
  assumes inv: "tq_inv E q" and p: "p \<in> E" "theap q p = Some t"
  shows "TimerQueue_insert p q = Inr (timers q = [] \<or> expiration t < fst (hd (timers q)), tq_file p t q)"
    and "tq_inv (E - {p}) (tq_file p t q)"
proof -
  note I = tq_invD [OF inv]
  have nin: "p \<notin> snd ` set (timers q)" using I(6) p by auto
  then have nin': "(e, p) \<notin> set (timers q)" "(p, n) \<notin> set (activeTimers q)" for e n
    by (force simp: I(4) tid_of_def)+
  show inv': "tq_inv (E - {p}) (tq_file p t q)"
    unfolding tq_inv_def
  proof (intro conjI)
    show "\<forall>e \<in> set (timers (tq_file p t q)). filed (theap (tq_file p t q)) e"
      using I(3) p by (auto simp: tq_file_def filed_def)
    show "set (activeTimers (tq_file p t q)) =
            tid_of (theap (tq_file p t q)) ` snd ` set (timers (tq_file p t q))"
      using p by (simp add: tq_file_def I(4) tid_of_def)
  qed (use I p in \<open>auto simp: tq_file_def\<close>)
  show "TimerQueue_insert p q = Inr (timers q = [] \<or> expiration t < fst (hd (timers q)), tq_file p t q)"
    using sizes_agree_ok [OF inv] sizes_agree_ok [OF inv'] nin' p
    by (cases "timers q") (simp_all add: TimerQueue_insert_def deref_def Let_def tq_file_def)
qed

lemma hd_oset_insert:
  "hd (oset_insert x xs) = (if xs = [] \<or> x < hd xs then x else hd xs)"
  by (cases xs) auto

lemma fst_hd_oset_insert:
  fixes xs :: "(int \<times> nat) list"
  shows "fst (hd (oset_insert (w, p) xs)) = (if xs = [] \<or> w < fst (hd xs) then w else fst (hd xs))"
  by (cases xs) auto

text \<open>A fresh timer, allocated and not yet filed.\<close>

lemma tq_inv_new:
  assumes "tq_inv E q" "theap q p = None" "p < UINTPTR_MAX" "timer_ok t"
  shows "tq_inv (insert p E) (q\<lparr>theap := (theap q)(p \<mapsto> t), s_numCreated := n\<rparr>)"
proof -
  note I = tq_invD [OF assms(1)]
  have fresh: "p \<notin> snd ` set (timers q)" "p \<notin> E" using I(5) assms(2) by auto
  then have "tid_of ((theap q)(p \<mapsto> t)) ` snd ` set (timers q) = tid_of (theap q) ` snd ` set (timers q)"
    by (intro image_cong) (auto simp: tid_of_def)
  moreover have "\<forall>e \<in> set (timers q). filed ((theap q)(p \<mapsto> t)) e"
    using I(3) fresh by (force simp: filed_def)
  ultimately show ?thesis
    using I fresh assms by (auto simp: tq_inv_def heap_ok_def)
qed

lemma addTimer_spec:
  assumes "tq_inv E q" "alloc_ok alloc" "0 < whn" "list_all act_ok cb"
  shows "unless_oom (TimerQueue_addTimer alloc cb whn ival q)
           (\<lambda>((p, n), q'). tq_inv E q' \<and> n = s_numCreated q + 1 \<and> theap q p = None \<and>
              theap q' = (theap q)(p \<mapsto> Timer_ctor cb whn ival n) \<and>
              timers q' = oset_insert (whn, p) (timers q) \<and>
              cancelingTimers q' = cancelingTimers q \<and> fired q' = fired q \<and>
              callingExpiredTimers q' = callingExpiredTimers q \<and> (tq_armed q \<longrightarrow> tq_armed q'))"
proof (cases "alloc (theap q)")
  case None
  then show ?thesis by (simp add: TimerQueue_addTimer_def)
next
  case (Some p)
  let ?n = "s_numCreated q + 1"
  let ?t = "Timer_ctor cb whn ival ?n"
  let ?q = "q\<lparr>theap := (theap q)(p \<mapsto> ?t), s_numCreated := ?n\<rparr>"
  have p: "theap q p = None" "p < UINTPTR_MAX" using assms Some by (auto simp: alloc_ok_def)
  have E: "insert p E - {p} = E" using tq_invD(5) [OF assms(1)] p by auto
  have exp: "expiration ?t = whn" by (simp add: Timer_ctor_def)
  have "tq_inv (insert p E) ?q"
    by (rule tq_inv_new) (use assms p in \<open>simp_all add: timer_ok_def Timer_ctor_def\<close>)
  from insert_spec [OF this, of p ?t]
  have ins: "TimerQueue_insert p ?q = Inr (timers q = [] \<or> whn < fst (hd (timers q)), tq_file p ?t ?q)"
    and inv': "tq_inv E (tq_file p ?t ?q)"
    by (simp_all add: E exp)
  have upd: "tq_inv E (resetTimerfd whn (tq_file p ?t ?q))"
    using inv' by (simp add: resetTimerfd_def cong: tq_inv_cong)
  show ?thesis
    by (cases "timers q = [] \<or> whn < fst (hd (timers q))")
       (use ins inv' upd Some p in \<open>simp_all add: TimerQueue_addTimer_def TimerQueue_addTimerInLoop_def
          deref_def tq_file_def resetTimerfd_def Let_def exp tq_armed_def fst_hd_oset_insert\<close>)
qed

lemma hd_oset_erase_ge:
  assumes "sorted_wrt (<) (xs :: (int \<times> nat) list)" "oset_erase x xs \<noteq> []"
  shows "fst (hd xs) \<le> fst (hd (oset_erase x xs))"
proof -
  have "hd (oset_erase x xs) \<in> set xs"
    using assms(2) hd_in_set [of "oset_erase x xs"] by (auto simp: set_oset_erase simp del: hd_in_set)
  moreover have "xs \<noteq> []" using assms(2) by (auto simp: oset_erase_def)
  ultimately show ?thesis
    using assms(1) by (cases xs) (auto simp: less_prod_def)
qed

lemma cancel_spec:
  assumes inv: "tq_inv E q"
  shows "rspec (TimerQueue_cancelInLoop tid q)
           (\<lambda>q'. tq_inv E q' \<and> tid \<notin> set (activeTimers q') \<and> fired q' = fired q \<and>
              callingExpiredTimers q' = callingExpiredTimers q \<and> (\<forall>p \<in> E. theap q' p = theap q p) \<and>
              (tq_armed q \<longrightarrow> tq_armed q') \<and>
              set (timers q') \<subseteq> set (timers q) \<and>
              set (cancelingTimers q') = (if tid \<notin> set (activeTimers q) \<and> callingExpiredTimers q
                 then insert tid (set (cancelingTimers q)) else set (cancelingTimers q)))"
proof (cases "tid \<in> set (activeTimers q)")
  case False
  then show ?thesis
    using inv by (simp add: TimerQueue_cancelInLoop_def tq_armed_def cong: tq_inv_cong)
next
  case True
  note I = tq_invD [OF inv]
  obtain p where p: "tid = tid_of (theap q) p" "p \<in> snd ` set (timers q)" using True I(4) by auto
  then obtain t where t: "theap q p = Some t" "(expiration t, p) \<in> set (timers q)"
    using I(3) by (force simp: filed_def)
  let ?q = "q\<lparr>timers := oset_erase (expiration t, p) (timers q), theap := (theap q)(p := None),
              activeTimers := oset_erase tid (activeTimers q)\<rparr>"
  have rest: "snd ` (set (timers q) - {(expiration t, p)}) = snd ` set (timers q) - {p}"
    using inj_on_timers [OF inv] t by (auto simp: inj_on_def image_iff) force
  have pE: "p \<notin> E" using I(6) p by auto
  have inv': "tq_inv E ?q"
    unfolding tq_inv_def
  proof (intro conjI)
    show "\<forall>e \<in> set (timers ?q). filed (theap ?q) e"
    proof
      fix e assume e: "e \<in> set (timers ?q)"
      then have "snd e \<in> snd ` set (timers q) - {p}" by (simp flip: rest)
      with e I(3) show "filed (theap ?q) e" by (auto simp: filed_def)
    qed
    have "tid_of ((theap q)(p := None)) ` (snd ` set (timers q) - {p}) = tid_of (theap q) ` (snd ` set (timers q) - {p})"
      by (intro image_cong) (auto simp: tid_of_def)
    also have "\<dots> = tid_of (theap q) ` snd ` set (timers q) - {tid}"
      by (auto simp: p)
    finally show "set (activeTimers ?q) = tid_of (theap ?q) ` snd ` set (timers ?q)"
      by (simp add: I(4) rest)
    show "dom (theap ?q) = snd ` set (timers ?q) \<union> E" using I(5) pE by (auto simp: rest)
  qed (use I in \<open>auto simp: heap_ok_def rest\<close>)
  have "TimerQueue_cancelInLoop tid q = Inr ?q"
    using True t p sizes_agree_ok [OF inv] sizes_agree_ok [OF inv']
    by (simp add: TimerQueue_cancelInLoop_def deref_def delete_timer_def tid_of_def)
  moreover have "tq_armed q \<longrightarrow> tq_armed ?q"
    using hd_oset_erase_ge [OF I(1), of "(expiration t, p)"]
    by (auto simp: tq_armed_def oset_erase_def)
  ultimately show ?thesis using inv' pE True by auto
qed

section \<open>Callbacks\<close>

text \<open>What running a callback keeps: the expired timers \<open>E\<close> are neither touched nor filed.\<close>

definition tq_rel :: "tptr set \<Rightarrow> timer_queue \<Rightarrow> timer_queue \<Rightarrow> bool" where
  "tq_rel E q q' \<longleftrightarrow> tq_inv E q' \<and> (\<forall>p \<in> E. theap q' p = theap q p) \<and>
     callingExpiredTimers q' = callingExpiredTimers q \<and>
     set (cancelingTimers q) \<subseteq> set (cancelingTimers q') \<and>
     (callingExpiredTimers q \<or> cancelingTimers q' = cancelingTimers q)"

lemma tq_rel_refl: "tq_inv E q \<Longrightarrow> tq_rel E q q"
  by (simp add: tq_rel_def)

lemma tq_rel_trans: "tq_rel E q q' \<Longrightarrow> tq_rel E q' q'' \<Longrightarrow> tq_rel E q q''"
  by (auto simp: tq_rel_def)

lemma tq_relD: "tq_rel E q q' \<Longrightarrow> tq_inv E q'"
  by (simp add: tq_rel_def)

lemma tq_rel_cancels: "tq_rel E q q' \<Longrightarrow> tid \<in> set (cancelingTimers q) \<Longrightarrow> tid \<in> set (cancelingTimers q')"
  by (auto simp: tq_rel_def)

lemma run_act_spec:
  assumes "tq_inv E q" "alloc_ok alloc" "act_ok a"
  shows "unless_oom (run_act alloc a q)
           (\<lambda>q'. tq_rel E q q' \<and> fired q' = fired q \<and> (tq_armed q \<longrightarrow> tq_armed q'))"
proof (cases a)
  case (AddTimer whn ival cb)
  have "dom (theap q) \<supseteq> E" using tq_invD(5) [OF assms(1)] by simp
  then have E: "theap q p = None \<Longrightarrow> p \<notin> E" for p by auto
  show ?thesis
    using assms AddTimer unfolding AddTimer run_act.simps
    by (intro unless_oom_rbind unless_oom_mono [OF addTimer_spec [where E = E]])
       (auto simp: tq_rel_def dest: E)
next
  case (CancelTimer tid)
  have "TimerQueue_cancelInLoop tid q = Inr q' \<Longrightarrow> \<not> callingExpiredTimers q \<Longrightarrow>
          cancelingTimers q' = cancelingTimers q" for q'
    by (auto simp: TimerQueue_cancelInLoop_def rbind_eq_Inr_iff delete_timer_def split: if_splits option.splits)
  then have "rspec (run_act alloc a q)
     (\<lambda>q'. tq_rel E q q' \<and> fired q' = fired q \<and> (tq_armed q \<longrightarrow> tq_armed q'))"
    unfolding CancelTimer run_act.simps
    by (intro rspec_mono [OF cancel_spec [OF assms(1), of tid]]) (auto simp: tq_rel_def)
  then show ?thesis by (rule rspec_unless_oom)
qed

lemma run_acts_spec:
  assumes "tq_inv E q" "alloc_ok alloc" "list_all act_ok as"
  shows "unless_oom (rfold (run_act alloc) as q) (\<lambda>q'. tq_rel E q q' \<and> fired q' = fired q)"
proof (rule unless_oom_rfold)
  fix a s assume a: "a \<in> set as" and s: "tq_rel E q s \<and> fired s = fired q"
  then have "unless_oom (run_act alloc a s)
     (\<lambda>q'. tq_rel E s q' \<and> fired q' = fired s \<and> (tq_armed s \<longrightarrow> tq_armed q'))"
    using assms by (intro run_act_spec) (auto simp: tq_rel_def list_all_iff)
  then show "unless_oom (run_act alloc a s) (\<lambda>q'. tq_rel E q q' \<and> fired q' = fired q)"
    by (rule unless_oom_mono) (use s tq_rel_trans in auto)
qed (simp add: assms tq_rel_refl)

text \<open>The log of a run of the timers \<open>ps\<close>.\<close>

definition run_log :: "(tptr \<rightharpoonup> timer) \<Rightarrow> tptr list \<Rightarrow> (int \<times> int) list" where
  "run_log h ps = map (\<lambda>p. (seqno (the (h p)), expiration (the (h p)))) ps"

lemma run_spec:
  assumes "tq_inv E q" "alloc_ok alloc" "p \<in> E"
  shows "unless_oom (Timer_run alloc p q) (\<lambda>q'. tq_rel E q q' \<and> fired q' = fired q @ run_log (theap q) [p])"
proof -
  obtain t where t: "theap q p = Some t" "timer_ok t" using tq_inv_live assms by blast
  let ?q = "q\<lparr>fired := fired q @ [(seqno t, expiration t)]\<rparr>"
  have "tq_inv E ?q" using assms(1) by (simp cong: tq_inv_cong)
  then have "unless_oom (rfold (run_act alloc) (callback t) ?q) (\<lambda>q'. tq_rel E ?q q' \<and> fired q' = fired ?q)"
    using assms(2) t by (intro run_acts_spec) (auto simp: timer_ok_def)
  then show ?thesis
    using t by (simp add: Timer_run_def deref_def run_log_def tq_rel_def)
qed

lemma run_all_spec:
  assumes "tq_inv E q" "alloc_ok alloc" "set ps \<subseteq> E"
  shows "unless_oom (rfold (Timer_run alloc) ps q) (\<lambda>q'. tq_rel E q q' \<and> fired q' = fired q @ run_log (theap q) ps)"
  using assms
proof (induction ps arbitrary: q)
  case Nil
  then show ?case by (simp add: tq_rel_refl run_log_def)
next
  case (Cons p ps)
  have "unless_oom (rfold (Timer_run alloc) ps s)
          (\<lambda>q'. tq_rel E q q' \<and> fired q' = fired q @ run_log (theap q) (p # ps))"
    if s: "tq_rel E q s \<and> fired s = fired q @ run_log (theap q) [p]" for s
  proof -
    have "unless_oom (rfold (Timer_run alloc) ps s) (\<lambda>q'. tq_rel E s q' \<and> fired q' = fired s @ run_log (theap s) ps)"
      by (rule Cons.IH) (use Cons.prems s tq_relD in auto)
    moreover have "run_log (theap s) ps = run_log (theap q) ps"
      using s Cons.prems by (auto simp: run_log_def tq_rel_def)
    ultimately show ?thesis
      using s by (auto elim!: unless_oom_mono intro: tq_rel_trans simp: run_log_def)
  qed
  then show ?case
    using run_spec [OF Cons.prems(1,2), of p] Cons.prems(3)
    by (auto intro!: unless_oom_rbind elim!: unless_oom_mono)
qed

section \<open>Expired timers\<close>

lemma takeWhile_sorted:
  assumes "sorted_wrt (<) (xs :: 'a::linorder list)" "\<And>x y. x < y \<Longrightarrow> P y \<Longrightarrow> P x"
  shows "takeWhile P xs = filter P xs" "dropWhile P xs = filter (\<lambda>x. \<not> P x) xs"
  using assms(1)
proof (induction xs)
  case (Cons x xs)
  have none: "filter P xs = []" "filter (\<lambda>x. \<not> P x) xs = xs" if "\<not> P x" "sorted_wrt (<) (x # xs)"
    using that assms(2) by (auto simp: filter_empty_conv filter_id_conv)
  { case 1 with Cons none show ?case by auto }
  { case 2 with Cons none show ?case by auto }
qed simp_all

definition due :: "int \<Rightarrow> timer_queue \<Rightarrow> (int \<times> tptr) list" where
  "due now q = filter (\<lambda>e. fst e \<le> now) (timers q)"

definition undue :: "int \<Rightarrow> timer_queue \<Rightarrow> (int \<times> tptr) list" where
  "undue now q = filter (\<lambda>e. now < fst e) (timers q)"

lemma split_due:
  assumes "tq_inv E q"
  shows "takeWhile (\<lambda>e. e < (now, UINTPTR_MAX)) (timers q) = due now q"
    and "dropWhile (\<lambda>e. e < (now, UINTPTR_MAX)) (timers q) = undue now q"
proof -
  note I = tq_invD [OF assms]
  have eq: "e < (now, UINTPTR_MAX) \<longleftrightarrow> fst e \<le> now" if "e \<in> set (timers q)" for e
    using I(3) [OF that] I(7) by (cases e) (auto simp: filed_def heap_ok_def)
  show "takeWhile (\<lambda>e. e < (now, UINTPTR_MAX)) (timers q) = due now q"
    using takeWhile_sorted(1) [OF I(1), of "\<lambda>e. e < (now, UINTPTR_MAX)"] eq
    by (auto simp: due_def intro!: filter_cong)
  show "dropWhile (\<lambda>e. e < (now, UINTPTR_MAX)) (timers q) = undue now q"
    using takeWhile_sorted(2) [OF I(1), of "\<lambda>e. e < (now, UINTPTR_MAX)"] eq
    by (auto simp: undue_def intro!: filter_cong)
qed

lemma erase_active_all:
  assumes "tid_of (theap q) ` snd ` set es \<subseteq> set (activeTimers q)" "snd ` set es \<subseteq> dom (theap q)"
    "distinct (map snd es)"
  shows "rfold erase_active es q =
           Inr (q\<lparr>activeTimers := filter (\<lambda>a. a \<notin> tid_of (theap q) ` snd ` set es) (activeTimers q)\<rparr>)"
  using assms
proof (induction es arbitrary: q)
  case (Cons e es)
  obtain t where t: "theap q (snd e) = Some t" using Cons.prems by auto
  let ?tid = "tid_of (theap q) (snd e)"
  let ?q = "q\<lparr>activeTimers := oset_erase ?tid (activeTimers q)\<rparr>"
  have "erase_active e q = Inr ?q"
    using Cons.prems t by (simp add: erase_active_def deref_def tid_of_def)
  moreover have "rfold erase_active es ?q =
     Inr (?q\<lparr>activeTimers := filter (\<lambda>a. a \<notin> tid_of (theap ?q) ` snd ` set es) (activeTimers ?q)\<rparr>)"
    by (rule Cons.IH) (use Cons.prems in \<open>auto simp: image_iff\<close>)
  ultimately show ?case by (auto simp: oset_erase_def intro!: filter_cong)
qed simp

lemma sorted_distinct_snd: "tq_inv E q \<Longrightarrow> distinct (map snd (timers q))"
  by (simp add: distinct_map inj_on_timers strict_sorted_distinct tq_invD(1))

lemma getExpired_spec:
  assumes inv: "tq_inv {} q"
  shows "rspec (TimerQueue_getExpired now q)
           (\<lambda>(es, q'). es = due now q \<and> timers q' = undue now q \<and> theap q' = theap q \<and>
              fired q' = fired q \<and> timerfd_at q' = timerfd_at q \<and> s_numCreated q' = s_numCreated q \<and>
              tq_inv (snd ` set (due now q)) q')"
proof -
  note I = tq_invD [OF inv]
  let ?D = "snd ` set (due now q)" and ?U = "snd ` set (undue now q)"
  let ?q = "q\<lparr>timers := undue now q, activeTimers := filter (\<lambda>a. a \<notin> tid_of (theap q) ` ?D) (activeTimers q)\<rparr>"
  have part: "set (timers q) = set (due now q) \<union> set (undue now q)"
    and disj: "set (due now q) \<inter> set (undue now q) = {}"
    by (auto simp: due_def undue_def)
  have disj': "?D \<inter> ?U = {}"
    using inj_on_timers [OF inv] disj part by (auto simp: inj_on_def)
  have inv': "tq_inv ?D ?q"
    unfolding tq_inv_def
  proof (intro conjI)
    show "set (activeTimers ?q) = tid_of (theap ?q) ` snd ` set (timers ?q)"
    proof -
      have "tid_of (theap q) ` ?U \<inter> tid_of (theap q) ` ?D = {}"
        using disj' by (simp add: Int_commute flip: image_Int [OF inj_tid_of])
      moreover have "set (activeTimers q) = tid_of (theap q) ` ?D \<union> tid_of (theap q) ` ?U"
        by (simp add: I(4) part image_Un)
      ultimately show ?thesis by (simp add: set_eq_iff) blast
    qed
    show "dom (theap ?q) = snd ` set (timers ?q) \<union> ?D" by (simp add: I(5) part image_Un Un_commute)
    show "snd ` set (timers ?q) \<inter> ?D = {}" using disj' by auto
  qed (use I in \<open>auto simp: undue_def sorted_wrt_filter\<close>)
  have "rfold erase_active (due now q) (q\<lparr>timers := undue now q\<rparr>) = Inr ?q"
  proof (subst erase_active_all)
    show "tid_of (theap (q\<lparr>timers := undue now q\<rparr>)) ` ?D \<subseteq> set (activeTimers (q\<lparr>timers := undue now q\<rparr>))"
      by (simp add: I(4) part image_Un)
    show "?D \<subseteq> dom (theap (q\<lparr>timers := undue now q\<rparr>))" by (simp add: I(5) part image_Un)
    show "distinct (map snd (due now q))"
      by (simp add: due_def sorted_distinct_snd [OF inv] distinct_map_filter)
  qed simp
  moreover have "case undue now q of [] \<Rightarrow> True | e # _ \<Rightarrow> now < fst e"
  proof -
    have "\<forall>e \<in> set (undue now q). now < fst e" by (simp add: undue_def)
    then show ?thesis by (cases "undue now q") auto
  qed
  ultimately show ?thesis
    using inv' sizes_agree_ok [OF inv] sizes_agree_ok [OF inv']
    by (simp add: TimerQueue_getExpired_def split_due [OF inv] Let_def)
qed

section \<open>Re-arming and deleting\<close>

definition rearms :: "timer_queue \<Rightarrow> tptr \<Rightarrow> bool" where
  "rearms q p \<longleftrightarrow> repeat (the (theap q p)) \<and> tid_of (theap q) p \<notin> set (cancelingTimers q)"

lemma timer_ok_restart: "timer_ok t \<Longrightarrow> repeat t \<Longrightarrow> 0 < now \<Longrightarrow> timer_ok (Timer_restart now t)"
  by (auto simp: timer_ok_def Timer_restart_def addTime_def trunc_rat_def kMicroSecondsPerSecond_def
        intro: add_pos_nonneg)

lemma reset_one_spec:
  assumes inv: "tq_inv E q" and p: "p \<in> E" "0 < now"
  shows "rspec (reset_one now (e, p) q)
           (\<lambda>q'. tq_inv (E - {p}) q' \<and> cancelingTimers q' = cancelingTimers q \<and> fired q' = fired q \<and>
              theap q' = (theap q)(p := (if rearms q p then Some (Timer_restart now (the (theap q p))) else None)))"
proof -
  note I = tq_invD [OF inv]
  obtain t where t: "theap q p = Some t" "timer_ok t" using tq_inv_live [OF inv p(1)] by blast
  have nin: "p \<notin> snd ` set (timers q)" using I(6) p by auto
  have keep: "tid_of ((theap q)(p := x)) ` snd ` set (timers q) = tid_of (theap q) ` snd ` set (timers q)" for x
    using nin by (intro image_cong) (auto simp: tid_of_def)
  have keep': "\<forall>e \<in> set (timers q). filed ((theap q)(p := x)) e" for x
    using I(3) nin by (force simp: filed_def)
  show ?thesis
  proof (cases "rearms q p")
    case True
    let ?q = "q\<lparr>theap := (theap q)(p \<mapsto> Timer_restart now t)\<rparr>"
    have rep: "repeat t" using True t by (simp add: rearms_def)
    have "tq_inv E ?q"
      using I keep keep' timer_ok_restart [OF t(2) rep p(2)] p t by (auto simp: tq_inv_def heap_ok_def)
    from insert_spec [OF this p(1), of "Timer_restart now t"]
    show ?thesis
      using True t by (simp add: reset_one_def deref_def rearms_def tid_of_def tq_file_def)
  next
    case False
    have "tq_inv (E - {p}) (q\<lparr>theap := (theap q)(p := None)\<rparr>)"
      using I keep keep' nin by (auto simp: tq_inv_def heap_ok_def)
    then show ?thesis
      using False t by (auto simp: reset_one_def deref_def rearms_def tid_of_def delete_timer_def)
  qed
qed

definition reset_heap :: "int \<Rightarrow> tptr set \<Rightarrow> timer_queue \<Rightarrow> tptr \<rightharpoonup> timer" where
  "reset_heap now E q = (\<lambda>p. if p \<notin> E then theap q p
     else if rearms q p then Some (Timer_restart now (the (theap q p))) else None)"

lemma reset_all_spec:
  assumes "tq_inv (snd ` set es) q" "distinct (map snd es)" "0 < now"
  shows "rspec (rfold (reset_one now) es q)
           (\<lambda>q'. tq_inv {} q' \<and> cancelingTimers q' = cancelingTimers q \<and> fired q' = fired q \<and>
              theap q' = reset_heap now (snd ` set es) q)"
  using assms
proof (induction es arbitrary: q)
  case (Cons e es)
  obtain w p where e: "e = (w, p)" by (cases e)
  have E: "snd ` set (e # es) - {p} = snd ` set es" using Cons.prems(2) e by auto
  from reset_one_spec [OF Cons.prems(1), of p now w] obtain s where s: "reset_one now e q = Inr s"
      "tq_inv (snd ` set es) s" "cancelingTimers s = cancelingTimers q" "fired s = fired q"
      "theap s = (theap q)(p := (if rearms q p then Some (Timer_restart now (the (theap q p))) else None))"
    using Cons.prems(3) unfolding rspec_iff E by (auto simp: e)
  have "rearms s x = rearms q x" if "x \<noteq> p" for x
    using that s by (simp add: rearms_def tid_of_def)
  moreover have "p \<notin> snd ` set es" using Cons.prems(2) e by auto
  ultimately have "reset_heap now (snd ` set es) s x = reset_heap now (snd ` set (e # es)) q x" for x
    by (cases "x = p"; cases "x \<in> snd ` set es") (simp_all add: reset_heap_def s(5) e)
  then have "reset_heap now (snd ` set es) s = reset_heap now (snd ` set (e # es)) q" by blast
  moreover have "rspec (rfold (reset_one now) es s)
           (\<lambda>q'. tq_inv {} q' \<and> cancelingTimers q' = cancelingTimers s \<and> fired q' = fired s \<and>
              theap q' = reset_heap now (snd ` set es) s)"
    by (rule Cons.IH) (use s Cons.prems in auto)
  ultimately show ?case using s by simp
qed (simp add: reset_heap_def)

lemma reset_spec:
  assumes "tq_inv (snd ` set es) q" "distinct (map snd es)" "0 < now"
  shows "rspec (TimerQueue_reset es now q)
           (\<lambda>q'. tq_inv {} q' \<and> tq_armed q' \<and> cancelingTimers q' = cancelingTimers q \<and> fired q' = fired q \<and>
              theap q' = reset_heap now (snd ` set es) q)"
proof -
  have "rspec (rbind (case timers s of [] \<Rightarrow> Inr Timestamp_invalid
              | e # _ \<Rightarrow> rbind (deref (snd e) s) (\<lambda>t. Inr (expiration t)))
            (\<lambda>n. if Timestamp_valid n then Inr (resetTimerfd n s) else Inr s))
          (\<lambda>q'. tq_armed q' \<and> (\<exists>a. q' = s\<lparr>timerfd_at := a\<rparr>))" if "tq_inv {} s" for s
  proof (cases "timers s")
    case Nil
    then show ?thesis
      by (auto simp: Timestamp_valid_def Timestamp_invalid_def tq_armed_def intro: exI [of _ "timerfd_at s"])
  next
    case (Cons e xs)
    then obtain t where "theap s (snd e) = Some t" "expiration t = fst e" "timer_ok t"
      using tq_invD(3) [OF \<open>tq_inv {} s\<close>, of e] tq_invD(7) [OF \<open>tq_inv {} s\<close>] by (auto simp: filed_def heap_ok_def)
    with Cons show ?thesis
      by (auto simp: deref_def Timestamp_valid_def timer_ok_def tq_armed_def resetTimerfd_def)
  qed
  note arm = this
  show ?thesis
    unfolding TimerQueue_reset_def rspec_rbind
  proof (rule rspec_mono [OF reset_all_spec [OF assms]], elim conjE)
    fix s assume s: "tq_inv {} s" "cancelingTimers s = cancelingTimers q" "fired s = fired q"
      "theap s = reset_heap now (snd ` set es) q"
    have "tq_inv {} (s\<lparr>timerfd_at := a\<rparr>)" for a using s(1) by (simp cong: tq_inv_cong)
    with s show "rspec (case timers s of [] \<Rightarrow> Inr Timestamp_invalid
              | e # _ \<Rightarrow> rbind (deref (snd e) s) (\<lambda>t. Inr (expiration t)))
            (\<lambda>n. rspec (if Timestamp_valid n then Inr (resetTimerfd n s) else Inr s)
          (\<lambda>q'. tq_inv {} q' \<and> tq_armed q' \<and> cancelingTimers q' = cancelingTimers q \<and> fired q' = fired q \<and>
              theap q' = reset_heap now (snd ` set es) q))"
      by (intro rspec_mono [OF arm [OF s(1), unfolded rspec_rbind]]) (auto elim!: rspec_mono)
  qed
qed

section \<open>The whole of \<open>handleRead\<close>\<close>

lemma tq_inv_flags [simp]:
  "tq_inv E (q\<lparr>callingExpiredTimers := b\<rparr>) = tq_inv E q" "tq_inv E (q\<lparr>cancelingTimers := c\<rparr>) = tq_inv E q"
  "tq_inv E (readTimerfd q) = tq_inv E q"
  by (simp_all add: tq_inv_def readTimerfd_def)

lemma due_readTimerfd [simp]: "due now (readTimerfd q) = due now q" "undue now (readTimerfd q) = undue now q"
  by (simp_all add: due_def undue_def readTimerfd_def)

lemma readTimerfd_fields [simp]: "theap (readTimerfd q) = theap q" "fired (readTimerfd q) = fired q"
  by (simp_all add: readTimerfd_def)

lemma due_distinct: "tq_inv E q \<Longrightarrow> distinct (map snd (due now q))"
  by (simp add: due_def sorted_distinct_snd distinct_map_filter)

text \<open>
  \<open>handleRead\<close> for callbacks that establish \<open>J\<close>, a property of the queue that re-arming does not look at
  beyond \<open>cancelingTimers\<close>.
\<close>

lemma handleRead_via:
  assumes inv: "tq_inv {} q" and now: "0 < now"
    and run: "\<And>s. tq_inv (snd ` set (due now q)) s \<Longrightarrow> callingExpiredTimers s \<Longrightarrow> theap s = theap q \<Longrightarrow>
        fired s = fired q \<Longrightarrow>
        unless_oom (rfold (Timer_run alloc) (map snd (due now q)) s)
          (\<lambda>s'. tq_rel (snd ` set (due now q)) s s' \<and>
                fired s' = fired s @ run_log (theap s) (map snd (due now q)) \<and> J (set (cancelingTimers s')))"
  shows "unless_oom (TimerQueue_handleRead alloc now q)
           (\<lambda>q'. tq_inv {} q' \<and> tq_armed q' \<and>
              fired q' = fired q @ run_log (theap q) (map snd (due now q)) \<and> J (set (cancelingTimers q')) \<and>
              (\<forall>p \<in> snd ` set (due now q). theap q' p =
                 (if repeat (the (theap q p)) \<and> tid_of (theap q) p \<notin> set (cancelingTimers q')
                  then Some (Timer_restart now (the (theap q p))) else None)))"
proof -
  let ?D = "snd ` set (due now q)"
  have "tq_inv {} (readTimerfd q)" using inv by simp
  from getExpired_spec [OF this, of now] obtain q1 where
      q1: "TimerQueue_getExpired now (readTimerfd q) = Inr (due now q, q1)" "theap q1 = theap q"
        "fired q1 = fired q" "tq_inv ?D q1"
    by (auto simp: rspec_iff)
  let ?q2 = "q1\<lparr>callingExpiredTimers := True, cancelingTimers := []\<rparr>"
  have "unless_oom (rfold (Timer_run alloc) (map snd (due now q)) ?q2)
          (\<lambda>s'. tq_rel ?D ?q2 s' \<and> fired s' = fired ?q2 @ run_log (theap ?q2) (map snd (due now q)) \<and>
                J (set (cancelingTimers s')))"
    by (rule run) (use q1 in simp_all)
  then show ?thesis
    unfolding TimerQueue_handleRead_def q1(1) rbind_Inr prod.case Let_def
  proof (intro unless_oom_rbind, elim unless_oom_mono conjE)
    fix s assume s: "tq_rel ?D ?q2 s" "fired s = fired ?q2 @ run_log (theap ?q2) (map snd (due now q))"
      "J (set (cancelingTimers s))"
    have "tq_inv ?D (s\<lparr>callingExpiredTimers := False\<rparr>)" using tq_relD [OF s(1)] by simp
    note reset_spec [OF this due_distinct [OF inv] now]
    moreover have "theap s p = theap q p" if "p \<in> ?D" for p
      using that s(1) q1(2) unfolding tq_rel_def by auto
    then have "reset_heap now ?D (s\<lparr>callingExpiredTimers := False\<rparr>) p =
        (if repeat (the (theap q p)) \<and> tid_of (theap q) p \<notin> set (cancelingTimers s)
         then Some (Timer_restart now (the (theap q p))) else None)" if "p \<in> ?D" for p
      using that by (simp add: reset_heap_def rearms_def tid_of_def)
    ultimately show "unless_oom (TimerQueue_reset (due now q) now (s\<lparr>callingExpiredTimers := False\<rparr>))
       (\<lambda>q'. tq_inv {} q' \<and> tq_armed q' \<and>
              fired q' = fired q @ run_log (theap q) (map snd (due now q)) \<and> J (set (cancelingTimers q')) \<and>
              (\<forall>p \<in> ?D. theap q' p =
                 (if repeat (the (theap q p)) \<and> tid_of (theap q) p \<notin> set (cancelingTimers q')
                  then Some (Timer_restart now (the (theap q p))) else None)))"
      using s(2,3) q1(2,3)
      by (intro rspec_unless_oom) (erule rspec_mono, simp)
  qed
qed

text \<open>A cancellation of an expired timer in a callback is recorded and stays recorded.\<close>

lemma unless_oom_rfold_hit:
  assumes "\<And>x s. x \<in> set xs \<Longrightarrow> I s \<Longrightarrow> unless_oom (f x s) (\<lambda>s'. I s' \<and> (J s \<longrightarrow> J s'))"
    and "I s" "x0 \<in> set xs" "\<And>s. I s \<Longrightarrow> unless_oom (f x0 s) J"
  shows "unless_oom (rfold f xs s) (\<lambda>s. I s \<and> J s)"
  using assms(1-3)
proof (induction xs arbitrary: s)
  case (Cons x xs)
  have step: "unless_oom (f x s) (\<lambda>s'. I s' \<and> (J s \<longrightarrow> J s'))" using Cons.prems by simp
  have keep: "unless_oom (rfold f xs s') (\<lambda>s. I s \<and> J s)" if "I s'" "J s'" for s'
  proof (rule unless_oom_rfold)
    fix y r assume "y \<in> set xs" "I r \<and> J r"
    then have "unless_oom (f y r) (\<lambda>s'. I s' \<and> (J r \<longrightarrow> J s'))" "J r" using Cons.prems(1) [of y r] by simp_all
    then show "unless_oom (f y r) (\<lambda>s. I s \<and> J s)" by (cases "f y r") auto
  qed (simp add: that)
  show ?case
  proof (cases "x = x0")
    case True
    with assms(4) [OF Cons.prems(2)] step have "unless_oom (f x s) (\<lambda>s'. I s' \<and> J s')"
      by (cases "f x s") auto
    then show ?thesis using keep by (auto intro!: unless_oom_rbind elim!: unless_oom_mono)
  next
    case False
    then have "x0 \<in> set xs" using Cons.prems by simp
    then have "unless_oom (rfold f xs s') (\<lambda>s. I s \<and> J s)" if "I s'" for s'
      using Cons.IH [of s'] Cons.prems(1) that by simp
    then show ?thesis using step by (auto intro!: unless_oom_rbind elim!: unless_oom_mono)
  qed
qed simp

lemma run_acts_cancel:
  assumes "tq_inv E q" "alloc_ok alloc" "list_all act_ok as" "callingExpiredTimers q"
    "CancelTimer tid \<in> set as" "fst tid \<in> E"
  shows "unless_oom (rfold (run_act alloc) as q)
           (\<lambda>q'. (tq_rel E q q' \<and> fired q' = fired q) \<and> tid \<in> set (cancelingTimers q'))"
proof (rule unless_oom_rfold_hit)
  fix a s assume a: "a \<in> set as" and s: "tq_rel E q s \<and> fired s = fired q"
  then have "unless_oom (run_act alloc a s)
     (\<lambda>q'. tq_rel E s q' \<and> fired q' = fired s \<and> (tq_armed s \<longrightarrow> tq_armed q'))"
    using assms by (intro run_act_spec) (auto simp: tq_rel_def list_all_iff)
  then show "unless_oom (run_act alloc a s) (\<lambda>q'. (tq_rel E q q' \<and> fired q' = fired q) \<and>
      (tid \<in> set (cancelingTimers s) \<longrightarrow> tid \<in> set (cancelingTimers q')))"
    by (rule unless_oom_mono) (use s tq_rel_trans [of E q s] tq_rel_cancels [of E s] in auto)
next
  fix s assume s: "tq_rel E q s \<and> fired s = fired q"
  have "tid \<notin> set (activeTimers s)" "callingExpiredTimers s"
  proof -
    have inv: "tq_inv E s" using s by (simp add: tq_rel_def)
    have "fst tid \<notin> snd ` set (timers s)" using tq_invD(6) [OF inv] assms(6) by auto
    then show "tid \<notin> set (activeTimers s)" by (force simp: tq_invD(4) [OF inv] tid_of_def)
    show "callingExpiredTimers s" using s assms(4) by (simp add: tq_rel_def)
  qed
  then have "rspec (run_act alloc (CancelTimer tid) s) (\<lambda>q'. tid \<in> set (cancelingTimers q'))"
    using cancel_spec [of E s tid] s by (auto simp: tq_rel_def elim!: rspec_mono)
  then show "unless_oom (run_act alloc (CancelTimer tid) s) (\<lambda>q'. tid \<in> set (cancelingTimers q'))"
    by (rule rspec_unless_oom)
qed (use assms in \<open>simp_all add: tq_rel_refl\<close>)

lemma run_all_cancel:
  assumes "tq_inv E q" "alloc_ok alloc" "set ps \<subseteq> E" "callingExpiredTimers q"
    "p0 \<in> set ps" "CancelTimer tid \<in> set (callback (the (theap q p0)))" "fst tid \<in> E"
  shows "unless_oom (rfold (Timer_run alloc) ps q) (\<lambda>q'. tq_rel E q q' \<and> tid \<in> set (cancelingTimers q'))"
proof (rule unless_oom_rfold_hit [where ?x0.0 = p0])
  fix p s assume "p \<in> set ps" and s: "tq_rel E q s"
  then have "unless_oom (Timer_run alloc p s) (\<lambda>q'. tq_rel E s q' \<and> fired q' = fired s @ run_log (theap s) [p])"
    using assms by (intro run_spec) (auto dest: tq_relD)
  then show "unless_oom (Timer_run alloc p s)
      (\<lambda>q'. tq_rel E q q' \<and> (tid \<in> set (cancelingTimers s) \<longrightarrow> tid \<in> set (cancelingTimers q')))"
    by (rule unless_oom_mono) (use s tq_rel_trans [of E q s] tq_rel_cancels [of E s] in auto)
next
  fix s assume s: "tq_rel E q s"
  obtain t where t: "theap q p0 = Some t" "timer_ok t" using tq_inv_live assms(1,3,5) by blast
  moreover have "theap s p0 = theap q p0" using s assms(3,5) by (auto simp: tq_rel_def)
  moreover have "unless_oom (rfold (run_act alloc) (callback t) (s\<lparr>fired := fs\<rparr>))
      (\<lambda>q'. tid \<in> set (cancelingTimers q'))" for fs
    using s assms t
    by (intro unless_oom_mono [OF run_acts_cancel [where E = E]])
       (auto simp: tq_rel_def timer_ok_def tq_inv_def)
  ultimately show "unless_oom (Timer_run alloc p0 s) (\<lambda>q'. tid \<in> set (cancelingTimers q'))"
    by (simp add: Timer_run_def deref_def)
qed (use assms in \<open>simp_all add: tq_rel_refl\<close>)

section \<open>Every run of the queue\<close>

text \<open>
  The operations the loop thread performs between callbacks, each with an allocator of its own choice:
  \<open>addTimer\<close>, \<open>cancel\<close> and \<open>handleRead\<close> when the timerfd is readable.
\<close>

inductive tq_step :: "timer_queue \<Rightarrow> timer_queue \<Rightarrow> bool" where
  tq_add: "alloc_ok alloc \<Longrightarrow> 0 < whn \<Longrightarrow> list_all act_ok cb \<Longrightarrow>
      TimerQueue_addTimer alloc cb whn ival q = Inr (tid, q') \<Longrightarrow> tq_step q q'"
| tq_cancel: "TimerQueue_cancelInLoop tid q = Inr q' \<Longrightarrow> tq_step q q'"
| tq_fire: "alloc_ok alloc \<Longrightarrow> 0 < now \<Longrightarrow> TimerQueue_handleRead alloc now q = Inr q' \<Longrightarrow> tq_step q q'"

lemma handleRead_spec:
  assumes "tq_inv {} q" "alloc_ok alloc" "0 < now"
  shows "unless_oom (TimerQueue_handleRead alloc now q)
           (\<lambda>q'. tq_inv {} q' \<and> tq_armed q' \<and>
              fired q' = fired q @ run_log (theap q) (map snd (due now q)) \<and> True \<and>
              (\<forall>p \<in> snd ` set (due now q). theap q' p =
                 (if repeat (the (theap q p)) \<and> tid_of (theap q) p \<notin> set (cancelingTimers q')
                  then Some (Timer_restart now (the (theap q p))) else None)))"
  by (rule handleRead_via [OF assms(1,3)])
     (use assms in \<open>auto intro!: unless_oom_mono [OF run_all_spec]\<close>)

interpretation tq: inductive_invariant "(=) TimerQueue_ctor" tq_step "\<lambda>q. tq_inv {} q \<and> tq_armed q"
proof
  show "TimerQueue_ctor = s \<Longrightarrow> tq_inv {} s \<and> tq_armed s" for s
    by (auto simp: tq_armed_def) (simp add: TimerQueue_ctor_def)
next
  fix s t assume "tq_inv {} s \<and> tq_armed s" "tq_step s t"
  then have inv: "tq_inv {} s" and arm: "tq_armed s" and st: "tq_step s t" by auto
  from st show "tq_inv {} t \<and> tq_armed t"
  proof cases
    case (tq_add alloc whn cb ival tid)
    then show ?thesis using addTimer_spec [OF inv, of alloc whn cb ival] arm by (cases tid) auto
  next
    case (tq_cancel tid)
    then show ?thesis using cancel_spec [OF inv, of tid] arm by simp
  next
    case (tq_fire alloc now)
    then show ?thesis using handleRead_spec [OF inv, of alloc now] by simp
  qed
qed

lemma dtor_frees:
  assumes "\<forall>e \<in> set es. snd e \<in> dom (theap q)" "distinct (map snd es)"
  shows "rspec (rfold (\<lambda>e. delete_timer (snd e)) es q) (\<lambda>q'. theap q' = theap q |` (- snd ` set es))"
  using assms
proof (induction es arbitrary: q)
  case (Cons e es)
  obtain t where t: "theap q (snd e) = Some t" using Cons.prems by auto
  let ?q = "q\<lparr>theap := (theap q)(snd e := None)\<rparr>"
  have "snd x \<noteq> snd e" if "x \<in> set es" for x using Cons.prems(2) that by (metis distinct.simps(2) image_eqI list.set_map list.simps(9))
  then have "rspec (rfold (\<lambda>e. delete_timer (snd e)) es ?q) (\<lambda>q'. theap q' = theap ?q |` (- snd ` set es))"
    by (intro Cons.IH) (use Cons.prems in \<open>simp_all add: dom_def\<close>)
  moreover have "theap ?q |` (- snd ` set es) = theap q |` (- snd ` set (e # es))"
    by (auto simp: restrict_map_def)
  moreover have "delete_timer (snd e) q = Inr ?q" using t by (simp add: delete_timer_def)
  ultimately show ?case by simp
qed (simp add: restrict_map_def)

lemma howMuchTimeFromNow_bounds:
  "case howMuchTimeFromNow now whn of (sec, nsec) \<Rightarrow>
     0 \<le> nsec \<and> nsec < 1000000000 \<and> 0 \<le> sec \<and> sec * 1000000000 + nsec = 1000 * max 100 (whn - now)"
proof -
  have "us div 1000000 * 1000000000 + us mod 1000000 * 1000 = 1000 * us" for us :: int
    using mult_div_mod_eq [of 1000000 us] by linarith
  then show ?thesis
    by (auto simp: howMuchTimeFromNow_def kMicroSecondsPerSecond_def Let_def max_def pos_imp_zdiv_nonneg_iff
          mult.commute)
qed

lemma run_log_due:
  assumes "tq_inv E q"
  shows "run_log (theap q) (map snd (due now q)) = map (\<lambda>(e, p). (seqno (the (theap q p)), e)) (due now q)"
  using tq_invD(3) [OF assms] by (fastforce simp: run_log_def due_def filed_def)

lemma due_sorted: "tq_inv E q \<Longrightarrow> sorted (map fst (due now q))"
proof -
  assume "tq_inv E q"
  then have "sorted_wrt (<) (due now q)" by (simp add: due_def tq_invD(1) sorted_wrt_filter)
  then show ?thesis
    unfolding sorted_map by (rule sorted_wrt_mono_rel [rotated]) (auto simp: less_prod_def)
qed

section \<open>Properties\<close>

text \<open>
  C13. Timers fire when due, once, in order, and safely: from every state the queue reaches,
  \<open>handleRead\<close> at time \<open>now\<close>, whatever its callbacks add and cancel, runs exactly the timers whose
  expiration is not after \<open>now\<close>, in the order of their expirations. It never fails an assertion, never
  uses a freed timer and frees none twice; the one way it stops is that memory is exhausted. Afterwards
  an expired timer is alive if and only if it repeats and was not cancelled meanwhile, and then its next
  expiration is its interval after \<open>now\<close>.
\<close>

theorem timers_fire_when_due:
  assumes "reaches ((=) TimerQueue_ctor) tq_step q" "alloc_ok alloc" "0 < now"
  shows "unless_oom (TimerQueue_handleRead alloc now q)
           (\<lambda>q'. fired q' = fired q @ map (\<lambda>(e, p). (seqno (the (theap q p)), e)) (due now q) \<and>
              sorted (map fst (due now q)) \<and>
              (\<forall>p \<in> snd ` set (due now q). theap q' p =
                 (if repeat (the (theap q p)) \<and> tid_of (theap q) p \<notin> set (cancelingTimers q')
                  then Some (Timer_restart now (the (theap q p))) else None)))"
proof -
  have inv: "tq_inv {} q" using tq.inv_reaches [OF assms(1)] by simp
  show ?thesis
    using handleRead_spec [OF inv assms(2,3)]
    by (rule unless_oom_mono) (use run_log_due [OF inv] due_sorted [OF inv] in simp)
qed

definition first_fit :: allocator where
  "first_fit h = List.find (\<lambda>p. h p = None) [1 ..< 9]"

lemma first_fit_ok: "alloc_ok first_fit"
  by (auto simp: alloc_ok_def first_fit_def find_Some_iff UINTPTR_MAX_def)

text \<open>
  A queue with a repeating timer that cancels itself and adds another one, and with a one-shot timer.
\<close>

definition demo_timers :: timer_queue where
  "demo_timers = \<lparr>timers = [(7, 1), (9, 2)], activeTimers = [(1, 1), (2, 2)], callingExpiredTimers = False,
     cancelingTimers = [],
     theap = [1 \<mapsto> Timer_ctor [CancelTimer (1, 1), AddTimer 90 0 []] 7 2 1, 2 \<mapsto> Timer_ctor [] 9 0 2],
     s_numCreated = 2, timerfd_at = Some 7, fired = []\<rparr>"

lemma demo_timers_reached: "reaches ((=) TimerQueue_ctor) tq_step demo_timers"
proof -
  let ?q = "demo_timers\<lparr>timers := [(7, 1)], activeTimers := [(1, 1)], s_numCreated := 1,
     theap := [1 \<mapsto> Timer_ctor [CancelTimer (1, 1), AddTimer 90 0 []] 7 2 1]\<rparr>"
  note d = TimerQueue_addTimer_def TimerQueue_ctor_def first_fit_def TimerQueue_addTimerInLoop_def
    TimerQueue_insert_def sizes_agree_def deref_def Timer_ctor_def resetTimerfd_def demo_timers_def upt_rec Let_def
  have "TimerQueue_addTimer first_fit [CancelTimer (1, 1), AddTimer 90 0 []] 7 2 TimerQueue_ctor = Inr ((1, 1), ?q)"
    by (simp add: d)
  then have "tq_step TimerQueue_ctor ?q" by (intro tq_add [OF first_fit_ok]) auto
  then have "reaches ((=) TimerQueue_ctor) tq_step ?q" by (intro reaches_step [OF reaches_init]) auto
  moreover have "TimerQueue_addTimer first_fit [] 9 0 ?q = Inr ((2, 2), demo_timers)"
    by (simp add: d fun_eq_iff)
  then have "tq_step ?q demo_timers" by (intro tq_add [OF first_fit_ok]) auto
  ultimately show ?thesis by (rule reaches_step)
qed

lemma demo_timers_due: "due 8 demo_timers = [(7, 1)]"
  by (simp add: due_def demo_timers_def)

theorem timers_fire_when_due_witness:
  "reaches ((=) TimerQueue_ctor) tq_step demo_timers \<and> alloc_ok first_fit \<and>
   unless_oom (TimerQueue_handleRead first_fit 8 demo_timers) (\<lambda>q'. fired q' = [(1, 7)])"
proof -
  have "unless_oom (TimerQueue_handleRead first_fit 8 demo_timers) (\<lambda>q'. fired q' = [(1, 7)])"
    by (rule unless_oom_mono [OF timers_fire_when_due [OF demo_timers_reached first_fit_ok]])
       (simp_all add: demo_timers_due, simp_all add: demo_timers_def Timer_ctor_def)
  then show ?thesis by (simp add: demo_timers_reached first_fit_ok)
qed



text \<open>
  A timer cancelled while it is being run does not come back: when one of the timers due runs a
  callback that cancels a timer that is also due (itself, for instance), the cancelled timer is deleted
  when the round ends, even if it repeats, and is no longer in the queue.
\<close>

theorem cancelled_while_expiring:
  assumes "reaches ((=) TimerQueue_ctor) tq_step q" "alloc_ok alloc" "0 < now"
    and "(e, p) \<in> set (due now q)" "(e0, p0) \<in> set (due now q)"
    and "CancelTimer (p, seqno (the (theap q p))) \<in> set (callback (the (theap q p0)))"
  shows "unless_oom (TimerQueue_handleRead alloc now q)
           (\<lambda>q'. theap q' p = None \<and> p \<notin> snd ` set (timers q'))"
proof -
  have inv: "tq_inv {} q" using tq.inv_reaches [OF assms(1)] by simp
  let ?D = "snd ` set (due now q)" and ?ps = "map snd (due now q)"
  let ?tid = "(p, seqno (the (theap q p)))"
  have D: "p \<in> ?D" "p0 \<in> ?D" using assms(4,5) by force+
  have run: "unless_oom (rfold (Timer_run alloc) ?ps s)
          (\<lambda>s'. tq_rel ?D s s' \<and> fired s' = fired s @ run_log (theap s) ?ps \<and>
                ?tid \<in> set (cancelingTimers s'))"
    if "tq_inv ?D s" "callingExpiredTimers s" "theap s = theap q" for s
    using run_all_spec [OF that(1) assms(2), of ?ps]
      run_all_cancel [OF that(1) assms(2) _ that(2), of ?ps p0 ?tid] D assms(6) that(3)
    by (cases "rfold (Timer_run alloc) ?ps s") auto
  have "unless_oom (TimerQueue_handleRead alloc now q)
     (\<lambda>q'. tq_inv {} q' \<and> tq_armed q' \<and> fired q' = fired q @ run_log (theap q) ?ps \<and>
        ?tid \<in> set (cancelingTimers q') \<and>
        (\<forall>p \<in> ?D. theap q' p =
           (if repeat (the (theap q p)) \<and> tid_of (theap q) p \<notin> set (cancelingTimers q')
            then Some (Timer_restart now (the (theap q p))) else None)))"
    by (rule handleRead_via [OF inv assms(3)]) (rule run)
  then show ?thesis
  proof (rule unless_oom_mono)
    fix q' assume q': "tq_inv {} q' \<and> tq_armed q' \<and> fired q' = fired q @ run_log (theap q) ?ps \<and>
        ?tid \<in> set (cancelingTimers q') \<and>
        (\<forall>p \<in> ?D. theap q' p =
           (if repeat (the (theap q p)) \<and> tid_of (theap q) p \<notin> set (cancelingTimers q')
            then Some (Timer_restart now (the (theap q p))) else None))"
    then have "theap q' p = None" using assms(4) by (fastforce simp: tid_of_def)
    moreover from this have "p \<notin> snd ` set (timers q')" using tq_invD(5) [of "{}" q'] q' by auto
    ultimately show "theap q' p = None \<and> p \<notin> snd ` set (timers q')" by simp
  qed
qed

theorem cancelled_while_expiring_witness:
  "repeat (the (theap demo_timers 1)) \<and>
   unless_oom (TimerQueue_handleRead first_fit 8 demo_timers) (\<lambda>q'. theap q' 1 = None \<and> 1 \<notin> snd ` set (timers q'))"
proof -
  have "repeat (the (theap demo_timers 1))" "seqno (the (theap demo_timers 1)) = 1"
    "CancelTimer (1, 1) \<in> set (callback (the (theap demo_timers 1)))"
    by (simp_all add: demo_timers_def Timer_ctor_def)
  then show ?thesis
    using cancelled_while_expiring [OF demo_timers_reached first_fit_ok, of 8 7 1 7 1]
    by (simp add: demo_timers_due)
qed

end
