(* ===== verification/UdpConnection.thy ===== *)
theory UdpConnection
  imports Codec Channel
begin

text \<open>
  \<open>UdpConnection\<close> (\<open>core/UdpConnection.h\<close>, \<open>core/UdpConnection.cpp\<close>). \<open>kcpp::KcpSession\<close> is the code of a
  submodule: it is a parameter, given as programs that may call back into the connection
  (\<open>DoSend\<close>, \<open>DoRecv\<close>, the session's connection callback) before they return. The user's callbacks are
  parameters too: functions of the connection to the calls they make on it (and, for the message
  callback, to the messages it gives the application and the buffer it leaves). What the system calls
  return is read from scripts in the connection's state. Everything the connection does to the outside
  (system calls, channel updates, callbacks, functors and timers it hands to its loop) is appended to a
  log. Invoking the user's connection callback is the one recursion of the code (the callback may send,
  which may close the connection, which calls the callback): it is bounded by the depth of the stack.
\<close>

datatype StateE = kDisconnected | kConnecting | kConnected | kDisconnecting

type_synonym transmit_mode = nat     \<comment> \<open>\<open>kcpp::TransmitModeE\<close>, passed through\<close>

section \<open>The session, the user and the outside\<close>

text \<open>
  A method of the session: it returns with the session's new state, or first sends a packet
  (\<open>DoSend\<close>), receives one (\<open>DoRecv\<close>: the count and the packet buffer), or reports a change of its
  connection, after which it goes on with the state the callback left.
\<close>

datatype ('s, 'a) kprog =
    KRet 's 'a
  | KOut bytes "('s, 'a) kprog"
  | KIn "int \<Rightarrow> bytes \<Rightarrow> ('s, 'a) kprog"
  | KConn 's "'s \<Rightarrow> ('s, 'a) kprog"

record 's kcp_session =
  Recv :: "bytes \<Rightarrow> 's \<Rightarrow> ('s, bool \<times> int \<times> bytes) kprog"
  Update :: "'s \<Rightarrow> ('s, int) kprog"
  Send :: "bytes \<Rightarrow> transmit_mode \<Rightarrow> 's \<Rightarrow> ('s, int) kprog"
  IsConnected :: "'s \<Rightarrow> bool"
  CheckCanSend :: "'s \<Rightarrow> bool"

datatype user_act = USend bytes transmit_mode | UShutdown | UForceClose | UStartRead | UStopRead

datatype effect =
    EConnCb StateE | EMsgCb int bytes "bytes list" | EClose
  | EQueueForceClose | EQueueWriteComplete | EQueueSend bytes transmit_mode | EQueueUpdate
  | ERunAt int | ECancel int
  | EUpdate "32 word" | ERemove | EWrite bytes | EKcpSend bytes transmit_mode

record 's conn =
  state :: StateE
  reading :: bool
  cchan :: channel
  inputBuffer :: buffer
  kcpsessRcvBuf :: bytes
  packetBuf :: bytes
  kcpSession :: 's
  curKcpsessUpTimerId :: int
  conn_name :: string
  connId :: int
  os_reads :: "bytes option list"
  os_writes :: "int list"
  os_soerrs :: "int list"
  timerSeq :: int
  clog :: "effect list"

record 's conn_env =
  kcp :: "'s kcp_session"
  connectionCallback :: "'s conn \<Rightarrow> user_act list"
  messageCallback :: "int \<Rightarrow> 's conn \<Rightarrow> (user_act list \<times> bytes list \<times> buffer) result"
  writeCompleteCallback :: bool

definition kPacketBufSize :: nat where "kPacketBufSize = 1500"
definition ECONNREFUSED :: int where "ECONNREFUSED = 111"

definition emit :: "effect \<Rightarrow> 's conn \<Rightarrow> 's conn" where
  "emit e c = c\<lparr>clog := clog c @ [e]\<rparr>"

text \<open>\<open>channel_->xxx()\<close>: the channel's change, handed to the poller.\<close>

definition on_channel :: "(channel \<Rightarrow> channel) \<Rightarrow> 's conn \<Rightarrow> 's conn" where
  "on_channel f c = emit (EUpdate (events (f (cchan c)))) (c\<lparr>cchan := f (cchan c)\<rparr>)"

text \<open>
  The system calls: a script that has run out stands for \<open>EAGAIN\<close> with no pending error, and for writes
  that take the whole packet. A datagram longer than the buffer is cut.
\<close>

definition sys_read :: "'s conn \<Rightarrow> int \<times> 's conn" where
  "sys_read c = (case os_reads c of
     [] \<Rightarrow> (-1, c)
   | None # r \<Rightarrow> (-1, c\<lparr>os_reads := r\<rparr>)
   | Some d # r \<Rightarrow> (int (length (take kPacketBufSize d)),
        c\<lparr>os_reads := r, packetBuf := blit 0 (take kPacketBufSize d) (packetBuf c)\<rparr>))"

definition sys_write :: "bytes \<Rightarrow> 's conn \<Rightarrow> int \<times> 's conn" where
  "sys_write d c = (case os_writes c of
     [] \<Rightarrow> (int (length d), emit (EWrite d) c)
   | n # r \<Rightarrow> (n, emit (EWrite d) (c\<lparr>os_writes := r\<rparr>)))"

definition getSocketError :: "'s conn \<Rightarrow> int \<times> 's conn" where
  "getSocketError c = (case os_soerrs c of [] \<Rightarrow> (0, c) | n # r \<Rightarrow> (n, c\<lparr>os_soerrs := r\<rparr>))"

definition UdpConnection_ctor :: "string \<Rightarrow> fd \<Rightarrow> int \<Rightarrow> 's \<Rightarrow> 's conn" where
  "UdpConnection_ctor nameArg sockfd ConnectionId sess =
     \<lparr>state = kConnecting, reading = True, cchan = Channel_ctor sockfd, inputBuffer = Buffer_ctor kInitialSize,
      kcpsessRcvBuf = [], packetBuf = replicate kPacketBufSize 0, kcpSession = sess, curKcpsessUpTimerId = 0,
      conn_name = nameArg, connId = ConnectionId, os_reads = [], os_writes = [], os_soerrs = [], timerSeq = 0,
      clog = []\<rparr>"

definition UdpConnection_connected :: "'s conn \<Rightarrow> bool" where
  "UdpConnection_connected c \<longleftrightarrow> state c = kConnected"
definition UdpConnection_disconnected :: "'s conn \<Rightarrow> bool" where
  "UdpConnection_disconnected c \<longleftrightarrow> state c = kDisconnected"
definition UdpConnection_canSend :: "'s conn_env \<Rightarrow> 's conn \<Rightarrow> bool" where
  "UdpConnection_canSend E c = CheckCanSend (kcp E) (kcpSession c)"

definition UdpConnection_dtor :: "'s conn \<Rightarrow> 's conn result" where
  "UdpConnection_dtor c =
     rbind (cassert (state c = kDisconnected) ''state_ == kDisconnected'') (\<lambda>_.
     Inr (emit (ECancel (curKcpsessUpTimerId c)) c))"

definition stateToString :: "StateE \<Rightarrow> string" where
  "stateToString s = (case s of kDisconnected \<Rightarrow> ''kDisconnected'' | kConnecting \<Rightarrow> ''kConnecting''
     | kConnected \<Rightarrow> ''kConnected'' | kDisconnecting \<Rightarrow> ''kDisconnecting'')"

section \<open>The operations\<close>

text \<open>In what follows \<open>cc\<close> is the call \<open>connectionCallback_(shared_from_this())\<close>.\<close>

type_synonym 's cop = "'s conn \<Rightarrow> 's conn result"

definition UdpConnection_handleClose :: "'s cop \<Rightarrow> 's cop" where
  "UdpConnection_handleClose cc c =
     rbind (cc (on_channel disableAll (c\<lparr>state := kDisconnected\<rparr>))) (\<lambda>c'. Inr (emit EClose c'))"

definition UdpConnection_handleError :: "'s cop \<Rightarrow> 's cop" where
  "UdpConnection_handleError cc c =
     (let (err, c') = getSocketError c
      in if err \<noteq> 0 then UdpConnection_handleClose cc c' else Inr c')"

definition UdpConnection_DoSend :: "'s conn_env \<Rightarrow> 's cop \<Rightarrow> bytes \<Rightarrow> 's cop" where
  "UdpConnection_DoSend E cc d c =
     (let (nwrote, c') = sys_write d c
      in if 0 \<le> nwrote
         then (if int (length d) - nwrote = 0 \<and> writeCompleteCallback E
               then Inr (emit EQueueWriteComplete c') else Inr c')
         else UdpConnection_handleError cc c')"

definition UdpConnection_DoRecv :: "'s cop \<Rightarrow> 's conn \<Rightarrow> (int \<times> 's conn) result" where
  "UdpConnection_DoRecv cc c =
     (let (n, c') = sys_read c
      in rbind (if n = 0 then UdpConnection_handleClose cc c'
                else if n < 0 then UdpConnection_handleError cc c' else Inr c') (\<lambda>c''.
         Inr (n, c'')))"

definition UdpConnection_onKcpsessConnection :: "'s conn_env \<Rightarrow> 's cop \<Rightarrow> 's cop" where
  "UdpConnection_onKcpsessConnection E cc c =
     (if IsConnected (kcp E) (kcpSession c) then cc c else UdpConnection_handleClose cc c)"

text \<open>Running a method of the session, with its callbacks into the connection.\<close>

primrec run_kcp :: "'s conn_env \<Rightarrow> 's cop \<Rightarrow> ('s, 'a) kprog \<Rightarrow> 's conn \<Rightarrow> ('a \<times> 's conn) result" where
  "run_kcp E cc (KRet s a) c = Inr (a, c\<lparr>kcpSession := s\<rparr>)"
| "run_kcp E cc (KOut d k) c = rbind (UdpConnection_DoSend E cc d c) (run_kcp E cc k)"
| "run_kcp E cc (KIn k) c =
     rbind (UdpConnection_DoRecv cc c) (\<lambda>(n, c'). run_kcp E cc (k n (packetBuf c')) c')"
| "run_kcp E cc (KConn s k) c =
     rbind (UdpConnection_onKcpsessConnection E cc (c\<lparr>kcpSession := s\<rparr>)) (\<lambda>c'.
     run_kcp E cc (k (kcpSession c')) c')"

definition UdpConnection_kcpSend :: "'s conn_env \<Rightarrow> 's cop \<Rightarrow> bytes \<Rightarrow> transmit_mode \<Rightarrow> 's cop" where
  "UdpConnection_kcpSend E cc d m c =
     rbind (run_kcp E cc (Send (kcp E) d m (kcpSession c)) (emit (EKcpSend d m) c)) (\<lambda>(len, c'). Inr c')"

definition UdpConnection_sendInLoop :: "'s conn_env \<Rightarrow> 's cop \<Rightarrow> bytes \<Rightarrow> transmit_mode \<Rightarrow> 's cop" where
  "UdpConnection_sendInLoop E cc d m c =
     (if state c = kDisconnected then Inr c else UdpConnection_kcpSend E cc d m c)"

text \<open>\<open>send\<close> of a \<open>StringPiece\<close> or of raw memory; \<open>inLoop\<close> is \<open>loop_->isInLoopThread()\<close>.\<close>

definition UdpConnection_send :: "'s conn_env \<Rightarrow> 's cop \<Rightarrow> bool \<Rightarrow> bytes \<Rightarrow> transmit_mode \<Rightarrow> 's cop" where
  "UdpConnection_send E cc inLoop d m c =
     (if state c = kConnected
      then (if inLoop then UdpConnection_sendInLoop E cc d m c else Inr (emit (EQueueSend d m) c))
      else Inr c)"

definition UdpConnection_sendBuffer ::
  "'s conn_env \<Rightarrow> 's cop \<Rightarrow> bool \<Rightarrow> buffer \<Rightarrow> transmit_mode \<Rightarrow> 's conn \<Rightarrow> ('s conn \<times> buffer) result" where
  "UdpConnection_sendBuffer E cc inLoop buf m c =
     (if state c = kConnected
      then (if inLoop
            then rbind (UdpConnection_sendInLoop E cc (span buf (peek buf) (beginWrite buf)) m c) (\<lambda>c'.
                 Inr (c', Buffer_retrieveAll buf))
            else rbind (Buffer_retrieveAllAsString buf) (\<lambda>(s, buf'). Inr (emit (EQueueSend s m) c, buf')))
      else Inr (c, buf))"

definition UdpConnection_shutdown :: "'s conn \<Rightarrow> 's conn" where
  "UdpConnection_shutdown c = (if state c = kConnected then c\<lparr>state := kDisconnecting\<rparr> else c)"

definition UdpConnection_forceClose :: "'s conn \<Rightarrow> 's conn" where
  "UdpConnection_forceClose c =
     (if state c = kConnected \<or> state c = kDisconnecting
      then emit EQueueForceClose (c\<lparr>state := kDisconnecting\<rparr>) else c)"

definition UdpConnection_forceCloseInLoop :: "'s cop \<Rightarrow> 's cop" where
  "UdpConnection_forceCloseInLoop cc c =
     (if state c = kConnected \<or> state c = kDisconnecting then UdpConnection_handleClose cc c else Inr c)"

definition UdpConnection_startReadInLoop :: "'s conn \<Rightarrow> 's conn" where
  "UdpConnection_startReadInLoop c =
     (if \<not> reading c \<or> \<not> isReading (cchan c) then (on_channel enableReading c)\<lparr>reading := True\<rparr> else c)"

definition UdpConnection_stopReadInLoop :: "'s conn \<Rightarrow> 's conn" where
  "UdpConnection_stopReadInLoop c =
     (if reading c \<or> isReading (cchan c) then (on_channel disableReading c)\<lparr>reading := False\<rparr> else c)"

text \<open>The calls a user callback makes, in the connection's loop thread.\<close>

fun user_call :: "'s conn_env \<Rightarrow> 's cop \<Rightarrow> user_act \<Rightarrow> 's cop" where
  "user_call E cc (USend d m) c = UdpConnection_send E cc True d m c"
| "user_call E cc UShutdown c = Inr (UdpConnection_shutdown c)"
| "user_call E cc UForceClose c = Inr (UdpConnection_forceClose c)"
| "user_call E cc UStartRead c = Inr (UdpConnection_startReadInLoop c)"
| "user_call E cc UStopRead c = Inr (UdpConnection_stopReadInLoop c)"

text \<open>The user's connection callback, \<open>depth\<close> activations deep at most.\<close>

primrec call_connCb :: "'s conn_env \<Rightarrow> nat \<Rightarrow> 's cop" where
  "call_connCb E 0 c = Inl (Undefined ''stack overflow'')"
| "call_connCb E (Suc depth) c =
     rfold (user_call E (call_connCb E depth)) (connectionCallback E c) (emit (EConnCb (state c)) c)"

text \<open>
  \<open>handleRead\<close>: the loop over \<open>kcpSession_->Recv\<close>. \<open>fuel\<close> bounds the rounds; \<open>None\<close> is a loop that is not
  over by then.
\<close>

definition recv_deliver :: "'s conn_env \<Rightarrow> 's cop \<Rightarrow> int \<Rightarrow> bytes \<Rightarrow> 's conn \<Rightarrow> (bool \<times> 's conn) result" where
  "recv_deliver E cc receiveTime d c =
     rbind (Buffer_append d (inputBuffer c)) (\<lambda>ib.
     let c1 = c\<lparr>inputBuffer := ib, kcpsessRcvBuf := []\<rparr>
     in rbind (messageCallback E receiveTime c1) (\<lambda>(acts, apps, ib').
        rbind (rfold (user_call E cc) acts (emit (EMsgCb receiveTime d apps) (c1\<lparr>inputBuffer := ib'\<rparr>))) (\<lambda>c2.
        Inr (True, c2))))"

definition recv_round :: "'s conn_env \<Rightarrow> 's cop \<Rightarrow> int \<Rightarrow> 's conn \<Rightarrow> (bool \<times> 's conn) result" where
  "recv_round E cc receiveTime c =
     rbind (run_kcp E cc (Recv (kcp E) (kcpsessRcvBuf c) (kcpSession c)) c) (\<lambda>((ok, n, rb), c').
     let c1 = c'\<lparr>kcpsessRcvBuf := rb\<rparr>
     in if \<not> ok then Inr (False, c1)
        else if n \<le> 0 then Inr (True, c1)
        else if length rb < nat n then Inl (Undefined ''read past kcpsessRcvBuf_'')
        else recv_deliver E cc receiveTime (take (nat n) rb) c1)"

primrec UdpConnection_handleRead :: "nat \<Rightarrow> 's conn_env \<Rightarrow> 's cop \<Rightarrow> int \<Rightarrow> 's conn \<Rightarrow> 's conn result option" where
  "UdpConnection_handleRead 0 E cc receiveTime c = None"
| "UdpConnection_handleRead (Suc fuel) E cc receiveTime c =
     (case recv_round E cc receiveTime c of
        Inl e \<Rightarrow> Some (Inl e)
      | Inr (True, c') \<Rightarrow> UdpConnection_handleRead fuel E cc receiveTime c'
      | Inr (False, c') \<Rightarrow> Some (Inr c'))"

text \<open>\<open>loop_->runAt\<close> hands out a new timer id.\<close>

definition UdpConnection_KcpSessionUpdate :: "'s conn_env \<Rightarrow> 's cop \<Rightarrow> bool \<Rightarrow> 's cop" where
  "UdpConnection_KcpSessionUpdate E cc inLoop c =
     (if inLoop
      then rbind (run_kcp E cc (Update (kcp E) (kcpSession c)) c) (\<lambda>(nextUpdateTimeMs, c').
           if nextUpdateTimeMs < 0 then UdpConnection_handleClose cc c'
           else Inr (emit (ERunAt (nextUpdateTimeMs * 1000))
                  (c'\<lparr>timerSeq := timerSeq c' + 1, curKcpsessUpTimerId := timerSeq c' + 1\<rparr>)))
      else Inr (emit EQueueUpdate c))"

definition UdpConnection_connectEstablished :: "'s conn_env \<Rightarrow> 's cop \<Rightarrow> 's cop" where
  "UdpConnection_connectEstablished E cc c =
     rbind (cassert (state c = kConnecting) ''state_ == kConnecting'') (\<lambda>_.
     UdpConnection_KcpSessionUpdate E cc True
       (on_channel enableReading (c\<lparr>state := kConnected, cchan := Channel_tie (cchan c)\<rparr>)))"

definition UdpConnection_connectDestroyed :: "'s cop \<Rightarrow> 's cop" where
  "UdpConnection_connectDestroyed cc c =
     rbind (if state c = kConnected
            then cc (on_channel disableAll (c\<lparr>state := kDisconnected\<rparr>)) else Inr c) (\<lambda>c'.
     rbind (Channel_remove (cchan c')) (\<lambda>ch. Inr (emit ERemove (c'\<lparr>cchan := ch\<rparr>))))"

text \<open>\<open>UdpDefaultConnectionCallback\<close> and \<open>UdpDefaultMessageCallback\<close>: they only log.\<close>

definition UdpDefaultConnectionCallback :: "'s conn \<Rightarrow> user_act list" where
  "UdpDefaultConnectionCallback c = []"

definition UdpDefaultMessageCallback :: "int \<Rightarrow> 's conn \<Rightarrow> (user_act list \<times> bytes list \<times> buffer) result" where
  "UdpDefaultMessageCallback receiveTime c = Inr ([], [], inputBuffer c)"

section \<open>What every operation respects\<close>

text \<open>
  A preorder on connections that the elementary changes respect is respected by every operation,
  whatever the session and the user's callbacks do. \<open>rle\<close> and \<open>rle2\<close> speak of the states an operation
  returns with.
\<close>

definition rle :: "('s conn \<Rightarrow> 's conn \<Rightarrow> bool) \<Rightarrow> 's conn \<Rightarrow> 's conn result \<Rightarrow> bool" where
  "rle R c m \<longleftrightarrow> (\<forall>c'. m = Inr c' \<longrightarrow> R c c')"

definition rle2 :: "('s conn \<Rightarrow> 's conn \<Rightarrow> bool) \<Rightarrow> 's conn \<Rightarrow> ('a \<times> 's conn) result \<Rightarrow> bool" where
  "rle2 R c m \<longleftrightarrow> (\<forall>a c'. m = Inr (a, c') \<longrightarrow> R c c')"

definition quiet :: "effect \<Rightarrow> bool" where
  "quiet e \<longleftrightarrow> (case e of EClose \<Rightarrow> False | EConnCb s \<Rightarrow> False | EKcpSend d m \<Rightarrow> False
     | EMsgCb t d apps \<Rightarrow> False | _ \<Rightarrow> True)"

lemma quiet_simps [simp]:
  "\<not> quiet (EMsgCb t d apps)" "quiet EQueueForceClose" "quiet EQueueWriteComplete"
  "quiet (EQueueSend d m)" "quiet EQueueUpdate" "quiet (ERunAt t)" "quiet (ECancel t)" "quiet (EUpdate ev)"
  "quiet ERemove" "quiet (EWrite d)" "\<not> quiet (EKcpSend d m)" "\<not> quiet EClose" "\<not> quiet (EConnCb s)"
  by (simp_all add: quiet_def)

lemma emit_simps [simp]:
  "state (emit e c) = state c" "cchan (emit e c) = cchan c" "clog (emit e c) = clog c @ [e]"
  "os_reads (emit e c) = os_reads c" "kcpSession (emit e c) = kcpSession c" "inputBuffer (emit e c) = inputBuffer c"
  "kcpsessRcvBuf (emit e c) = kcpsessRcvBuf c" "reading (emit e c) = reading c"
  by (simp_all add: emit_def)

lemma on_channel_simps [simp]:
  "state (on_channel f c) = state c" "cchan (on_channel f c) = f (cchan c)"
  "clog (on_channel f c) = clog c @ [EUpdate (events (f (cchan c)))]"
  "os_reads (on_channel f c) = os_reads c" "kcpSession (on_channel f c) = kcpSession c"
  "inputBuffer (on_channel f c) = inputBuffer c" "reading (on_channel f c) = reading c"
  by (simp_all add: on_channel_def)

locale conn_core =
  fixes R :: "'s conn \<Rightarrow> 's conn \<Rightarrow> bool"
  assumes trans: "R x y \<Longrightarrow> R y z \<Longrightarrow> R x z"
    and stays_down: "R c c' \<Longrightarrow> state c = kDisconnected \<Longrightarrow> state c' = kDisconnected"
    and silent: "state c' = state c \<Longrightarrow> clog c' = clog c \<Longrightarrow> cchan c' = cchan c \<Longrightarrow>
          kcpSession c' = kcpSession c \<Longrightarrow> os_reads c' = os_reads c \<Longrightarrow> inputBuffer c' = inputBuffer c \<Longrightarrow> connId c' = connId c \<Longrightarrow> R c c'"
    and emits: "quiet e \<Longrightarrow> R c (emit e c)"
    and calls: "R c (emit (EConnCb (state c)) c)"
    and hands: "state c \<noteq> kDisconnected \<Longrightarrow> R c (emit (EKcpSend d m) c)"
    and closes: "state c = kDisconnected \<Longrightarrow> R c (emit EClose c)"
    and channels: "f \<in> {enableReading, disableReading, disableAll} \<Longrightarrow> R c (on_channel f c)"
    and ties: "events ch = events (cchan c) \<Longrightarrow> R c (c\<lparr>cchan := ch\<rparr>)"
    and goes_down: "R c (c\<lparr>state := kDisconnected\<rparr>)"
    and shuts: "state c = kConnected \<or> state c = kDisconnecting \<Longrightarrow> R c (c\<lparr>state := kDisconnecting\<rparr>)"
    and goes_up: "state c = kConnecting \<Longrightarrow> R c (c\<lparr>state := kConnected\<rparr>)"
begin

lemma refl: "R c c"
  by (rule silent) auto

lemma rle_bind: "rle R c m \<Longrightarrow> (\<And>c'. R c c' \<Longrightarrow> rle R c' (f c')) \<Longrightarrow> rle R c (rbind m f)"
  by (auto simp: rle_def rbind_eq_Inr_iff intro: trans)

lemma rle2_bind: "rle2 R c m \<Longrightarrow> (\<And>a c'. R c c' \<Longrightarrow> rle R c' (f (a, c'))) \<Longrightarrow> rle R c (rbind m f)"
  by (fastforce simp: rle_def rle2_def rbind_eq_Inr_iff intro: trans)

lemma rle_bind2: "rle R c m \<Longrightarrow> (\<And>c'. R c c' \<Longrightarrow> rle2 R c' (f c')) \<Longrightarrow> rle2 R c (rbind m f)"
  by (fastforce simp: rle_def rle2_def rbind_eq_Inr_iff intro: trans)

lemma rle2_bind2: "rle2 R c m \<Longrightarrow> (\<And>a c'. R c c' \<Longrightarrow> rle2 R c' (f (a, c'))) \<Longrightarrow> rle2 R c (rbind m f)"
  by (fastforce simp: rle2_def rbind_eq_Inr_iff intro: trans)

lemma rle_Inr [simp]: "rle R c (Inr c') \<longleftrightarrow> R c c'"
  by (simp add: rle_def)

lemma rle2_Inr [simp]: "rle2 R c (Inr (a, c')) \<longleftrightarrow> R c c'"
  by (simp add: rle2_def)

lemma rle_Inl [simp]: "rle R c (Inl e)" "rle2 R c (Inl e)"
  by (simp_all add: rle_def rle2_def)

lemma rle_from: "R c c1 \<Longrightarrow> rle R c1 m \<Longrightarrow> rle R c m"
  by (auto simp: rle_def intro: trans)

lemma rle2_from: "R c c1 \<Longrightarrow> rle2 R c1 m \<Longrightarrow> rle2 R c m"
  by (auto simp: rle2_def intro: trans)

lemma rle_rfold: "(\<And>x c. x \<in> set xs \<Longrightarrow> rle R c (f x c)) \<Longrightarrow> rle R c (rfold f xs c)"
  by (induction xs arbitrary: c) (auto simp: refl intro: rle_bind)

lemma down_channel: "R c (on_channel disableAll (c\<lparr>state := kDisconnected\<rparr>))"
  by (rule trans [OF goes_down channels]) simp

lemma handleClose_R:
  assumes "\<And>c. rle R c (cc c)"
  shows "rle R c (UdpConnection_handleClose cc c)"
  unfolding UdpConnection_handleClose_def
proof (rule rle_from [OF down_channel rle_bind [OF assms]])
  fix c' assume "R (on_channel disableAll (c\<lparr>state := kDisconnected\<rparr>)) c'"
  then have "state c' = kDisconnected" by (rule stays_down) simp
  then show "rle R c' (Inr (emit EClose c'))" by (simp add: closes)
qed

lemma getSocketError_R: "R c (snd (getSocketError c))"
  by (rule silent; auto simp: getSocketError_def split: list.splits)

lemma sys_write_R: "R c (snd (sys_write d c))"
proof (cases "os_writes c")
  case Nil
  then show ?thesis by (simp add: sys_write_def emits)
next
  case (Cons n r)
  have "R c (c\<lparr>os_writes := r\<rparr>)" by (rule silent) auto
  from trans [OF this emits, of "EWrite d"] show ?thesis using Cons by (simp add: sys_write_def)
qed

lemma handleError_R:
  assumes "\<And>c. rle R c (cc c)"
  shows "rle R c (UdpConnection_handleError cc c)"
  using getSocketError_R [of c] handleClose_R [OF assms]
  by (auto simp: UdpConnection_handleError_def split: prod.split intro: rle_from)

lemma DoSend_R:
  assumes "\<And>c. rle R c (cc c)"
  shows "rle R c (UdpConnection_DoSend E cc d c)"
  using sys_write_R [of c d] handleError_R [OF assms]
  by (auto simp: UdpConnection_DoSend_def split: prod.split intro: rle_from trans [OF _ emits])

lemma onKcps_R:
  assumes "\<And>c. rle R c (cc c)"
  shows "rle R c (UdpConnection_onKcpsessConnection E cc c)"
  using assms handleClose_R [OF assms] by (simp add: UdpConnection_onKcpsessConnection_def)

lemma send_via:
  assumes "\<And>c. rle R c (cc c)"
    and "\<And>c d m. state c \<noteq> kDisconnected \<Longrightarrow> rle R c (UdpConnection_kcpSend E cc d m c)"
  shows "rle R c (UdpConnection_sendInLoop E cc d m c)" "rle R c (UdpConnection_send E cc il d m c)"
  using assms(2) by (auto simp: UdpConnection_send_def UdpConnection_sendInLoop_def refl emits)

lemma pure_R:
  "R c (UdpConnection_shutdown c)" "R c (UdpConnection_forceClose c)"
  "R c (UdpConnection_startReadInLoop c)" "R c (UdpConnection_stopReadInLoop c)"
proof -
  have r: "R c (c\<lparr>reading := b\<rparr>)" for c b by (rule silent) auto
  have ch: "R c ((on_channel f c)\<lparr>reading := b\<rparr>)" if "f \<in> {enableReading, disableReading, disableAll}" for f b
    using channels [OF that] r by (rule trans)
  show "R c (UdpConnection_shutdown c)" by (simp add: UdpConnection_shutdown_def shuts refl)
  have "R c (emit EQueueForceClose (c\<lparr>state := kDisconnecting\<rparr>))"
    if "state c = kConnected \<or> state c = kDisconnecting"
    by (rule trans [OF shuts [OF that] emits]) simp
  then show "R c (UdpConnection_forceClose c)" by (simp add: UdpConnection_forceClose_def refl)
  show "R c (UdpConnection_startReadInLoop c)" "R c (UdpConnection_stopReadInLoop c)"
    by (simp_all add: UdpConnection_startReadInLoop_def UdpConnection_stopReadInLoop_def refl ch)
qed

lemma user_call_via:
  assumes "\<And>c. rle R c (cc c)"
    and "\<And>c d m. state c \<noteq> kDisconnected \<Longrightarrow> rle R c (UdpConnection_kcpSend E cc d m c)"
  shows "rle R c (user_call E cc a c)"
  by (cases a) (auto simp: send_via [OF assms] pure_R emits)

lemma call_connCb_via:
  assumes "\<And>cc c d m. (\<And>c. rle R c (cc c)) \<Longrightarrow> state c \<noteq> kDisconnected \<Longrightarrow>
      rle R c (UdpConnection_kcpSend E cc d m c)"
  shows "rle R c (call_connCb E depth c)"
proof (induction depth arbitrary: c)
  case (Suc depth)
  have "rle R (emit (EConnCb (state c)) c)
     (rfold (user_call E (call_connCb E depth)) (connectionCallback E c) (emit (EConnCb (state c)) c))"
    by (rule rle_rfold) (rule user_call_via [OF Suc assms [OF Suc]])
  then show ?case by (simp, elim rle_from [OF calls])
qed simp

lemma forceCloseInLoop_R:
  assumes "\<And>c. rle R c (cc c)"
  shows "rle R c (UdpConnection_forceCloseInLoop cc c)"
  using handleClose_R [OF assms] by (simp add: UdpConnection_forceCloseInLoop_def refl)

lemma recv_deliver_via:
  assumes "\<And>c. rle R c (cc c)"
    and "\<And>c d m. state c \<noteq> kDisconnected \<Longrightarrow> rle R c (UdpConnection_kcpSend E cc d m c)"
    and "\<And>c t d apps ib. R c (emit (EMsgCb t d apps) (c\<lparr>kcpsessRcvBuf := [], inputBuffer := ib\<rparr>))"
  shows "rle2 R c (recv_deliver E cc t d c)"
proof -
  have "rle R c (rfold (user_call E cc) as (emit (EMsgCb t d apps) (c\<lparr>kcpsessRcvBuf := [], inputBuffer := ib\<rparr>)))"
    for as apps ib
    by (rule rle_from [OF assms(3) rle_rfold]) (rule user_call_via [OF assms(1,2)])
  then show ?thesis
    by (auto simp: rle2_def rle_def recv_deliver_def rbind_eq_Inr_iff Let_def)
qed

end

locale conn_preorder = conn_core +
  assumes any_session: "R c (c\<lparr>kcpSession := s\<rparr>)"
    and any_read: "R c (snd (sys_read c))"
begin

lemma DoRecv_R:
  assumes "\<And>c. rle R c (cc c)"
  shows "rle2 R c (UdpConnection_DoRecv cc c)"
proof -
  obtain n c' where s: "sys_read c = (n, c')" by (cases "sys_read c")
  have "R c c'" using any_read [of c] s by simp
  then have "rle R c (if n = 0 then UdpConnection_handleClose cc c'
                else if n < 0 then UdpConnection_handleError cc c' else Inr c')"
    using rle_from [OF _ handleError_R [OF assms]] rle_from [OF _ handleClose_R [OF assms]] by auto
  then show ?thesis
    unfolding UdpConnection_DoRecv_def s Let_def prod.case by (rule rle_bind2) (simp add: refl)
qed

lemma run_kcp_R:
  assumes "\<And>c. rle R c (cc c)"
  shows "rle2 R c (run_kcp E cc p c)"
proof (induction p arbitrary: c)
  case (KRet s a)
  then show ?case by (simp add: any_session)
next
  case (KOut d p)
  then show ?case by (auto intro: rle_bind2 DoSend_R [OF assms])
next
  case (KIn f)
  show ?case by (simp, rule rle2_bind2 [OF DoRecv_R [OF assms]]) (simp add: KIn.IH [OF rangeI rangeI])
next
  case (KConn s f)
  have "rle R c (UdpConnection_onKcpsessConnection E cc (c\<lparr>kcpSession := s\<rparr>))"
    by (rule rle_from [OF any_session onKcps_R [OF assms]])
  then show ?case by (simp, elim rle_bind2) (simp add: KConn.IH)
qed

lemma kcpSend_R:
  assumes "\<And>c. rle R c (cc c)" "state c \<noteq> kDisconnected"
  shows "rle R c (UdpConnection_kcpSend E cc d m c)"
  unfolding UdpConnection_kcpSend_def
  by (rule rle_from [OF hands [OF assms(2)] rle2_bind [OF run_kcp_R [OF assms(1)]]]) (auto simp: refl)

lemma send_R:
  assumes "\<And>c. rle R c (cc c)"
  shows "rle R c (UdpConnection_sendInLoop E cc d m c)" "rle R c (UdpConnection_send E cc il d m c)"
  by (rule send_via [OF assms kcpSend_R [OF assms]], assumption)+

lemma user_call_R:
  assumes "\<And>c. rle R c (cc c)"
  shows "rle R c (user_call E cc a c)"
  by (rule user_call_via [OF assms kcpSend_R [OF assms]])

lemma call_connCb_R: "rle R c (call_connCb E depth c)"
  by (rule call_connCb_via) (rule kcpSend_R)

lemma KcpSessionUpdate_R:
  assumes "\<And>c. rle R c (cc c)"
  shows "rle R c (UdpConnection_KcpSessionUpdate E cc il c)"
proof -
  have "R c' (emit (ERunAt t) (c'\<lparr>timerSeq := a, curKcpsessUpTimerId := b\<rparr>))" for c' t a b
    by (rule trans [OF silent emits]) auto
  then show ?thesis
    by (auto simp: UdpConnection_KcpSessionUpdate_def emits handleClose_R [OF assms]
          intro!: rle2_bind [OF run_kcp_R [OF assms]])
qed

lemma connectEstablished_R:
  assumes "\<And>c. rle R c (cc c)"
  shows "rle R c (UdpConnection_connectEstablished E cc c)"
proof (cases "state c = kConnecting")
  case True
  let ?c = "c\<lparr>state := kConnected\<rparr>"
  have "R c (?c\<lparr>cchan := Channel_tie (cchan ?c)\<rparr>)"
    by (rule trans [OF goes_up [OF True] ties]) (simp add: Channel_tie_def)
  from trans [OF this channels, of enableReading]
  have "R c (on_channel enableReading (c\<lparr>state := kConnected, cchan := Channel_tie (cchan c)\<rparr>))" by simp
  then show ?thesis
    using True by (auto simp: UdpConnection_connectEstablished_def intro: rle_from KcpSessionUpdate_R [OF assms])
qed (simp add: UdpConnection_connectEstablished_def)

lemma connectDestroyed_R:
  assumes "\<And>c. rle R c (cc c)"
  shows "rle R c (UdpConnection_connectDestroyed cc c)"
proof -
  have rem: "rle R c' (rbind (Channel_remove (cchan c')) (\<lambda>ch. Inr (emit ERemove (c'\<lparr>cchan := ch\<rparr>))))" for c'
    using trans [OF ties [of "cchan c'\<lparr>addedToLoop := False\<rparr>" c'] emits [of ERemove]]
    by (auto simp: rle_def Channel_remove_def rbind_eq_Inr_iff)
  have "rle R c (if state c = kConnected then cc (on_channel disableAll (c\<lparr>state := kDisconnected\<rparr>)) else Inr c)"
    using rle_from [OF down_channel assms] by (simp add: refl)
  then show ?thesis
    unfolding UdpConnection_connectDestroyed_def by (rule rle_bind) (rule rem)
qed

end

locale conn_messages = conn_preorder +
  assumes any_message: "R c (emit (EMsgCb t d apps) (c\<lparr>kcpsessRcvBuf := [], inputBuffer := ib\<rparr>))"
begin

lemma recv_deliver_R:
  assumes "\<And>c. rle R c (cc c)"
  shows "rle2 R c (recv_deliver E cc t d c)"
  by (rule recv_deliver_via [OF assms kcpSend_R [OF assms] any_message])

lemma recv_round_R:
  assumes "\<And>c. rle R c (cc c)"
  shows "rle2 R c (recv_round E cc t c)"
proof -
  have r: "R c (c\<lparr>kcpsessRcvBuf := rb\<rparr>)" for c rb by (rule silent) auto
  have d: "rle2 R c (recv_deliver E cc t d (c\<lparr>kcpsessRcvBuf := rb\<rparr>))" for c d rb
    by (rule rle2_from [OF r recv_deliver_R [OF assms]])
  show ?thesis
    unfolding recv_round_def
    by (rule rle2_bind2 [OF run_kcp_R [OF assms]]) (simp add: Let_def r d split: prod.split)
qed

lemma handleRead_R:
  assumes "\<And>c. rle R c (cc c)" "UdpConnection_handleRead fuel E cc t c = Some (Inr c')"
  shows "R c c'"
  using assms(2)
proof (induction fuel arbitrary: c)
  case (Suc fuel)
  then show ?case
    using recv_round_R [OF assms(1), of c E t]
    by (auto simp: rle2_def split: sum.splits prod.splits bool.splits intro: trans)
qed simp

end

section \<open>Life of a connection\<close>

primrec rank :: "StateE \<Rightarrow> nat" where
  "rank kConnecting = 0"
| "rank kConnected = 1"
| "rank kDisconnecting = 2"
| "rank kDisconnected = 3"

lemma rank_le [simp]: "rank s \<le> 3"
  by (cases s) auto

lemma rank_down [simp]: "3 \<le> rank s \<longleftrightarrow> s = kDisconnected"
  by (cases s) auto

text \<open>The states the user's connection callback was called in.\<close>

fun told :: "effect list \<Rightarrow> StateE list" where
  "told [] = []"
| "told (EConnCb s # l) = s # told l"
| "told (_ # l) = told l"

lemma told_append [simp]: "told (l @ l') = told l @ told l'"
  by (induction l rule: told.induct) auto

lemma told_quiet [simp]: "quiet e \<Longrightarrow> told [e] = []"
  by (cases e) auto

text \<open>What was logged from the first close on.\<close>

definition after_close :: "effect list \<Rightarrow> effect list" where
  "after_close l = dropWhile (\<lambda>e. e \<noteq> EClose) l"

lemma after_close_append:
  "after_close (l @ l') = (if EClose \<in> set l then after_close l @ l' else after_close l')"
  by (induction l) (auto simp: after_close_def)

lemma after_close_single [simp]: "after_close [e] = (if e = EClose then [e] else [])"
  by (simp add: after_close_def)

lemma after_close_none [simp]: "EClose \<notin> set l \<Longrightarrow> after_close l = []"
  by (induction l) (auto simp: after_close_def)

definition no_sends :: "effect list \<Rightarrow> bool" where
  "no_sends l \<longleftrightarrow> (\<forall>d m. EKcpSend d m \<notin> set l)"

definition conn_ok :: "'s conn \<Rightarrow> bool" where
  "conn_ok c \<longleftrightarrow> mask_ok (events (cchan c)) \<and>
     sorted (map rank (told (clog c))) \<and> (\<forall>s \<in> set (told (clog c)). rank s \<le> rank (state c)) \<and>
     (EClose \<in> set (clog c) \<longrightarrow> state c = kDisconnected) \<and> no_sends (after_close (clog c))"

definition life_rel :: "'s conn \<Rightarrow> 's conn \<Rightarrow> bool" where
  "life_rel c c' \<longleftrightarrow> rank (state c) \<le> rank (state c') \<and> (\<exists>l. clog c' = clog c @ l) \<and> (conn_ok c \<longrightarrow> conn_ok c')"

lemma conn_ok_emit:
  assumes "conn_ok c" "quiet e"
  shows "conn_ok (emit e c)"
  using assms
  by (cases e) (auto simp: conn_ok_def after_close_append no_sends_def)

lemma conn_ok_message: "conn_ok c \<Longrightarrow> conn_ok (emit (EMsgCb t d apps) (c\<lparr>kcpsessRcvBuf := [], inputBuffer := ib\<rparr>))"
  by (auto simp: conn_ok_def after_close_append no_sends_def)

lemma conn_ok_state: "conn_ok c \<Longrightarrow> rank (state c) \<le> rank s \<Longrightarrow> conn_ok (c\<lparr>state := s\<rparr>)"
  by (fastforce simp: conn_ok_def)

lemma conn_ok_channel: "conn_ok c \<Longrightarrow> mask_ok (events ch) \<Longrightarrow> conn_ok (c\<lparr>cchan := ch\<rparr>)"
  by (simp add: conn_ok_def)

lemma conn_ok_call: "conn_ok c \<Longrightarrow> conn_ok (emit (EConnCb (state c)) c)"
  by (auto simp: conn_ok_def sorted_append after_close_append no_sends_def)

lemma conn_ok_close: "conn_ok c \<Longrightarrow> state c = kDisconnected \<Longrightarrow> conn_ok (emit EClose c)"
  by (auto simp: conn_ok_def after_close_append no_sends_def)

lemma conn_ok_send: "conn_ok c \<Longrightarrow> state c \<noteq> kDisconnected \<Longrightarrow> conn_ok (emit (EKcpSend d m) c)"
  by (auto simp: conn_ok_def after_close_append no_sends_def)

interpretation life: conn_messages life_rel
proof
  fix x y z :: "'s conn"
  show "life_rel x y \<Longrightarrow> life_rel y z \<Longrightarrow> life_rel x z" by (auto simp: life_rel_def)
next
  fix c c' :: "'s conn"
  assume "state c' = state c" "clog c' = clog c" "cchan c' = cchan c"
  then show "life_rel c c'" by (simp add: life_rel_def conn_ok_def)
next
  fix c :: "'s conn"
  show "life_rel c (snd (sys_read c))"
    by (simp add: life_rel_def conn_ok_def sys_read_def split: list.split option.split)
next
  fix c :: "'s conn" and f assume "f \<in> {enableReading, disableReading, disableAll}"
  then have "conn_ok c \<Longrightarrow> mask_ok (events (f (cchan c)))"
    by (auto simp: conn_ok_def)
  then show "life_rel c (on_channel f c)"
    by (auto simp: life_rel_def on_channel_def intro!: conn_ok_emit conn_ok_channel)
qed (auto simp: life_rel_def conn_ok_emit conn_ok_call conn_ok_close conn_ok_send conn_ok_message intro!: conn_ok_state conn_ok_channel,
     auto simp: conn_ok_def)

text \<open>The number of a connection never changes.\<close>

definition same_id :: "'s conn \<Rightarrow> 's conn \<Rightarrow> bool" where
  "same_id c c' \<longleftrightarrow> connId c' = connId c \<and> (state c = kDisconnected \<longrightarrow> state c' = kDisconnected)"

interpretation ident: conn_messages same_id
  by unfold_locales (auto simp: same_id_def emit_def on_channel_def sys_read_def split: list.split option.split)

text \<open>
  What the loop thread does with a connection, one event at a time: each event finds its own results
  of the system calls and any depth of the stack that is enough for it.
\<close>

definition with_os :: "bytes option list \<Rightarrow> int list \<Rightarrow> int list \<Rightarrow> 's conn \<Rightarrow> 's conn" where
  "with_os rd wr so c = c\<lparr>os_reads := rd, os_writes := wr, os_soerrs := so\<rparr>"

inductive conn_step :: "'s conn_env \<Rightarrow> 's conn \<Rightarrow> 's conn \<Rightarrow> bool" for E :: "'s conn_env" where
  st_os: "conn_step E c (with_os rd wr so c)"
| st_established: "UdpConnection_connectEstablished E (call_connCb E d) c = Inr c' \<Longrightarrow> conn_step E c c'"
| st_read: "UdpConnection_handleRead fuel E (call_connCb E d) t c = Some (Inr c') \<Longrightarrow> conn_step E c c'"
| st_close: "UdpConnection_handleClose (call_connCb E d) c = Inr c' \<Longrightarrow> conn_step E c c'"
| st_error: "UdpConnection_handleError (call_connCb E d) c = Inr c' \<Longrightarrow> conn_step E c c'"
| st_update: "UdpConnection_KcpSessionUpdate E (call_connCb E d) il c = Inr c' \<Longrightarrow> conn_step E c c'"
| st_user: "user_call E (call_connCb E d) a c = Inr c' \<Longrightarrow> conn_step E c c'"
| st_send: "UdpConnection_sendInLoop E (call_connCb E d) msg m c = Inr c' \<Longrightarrow> conn_step E c c'"
| st_force: "UdpConnection_forceCloseInLoop (call_connCb E d) c = Inr c' \<Longrightarrow> conn_step E c c'"
| st_destroyed: "UdpConnection_connectDestroyed (call_connCb E d) c = Inr c' \<Longrightarrow> conn_step E c c'"

inductive_cases conn_stepE: "conn_step E c c'"

definition conn_init :: "'s conn \<Rightarrow> bool" where
  "conn_init c \<longleftrightarrow> (\<exists>nm fd i s. c = UdpConnection_ctor nm fd i s)"

lemma rle_D: "rle R c m \<Longrightarrow> m = Inr c' \<Longrightarrow> R c c'"
  by (simp add: rle_def)

lemma rle2_D: "rle2 R c m \<Longrightarrow> m = Inr (a, c') \<Longrightarrow> R c c'"
  by (simp add: rle2_def)

context conn_messages
begin

lemmas step_ops = connectEstablished_R handleClose_R handleError_R KcpSessionUpdate_R
  user_call_R send_R(1) forceCloseInLoop_R connectDestroyed_R

lemma conn_step_R:
  assumes "\<And>rd wr so. R c (with_os rd wr so c)" "conn_step E c c'"
  shows "R c c'"
  using assms(2)
proof (rule conn_stepE)
  fix fuel d t assume "UdpConnection_handleRead fuel E (call_connCb E d) t c = Some (Inr c')"
  then show ?thesis by (rule handleRead_R [OF call_connCb_R])
next
  fix rd wr so assume "c' = with_os rd wr so c"
  then show ?thesis using assms(1) by simp
qed (erule rle_D [rotated], rule step_ops, rule call_connCb_R)+

end

lemma conn_step_life: "conn_step E c c' \<Longrightarrow> life_rel c c'"
  by (rule life.conn_step_R) (simp add: with_os_def life_rel_def conn_ok_def)

lemma conn_step_same_id: "conn_step E c c' \<Longrightarrow> same_id c c'"
  by (rule ident.conn_step_R) (simp add: with_os_def same_id_def)

interpretation conn_run: inductive_invariant conn_init "conn_step E" conn_ok for E :: "'s conn_env"
proof
  fix s t :: "'s conn"
  show "conn_init s \<Longrightarrow> conn_ok s"
    by (auto simp: conn_init_def UdpConnection_ctor_def conn_ok_def Channel_ctor_def mask_ok_def no_sends_def)
  show "conn_ok s \<Longrightarrow> conn_step E s t \<Longrightarrow> conn_ok t"
    using conn_step_life by (auto simp: life_rel_def)
qed

section \<open>Closing\<close>

text \<open>In a closed connection no call of a user callback can fail or bring it back.\<close>

definition harmless :: "effect list \<Rightarrow> bool" where
  "harmless l \<longleftrightarrow> list_all (\<lambda>e. case e of EUpdate ev \<Rightarrow> True | _ \<Rightarrow> False) l"

lemma harmless_simps [simp]:
  "harmless []" "harmless [EUpdate ev]" "harmless (l @ l') \<longleftrightarrow> harmless l \<and> harmless l'"
  by (simp_all add: harmless_def)

lemma user_call_down:
  assumes "state c = kDisconnected"
  shows "\<exists>c' l. user_call E cc a c = Inr c' \<and> state c' = kDisconnected \<and> clog c' = clog c @ l \<and> harmless l"
  using assms
  by (cases a) (auto simp: UdpConnection_send_def UdpConnection_shutdown_def UdpConnection_forceClose_def
      UdpConnection_startReadInLoop_def UdpConnection_stopReadInLoop_def)

lemma user_calls_down:
  assumes "state c = kDisconnected"
  shows "\<exists>c' l. rfold (user_call E cc) as c = Inr c' \<and> state c' = kDisconnected \<and>
    clog c' = clog c @ l \<and> harmless l"
  using assms
proof (induction as arbitrary: c)
  case (Cons a as)
  from user_call_down [OF Cons.prems, of E cc a] obtain c1 l1 where
      c1: "user_call E cc a c = Inr c1" "state c1 = kDisconnected" "clog c1 = clog c @ l1" "harmless l1"
    by blast
  from Cons.IH [OF c1(2)] obtain c2 l2 where
      c2: "rfold (user_call E cc) as c1 = Inr c2" "state c2 = kDisconnected" "clog c2 = clog c1 @ l2" "harmless l2"
    by blast
  show ?case
    by (rule exI [of _ c2], rule exI [of _ "l1 @ l2"]) (use c1 c2 in simp)
qed simp

lemma events_disableAll [simp]: "events (disableAll ch) = 0"
  by (simp add: Channel_defs poll_flags)

lemma handleClose_effects:
  obtains c' l where "UdpConnection_handleClose (call_connCb E (Suc d)) c = Inr c'" "state c' = kDisconnected"
    "clog c' = clog c @ [EUpdate 0, EConnCb kDisconnected] @ l @ [EClose]"
    "harmless l"
proof -
  let ?c = "on_channel disableAll (c\<lparr>state := kDisconnected\<rparr>)"
  have "state (emit (EConnCb kDisconnected) ?c) = kDisconnected" by simp
  from user_calls_down [OF this, of E "call_connCb E d" "connectionCallback E ?c"]
  obtain c1 l where c1: "call_connCb E (Suc d) ?c = Inr c1" "state c1 = kDisconnected"
      "clog c1 = clog c @ [EUpdate 0, EConnCb kDisconnected] @ l"
      "harmless l"
    by auto
  show thesis
    by (rule that [of "emit EClose c1" l]) (use c1 in \<open>simp_all add: UdpConnection_handleClose_def\<close>)
qed

section \<open>The read loop ends\<close>

text \<open>
  What is asked of the session: a measure \<open>\<mu>\<close> of the messages it still holds and a bound \<open>K\<close> on what
  one packet adds to it. \<open>kbound\<close> says that a run of the program ends, whatever it receives and
  whatever callbacks do in between, with a measure that \<open>Q\<close> relates to the bound that is due then.
\<close>

primrec kbound :: "('s \<Rightarrow> nat) \<Rightarrow> nat \<Rightarrow> ('a \<Rightarrow> nat \<Rightarrow> nat \<Rightarrow> bool) \<Rightarrow> ('s, 'a) kprog \<Rightarrow> nat \<Rightarrow> bool" where
  "kbound \<mu> K Q (KRet s a) m = Q a (\<mu> s) m"
| "kbound \<mu> K Q (KOut d p) m = kbound \<mu> K Q p m"
| "kbound \<mu> K Q (KIn f) m = (\<forall>n b. kbound \<mu> K Q (f n b) (if 0 < n then m + K else m))"
| "kbound \<mu> K Q (KConn s f) m = (\<forall>s' j. \<mu> s' \<le> \<mu> s + K * j \<longrightarrow> kbound \<mu> K Q (f s') (m + K * j))"

definition drains :: "'s kcp_session \<Rightarrow> ('s \<Rightarrow> nat) \<Rightarrow> nat \<Rightarrow> bool" where
  "drains S \<mu> K \<longleftrightarrow>
     (\<forall>b s. kbound \<mu> K (\<lambda>(ok, n, rb) v m. ok \<longrightarrow> v < m) (Recv S b s) (\<mu> s)) \<and>
     (\<forall>d md s. kbound \<mu> K (\<lambda>len v m. v \<le> m) (Send S d md s) (\<mu> s))"

definition work :: "('s \<Rightarrow> nat) \<Rightarrow> nat \<Rightarrow> 's conn \<Rightarrow> nat" where
  "work \<mu> K c = \<mu> (kcpSession c) + K * length (os_reads c)"

definition work_rel :: "('s \<Rightarrow> nat) \<Rightarrow> nat \<Rightarrow> 's conn \<Rightarrow> 's conn \<Rightarrow> bool" where
  "work_rel \<mu> K c c' \<longleftrightarrow> work \<mu> K c' \<le> work \<mu> K c \<and> length (os_reads c') \<le> length (os_reads c) \<and>
     (state c = kDisconnected \<longrightarrow> state c' = kDisconnected)"

interpretation wrk: conn_core "work_rel \<mu> K" for \<mu> :: "'s \<Rightarrow> nat" and K
  by unfold_locales (auto simp: work_rel_def work_def on_channel_def)

lemma DoRecv_work:
  assumes "\<And>c. rle (work_rel \<mu> K) c (cc c)" "UdpConnection_DoRecv cc c = Inr (n, c')"
  shows "length (os_reads c') + (if 0 < n then 1 else 0) \<le> length (os_reads c)"
proof -
  obtain c1 where c1: "sys_read c = (n, c1)"
    "(if n = 0 then UdpConnection_handleClose cc c1
      else if n < 0 then UdpConnection_handleError cc c1 else Inr c1) = Inr c'"
    using assms(2) by (auto simp: UdpConnection_DoRecv_def rbind_eq_Inr_iff split: prod.splits)
  have "length (os_reads c1) + (if 0 < n then 1 else 0) \<le> length (os_reads c)"
    using c1(1) by (auto simp: sys_read_def split: list.splits option.splits)
  moreover have "work_rel \<mu> K c1 c'"
    using c1(2) wrk.handleClose_R [OF assms(1), of c1] wrk.handleError_R [OF assms(1), of c1] wrk.refl
    by (auto simp: rle_def split: if_splits)
  ultimately show ?thesis by (auto simp: work_rel_def)
qed

text \<open>Running a program whose bound holds.\<close>

lemma run_kcp_bound:
  assumes cc: "\<And>c. rle (work_rel \<mu> K) c (cc c)"
    and "kbound \<mu> K Q p m" "run_kcp E cc p c = Inr (a, c')"
  shows "\<exists>m'. Q a (\<mu> (kcpSession c')) m' \<and> m' + K * length (os_reads c') \<le> m + K * length (os_reads c) \<and>
     length (os_reads c') \<le> length (os_reads c)"
  using assms(2,3)
proof (induction p arbitrary: m c)
  case (KRet s b)
  then show ?case by auto
next
  case (KOut d p)
  then obtain c1 where c1: "UdpConnection_DoSend E cc d c = Inr c1" "run_kcp E cc p c1 = Inr (a, c')"
    by (auto simp: rbind_eq_Inr_iff)
  have le: "length (os_reads c1) \<le> length (os_reads c)"
    using wrk.DoSend_R [OF cc, of c E d] c1(1) by (simp add: rle_def work_rel_def)
  have "K * length (os_reads c1) \<le> K * length (os_reads c)" using le by (rule mult_le_mono2)
  then show ?case using KOut.IH [of m c1] KOut.prems(1) c1(2) le by (simp, meson add_le_mono order_refl le_trans)
next
  case (KIn f)
  then obtain n c1 where c1: "UdpConnection_DoRecv cc c = Inr (n, c1)"
      "run_kcp E cc (f n (packetBuf c1)) c1 = Inr (a, c')"
    by (auto simp: rbind_eq_Inr_iff)
  let ?j = "if 0 < n then 1 else 0 :: nat"
  have le: "length (os_reads c1) + ?j \<le> length (os_reads c)" by (rule DoRecv_work [OF cc c1(1)])
  have "K * (length (os_reads c1) + ?j) \<le> K * length (os_reads c)" using le by (rule mult_le_mono2)
  then have "m + K * ?j + K * length (os_reads c1) \<le> m + K * length (os_reads c)" by (simp add: distrib_left)
  moreover have "kbound \<mu> K Q (f n (packetBuf c1)) (m + K * ?j)"
    using KIn.prems(1) by (auto split: if_splits)
  from KIn.IH [OF rangeI rangeI this c1(2)] obtain m' where
    "Q a (\<mu> (kcpSession c')) m'" "m' + K * length (os_reads c') \<le> m + K * ?j + K * length (os_reads c1)"
    "length (os_reads c') \<le> length (os_reads c1)" by blast
  ultimately show ?case using le by (intro exI [of _ m'] conjI) (assumption, linarith, linarith)
next
  case (KConn s f)
  then obtain c1 where c1: "UdpConnection_onKcpsessConnection E cc (c\<lparr>kcpSession := s\<rparr>) = Inr c1"
      "run_kcp E cc (f (kcpSession c1)) c1 = Inr (a, c')"
    by (auto simp: rbind_eq_Inr_iff)
  let ?j = "length (os_reads c) - length (os_reads c1)"
  have "work_rel \<mu> K (c\<lparr>kcpSession := s\<rparr>) c1"
    using wrk.onKcps_R [OF cc, of "c\<lparr>kcpSession := s\<rparr>" E] c1(1) by (simp add: rle_def)
  then have le: "length (os_reads c1) \<le> length (os_reads c)"
    and "\<mu> (kcpSession c1) + K * length (os_reads c1) \<le> \<mu> s + K * length (os_reads c)"
    by (auto simp: work_rel_def work_def)
  moreover have K: "K * length (os_reads c) = K * ?j + K * length (os_reads c1)"
    using le by (simp flip: distrib_left)
  ultimately have "\<mu> (kcpSession c1) \<le> \<mu> s + K * ?j" by linarith
  then have "kbound \<mu> K Q (f (kcpSession c1)) (m + K * ?j)" using KConn.prems(1) by simp
  from KConn.IH [OF rangeI this c1(2)] obtain m' where
    "Q a (\<mu> (kcpSession c')) m'" "m' + K * length (os_reads c') \<le> m + K * ?j + K * length (os_reads c1)"
    "length (os_reads c') \<le> length (os_reads c1)" by blast
  then show ?case using le K by (intro exI [of _ m'] conjI) (assumption, linarith, linarith)
qed

lemma kcpSend_work:
  assumes "drains (kcp E) \<mu> K" "\<And>c. rle (work_rel \<mu> K) c (cc c)" "state c \<noteq> kDisconnected"
  shows "rle (work_rel \<mu> K) c (UdpConnection_kcpSend E cc d m c)"
  unfolding rle_def
proof (intro allI impI)
  fix c' assume "UdpConnection_kcpSend E cc d m c = Inr c'"
  then obtain len where "run_kcp E cc (Send (kcp E) d m (kcpSession c)) (emit (EKcpSend d m) c) = Inr (len, c')"
    by (auto simp: UdpConnection_kcpSend_def rbind_eq_Inr_iff)
  moreover have "kbound \<mu> K (\<lambda>len v m. v \<le> m) (Send (kcp E) d m (kcpSession c)) (\<mu> (kcpSession c))"
    using assms(1) by (simp add: drains_def)
  ultimately show "work_rel \<mu> K c c'"
    using run_kcp_bound [OF assms(2)] assms(3) by (fastforce simp: work_rel_def work_def)
qed

lemma connCb_work: "drains (kcp E) \<mu> K \<Longrightarrow> rle (work_rel \<mu> K) c (call_connCb E depth c)"
  by (rule wrk.call_connCb_via) (rule kcpSend_work)

lemma recv_round_work:
  assumes "drains (kcp E) \<mu> K" "\<And>c. rle (work_rel \<mu> K) c (cc c)" "recv_round E cc t c = Inr (True, c')"
  shows "work \<mu> K c' < work \<mu> K c"
proof -
  obtain n rb c1 where c1: "run_kcp E cc (Recv (kcp E) (kcpsessRcvBuf c) (kcpSession c)) c = Inr ((True, n, rb), c1)"
    "c' = c1\<lparr>kcpsessRcvBuf := rb\<rparr> \<or>
     recv_deliver E cc t (take (nat n) rb) (c1\<lparr>kcpsessRcvBuf := rb\<rparr>) = Inr (True, c')"
    using assms(3) by (auto simp: recv_round_def rbind_eq_Inr_iff Let_def split: if_splits)
  have "kbound \<mu> K (\<lambda>(ok, n, rb) v m. ok \<longrightarrow> v < m) (Recv (kcp E) (kcpsessRcvBuf c) (kcpSession c)) (\<mu> (kcpSession c))"
    using assms(1) by (simp add: drains_def)
  from run_kcp_bound [OF assms(2) this c1(1)] have "work \<mu> K c1 < work \<mu> K c"
    by (auto simp: work_def)
  moreover have "rle2 (work_rel \<mu> K) (c1\<lparr>kcpsessRcvBuf := rb\<rparr>)
      (recv_deliver E cc t (take (nat n) rb) (c1\<lparr>kcpsessRcvBuf := rb\<rparr>))"
    by (rule wrk.recv_deliver_via [OF assms(2) kcpSend_work [OF assms(1,2)]]) (auto simp: work_rel_def work_def)
  then have "work \<mu> K c' \<le> work \<mu> K c1"
    using c1(2) by (auto simp: rle2_def work_rel_def work_def)
  ultimately show ?thesis by simp
qed

lemma handleRead_returns:
  assumes "drains (kcp E) \<mu> K" "\<And>c. rle (work_rel \<mu> K) c (cc c)" "work \<mu> K c < fuel"
  shows "\<exists>r. UdpConnection_handleRead fuel E cc t c = Some r"
  using assms(3)
proof (induction fuel arbitrary: c)
  case (Suc fuel)
  show ?case
  proof (cases "recv_round E cc t c")
    case (Inr x)
    then show ?thesis
      using Suc.IH Suc.prems recv_round_work [OF assms(1,2), of t c "snd x"]
      by (cases x; cases "fst x") auto
  qed simp
qed simp

section \<open>What the application gets\<close>

text \<open>The chunks the session handed out, and the messages the callback passed on.\<close>

fun chunks :: "effect list \<Rightarrow> bytes" where
  "chunks [] = []"
| "chunks (EMsgCb t d apps # l) = d @ chunks l"
| "chunks (_ # l) = chunks l"

fun app_messages :: "effect list \<Rightarrow> bytes list" where
  "app_messages [] = []"
| "app_messages (EMsgCb t d apps # l) = apps @ app_messages l"
| "app_messages (_ # l) = app_messages l"

lemma chunks_append [simp]: "chunks (l @ l') = chunks l @ chunks l'"
  by (induction l rule: chunks.induct) auto

lemma app_messages_append [simp]: "app_messages (l @ l') = app_messages l @ app_messages l'"
  by (induction l rule: app_messages.induct) auto

lemma quiet_messages [simp]: "quiet e \<Longrightarrow> chunks [e] = []" "quiet e \<Longrightarrow> app_messages [e] = []"
  by (cases e; simp)+

text \<open>The codec as the connection's message callback, as the chat programs install it.\<close>

definition codec_callback :: "int \<Rightarrow> 's conn \<Rightarrow> (user_act list \<times> bytes list \<times> buffer) result" where
  "codec_callback receiveTime c =
     rbind (UdpLengthHeaderCodec_onMessage (\<lambda>m (acts, ms). (acts, ms @ [m])) (\<lambda>(acts, ms). (acts @ [UShutdown], ms))
       (inputBuffer c) ([], [])) (\<lambda>(buf, acts, ms). Inr (acts, ms, buf))"

definition stream_ok :: "'s conn \<Rightarrow> bool" where
  "stream_ok c \<longleftrightarrow> buffer_inv (inputBuffer c) \<and>
     (case deframe (chunks (clog c)) of (ms, bad, rest) \<Rightarrow>
        \<not> bad \<longrightarrow> app_messages (clog c) = ms \<and> content (inputBuffer c) = rest)"

definition stream_rel :: "'s conn \<Rightarrow> 's conn \<Rightarrow> bool" where
  "stream_rel c c' \<longleftrightarrow> chunks (clog c') = chunks (clog c) \<and> app_messages (clog c') = app_messages (clog c) \<and>
     inputBuffer c' = inputBuffer c \<and> (state c = kDisconnected \<longrightarrow> state c' = kDisconnected)"

interpretation strm: conn_preorder stream_rel
proof
  fix c :: "'s conn"
  show "stream_rel c (snd (sys_read c))"
    by (simp add: stream_rel_def sys_read_def split: list.split option.split)
qed (auto simp: stream_rel_def)

lemma stream_rel_ok: "stream_rel c c' \<Longrightarrow> stream_ok c \<Longrightarrow> stream_ok c'"
  by (simp add: stream_rel_def stream_ok_def)

lemma stream_message:
  assumes "stream_ok c" "Buffer_append d (inputBuffer c) = Inr ib"
    and "codec_callback t (c\<lparr>inputBuffer := ib, kcpsessRcvBuf := []\<rparr>) = Inr (acts, apps, ib')"
  shows "stream_ok (emit (EMsgCb t d apps) (c\<lparr>kcpsessRcvBuf := [], inputBuffer := ib'\<rparr>))"
proof -
  have inv: "buffer_inv (inputBuffer c)" using assms(1) by (simp add: stream_ok_def)
  have ib: "buffer_inv ib" "content ib = content (inputBuffer c) @ d"
    using append_ok [OF inv, of d] assms(2) by (simp_all add: rspec_iff)
  obtain ms bad rest where B: "deframe (chunks (clog c)) = (ms, bad, rest)" by (metis prod_cases3)
  have msg: "UdpLengthHeaderCodec_onMessage (\<lambda>m (acts, ms). (acts, ms @ [m])) (\<lambda>(acts, ms). (acts @ [UShutdown], ms))
      ib ([], []) = Inr (ib', acts, apps)"
    using assms(3) by (auto simp: codec_callback_def rbind_eq_Inr_iff)
  show ?thesis
  proof (cases bad)
    case True
    have "buffer_inv ib'" by (rule udp_codec.msg_inv [OF ib(1) msg])
    then show ?thesis
      using True deframe_bad_append [of "chunks (clog c)" ms rest d] B by (simp add: stream_ok_def)
  next
    case False
    then have h: "app_messages (clog c) = ms" "content (inputBuffer c) = rest"
      using assms(1) B by (auto simp: stream_ok_def)
    then show ?thesis
      using udp_codec.msg_stream [OF ib(1) _ _ msg, of rest d "chunks (clog c)" ms] B False ib(2)
      by (auto simp: stream_ok_def)
  qed
qed

lemma recv_round_stream:
  assumes "messageCallback E = codec_callback" "stream_ok c" "recv_round E (call_connCb E dp) t c = Inr (b, c')"
  shows "stream_ok c'"
proof -
  let ?cc = "call_connCb E dp"
  obtain ok n rb c1 where c1: "run_kcp E ?cc (Recv (kcp E) (kcpsessRcvBuf c) (kcpSession c)) c = Inr ((ok, n, rb), c1)"
    "c' = c1\<lparr>kcpsessRcvBuf := rb\<rparr> \<or>
     recv_deliver E ?cc t (take (nat n) rb) (c1\<lparr>kcpsessRcvBuf := rb\<rparr>) = Inr (b, c')"
    using assms(3) by (auto simp: recv_round_def rbind_eq_Inr_iff Let_def split: if_splits)
  have "stream_rel c c1"
    by (rule rle2_D [OF strm.run_kcp_R c1(1)]) (rule strm.call_connCb_R)
  then have "stream_ok c1" by (rule stream_rel_ok [OF _ assms(2)])
  then have s1: "stream_ok (c1\<lparr>kcpsessRcvBuf := rb\<rparr>)" by (simp add: stream_ok_def)
  show ?thesis
  proof (cases "c' = c1\<lparr>kcpsessRcvBuf := rb\<rparr>")
    case False
    with c1(2) obtain ib acts apps ib' where d: "Buffer_append (take (nat n) rb) (inputBuffer c1) = Inr ib"
      "codec_callback t (c1\<lparr>inputBuffer := ib, kcpsessRcvBuf := []\<rparr>) = Inr (acts, apps, ib')"
      "rfold (user_call E ?cc) acts (emit (EMsgCb t (take (nat n) rb) apps) (c1\<lparr>kcpsessRcvBuf := [], inputBuffer := ib'\<rparr>)) = Inr c'"
      using assms(1) by (auto simp: recv_deliver_def rbind_eq_Inr_iff Let_def)
    have "stream_ok (emit (EMsgCb t (take (nat n) rb) apps) (c1\<lparr>kcpsessRcvBuf := [], inputBuffer := ib'\<rparr>))"
      using stream_message [OF s1, of "take (nat n) rb" ib t acts apps ib'] d by simp
    moreover have "rle stream_rel x (rfold (user_call E ?cc) acts x)" for x :: "'a conn"
      by (rule strm.rle_rfold) (rule strm.user_call_R [OF strm.call_connCb_R])
    ultimately show ?thesis using d(3) stream_rel_ok by (auto simp: rle_def)
  qed (use s1 in simp)
qed

lemma handleRead_stream:
  assumes "messageCallback E = codec_callback" "stream_ok c"
    "UdpConnection_handleRead fuel E (call_connCb E dp) t c = Some (Inr c')"
  shows "stream_ok c'"
  using assms(2,3)
proof (induction fuel arbitrary: c)
  case (Suc fuel)
  then show ?case
    using recv_round_stream [OF assms(1) Suc.prems(1), of dp t]
    by (auto split: sum.splits prod.splits bool.splits intro: Suc.IH)
qed simp

lemmas strm_ops = strm.connectEstablished_R strm.handleClose_R strm.handleError_R strm.KcpSessionUpdate_R
  strm.user_call_R strm.send_R(1) strm.forceCloseInLoop_R strm.connectDestroyed_R

lemma conn_step_stream:
  assumes "messageCallback E = codec_callback" "stream_ok c" "conn_step E c c'"
  shows "stream_ok c'"
  using assms(3)
proof (rule conn_stepE)
  fix fuel d t assume "UdpConnection_handleRead fuel E (call_connCb E d) t c = Some (Inr c')"
  then show "stream_ok c'" by (rule handleRead_stream [OF assms(1,2)])
next
  fix rd wr so assume "c' = with_os rd wr so c"
  then show "stream_ok c'" using assms(2) by (simp add: with_os_def stream_ok_def)
qed (rule stream_rel_ok [OF _ assms(2)], erule rle_D [rotated], rule strm_ops, rule strm.call_connCb_R)+

lemma stream_invariant:
  assumes "messageCallback E = codec_callback"
  shows "inductive_invariant conn_init (conn_step E) stream_ok"
proof
  show "conn_init c \<Longrightarrow> stream_ok c" for c
    by (auto simp: conn_init_def UdpConnection_ctor_def stream_ok_def deframe.simps)
qed (rule conn_step_stream [OF assms])

section \<open>Properties\<close>

text \<open>
  A session for concrete runs: it passes packets through and hands them out in the order they came.
\<close>

definition fifo_deliver :: "bytes \<Rightarrow> bytes list \<Rightarrow> (bytes list, bool \<times> int \<times> bytes) kprog" where
  "fifo_deliver b q = (case q of [] \<Rightarrow> KRet [] (False, 0, b) | x # r \<Rightarrow> KRet r (True, int (length x), b @ x))"

definition fifo_session :: "bytes list kcp_session" where
  "fifo_session = \<lparr>
     Recv = \<lambda>b q. KIn (\<lambda>n d. fifo_deliver b (if 0 < n then q @ [take (nat n) d] else q)),
     Update = \<lambda>q. KRet q 10,
     Send = \<lambda>d m q. KOut d (KRet q (int (length d))),
     IsConnected = \<lambda>q. True, CheckCanSend = \<lambda>q. True\<rparr>"

definition fifo_env :: "bytes list conn_env" where
  "fifo_env = \<lparr>kcp = fifo_session, connectionCallback = \<lambda>c. [UShutdown, USend [1] 0],
     messageCallback = codec_callback, writeCompleteCallback = False\<rparr>"

definition fifo_conn :: "bytes list conn" where
  "fifo_conn = UdpConnection_ctor ''c'' 5 1 []"

text \<open>
  C1. The life of a connection: whatever the session, the user's callbacks and the network do, and in
  every state the loop thread can bring a connection to, the user's connection callback has been called
  in states that only ever advance (connecting, connected, disconnecting, disconnected); once the close
  callback has run the connection is disconnected for good and nothing has been handed to the session
  for sending since; and the channel's interest is a combination of the read and write masks.
\<close>

theorem connection_lifecycle:
  assumes "reaches conn_init (conn_step E) c"
  shows "sorted (map rank (told (clog c))) \<and> (\<forall>s \<in> set (told (clog c)). rank s \<le> rank (state c)) \<and>
    (EClose \<in> set (clog c) \<longrightarrow> state c = kDisconnected) \<and>
    (\<forall>d m. EKcpSend d m \<notin> set (after_close (clog c))) \<and>
    mask_ok (events (cchan c)) \<and>
    (\<forall>c'. conn_step E c c' \<longrightarrow> rank (state c) \<le> rank (state c') \<and> (\<exists>l. clog c' = clog c @ l))"
  using conn_run.inv_reaches [OF assms] conn_step_life [of E c]
  by (auto simp: conn_ok_def no_sends_def life_rel_def)

definition fifo_up :: "bytes list conn" where
  "fifo_up = fifo_conn\<lparr>state := kConnected,
     cchan := (Channel_ctor 5)\<lparr>tied := True, events := kReadEvent, addedToLoop := True\<rparr>,
     timerSeq := 1, curKcpsessUpTimerId := 1, clog := [EUpdate kReadEvent, ERunAt 10000]\<rparr>"

lemma fifo_up: "UdpConnection_connectEstablished fifo_env (call_connCb fifo_env d) fifo_conn = Inr fifo_up"
  by (simp add: UdpConnection_connectEstablished_def fifo_conn_def fifo_up_def UdpConnection_ctor_def
      UdpConnection_KcpSessionUpdate_def fifo_env_def fifo_session_def on_channel_def emit_def
      Channel_tie_def Channel_defs Channel_ctor_def)

lemma fifo_reached: "reaches conn_init (conn_step fifo_env) fifo_up"
proof (rule reaches_step)
  show "reaches conn_init (conn_step fifo_env) fifo_conn"
    by (rule reaches_init) (auto simp: conn_init_def fifo_conn_def)
  show "conn_step fifo_env fifo_conn fifo_up" by (rule st_established [OF fifo_up])
qed

theorem connection_lifecycle_witness:
  "reaches conn_init (conn_step fifo_env) fifo_up \<and> sorted (map rank (told (clog fifo_up))) \<and>
   mask_ok (events (cchan fifo_up))"
  using connection_lifecycle [OF fifo_reached] fifo_reached by blast

text \<open>
  Closing: \<open>handleClose\<close> never fails, whatever the user's connection callback does. It turns the
  channel off, then tells the user with the connection already disconnected, then calls the close
  callback, last and once; the user's callback can neither send nor bring the connection back.
\<close>

theorem close_sequence:
  "\<exists>c' l. UdpConnection_handleClose (call_connCb E (Suc d)) c = Inr c' \<and> state c' = kDisconnected \<and>
     clog c' = clog c @ [EUpdate 0, EConnCb kDisconnected] @ l @ [EClose] \<and> harmless l"
  by (rule handleClose_effects [of E d c]) blast


lemma fifo_drains: "drains fifo_session length 1"
  by (auto simp: drains_def fifo_session_def fifo_deliver_def split: list.split)


text \<open>
  C8. Messages end to end: when the codec is the message callback, in every state the connection can
  reach, the messages the application has been given are exactly the messages whose frames the session
  has handed out, in order and whole, however the frames were cut into chunks and whatever else
  happened to the connection.
\<close>

theorem codec_over_connection:
  assumes "messageCallback E = codec_callback" "reaches conn_init (conn_step E) c"
    and "chunks (clog c) = concat (map frame ms)" "list_all (\<lambda>m. length m \<le> kMaxFrame) ms"
  shows "app_messages (clog c) = ms \<and> content (inputBuffer c) = []"
proof -
  have "stream_ok c" by (rule inductive_invariant.inv_reaches [OF stream_invariant [OF assms(1)] assms(2)])
  then show ?thesis using assms(3,4) by (simp add: stream_ok_def deframe_frames)
qed


definition log_of :: "'s conn result option \<Rightarrow> effect list" where
  "log_of r = (case r of Some (Inr c) \<Rightarrow> clog c | _ \<Rightarrow> [])"

definition fifo_read :: "bytes list conn result option" where
  "fifo_read = UdpConnection_handleRead 2 fifo_env (call_connCb fifo_env 1) 0
      (with_os [Some [0, 0, 0, 1, 7]] [] [] fifo_up)"

lemma fifo_read_log: "log_of fifo_read = [EUpdate 3, ERunAt 10000, EMsgCb 0 [0, 0, 0, 1, 7] [[7]]]"
  by code_simp

lemma fifo_read_reached:
  obtains c where "fifo_read = Some (Inr c)" "reaches conn_init (conn_step fifo_env) c"
    "clog c = [EUpdate 3, ERunAt 10000, EMsgCb 0 [0, 0, 0, 1, 7] [[7]]]"
proof -
  obtain c where c: "fifo_read = Some (Inr c)"
    using fifo_read_log by (auto simp: log_of_def split: option.splits sum.splits)
  have "reaches conn_init (conn_step fifo_env) (with_os [Some [0, 0, 0, 1, 7]] [] [] fifo_up)"
    by (rule reaches_step [OF fifo_reached]) (rule st_os)
  then have "reaches conn_init (conn_step fifo_env) c"
    using c unfolding fifo_read_def by (elim reaches_step) (rule st_read)
  moreover have "clog c = [EUpdate 3, ERunAt 10000, EMsgCb 0 [0, 0, 0, 1, 7] [[7]]]"
    using fifo_read_log unfolding c log_of_def by simp
  ultimately show thesis using that c by blast
qed

theorem codec_over_connection_witness:
  "\<exists>c. fifo_read = Some (Inr c) \<and> chunks (clog c) = concat (map frame [[7]]) \<and>
     app_messages (clog c) = [[7]] \<and> content (inputBuffer c) = []"
proof -
  have f: "concat (map frame [[7]]) = [0, 0, 0, 1, 7]" by code_simp
  obtain c where c: "fifo_read = Some (Inr c)" "reaches conn_init (conn_step fifo_env) c"
    "clog c = [EUpdate 3, ERunAt 10000, EMsgCb 0 [0, 0, 0, 1, 7] [[7]]]"
    by (rule fifo_read_reached)
  have "messageCallback fifo_env = codec_callback" by (simp add: fifo_env_def)
  from codec_over_connection [OF this c(2), of "[[7]]"] c f show ?thesis
    by (intro exI [of _ c]) (simp add: kMaxFrame_def)
qed

text \<open>
  C18. An empty datagram closes, every time: \<open>DoRecv\<close> takes a datagram of length zero, which any peer can
  send, for the end of the stream, and \<open>handleClose\<close> has no guard, so a second one closes the connection
  again: the user is told twice that it is down and the close callback runs twice.
\<close>

theorem empty_datagram_closes_again:
  assumes "os_reads c = [Some [], Some []]"
  shows "\<exists>c1 c2. UdpConnection_DoRecv (call_connCb E (Suc d)) c = Inr (0, c1) \<and>
     UdpConnection_DoRecv (call_connCb E (Suc d)) (c1\<lparr>os_reads := [Some []]\<rparr>) = Inr (0, c2) \<and>
     count_list (clog c2) EClose = count_list (clog c) EClose + 2 \<and>
     count_list (told (clog c2)) kDisconnected = count_list (told (clog c)) kDisconnected + 2"
proof -
  have quietl: "harmless l \<Longrightarrow> count_list l EClose = 0 \<and> told l = []" for l
    by (induction l) (auto simp: harmless_def split: effect.splits)
  have once: "\<exists>c1. UdpConnection_DoRecv (call_connCb E (Suc d)) c = Inr (0, c1) \<and>
      count_list (clog c1) EClose = count_list (clog c) EClose + 1 \<and>
      count_list (told (clog c1)) kDisconnected = count_list (told (clog c)) kDisconnected + 1"
    if rd: "os_reads c = Some [] # r" for r and c :: "'a conn"
  proof -
    obtain c0 where c0: "sys_read c = (0, c0)" "clog c0 = clog c"
      using rd by (simp add: sys_read_def)
    obtain c1 l where c1: "UdpConnection_handleClose (call_connCb E (Suc d)) c0 = Inr c1"
        "clog c1 = clog c0 @ [EUpdate 0, EConnCb kDisconnected] @ l @ [EClose]" "harmless l"
      by (rule handleClose_effects [of E d c0])
    show ?thesis
      using c0 c1 quietl [OF c1(3)] by (simp add: UdpConnection_DoRecv_def del: call_connCb.simps)
  qed
  obtain c1 where c1: "UdpConnection_DoRecv (call_connCb E (Suc d)) c = Inr (0, c1)"
      "count_list (clog c1) EClose = count_list (clog c) EClose + 1"
      "count_list (told (clog c1)) kDisconnected = count_list (told (clog c)) kDisconnected + 1"
    using once [OF assms] by blast
  obtain c2 where c2: "UdpConnection_DoRecv (call_connCb E (Suc d)) (c1\<lparr>os_reads := [Some []]\<rparr>) = Inr (0, c2)"
      "count_list (clog c2) EClose = count_list (clog c1) EClose + 1"
      "count_list (told (clog c2)) kDisconnected = count_list (told (clog c1)) kDisconnected + 1"
    using once [where c = "c1\<lparr>os_reads := [Some []]\<rparr>" and r = "[]"] by auto
  show ?thesis using c1 c2 by (intro exI [of _ c1] exI [of _ c2]) simp
qed

theorem empty_datagram_closes_again_witness:
  "\<exists>c1 c2. UdpConnection_DoRecv (call_connCb fifo_env 1) (with_os [Some [], Some []] [] [] fifo_up) = Inr (0, c1) \<and>
     UdpConnection_DoRecv (call_connCb fifo_env 1) (c1\<lparr>os_reads := [Some []]\<rparr>) = Inr (0, c2) \<and>
     count_list (clog c2) EClose = 2"
proof -
  have "os_reads (with_os [Some [], Some []] [] [] fifo_up) = [Some [], Some []]"
    "count_list (clog (with_os [Some [], Some []] [] [] fifo_up)) EClose = 0"
    by (simp_all add: with_os_def fifo_up_def)
  then show ?thesis
    using empty_datagram_closes_again [of "with_os [Some [], Some []] [] [] fifo_up" fifo_env 0] by auto
qed

text \<open>
  \<open>shutdown\<close> closes nothing: it only marks a connected connection as disconnecting. No packet, no
  functor and no timer comes of it, no data can be sent afterwards, and since \<open>connectDestroyed\<close> turns the
  channel off in state connected only, destroying such a connection (as the server's destructor does)
  stops the process on the assertion in \<open>Channel::remove\<close>.
\<close>

theorem shutdown_then_destroy_aborts:
  assumes "state c = kConnected" "isReading (cchan c)"
  shows "UdpConnection_shutdown c = c\<lparr>state := kDisconnecting\<rparr> \<and>
     UdpConnection_send E cc il d m (UdpConnection_shutdown c) = Inr (UdpConnection_shutdown c) \<and>
     UdpConnection_connectDestroyed cc (UdpConnection_shutdown c) = Inl (AssertFail ''isNoneEvent()'')"
proof -
  have "\<not> isNoneEvent (cchan c)" using assms(2) by (auto simp: Channel_defs poll_flags)
  then show ?thesis
    using assms(1) by (simp add: UdpConnection_shutdown_def UdpConnection_send_def
        UdpConnection_connectDestroyed_def Channel_remove_def)
qed

theorem shutdown_then_destroy_aborts_witness:
  "UdpConnection_connectDestroyed (call_connCb fifo_env 1) (UdpConnection_shutdown fifo_up) =
     Inl (AssertFail ''isNoneEvent()'')"
proof -
  have "state fifo_up = kConnected" "isReading (cchan fifo_up)"
    by (simp_all add: fifo_up_def Channel_defs poll_flags)
  then show ?thesis by (rule shutdown_then_destroy_aborts [THEN conjunct2, THEN conjunct2])
qed

end
