(* ===== verification/StdMap.thy ===== *)
theory StdMap
  imports Prelude
begin

text \<open>
  \<open>std::map\<close> with a user-defined comparator, as the standard specifies it. Keys are equal when neither
  is less than the other. The standard requires the comparator to be a strict weak ordering on the
  keys that meet in the map; a call where it is not is undefined behaviour, the value
  \<open>Inl (Undefined _)\<close>. The locale \<open>ordered_keys\<close> is what a key type has to provide, and gives the laws
  of lookup after insertion and erasure that the acceptor relies on.
\<close>

definition key_eq :: "('k \<Rightarrow> 'k \<Rightarrow> bool) \<Rightarrow> 'k \<Rightarrow> 'k \<Rightarrow> bool" where
  "key_eq lt a b \<longleftrightarrow> \<not> lt a b \<and> \<not> lt b a"

definition swo :: "('k \<Rightarrow> 'k \<Rightarrow> bool) \<Rightarrow> 'k list \<Rightarrow> bool" where
  "swo lt ks \<longleftrightarrow>
     list_all (\<lambda>a. \<not> lt a a \<and>
       list_all (\<lambda>b. (lt a b \<longrightarrow> \<not> lt b a) \<and>
         list_all (\<lambda>c. (lt a b \<and> lt b c \<longrightarrow> lt a c) \<and>
                       (key_eq lt a b \<and> key_eq lt b c \<longrightarrow> key_eq lt a c)) ks) ks) ks"

type_synonym ('k, 'v) smap = "('k \<times> 'v) list"

definition smap_guard :: "('k \<Rightarrow> 'k \<Rightarrow> bool) \<Rightarrow> 'k \<Rightarrow> ('k, 'v) smap \<Rightarrow> unit result" where
  "smap_guard lt k m =
     (if swo lt (k # map fst m) then Inr ()
      else Inl (Undefined ''std::map: comparator is not a strict weak ordering''))"

fun smap_lookup :: "('k \<Rightarrow> 'k \<Rightarrow> bool) \<Rightarrow> 'k \<Rightarrow> ('k, 'v) smap \<Rightarrow> 'v option" where
  "smap_lookup lt k [] = None"
| "smap_lookup lt k ((k', v) # m) = (if key_eq lt k k' then Some v else smap_lookup lt k m)"

fun smap_put :: "('k \<Rightarrow> 'k \<Rightarrow> bool) \<Rightarrow> 'k \<Rightarrow> 'v \<Rightarrow> ('k, 'v) smap \<Rightarrow> ('k, 'v) smap" where
  "smap_put lt k v [] = [(k, v)]"
| "smap_put lt k v ((k', v') # m) =
     (if key_eq lt k k' then (k', v) # m else (k', v') # smap_put lt k v m)"

definition smap_del :: "('k \<Rightarrow> 'k \<Rightarrow> bool) \<Rightarrow> 'k \<Rightarrow> ('k, 'v) smap \<Rightarrow> ('k, 'v) smap" where
  "smap_del lt k m = filter (\<lambda>(k', v). \<not> key_eq lt k k') m"

text \<open>\<open>m.find(k)\<close>, \<open>m[k] = v\<close> and \<open>m.erase(k)\<close>.\<close>

definition smap_find :: "('k \<Rightarrow> 'k \<Rightarrow> bool) \<Rightarrow> 'k \<Rightarrow> ('k, 'v) smap \<Rightarrow> 'v option result" where
  "smap_find lt k m = rbind (smap_guard lt k m) (\<lambda>_. Inr (smap_lookup lt k m))"

definition smap_insert :: "('k \<Rightarrow> 'k \<Rightarrow> bool) \<Rightarrow> 'k \<Rightarrow> 'v \<Rightarrow> ('k, 'v) smap \<Rightarrow> ('k, 'v) smap result" where
  "smap_insert lt k v m = rbind (smap_guard lt k m) (\<lambda>_. Inr (smap_put lt k v m))"

definition smap_erase :: "('k \<Rightarrow> 'k \<Rightarrow> bool) \<Rightarrow> 'k \<Rightarrow> ('k, 'v) smap \<Rightarrow> ('k, 'v) smap result" where
  "smap_erase lt k m = rbind (smap_guard lt k m) (\<lambda>_. Inr (smap_del lt k m))"

lemma smap_guard_iff [simp]: "smap_guard lt k m = Inr u \<longleftrightarrow> swo lt (k # map fst m)"
  by (simp add: smap_guard_def)

lemma smap_guard_ok [simp]: "swo lt (k # map fst m) \<Longrightarrow> smap_guard lt k m = Inr ()"
  by (simp add: smap_guard_def)

lemma swo_mono: "swo lt ks \<Longrightarrow> set ks' \<subseteq> set ks \<Longrightarrow> swo lt ks'"
  unfolding swo_def list_all_iff by blast

lemma keys_smap_put: "set (map fst (smap_put lt k v m)) \<subseteq> insert k (set (map fst m))"
  by (induction m) (force split: if_splits)+

lemma keys_smap_del: "set (map fst (smap_del lt k m)) \<subseteq> set (map fst m)"
  by (auto simp: smap_del_def)

lemma length_smap_put:
  "length (smap_put lt k v m) = (if smap_lookup lt k m = None then Suc (length m) else length m)"
  by (induction m) (auto split: if_splits)

locale ordered_keys =
  fixes lt :: "'k \<Rightarrow> 'k \<Rightarrow> bool" and carrier :: "'k \<Rightarrow> bool"
  assumes irrefl: "carrier a \<Longrightarrow> \<not> lt a a"
    and asym: "carrier a \<Longrightarrow> carrier b \<Longrightarrow> lt a b \<Longrightarrow> \<not> lt b a"
    and trans: "carrier a \<Longrightarrow> carrier b \<Longrightarrow> carrier c \<Longrightarrow> lt a b \<Longrightarrow> lt b c \<Longrightarrow> lt a c"
    and eq_trans: "carrier a \<Longrightarrow> carrier b \<Longrightarrow> carrier c \<Longrightarrow>
          key_eq lt a b \<Longrightarrow> key_eq lt b c \<Longrightarrow> key_eq lt a c"
begin

lemma swo_carrier: "list_all carrier ks \<Longrightarrow> swo lt ks"
  unfolding swo_def list_all_iff by (blast intro: irrefl trans eq_trans dest: asym)

lemma guard_carrier: "carrier k \<Longrightarrow> list_all carrier (map fst m) \<Longrightarrow> smap_guard lt k m = Inr ()"
  by (intro smap_guard_ok swo_carrier) simp

lemma eq_refl: "carrier a \<Longrightarrow> key_eq lt a a"
  by (simp add: key_eq_def irrefl)

lemma lookup_put_same:
  "carrier k \<Longrightarrow> smap_lookup lt k (smap_put lt k v m) = Some v"
  by (induction m) (auto simp: eq_refl)

lemma lookup_put_other:
  assumes "carrier k" "carrier j" "list_all carrier (map fst m)" "\<not> key_eq lt j k"
  shows "smap_lookup lt j (smap_put lt k v m) = smap_lookup lt j m"
  using assms
proof (induction m)
  case Nil
  then show ?case by simp
next
  case (Cons p m)
  obtain k' v' where p: "p = (k', v')" by (cases p)
  have "key_eq lt k k' \<Longrightarrow> \<not> key_eq lt j k'"
    using Cons.prems p eq_trans [of j k' k] by (auto simp: key_eq_def)
  with Cons p show ?case by auto
qed

lemma lookup_del_same:
  "smap_lookup lt k (smap_del lt k m) = None"
  by (induction m) (auto simp: smap_del_def)

lemma lookup_del_other:
  assumes "carrier k" "carrier j" "list_all carrier (map fst m)" "\<not> key_eq lt j k"
  shows "smap_lookup lt j (smap_del lt k m) = smap_lookup lt j m"
  using assms
proof (induction m)
  case Nil
  then show ?case by (simp add: smap_del_def)
next
  case (Cons p m)
  obtain k' v' where p: "p = (k', v')" by (cases p)
  have "key_eq lt k k' \<Longrightarrow> \<not> key_eq lt j k'"
    using Cons.prems p eq_trans [of j k' k] by (auto simp: key_eq_def)
  with Cons p show ?case by (auto simp: smap_del_def)
qed

end

end
