(* ===== verification/InetAddress.thy ===== *)
theory InetAddress
  imports StdMap Endian
begin

text \<open>
  Addresses (\<open>third/muduo/net/InetAddress.cc\<close>, the address functions of \<open>SocketsOps.cc\<close>). The class
  is a union of \<open>sockaddr_in\<close> and \<open>sockaddr_in6\<close>: the family and the port overlap, the four bytes at
  offset 4 are \<open>sin_addr.s_addr\<close> of the one and \<open>sin6_flowinfo\<close> of the other. Ports and IPv4
  addresses are kept as stored, in network byte order. \<open>inet_ntop\<close> for IPv6, whose text form has many
  rules, is a parameter. \<open>operator<\<close>, the comparator of the UDP acceptor's map, is the function whose
  properties matter most: on addresses that differ in both parts it is not an ordering.
\<close>

definition AF_INET :: "16 word" where "AF_INET = 2"
definition AF_INET6 :: "16 word" where "AF_INET6 = 10"

record inet_address =
  sin_family :: "16 word"
  sin_port :: "16 word"
  s_addr :: "32 word"      \<comment> \<open>also \<open>sin6_flowinfo\<close>\<close>
  sin6_addr :: bytes       \<comment> \<open>16 bytes\<close>
  sin6_scope_id :: "32 word"

definition kInaddrAny :: "32 word" where "kInaddrAny = 0"
definition kInaddrLoopback :: "32 word" where "kInaddrLoopback = 0x7f000001"

definition in6addr_any :: bytes where "in6addr_any = replicate 16 0"
definition in6addr_loopback :: bytes where "in6addr_loopback = replicate 15 0 @ [1]"

text \<open>
  The constructor from a port. The first argument is the uninitialised memory of the object: for
  IPv4 only the 16 bytes of \<open>sockaddr_in\<close> are cleared, so the tail of the union keeps it.
\<close>

definition InetAddress_port :: "inet_address \<Rightarrow> 16 word \<Rightarrow> bool \<Rightarrow> bool \<Rightarrow> inet_address" where
  "InetAddress_port raw port loopbackOnly ipv6 =
     (if ipv6
      then \<lparr>sin_family = AF_INET6, sin_port = hostToNetwork16 port, s_addr = 0,
            sin6_addr = (if loopbackOnly then in6addr_loopback else in6addr_any), sin6_scope_id = 0\<rparr>
      else \<lparr>sin_family = AF_INET, sin_port = hostToNetwork16 port,
            s_addr = hostToNetwork32 (if loopbackOnly then kInaddrLoopback else kInaddrAny),
            sin6_addr = replicate 8 0 @ drop 8 (sin6_addr raw), sin6_scope_id = sin6_scope_id raw\<rparr>)"

definition InetAddress_toPort :: "inet_address \<Rightarrow> 16 word" where
  "InetAddress_toPort a = networkToHost16 (sin_port a)"

definition InetAddress_ipNetEndian :: "inet_address \<Rightarrow> 32 word result" where
  "InetAddress_ipNetEndian a =
     rbind (cassert (sin_family a = AF_INET) ''family() == AF_INET'') (\<lambda>_. Inr (s_addr a))"

text \<open>\<open>memcmp(a, b, n) < 0\<close>: the first differing byte, compared unsigned.\<close>

fun memcmp_less :: "bytes \<Rightarrow> bytes \<Rightarrow> bool" where
  "memcmp_less (x # xs) (y # ys) = (if x = y then memcmp_less xs ys else x < y)"
| "memcmp_less _ _ = False"

definition InetAddress_less :: "inet_address \<Rightarrow> inet_address \<Rightarrow> bool" where
  "InetAddress_less a b =
     (if sin_family a = AF_INET
      then (if s_addr a < s_addr b then True
            else if sin_port a < sin_port b then True
            else False)
      else if sin_family a = AF_INET6
      then (if memcmp_less (sin6_addr a) (sin6_addr b) then True
            else if sin_port a < sin_port b then True
            else False)
      else False)"

section \<open>Text form\<close>

text \<open>\<open>inet_ntop(AF_INET, ...)\<close>: the four bytes as stored, in decimal, separated by dots.\<close>

definition inet_ntop4 :: "32 word \<Rightarrow> string" where
  "inet_ntop4 ip =
     (case to_mem 4 ip of [a, b, c, d] \<Rightarrow>
        show_nat (unat a) @ ''.'' @ show_nat (unat b) @ ''.'' @ show_nat (unat c) @ ''.'' @ show_nat (unat d)
      | _ \<Rightarrow> [])"

text \<open>\<open>inet_pton(AF_INET, ...)\<close>: four decimal numbers below 256 without leading zeros.\<close>

fun split_on :: "char \<Rightarrow> string \<Rightarrow> string list" where
  "split_on c [] = [[]]"
| "split_on c (x # xs) =
     (if x = c then [] # split_on c xs
      else (case split_on c xs of [] \<Rightarrow> [[x]] | y # ys \<Rightarrow> (x # y) # ys))"

definition is_digit :: "char \<Rightarrow> bool" where
  "is_digit c \<longleftrightarrow> 48 \<le> (of_char c :: nat) \<and> (of_char c :: nat) \<le> 57"

definition octet :: "string \<Rightarrow> byte option" where
  "octet s =
     (if s \<noteq> [] \<and> list_all is_digit s \<and> (hd s = CHR ''0'' \<longrightarrow> length s = 1) \<and> read_nat s < 256
      then Some (of_nat (read_nat s)) else None)"

definition inet_pton4 :: "string \<Rightarrow> 32 word option" where
  "inet_pton4 s =
     (case map octet (split_on CHR ''.'' s) of
        [Some a, Some b, Some c, Some d] \<Rightarrow> Some (of_mem [a, b, c, d])
      | _ \<Rightarrow> None)"

definition sockets_toIp :: "(bytes \<Rightarrow> string) \<Rightarrow> nat \<Rightarrow> inet_address \<Rightarrow> string result" where
  "sockets_toIp ntop6 sz addr =
     (if sin_family addr = AF_INET
      then rbind (cassert (16 \<le> sz) ''size >= INET_ADDRSTRLEN'') (\<lambda>_. Inr (inet_ntop4 (s_addr addr)))
      else if sin_family addr = AF_INET6
      then rbind (cassert (46 \<le> sz) ''size >= INET6_ADDRSTRLEN'') (\<lambda>_. Inr (ntop6 (sin6_addr addr)))
      else Inr [])"

definition sockets_toIpPort :: "(bytes \<Rightarrow> string) \<Rightarrow> nat \<Rightarrow> inet_address \<Rightarrow> string result" where
  "sockets_toIpPort ntop6 sz addr =
     rbind (sockets_toIp ntop6 sz addr) (\<lambda>ip.
     let e = length ip; port = networkToHost16 (sin_port addr)
     in rbind (cassert (e < sz) ''size > end'') (\<lambda>_.
        Inr (ip @ snprintf_cut (sz - e) ('':'' @ show_nat (unat port)))))"

definition InetAddress_toIpPort :: "(bytes \<Rightarrow> string) \<Rightarrow> inet_address \<Rightarrow> string result" where
  "InetAddress_toIpPort ntop6 a = sockets_toIpPort ntop6 64 a"

definition InetAddress_toIp :: "(bytes \<Rightarrow> string) \<Rightarrow> inet_address \<Rightarrow> string result" where
  "InetAddress_toIp ntop6 a = sockets_toIp ntop6 64 a"

text \<open>\<open>fromIpPort\<close> for IPv4: an unreadable address is logged and the field stays as it was.\<close>

definition sockets_fromIpPort4 :: "string \<Rightarrow> 16 word \<Rightarrow> inet_address \<Rightarrow> inet_address" where
  "sockets_fromIpPort4 ip port addr =
     (let addr1 = addr\<lparr>sin_family := AF_INET, sin_port := hostToNetwork16 port\<rparr>
      in case inet_pton4 ip of None \<Rightarrow> addr1 | Some x \<Rightarrow> addr1\<lparr>s_addr := x\<rparr>)"

definition InetAddress_ip4 :: "inet_address \<Rightarrow> string \<Rightarrow> 16 word \<Rightarrow> inet_address" where
  "InetAddress_ip4 raw ip port =
     sockets_fromIpPort4 ip port
       \<lparr>sin_family = 0, sin_port = 0, s_addr = 0, sin6_addr = replicate 8 0 @ drop 8 (sin6_addr raw),
        sin6_scope_id = sin6_scope_id raw\<rparr>"

text \<open>\<open>fromIpPort\<close> for IPv6 and the constructor that chooses; \<open>pton6\<close> is \<open>inet_pton\<close> for IPv6.\<close>

definition sockets_fromIpPort6 :: "(string \<Rightarrow> bytes option) \<Rightarrow> string \<Rightarrow> 16 word \<Rightarrow> inet_address \<Rightarrow> inet_address" where
  "sockets_fromIpPort6 pton6 ip port addr =
     (let addr1 = addr\<lparr>sin_family := AF_INET6, sin_port := hostToNetwork16 port\<rparr>
      in case pton6 ip of None \<Rightarrow> addr1 | Some x \<Rightarrow> addr1\<lparr>sin6_addr := x\<rparr>)"

definition InetAddress_ip :: "(string \<Rightarrow> bytes option) \<Rightarrow> inet_address \<Rightarrow> string \<Rightarrow> 16 word \<Rightarrow> bool \<Rightarrow> inet_address" where
  "InetAddress_ip pton6 raw ip port ipv6 =
     (if ipv6
      then sockets_fromIpPort6 pton6 ip port
             \<lparr>sin_family = 0, sin_port = 0, s_addr = 0, sin6_addr = replicate 16 0, sin6_scope_id = 0\<rparr>
      else InetAddress_ip4 raw ip port)"

text \<open>\<open>resolve\<close>, given what \<open>gethostbyname_r\<close> returns: its result, and the host entry if it found one.\<close>

record hostent =
  h_addrtype :: "16 word"
  h_length :: int
  h_addr :: "32 word"

definition InetAddress_resolve :: "int \<Rightarrow> hostent option \<Rightarrow> inet_address \<Rightarrow> (bool \<times> inet_address) result" where
  "InetAddress_resolve ret he out =
     (case he of
        Some h \<Rightarrow>
          if ret = 0
          then rbind (cassert (h_addrtype h = AF_INET \<and> h_length h = 4) ''he->h_addrtype == AF_INET && he->h_length == sizeof(uint32_t)'') (\<lambda>_.
               Inr (True, out\<lparr>s_addr := h_addr h\<rparr>))
          else Inr (False, out)
      | None \<Rightarrow> Inr (False, out))"

text \<open>\<open>isSelfConnect\<close>, given the two addresses the kernel reports for the socket.\<close>

definition sockets_isSelfConnect :: "inet_address \<Rightarrow> inet_address \<Rightarrow> bool" where
  "sockets_isSelfConnect localaddr peeraddr =
     (if sin_family localaddr = AF_INET
      then sin_port localaddr = sin_port peeraddr \<and> s_addr localaddr = s_addr peeraddr
      else if sin_family localaddr = AF_INET6
      then sin_port localaddr = sin_port peeraddr \<and> sin6_addr localaddr = sin6_addr peeraddr
      else False)"

section \<open>The order of addresses\<close>

text \<open>What identifies a peer: its IP address and its port.\<close>

definition same_endpoint :: "inet_address \<Rightarrow> inet_address \<Rightarrow> bool" where
  "same_endpoint a b \<longleftrightarrow> s_addr a = s_addr b \<and> sin_port a = sin_port b"

definition ipv4 :: "inet_address \<Rightarrow> bool" where
  "ipv4 a \<longleftrightarrow> sin_family a = AF_INET"

definition on_host :: "32 word \<Rightarrow> inet_address \<Rightarrow> bool" where
  "on_host ip a \<longleftrightarrow> ipv4 a \<and> s_addr a = ip"

definition on_port :: "16 word \<Rightarrow> inet_address \<Rightarrow> bool" where
  "on_port p a \<longleftrightarrow> ipv4 a \<and> sin_port a = p"

lemma less_ipv4:
  "ipv4 a \<Longrightarrow> InetAddress_less a b \<longleftrightarrow> s_addr a < s_addr b \<or> sin_port a < sin_port b"
  by (simp add: InetAddress_less_def ipv4_def)

lemma key_eq_ipv4:
  "ipv4 a \<Longrightarrow> ipv4 b \<Longrightarrow> key_eq InetAddress_less a b \<longleftrightarrow> same_endpoint a b"
  by (auto simp: key_eq_def less_ipv4 same_endpoint_def)

interpretation host: ordered_keys InetAddress_less "on_host ip" for ip
  by unfold_locales (auto simp: on_host_def less_ipv4 key_eq_ipv4 same_endpoint_def)

interpretation port: ordered_keys InetAddress_less "on_port p" for p
  by unfold_locales (auto simp: on_port_def less_ipv4 key_eq_ipv4 same_endpoint_def)

text \<open>Two addresses with the smaller IP on one side and the smaller port on the other.\<close>

definition crossed :: "inet_address \<Rightarrow> inet_address \<Rightarrow> bool" where
  "crossed a b \<longleftrightarrow> s_addr a < s_addr b \<and> sin_port b < sin_port a"

lemma crossed_both_less:
  "ipv4 a \<Longrightarrow> ipv4 b \<Longrightarrow> crossed a b \<Longrightarrow> InetAddress_less a b \<and> InetAddress_less b a"
  by (simp add: crossed_def less_ipv4)

lemma crossed_not_swo:
  assumes "ipv4 a" "ipv4 b" "crossed a b" "a \<in> set ks" "b \<in> set ks"
  shows "\<not> swo InetAddress_less ks"
  using crossed_both_less [OF assms(1-3)] assms(4,5) unfolding swo_def list_all_iff by blast

text \<open>Without a crossed pair the comparator orders any set of IPv4 addresses.\<close>

lemma uncrossed_swo:
  assumes v4: "list_all ipv4 ks" and unc: "\<forall>a \<in> set ks. \<forall>b \<in> set ks. \<not> crossed a b"
  shows "swo InetAddress_less ks"
proof -
  have asym: "InetAddress_less a b \<Longrightarrow> \<not> InetAddress_less b a"
    if "a \<in> set ks" "b \<in> set ks" for a b
  proof -
    have "\<not> crossed a b" "\<not> crossed b a" "ipv4 a" "ipv4 b"
      using that unc v4 by (auto simp: list_all_iff)
    then show "InetAddress_less a b \<Longrightarrow> \<not> InetAddress_less b a"
      by (auto simp: less_ipv4 crossed_def)
  qed
  have trans: "InetAddress_less a b \<Longrightarrow> InetAddress_less b c \<Longrightarrow> InetAddress_less a c"
    if "a \<in> set ks" "b \<in> set ks" "c \<in> set ks" for a b c
  proof -
    have "\<not> crossed a b" "\<not> crossed b a" "\<not> crossed b c" "\<not> crossed c b" "\<not> crossed a c" "\<not> crossed c a"
        "ipv4 a" "ipv4 b"
      using that unc v4 by (auto simp: list_all_iff)
    then show "InetAddress_less a b \<Longrightarrow> InetAddress_less b c \<Longrightarrow> InetAddress_less a c"
      by (auto simp: less_ipv4 crossed_def not_less)
  qed
  show ?thesis
    unfolding swo_def list_all_iff
  proof (intro ballI conjI impI)
    fix a assume "a \<in> set ks"
    with v4 show "\<not> InetAddress_less a a" by (auto simp: list_all_iff less_ipv4)
  next
    fix a b c
    assume "a \<in> set ks" "b \<in> set ks" "c \<in> set ks" "key_eq InetAddress_less a b \<and> key_eq InetAddress_less b c"
    then show "key_eq InetAddress_less a c"
      using v4 by (auto simp: list_all_iff key_eq_ipv4 same_endpoint_def)
  qed (use asym trans in blast)+
qed

section \<open>Text form: round trip and bounds\<close>

lemma of_char_digit: "d < 10 \<Longrightarrow> (of_char (digit_char d) :: nat) = 48 + d"
  by (simp add: digit_char_def)

lemma is_digit_digit_char [simp]: "d < 10 \<Longrightarrow> is_digit (digit_char d)"
  by (simp add: is_digit_def of_char_digit)

lemma digit_char_not_dot: "d < 10 \<Longrightarrow> digit_char d \<noteq> CHR ''.''"
  using of_char_digit [of d] by auto

lemma show_nat_no_dot: "CHR ''.'' \<notin> set (show_nat n)"
  using show_nat_digits [of "CHR ''.''" n] digit_char_not_dot by metis

lemma split_on_append:
  "c \<notin> set xs \<Longrightarrow> split_on c (xs @ c # ys) = xs # split_on c ys"
  by (induction xs) auto

lemma split_on_none: "c \<notin> set xs \<Longrightarrow> split_on c xs = [xs]"
  by (induction xs) auto

lemma hd_show_nat: "hd (show_nat n) = CHR ''0'' \<Longrightarrow> n = 0"
proof (induction n rule: show_nat.induct)
  case (1 n)
  show ?case
  proof (cases "n < 10")
    case True
    with "1.prems" have "digit_char n = CHR ''0''" by (simp add: show_nat.simps [of n])
    with of_char_digit [OF True] show ?thesis by auto
  next
    case False
    with "1.prems" have "hd (show_nat (n div 10)) = CHR ''0''" by (simp add: show_nat.simps [of n])
    with "1.IH" [OF False] False show ?thesis by auto
  qed
qed

lemma octet_show [simp]: "octet (show_nat (unat (b :: byte))) = Some b"
proof -
  have "unat b < 256" using unsigned_less [of b, where ?'a = nat] by simp
  moreover have "list_all is_digit (show_nat (unat b))"
    using show_nat_digits by (fastforce simp: list_all_iff)
  moreover have "hd (show_nat (unat b)) = CHR ''0'' \<longrightarrow> length (show_nat (unat b)) = 1"
  proof
    assume "hd (show_nat (unat b)) = CHR ''0''"
    then have "unat b = 0" by (rule hd_show_nat)
    then show "length (show_nat (unat b)) = 1" by (simp add: show_nat.simps [of 0])
  qed
  ultimately show ?thesis by (simp add: octet_def)
qed

lemma to_mem_4: "\<exists>a b c d. to_mem 4 ip = [a, b, c, d]"
  by (simp add: to_mem_def upt_rec)

lemma pton_ntop4 [simp]: "inet_pton4 (inet_ntop4 ip) = Some ip"
proof -
  obtain a b c d where m: "to_mem 4 ip = [a, b, c, d]" using to_mem_4 by blast
  then have "of_mem [a, b, c, d] = ip" using of_to_mem [of 4 ip] by simp
  with m show ?thesis
    by (simp add: inet_pton4_def inet_ntop4_def split_on_append split_on_none show_nat_no_dot)
qed

lemma length_ntop4: "length (inet_ntop4 ip) \<le> 15"
proof -
  have o: "length (show_nat (unat x)) \<le> 3" for x :: byte
    using unsigned_less [of x, where ?'a = nat] by (intro length_show_nat) simp_all
  obtain a b c d where "to_mem 4 ip = [a, b, c, d]" using to_mem_4 by blast
  with o [of a] o [of b] o [of c] o [of d] show ?thesis by (simp add: inet_ntop4_def)
qed

lemma length_show_port: "length (show_nat (unat (p :: 16 word))) \<le> 5"
  using unsigned_less [of p, where ?'a = nat] by (intro length_show_nat) simp_all

text \<open>The documented bound of \<open>inet_ntop\<close>: the text of an IPv6 address fits \<open>INET6_ADDRSTRLEN\<close>.\<close>

definition ntop6_ok :: "(bytes \<Rightarrow> string) \<Rightarrow> bool" where
  "ntop6_ok ntop6 \<longleftrightarrow> (\<forall>bs. length (ntop6 bs) < 46)"

lemma toIpPort_ok:
  assumes "ntop6_ok ntop6"
  shows "rspec (InetAddress_toIpPort ntop6 a) (\<lambda>s. length s \<le> 51 \<and>
     (\<exists>ip. InetAddress_toIp ntop6 a = Inr ip \<and> s = ip @ '':'' @ show_nat (unat (InetAddress_toPort a))))"
proof -
  have ip: "rspec (sockets_toIp ntop6 64 a) (\<lambda>ip. length ip \<le> 45)"
    using assms length_ntop4 [of "s_addr a"]
    by (auto simp: sockets_toIp_def ntop6_ok_def less_Suc_eq_le numeral_eq_Suc)
  then obtain i where i: "sockets_toIp ntop6 64 a = Inr i" "length i \<le> 45" by (auto simp: rspec_iff)
  have "length (show_nat (unat (networkToHost16 (sin_port a)))) \<le> 5" by (rule length_show_port)
  with i show ?thesis
    by (auto simp: InetAddress_toIpPort_def sockets_toIpPort_def InetAddress_toIp_def Let_def
        snprintf_cut_def InetAddress_toPort_def)
qed

section \<open>Properties\<close>

text \<open>
  \<open>InetAddress::operator<\<close> is not an ordering: any two IPv4 addresses of which one has the smaller
  IP address and the other the smaller port are each less than the other, so no list of keys that
  contains both satisfies the strict weak ordering that \<open>std::map\<close> demands of its comparator.
\<close>

theorem inet_less_not_an_order:
  assumes "ipv4 a" and "ipv4 b" and "s_addr a < s_addr b" and "sin_port b < sin_port a"
  shows "InetAddress_less a b \<and> InetAddress_less b a \<and> \<not> swo InetAddress_less [a, b]"
  using assms crossed_both_less [of a b] crossed_not_swo [of a b "[a, b]"] by (simp add: crossed_def)

definition addr4 :: "32 word \<Rightarrow> 16 word \<Rightarrow> inet_address" where
  "addr4 ip p = \<lparr>sin_family = AF_INET, sin_port = p, s_addr = ip, sin6_addr = replicate 16 0, sin6_scope_id = 0\<rparr>"

theorem inet_less_not_an_order_witness:
  "InetAddress_less (addr4 1 2) (addr4 2 1) \<and> InetAddress_less (addr4 2 1) (addr4 1 2) \<and>
   \<not> swo InetAddress_less [addr4 1 2, addr4 2 1]"
  by (rule inet_less_not_an_order) (simp_all add: addr4_def ipv4_def)

text \<open>
  Where the comparator does order: on any list of IPv4 addresses in which no two are crossed (in
  particular all clients on one host, or all clients using one port) it is a strict weak ordering,
  and the map's notion of equal keys is then equality of IP address and port.
\<close>

theorem inet_less_orders_uncrossed:
  assumes "list_all ipv4 ks" and "\<forall>a \<in> set ks. \<forall>b \<in> set ks. \<not> crossed a b"
  shows "swo InetAddress_less ks \<and>
     (\<forall>a \<in> set ks. \<forall>b \<in> set ks. key_eq InetAddress_less a b = same_endpoint a b)"
  using uncrossed_swo [OF assms] assms(1) key_eq_ipv4 by (auto simp: list_all_iff)

theorem inet_less_orders_uncrossed_witness:
  "swo InetAddress_less [addr4 7 1, addr4 7 2, addr4 7 3] \<and>
     key_eq InetAddress_less (addr4 7 1) (addr4 7 3) = same_endpoint (addr4 7 1) (addr4 7 3)"
  using inet_less_orders_uncrossed [of "[addr4 7 1, addr4 7 2, addr4 7 3]"]
  by (simp add: addr4_def ipv4_def crossed_def)

lemma port_swaps: "hostToNetwork16 (networkToHost16 p) = p"
  by (simp add: hostToNetwork16_def networkToHost16_def)

text \<open>
  The text form of an IPv4 address round-trips: building an address from the text \<open>toIp\<close> prints
  and the port \<open>toPort\<close> returns gives an address with the same IP and port, for every IPv4 address;
  no assertion of the conversion fails.
\<close>

theorem ip_text_roundtrip:
  assumes "ipv4 a"
  shows "rspec (InetAddress_toIp ntop6 a)
     (\<lambda>s. ipv4 (InetAddress_ip4 raw s (InetAddress_toPort a)) \<and>
          same_endpoint (InetAddress_ip4 raw s (InetAddress_toPort a)) a)"
  using assms by (simp add: InetAddress_toIp_def sockets_toIp_def ipv4_def InetAddress_ip4_def sockets_fromIpPort4_def
      same_endpoint_def InetAddress_toPort_def port_swaps)

theorem ip_text_roundtrip_witness:
  "ipv4 (addr4 0x0100007f 0xd007) \<and>
   rspec (InetAddress_toIp (\<lambda>_. []) (addr4 0x0100007f 0xd007))
     (\<lambda>s. ipv4 (InetAddress_ip4 (addr4 0 0) s (InetAddress_toPort (addr4 0x0100007f 0xd007))) \<and>
          same_endpoint (InetAddress_ip4 (addr4 0 0) s (InetAddress_toPort (addr4 0x0100007f 0xd007)))
            (addr4 0x0100007f 0xd007))"
proof -
  have h: "ipv4 (addr4 0x0100007f 0xd007)" by (simp add: addr4_def ipv4_def)
  from h ip_text_roundtrip [OF h, of "\<lambda>_. []" "addr4 0 0"] show ?thesis by (rule conjI)
qed

text \<open>
  IPv6: what \<open>inet_pton\<close> reads back from the text, the constructor stores. A resolved address keeps the port; in an object
  that was made for IPv6 it only changes the flow information, so the object still names the old host.
\<close>

lemma ip6_text_roundtrip:
  assumes "pton6 (ntop6 (sin6_addr a)) = Some (sin6_addr a)" "sin_family a = AF_INET6"
  shows "\<exists>ip. InetAddress_toIp ntop6 a = Inr ip \<and>
    (let b = InetAddress_ip pton6 raw ip (InetAddress_toPort a) True in
       sin_family b = AF_INET6 \<and> sin6_addr b = sin6_addr a \<and> sin_port b = sin_port a \<and> InetAddress_toPort b = InetAddress_toPort a)"
  using assms by (simp add: InetAddress_toIp_def sockets_toIp_def InetAddress_ip_def sockets_fromIpPort6_def InetAddress_toPort_def AF_INET_def AF_INET6_def cassert_def port_swaps)

lemma resolve_keeps_ipv6:
  assumes "InetAddress_resolve ret he out = Inr (found, out')" "sin_family out = AF_INET6"
  shows "InetAddress_toIpPort ntop6 out' = InetAddress_toIpPort ntop6 out"
  using assms by (auto simp: InetAddress_resolve_def InetAddress_toIpPort_def sockets_toIpPort_def sockets_toIp_def AF_INET_def AF_INET6_def cassert_def rbind_eq_Inr_iff
      split: option.splits if_splits)

end
