(* ===== verification/Connectors.thy ===== *)
theory Connectors
  imports Channel
begin

text \<open>
  The connectors: \<open>UdpConnector\<close> (\<open>core/UdpConnector.cpp\<close>) and the TCP \<open>Connector\<close> it was derived from
  (\<open>third/muduo/net/Connector.cc\<close>). Both have the same states and retry with the same back-off; the TCP
  one closes the descriptor of a failed attempt, in the UDP one these calls are commented out. The
  descriptor \<open>socket()\<close> returns, the error of \<open>connect()\<close>, \<open>SO_ERROR\<close> and the self-connect test are
  arguments. \<open>open_fds\<close> are the descriptors the connector has created and neither closed nor handed to
  its new-connection callback; \<open>retries\<close> are the delays of the \<open>startInLoop\<close> timers it has set, in order,
  and \<open>queued\<close> the functors it has put into its loop.
\<close>

datatype cstate = kDisconnected | kConnecting | kConnected
datatype cfunctor = CStopInLoop | CResetChannel

record connector =
  cn_state :: cstate
  connect_flag :: bool
  cn_channel :: "channel option"
  retryDelayMs :: int
  localPort :: nat
  open_fds :: "fd set"
  handed :: "fd list"
  retries :: "int list"
  queued :: "cfunctor list"

definition kMaxRetryDelayMs :: int where "kMaxRetryDelayMs = 30 * 1000"
definition kInitRetryDelayMs :: int where "kInitRetryDelayMs = 500"

definition EPERM :: int where "EPERM = 1"
definition EINTR :: int where "EINTR = 4"
definition EBADF :: int where "EBADF = 9"
definition EAGAIN :: int where "EAGAIN = 11"
definition EACCES :: int where "EACCES = 13"
definition EFAULT :: int where "EFAULT = 14"
definition ENOTSOCK :: int where "ENOTSOCK = 88"
definition EAFNOSUPPORT :: int where "EAFNOSUPPORT = 97"
definition EADDRINUSE :: int where "EADDRINUSE = 98"
definition EADDRNOTAVAIL :: int where "EADDRNOTAVAIL = 99"
definition ENETUNREACH :: int where "ENETUNREACH = 101"
definition EISCONN :: int where "EISCONN = 106"
definition E_CONNREFUSED :: int where "E_CONNREFUSED = 111"
definition EALREADY :: int where "EALREADY = 114"
definition EINPROGRESS :: int where "EINPROGRESS = 115"

lemmas errnos = EPERM_def EINTR_def EBADF_def EAGAIN_def EACCES_def EFAULT_def ENOTSOCK_def EAFNOSUPPORT_def
  EADDRINUSE_def EADDRNOTAVAIL_def ENETUNREACH_def EISCONN_def E_CONNREFUSED_def EALREADY_def EINPROGRESS_def

text \<open>The two first groups of the switch in \<open>connect()\<close>.\<close>

definition started_errno :: "int \<Rightarrow> bool" where
  "started_errno e \<longleftrightarrow> e \<in> {0, EINPROGRESS, EINTR, EISCONN}"
definition retry_errno :: "int \<Rightarrow> bool" where
  "retry_errno e \<longleftrightarrow> e \<in> {EAGAIN, EADDRINUSE, EADDRNOTAVAIL, E_CONNREFUSED, ENETUNREACH}"

section \<open>\<open>UdpConnector\<close>\<close>

definition UdpConnector_ctor :: "nat \<Rightarrow> connector" where
  "UdpConnector_ctor port = \<lparr>cn_state = kDisconnected, connect_flag = False, cn_channel = None,
     retryDelayMs = kInitRetryDelayMs, localPort = port, open_fds = {}, handed = [], retries = [], queued = []\<rparr>"

definition UdpConnector_dtor :: "connector \<Rightarrow> unit result" where
  "UdpConnector_dtor c = cassert (cn_channel c = None) ''!channel_''"

definition UdpConnector_retry :: "fd \<Rightarrow> connector \<Rightarrow> connector" where
  "UdpConnector_retry sockfd c =
     (let c1 = c\<lparr>cn_state := kDisconnected\<rparr>
      in if connect_flag c1
         then c1\<lparr>retries := retries c1 @ [retryDelayMs c1],
                 retryDelayMs := (if retryDelayMs c1 * 2 < kMaxRetryDelayMs then retryDelayMs c1 * 2 else kMaxRetryDelayMs)\<rparr>
         else c1)"

definition UdpConnector_connected :: "fd \<Rightarrow> connector \<Rightarrow> connector" where
  "UdpConnector_connected sockfd c =
     (let c1 = c\<lparr>cn_state := kConnected\<rparr>
      in if connect_flag c1 then c1\<lparr>handed := handed c1 @ [sockfd], open_fds := open_fds c1 - {sockfd}\<rparr> else c1)"

text \<open>\<open>bindAddress\<close> ends the process when \<open>bind\<close> fails.\<close>

definition UdpConnector_connect :: "fd \<Rightarrow> bool \<Rightarrow> int \<Rightarrow> connector \<Rightarrow> connector result" where
  "UdpConnector_connect sockfd bindOk savedErrno c =
     (let c1 = c\<lparr>open_fds := insert sockfd (open_fds c)\<rparr>
      in if localPort c1 \<noteq> 0 \<and> \<not> bindOk then Inl (Fatal ''sockets::bindOrDie'')
         else if started_errno savedErrno then Inr (UdpConnector_connected sockfd c1)
         else if retry_errno savedErrno then Inr (UdpConnector_retry sockfd c1)
         else Inr c1)"

definition UdpConnector_startInLoop :: "fd \<Rightarrow> bool \<Rightarrow> int \<Rightarrow> connector \<Rightarrow> connector result" where
  "UdpConnector_startInLoop sockfd bindOk savedErrno c =
     rbind (cassert (cn_state c = kDisconnected) ''state_ == kDisconnected'') (\<lambda>_.
     if connect_flag c then UdpConnector_connect sockfd bindOk savedErrno c else Inr c)"

definition UdpConnector_start :: "fd \<Rightarrow> bool \<Rightarrow> int \<Rightarrow> connector \<Rightarrow> connector result" where
  "UdpConnector_start sockfd bindOk savedErrno c =
     UdpConnector_startInLoop sockfd bindOk savedErrno (c\<lparr>connect_flag := True\<rparr>)"

definition UdpConnector_stop :: "connector \<Rightarrow> connector" where
  "UdpConnector_stop c = c\<lparr>connect_flag := False, queued := queued c @ [CStopInLoop]\<rparr>"

definition UdpConnector_restart :: "fd \<Rightarrow> bool \<Rightarrow> int \<Rightarrow> connector \<Rightarrow> connector result" where
  "UdpConnector_restart sockfd bindOk savedErrno c =
     UdpConnector_startInLoop sockfd bindOk savedErrno
       (c\<lparr>cn_state := kDisconnected, retryDelayMs := kInitRetryDelayMs, connect_flag := True\<rparr>)"

text \<open>The part of the class that UDP no longer reaches: a pending \<open>connect\<close> watched by a channel.\<close>

definition UdpConnector_connecting :: "fd \<Rightarrow> connector \<Rightarrow> connector result" where
  "UdpConnector_connecting sockfd c =
     rbind (cassert (cn_channel c = None) ''!channel_'') (\<lambda>_.
     Inr (c\<lparr>cn_state := kConnecting, cn_channel := Some (enableWriting (Channel_ctor sockfd))\<rparr>))"

definition UdpConnector_removeAndResetChannel :: "connector \<Rightarrow> (fd \<times> connector) result" where
  "UdpConnector_removeAndResetChannel c =
     (case cn_channel c of
        None \<Rightarrow> Inl (Undefined ''null channel_'')
      | Some ch \<Rightarrow> rbind (Channel_remove (disableAll ch)) (\<lambda>ch'.
          Inr (ch_fd ch', c\<lparr>cn_channel := Some ch', queued := queued c @ [CResetChannel]\<rparr>)))"

definition UdpConnector_resetChannel :: "connector \<Rightarrow> connector" where
  "UdpConnector_resetChannel c = c\<lparr>cn_channel := None\<rparr>"

definition UdpConnector_stopInLoop :: "connector \<Rightarrow> connector result" where
  "UdpConnector_stopInLoop c =
     (if cn_state c = kConnecting
      then rbind (UdpConnector_removeAndResetChannel (c\<lparr>cn_state := kDisconnected\<rparr>)) (\<lambda>(sockfd, c').
           Inr (UdpConnector_retry sockfd c'))
      else Inr c)"

definition UdpConnector_handleWrite :: "int \<Rightarrow> bool \<Rightarrow> connector \<Rightarrow> connector result" where
  "UdpConnector_handleWrite err selfConnect c =
     (if cn_state c = kConnecting
      then rbind (UdpConnector_removeAndResetChannel c) (\<lambda>(sockfd, c').
           if err \<noteq> 0 then Inr (UdpConnector_retry sockfd c')
           else if selfConnect then Inr (UdpConnector_retry sockfd c')
           else Inr (c'\<lparr>cn_state := kConnected\<rparr>))
      else rbind (cassert (cn_state c = kDisconnected) ''state_ == kDisconnected'') (\<lambda>_. Inr c))"

definition UdpConnector_handleError :: "connector \<Rightarrow> connector result" where
  "UdpConnector_handleError c =
     (if cn_state c = kConnecting
      then rbind (UdpConnector_removeAndResetChannel c) (\<lambda>(sockfd, c'). Inr (UdpConnector_retry sockfd c'))
      else Inr c)"

section \<open>The TCP \<open>Connector\<close>\<close>

definition Connector_ctor :: connector where
  "Connector_ctor = \<lparr>cn_state = kDisconnected, connect_flag = False, cn_channel = None,
     retryDelayMs = kInitRetryDelayMs, localPort = 0, open_fds = {}, handed = [], retries = [], queued = []\<rparr>"

definition Connector_dtor :: "connector \<Rightarrow> unit result" where
  "Connector_dtor c = cassert (cn_channel c = None) ''!channel_''"

definition Connector_retry :: "fd \<Rightarrow> connector \<Rightarrow> connector" where
  "Connector_retry sockfd c =
     (let c1 = c\<lparr>open_fds := open_fds c - {sockfd}, cn_state := kDisconnected\<rparr>
      in if connect_flag c1
         then c1\<lparr>retries := retries c1 @ [retryDelayMs c1],
                 retryDelayMs := min (retryDelayMs c1 * 2) kMaxRetryDelayMs\<rparr>
         else c1)"

definition Connector_connecting :: "fd \<Rightarrow> connector \<Rightarrow> connector result" where
  "Connector_connecting sockfd c =
     rbind (cassert (cn_channel c = None) ''!channel_'') (\<lambda>_.
     Inr (c\<lparr>cn_state := kConnecting, cn_channel := Some (enableWriting (Channel_ctor sockfd))\<rparr>))"

definition Connector_connect :: "fd \<Rightarrow> int \<Rightarrow> connector \<Rightarrow> connector result" where
  "Connector_connect sockfd savedErrno c =
     (let c1 = c\<lparr>open_fds := insert sockfd (open_fds c)\<rparr>
      in if started_errno savedErrno then Connector_connecting sockfd c1
         else if retry_errno savedErrno then Inr (Connector_retry sockfd c1)
         else Inr (c1\<lparr>open_fds := open_fds c1 - {sockfd}\<rparr>))"

definition Connector_startInLoop :: "fd \<Rightarrow> int \<Rightarrow> connector \<Rightarrow> connector result" where
  "Connector_startInLoop sockfd savedErrno c =
     rbind (cassert (cn_state c = kDisconnected) ''state_ == kDisconnected'') (\<lambda>_.
     if connect_flag c then Connector_connect sockfd savedErrno c else Inr c)"

definition Connector_start :: "fd \<Rightarrow> int \<Rightarrow> connector \<Rightarrow> connector result" where
  "Connector_start sockfd savedErrno c = Connector_startInLoop sockfd savedErrno (c\<lparr>connect_flag := True\<rparr>)"

definition Connector_stop :: "connector \<Rightarrow> connector" where
  "Connector_stop c = c\<lparr>connect_flag := False, queued := queued c @ [CStopInLoop]\<rparr>"

definition Connector_restart :: "fd \<Rightarrow> int \<Rightarrow> connector \<Rightarrow> connector result" where
  "Connector_restart sockfd savedErrno c =
     Connector_startInLoop sockfd savedErrno
       (c\<lparr>cn_state := kDisconnected, retryDelayMs := kInitRetryDelayMs, connect_flag := True\<rparr>)"

definition Connector_removeAndResetChannel :: "connector \<Rightarrow> (fd \<times> connector) result" where
  "Connector_removeAndResetChannel c =
     (case cn_channel c of
        None \<Rightarrow> Inl (Undefined ''null channel_'')
      | Some ch \<Rightarrow> rbind (Channel_remove (disableAll ch)) (\<lambda>ch'.
          Inr (ch_fd ch', c\<lparr>cn_channel := Some ch', queued := queued c @ [CResetChannel]\<rparr>)))"

definition Connector_resetChannel :: "connector \<Rightarrow> connector" where
  "Connector_resetChannel c = c\<lparr>cn_channel := None\<rparr>"

definition Connector_stopInLoop :: "connector \<Rightarrow> connector result" where
  "Connector_stopInLoop c =
     (if cn_state c = kConnecting
      then rbind (Connector_removeAndResetChannel (c\<lparr>cn_state := kDisconnected\<rparr>)) (\<lambda>(sockfd, c').
           Inr (Connector_retry sockfd c'))
      else Inr c)"

definition Connector_handleWrite :: "int \<Rightarrow> bool \<Rightarrow> connector \<Rightarrow> connector result" where
  "Connector_handleWrite err selfConnect c =
     (if cn_state c = kConnecting
      then rbind (Connector_removeAndResetChannel c) (\<lambda>(sockfd, c').
           if err \<noteq> 0 then Inr (Connector_retry sockfd c')
           else if selfConnect then Inr (Connector_retry sockfd c')
           else let c1 = c'\<lparr>cn_state := kConnected\<rparr>
                in if connect_flag c1
                   then Inr (c1\<lparr>handed := handed c1 @ [sockfd], open_fds := open_fds c1 - {sockfd}\<rparr>)
                   else Inr (c1\<lparr>open_fds := open_fds c1 - {sockfd}\<rparr>))
      else rbind (cassert (cn_state c = kDisconnected) ''state_ == kDisconnected'') (\<lambda>_. Inr c))"

definition Connector_handleError :: "connector \<Rightarrow> connector result" where
  "Connector_handleError c =
     (if cn_state c = kConnecting
      then rbind (Connector_removeAndResetChannel c) (\<lambda>(sockfd, c'). Inr (Connector_retry sockfd c'))
      else Inr c)"

section \<open>Back-off\<close>

text \<open>The delay before attempt \<open>i + 1\<close>: half a second, doubled each time, at most thirty.\<close>

definition backoff_ms :: "nat \<Rightarrow> int" where
  "backoff_ms i = min (500 * 2 ^ i) 30000"

lemma backoff_0: "backoff_ms 0 = kInitRetryDelayMs"
  by (simp add: backoff_ms_def kInitRetryDelayMs_def)

lemma backoff_Suc: "backoff_ms (Suc i) = min (backoff_ms i * 2) kMaxRetryDelayMs"
  by (simp add: backoff_ms_def kMaxRetryDelayMs_def min_def)

text \<open>
  What a connector promises of one attempt: an attempt that fails with an error of the retry group
  leaves it disconnected, adds a timer with the current delay and doubles the delay up to the maximum.
\<close>

locale retrying =
  fixes attempt :: "fd \<Rightarrow> int \<Rightarrow> connector \<Rightarrow> connector result"
  assumes attempt_fails: "cn_state c = kDisconnected \<Longrightarrow> connect_flag c \<Longrightarrow> retry_errno e \<Longrightarrow>
      rspec (attempt f e c) (\<lambda>c'. cn_state c' = kDisconnected \<and> connect_flag c' \<and> handed c' = handed c \<and>
        retries c' = retries c @ [retryDelayMs c] \<and>
        retryDelayMs c' = min (retryDelayMs c * 2) kMaxRetryDelayMs)"
begin

lemma backoff:
  assumes "cn_state c = kDisconnected" "connect_flag c" "retryDelayMs c = backoff_ms k"
    and "list_all (\<lambda>(f, e). retry_errno e) fes"
  shows "rspec (rfold (\<lambda>(f, e). attempt f e) fes c)
     (\<lambda>c'. cn_state c' = kDisconnected \<and> connect_flag c' \<and> handed c' = handed c \<and>
        retries c' = retries c @ map backoff_ms [k ..< k + length fes])"
  using assms
proof (induction fes arbitrary: c k)
  case Nil
  then show ?case by simp
next
  case (Cons fe fes)
  obtain f e where fe: "fe = (f, e)" by (cases fe)
  from attempt_fails [OF Cons.prems(1,2), of e f] Cons.prems(4) fe obtain c1 where
      c1: "attempt f e c = Inr c1" "cn_state c1 = kDisconnected" "connect_flag c1" "handed c1 = handed c"
        "retries c1 = retries c @ [backoff_ms k]" "retryDelayMs c1 = backoff_ms (Suc k)"
    by (auto simp: rspec_iff Cons.prems(3) backoff_Suc)
  have "[k ..< k + length (fe # fes)] = k # [Suc k ..< Suc k + length fes]"
    by (simp add: upt_rec)
  then show ?case
    using Cons.IH [OF c1(2,3,6)] Cons.prems(4) c1 fe by (simp add: rspec_iff)
qed

end

lemma started_errno_0 [simp]: "started_errno 0"
  by (simp add: started_errno_def)

lemma started_not_retry [simp]: "retry_errno e \<Longrightarrow> \<not> started_errno e"
  by (auto simp: retry_errno_def started_errno_def errnos)

text \<open>The socket binds when the connector has a local port.\<close>

interpretation udp_retry: retrying "\<lambda>f e. UdpConnector_startInLoop f True e"
  by unfold_locales
     (simp add: UdpConnector_startInLoop_def UdpConnector_connect_def UdpConnector_retry_def Let_def min_def)

interpretation tcp_retry: retrying Connector_startInLoop
  by unfold_locales
     (simp add: Connector_startInLoop_def Connector_connect_def Connector_retry_def Let_def min_def)

section \<open>Descriptors\<close>

text \<open>
  What can happen to a TCP connector in its loop thread. The owner restarts it only once it is
  connected (\<open>TcpClient::removeConnection\<close>); a timer that has been set may fire; queued functors run in
  order; the channel's events arrive while it is registered.
\<close>

inductive connector_step :: "connector \<Rightarrow> connector \<Rightarrow> bool" where
  cs_start: "Connector_start f e c = Inr c' \<Longrightarrow> connector_step c c'"
| cs_stop: "connector_step c (Connector_stop c)"
| cs_restart: "cn_state c = kConnected \<Longrightarrow> Connector_restart f e c = Inr c' \<Longrightarrow> connector_step c c'"
| cs_timer: "retries c \<noteq> [] \<Longrightarrow> Connector_startInLoop f e c = Inr c' \<Longrightarrow> connector_step c c'"
| cs_stopInLoop: "queued c = CStopInLoop # q \<Longrightarrow> Connector_stopInLoop (c\<lparr>queued := q\<rparr>) = Inr c' \<Longrightarrow> connector_step c c'"
| cs_reset: "queued c = CResetChannel # q \<Longrightarrow> connector_step c (Connector_resetChannel (c\<lparr>queued := q\<rparr>))"
| cs_write: "Connector_handleWrite e sc c = Inr c' \<Longrightarrow> connector_step c c'"
| cs_error: "Connector_handleError c = Inr c' \<Longrightarrow> connector_step c c'"

text \<open>
  A connecting connector watches the one descriptor it has open; otherwise it has none open, and a
  channel that is left is only waiting for its \<open>resetChannel\<close>.
\<close>

definition connector_ok :: "connector \<Rightarrow> bool" where
  "connector_ok c \<longleftrightarrow>
     (if cn_state c = kConnecting
      then (\<exists>ch. cn_channel c = Some ch \<and> isWriting ch \<and> open_fds c = {ch_fd ch} \<and> CResetChannel \<notin> set (queued c))
      else open_fds c = {} \<and>
           (case cn_channel c of None \<Rightarrow> CResetChannel \<notin> set (queued c)
            | Some ch \<Rightarrow> isNoneEvent ch \<and> \<not> addedToLoop ch \<and> count_list (queued c) CResetChannel = 1))"

lemmas Connector_defs = Connector_start_def Connector_stop_def Connector_restart_def Connector_startInLoop_def
  Connector_connect_def Connector_connecting_def Connector_retry_def Connector_stopInLoop_def
  Connector_removeAndResetChannel_def Connector_resetChannel_def Connector_handleWrite_def Connector_handleError_def

lemma remove_channel [simp]: "Channel_remove (disableAll ch) = Inr ((disableAll ch)\<lparr>addedToLoop := False\<rparr>)"
  by (simp add: Channel_remove_def)

lemma watching_channel [simp]: "isWriting (enableWriting (Channel_ctor f))" "ch_fd (Channel_ctor f) = f"
  by (simp_all add: Channel_defs Channel_ctor_def poll_flags)

lemma connector_start_ok:
  assumes "connector_ok c" "Connector_startInLoop f e c = Inr c'"
  shows "connector_ok c'"
  using assms
  by (auto simp: connector_ok_def Connector_startInLoop_def Connector_connect_def Connector_connecting_def
      Connector_retry_def rbind_eq_Inr_iff Let_def split: if_splits option.splits)

text \<open>Taking the channel off a connecting connector.\<close>

definition detached :: "fd \<Rightarrow> connector \<Rightarrow> bool" where
  "detached f c \<longleftrightarrow> open_fds c = {f} \<and> count_list (queued c) CResetChannel = 1 \<and>
     (\<exists>ch. cn_channel c = Some ch \<and> isNoneEvent ch \<and> \<not> addedToLoop ch)"

lemma connector_detach:
  assumes "connector_ok c" "cn_state c = kConnecting"
  obtains f c1 where "Connector_removeAndResetChannel c = Inr (f, c1)" "detached f c1"
      "Connector_removeAndResetChannel (c\<lparr>cn_state := x\<rparr>) = Inr (f, c1\<lparr>cn_state := x\<rparr>)"
proof -
  obtain ch where ch: "cn_channel c = Some ch" "open_fds c = {ch_fd ch}" "count_list (queued c) CResetChannel = 0"
    using assms by (auto simp: connector_ok_def count_list_0_iff)
  let ?c = "c\<lparr>cn_channel := Some ((disableAll ch)\<lparr>addedToLoop := False\<rparr>), queued := queued c @ [CResetChannel]\<rparr>"
  have "detached (ch_fd ch) ?c" using ch by (simp add: detached_def Channel_defs)
  moreover have "Connector_removeAndResetChannel c = Inr (ch_fd ch, ?c)"
    "Connector_removeAndResetChannel (c\<lparr>cn_state := x\<rparr>) = Inr (ch_fd ch, ?c\<lparr>cn_state := x\<rparr>)"
    using ch(1) by (simp_all add: Connector_removeAndResetChannel_def)
  ultimately show thesis using that by blast
qed

lemma detached_ok:
  assumes "detached f c"
  shows "connector_ok (Connector_retry f c)" "detached f (c\<lparr>cn_state := x\<rparr>)"
    "x \<noteq> kConnecting \<Longrightarrow> connector_ok (c\<lparr>cn_state := x, handed := hs, open_fds := open_fds c - {f}\<rparr>)"
    "x \<noteq> kConnecting \<Longrightarrow> connector_ok (c\<lparr>cn_state := x, open_fds := open_fds c - {f}\<rparr>)"
  using assms by (auto simp: detached_def Connector_retry_def connector_ok_def Let_def)

lemma connector_step_ok:
  assumes "connector_ok c" "connector_step c c'"
  shows "connector_ok c'"
  using assms(2)
proof cases
  case (cs_start f e)
  have "connector_ok (c\<lparr>connect_flag := True\<rparr>)" using assms(1) by (auto simp: connector_ok_def split: option.splits)
  then show ?thesis using cs_start connector_start_ok by (simp add: Connector_start_def)
next
  case cs_stop
  then show ?thesis using assms(1) by (simp add: connector_ok_def Connector_stop_def split: option.splits)
next
  case (cs_restart f e)
  have "connector_ok (c\<lparr>cn_state := kDisconnected, retryDelayMs := kInitRetryDelayMs, connect_flag := True\<rparr>)"
    using assms(1) cs_restart by (auto simp: connector_ok_def split: option.splits)
  then show ?thesis using cs_restart connector_start_ok by (simp add: Connector_restart_def)
next
  case (cs_timer f e)
  then show ?thesis using connector_start_ok assms(1) by blast
next
  case (cs_stopInLoop q)
  let ?c = "c\<lparr>queued := q\<rparr>"
  have ok: "connector_ok ?c"
    using assms(1) cs_stopInLoop(1) by (auto simp: connector_ok_def split: option.splits if_splits)
  show ?thesis
  proof (cases "cn_state ?c = kConnecting")
    case True
    obtain f c1 where "detached f c1"
        "Connector_removeAndResetChannel (?c\<lparr>cn_state := kDisconnected\<rparr>) = Inr (f, c1\<lparr>cn_state := kDisconnected\<rparr>)"
      by (rule connector_detach [OF ok True])
    then show ?thesis
      using cs_stopInLoop(2) True detached_ok(1) [OF detached_ok(2)] unfolding Connector_stopInLoop_def by auto
  qed (use cs_stopInLoop ok in \<open>simp add: Connector_stopInLoop_def\<close>)
next
  case (cs_reset q)
  then show ?thesis
    using assms(1) by (auto simp: connector_ok_def Connector_resetChannel_def count_list_0_iff split: if_splits option.splits)
next
  case (cs_write e sc)
  show ?thesis
  proof (cases "cn_state c = kConnecting")
    case True
    obtain f c1 where "Connector_removeAndResetChannel c = Inr (f, c1)" "detached f c1"
      by (rule connector_detach [OF assms(1) True])
    then show ?thesis
      using cs_write True detached_ok [of f c1] unfolding Connector_handleWrite_def
      by (auto simp: Let_def split: if_splits)
  qed (use cs_write assms(1) in \<open>auto simp: Connector_handleWrite_def rbind_eq_Inr_iff\<close>)
next
  case cs_error
  show ?thesis
  proof (cases "cn_state c = kConnecting")
    case True
    obtain f c1 where "Connector_removeAndResetChannel c = Inr (f, c1)" "detached f c1"
      by (rule connector_detach [OF assms(1) True])
    then show ?thesis
      using cs_error True detached_ok(1) [of f c1] unfolding Connector_handleError_def by auto
  qed (use cs_error assms(1) in \<open>auto simp: Connector_handleError_def\<close>)
qed

interpretation tcp_connector: inductive_invariant "(=) Connector_ctor" connector_step connector_ok
proof
  show "Connector_ctor = c \<Longrightarrow> connector_ok c" for c
    by (auto simp: Connector_ctor_def connector_ok_def)
qed (rule connector_step_ok)

section \<open>Properties\<close>

text \<open>
  Retrying over UDP: a connector whose attempts keep failing with errors that it retries stays
  disconnected and waits half a second, one, two, four, \dots, at most thirty seconds between attempts;
  but every failed attempt leaves its socket open: after \<open>n\<close> attempts \<open>n\<close> descriptors are open that
  nobody owns.
\<close>

theorem udp_retry_backoff_and_leak:
  assumes "list_all (\<lambda>(f, e). retry_errno e) fes" "distinct (map fst fes)"
  shows "rspec (rfold (\<lambda>(f, e). UdpConnector_startInLoop f True e) fes ((UdpConnector_ctor port)\<lparr>connect_flag := True\<rparr>))
     (\<lambda>c. cn_state c = kDisconnected \<and> handed c = [] \<and> retries c = map backoff_ms [0 ..< length fes] \<and>
        open_fds c = set (map fst fes) \<and> card (open_fds c) = length fes)"
proof -
  let ?c = "(UdpConnector_ctor port)\<lparr>connect_flag := True\<rparr>"
  have b: "rspec (rfold (\<lambda>(f, e). UdpConnector_startInLoop f True e) fes ?c)
      (\<lambda>c. cn_state c = kDisconnected \<and> connect_flag c \<and> handed c = handed ?c \<and>
        retries c = retries ?c @ map backoff_ms [0 ..< 0 + length fes])"
    by (rule udp_retry.backoff) (use assms in \<open>simp_all add: UdpConnector_ctor_def backoff_0\<close>)
  have o: "rspec (rfold (\<lambda>(f, e). UdpConnector_startInLoop f True e) fes c) (\<lambda>c'. open_fds c' = open_fds c \<union> set (map fst fes))"
    if "list_all (\<lambda>(f, e). retry_errno e) fes" "cn_state c = kDisconnected" "connect_flag c" for c
    using that
  proof (induction fes arbitrary: c)
    case (Cons fe fes)
    obtain f e where fe: "fe = (f, e)" by (cases fe)
    have "rspec (UdpConnector_startInLoop f True e c)
        (\<lambda>c'. open_fds c' = insert f (open_fds c) \<and> cn_state c' = kDisconnected \<and> connect_flag c')"
      using Cons.prems fe
      by (simp add: UdpConnector_startInLoop_def UdpConnector_connect_def UdpConnector_retry_def Let_def)
    then obtain c1 where c1: "UdpConnector_startInLoop f True e c = Inr c1" "open_fds c1 = insert f (open_fds c)"
        "cn_state c1 = kDisconnected" "connect_flag c1"
      by (auto simp: rspec_iff)
    then show ?case using Cons.IH [OF _ c1(3,4)] Cons.prems(1) fe by simp
  qed simp
  have "card (fst ` set fes) = length fes" using distinct_card [OF assms(2)] by simp
  with rspec_conjI [OF b o [OF assms(1)]] show ?thesis
    by (auto simp: UdpConnector_ctor_def elim!: rspec_mono)
qed


theorem udp_retry_backoff_and_leak_witness:
  "rspec (rfold (\<lambda>(f, e). UdpConnector_startInLoop f True e) [(7, EAGAIN), (8, EADDRINUSE), (9, EAGAIN)]
      ((UdpConnector_ctor 80)\<lparr>connect_flag := True\<rparr>))
     (\<lambda>c. retries c = [500, 1000, 2000] \<and> open_fds c = {7, 8, 9})"
proof -
  have "list_all (\<lambda>(f, e). retry_errno e) [(7, EAGAIN), (8, EADDRINUSE), (9 :: fd, EAGAIN)]"
    "distinct (map fst [(7, EAGAIN), (8, EADDRINUSE), (9 :: fd, EAGAIN)])"
    by (simp_all add: retry_errno_def)
  from udp_retry_backoff_and_leak [OF this, of 80] show ?thesis
    by (rule rspec_mono) (auto simp: backoff_ms_def upt_rec)
qed

text \<open>
  A pending retry ends the process: \<open>stop\<close> and \<open>start\<close> do not cancel a retry timer, and
  \<open>startInLoop\<close> asserts that the connector is disconnected. So when the owner starts the connector again
  while a retry is pending and this attempt succeeds, the pending timer aborts when it fires.
\<close>

theorem pending_retry_aborts:
  assumes "cn_state c = kDisconnected" "connect_flag c" "retry_errno e"
  shows "rspec (UdpConnector_startInLoop f True e c) (\<lambda>c1. retries c1 \<noteq> [] \<and>
     rspec (UdpConnector_start f' True 0 c1) (\<lambda>c2. handed c2 = handed c @ [f'] \<and>
       UdpConnector_startInLoop f'' True e' c2 = Inl (AssertFail ''state_ == kDisconnected'')))"
  using assms
  by (simp add: UdpConnector_startInLoop_def UdpConnector_start_def UdpConnector_connect_def UdpConnector_connected_def
      UdpConnector_retry_def Let_def)

theorem pending_retry_aborts_witness:
  "rspec (UdpConnector_startInLoop 7 True EAGAIN ((UdpConnector_ctor 0)\<lparr>connect_flag := True\<rparr>)) (\<lambda>c1. retries c1 \<noteq> [] \<and>
     rspec (UdpConnector_start 8 True 0 c1) (\<lambda>c2. handed c2 = [8] \<and>
       UdpConnector_startInLoop 9 True 0 c2 = Inl (AssertFail ''state_ == kDisconnected'')))"
  using pending_retry_aborts [of "(UdpConnector_ctor 0)\<lparr>connect_flag := True\<rparr>" EAGAIN 7 8 9 0]
  by (simp add: UdpConnector_ctor_def retry_errno_def)

text \<open>
  C16. The TCP connector leaks no descriptor: in every state it can reach, it has exactly the descriptor
  open that its channel watches while it is connecting, and none otherwise; a channel that is left over
  is off and waits for the one \<open>resetChannel\<close> that is queued.
\<close>

theorem tcp_connector_owns_one_fd:
  assumes "reaches ((=) Connector_ctor) connector_step c"
  shows "(cn_state c = kConnecting \<longrightarrow> (\<exists>ch. cn_channel c = Some ch \<and> isWriting ch \<and> open_fds c = {ch_fd ch})) \<and>
    (cn_state c \<noteq> kConnecting \<longrightarrow> open_fds c = {}) \<and>
    (cn_state c \<noteq> kConnecting \<and> cn_channel c \<noteq> None \<longrightarrow> count_list (queued c) CResetChannel = 1)"
  using tcp_connector.inv_reaches [OF assms] by (auto simp: connector_ok_def split: if_splits)

definition demo_connecting :: connector where
  "demo_connecting = Connector_ctor\<lparr>connect_flag := True, open_fds := {5}, cn_state := kConnecting,
     cn_channel := Some (enableWriting (Channel_ctor 5))\<rparr>"

theorem tcp_connector_owns_one_fd_witness:
  "reaches ((=) Connector_ctor) connector_step demo_connecting \<and>
   (\<exists>ch. cn_channel demo_connecting = Some ch \<and> isWriting ch \<and> open_fds demo_connecting = {ch_fd ch})"
proof -
  have "Connector_start 5 EINPROGRESS Connector_ctor = Inr demo_connecting"
    by (simp add: Connector_start_def Connector_startInLoop_def Connector_connect_def Connector_connecting_def
        Connector_ctor_def demo_connecting_def started_errno_def)
  then have r: "reaches ((=) Connector_ctor) connector_step demo_connecting"
    using reaches_step [of "(=) Connector_ctor" connector_step Connector_ctor] reaches_init [of "(=) Connector_ctor"]
    by (simp add: cs_start)
  then show ?thesis using tcp_connector_owns_one_fd [OF r] by (simp add: demo_connecting_def)
qed

end
