(* ===== verification/EventLoop.thy ===== *)
theory EventLoop
  imports Prelude
begin

text \<open>
  \<open>EventLoop\<close> (\<open>third/muduo/net/EventLoop.cc\<close>) and \<open>EventLoopThreadPool\<close>. The functions of the class are
  state transformers. Because \<open>queueInLoop\<close> and \<open>quit\<close> are called from other threads, the class is also
  given as a step relation whose steps are the atomic pieces between which threads interleave: the push
  under the mutex, the write to the eventfd, the return of \<open>poll\<close>, the handling of events, the swap
  under the mutex, one functor. A functor is its number and the functors it queues when it runs.
\<close>

datatype ftor = Ftor nat "ftor list"

datatype loop_pc = NotLooping | Polling | Handling | AtSwap | RunningFunctors

record event_loop =
  looping :: bool
  quit :: bool
  eventHandling :: bool
  callingPendingFunctors :: bool
  iteration :: nat
  pendingFunctors :: "ftor list"
  wakeupFd :: nat                    \<comment> \<open>the counter of the eventfd\<close>
  activeChannels :: "nat list"
  currentActiveChannel :: "nat option"
  loop_pc :: loop_pc
  functors :: "ftor list"            \<comment> \<open>the local vector of \<open>doPendingFunctors\<close>, from the next one on\<close>
  in_flight :: nat                   \<comment> \<open>threads that have pushed or set \<open>quit_\<close> and not yet written\<close>
  ran :: "ftor list"                 \<comment> \<open>every functor run from the queue\<close>
  pushed :: "ftor list"              \<comment> \<open>every functor pushed\<close>

definition EventLoop_ctor :: event_loop where
  "EventLoop_ctor = \<lparr>looping = False, quit = False, eventHandling = False, callingPendingFunctors = False,
     iteration = 0, pendingFunctors = [], wakeupFd = 0, activeChannels = [], currentActiveChannel = None,
     loop_pc = NotLooping, functors = [], in_flight = 0, ran = [], pushed = []\<rparr>"

section \<open>The functions\<close>

definition push_functor :: "ftor \<Rightarrow> event_loop \<Rightarrow> event_loop" where
  "push_functor cb l = l\<lparr>pendingFunctors := pendingFunctors l @ [cb], pushed := pushed l @ [cb]\<rparr>"

definition EventLoop_wakeup :: "event_loop \<Rightarrow> event_loop" where
  "EventLoop_wakeup l = l\<lparr>wakeupFd := wakeupFd l + 1\<rparr>"

definition EventLoop_handleRead :: "event_loop \<Rightarrow> event_loop" where
  "EventLoop_handleRead l = l\<lparr>wakeupFd := 0\<rparr>"

definition EventLoop_queueInLoop :: "bool \<Rightarrow> ftor \<Rightarrow> event_loop \<Rightarrow> event_loop" where
  "EventLoop_queueInLoop inLoopThread cb l =
     (let l1 = push_functor cb l
      in if \<not> inLoopThread \<or> callingPendingFunctors l1 then EventLoop_wakeup l1 else l1)"

text \<open>Calling a functor in the loop thread.\<close>

primrec call_ftor :: "ftor \<Rightarrow> event_loop \<Rightarrow> event_loop" where
  "call_ftor (Ftor n qs) l = fold (EventLoop_queueInLoop True) qs l"

definition EventLoop_runInLoop :: "bool \<Rightarrow> ftor \<Rightarrow> event_loop \<Rightarrow> event_loop" where
  "EventLoop_runInLoop inLoopThread cb l =
     (if inLoopThread then call_ftor cb l else EventLoop_queueInLoop inLoopThread cb l)"

definition EventLoop_queueSize :: "event_loop \<Rightarrow> nat" where
  "EventLoop_queueSize l = length (pendingFunctors l)"

definition EventLoop_quit :: "bool \<Rightarrow> event_loop \<Rightarrow> event_loop" where
  "EventLoop_quit inLoopThread l =
     (let l1 = l\<lparr>quit := True\<rparr> in if \<not> inLoopThread then EventLoop_wakeup l1 else l1)"

definition run_one :: "ftor \<Rightarrow> event_loop \<Rightarrow> event_loop" where
  "run_one f l = call_ftor f (l\<lparr>functors := tl (functors l), ran := ran l @ [f]\<rparr>)"

definition swap_functors :: "event_loop \<Rightarrow> event_loop" where
  "swap_functors l = l\<lparr>callingPendingFunctors := True, functors := pendingFunctors l, pendingFunctors := []\<rparr>"

definition EventLoop_doPendingFunctors :: "event_loop \<Rightarrow> event_loop" where
  "EventLoop_doPendingFunctors l =
     (let l1 = swap_functors l
      in (fold run_one (functors l1) l1)\<lparr>callingPendingFunctors := False\<rparr>)"

text \<open>The entry of \<open>loop\<close> and one round of it; \<open>ready\<close> are the channels \<open>poll\<close> returns, channel 0 the eventfd's.\<close>

definition EventLoop_loop_enter :: "event_loop \<Rightarrow> event_loop result" where
  "EventLoop_loop_enter l =
     rbind (cassert (\<not> looping l) ''!looping_'') (\<lambda>_. Inr (l\<lparr>looping := True, quit := False\<rparr>))"

definition handle_channel :: "(nat \<Rightarrow> event_loop \<Rightarrow> event_loop) \<Rightarrow> nat \<Rightarrow> event_loop \<Rightarrow> event_loop" where
  "handle_channel cbs ch l =
     (let l1 = l\<lparr>currentActiveChannel := Some ch\<rparr>
      in if ch = 0 then EventLoop_handleRead l1 else cbs ch l1)"

definition EventLoop_loop_round :: "(nat \<Rightarrow> event_loop \<Rightarrow> event_loop) \<Rightarrow> nat list \<Rightarrow> event_loop \<Rightarrow> event_loop" where
  "EventLoop_loop_round cbs ready l =
     (let l1 = l\<lparr>activeChannels := ready, iteration := iteration l + 1, eventHandling := True\<rparr>;
          l2 = fold (handle_channel cbs) ready l1
      in EventLoop_doPendingFunctors (l2\<lparr>currentActiveChannel := None, eventHandling := False\<rparr>))"

text \<open>The check \<open>removeChannel\<close> makes before it asks the poller.\<close>

definition EventLoop_removeChannel_check :: "bool \<Rightarrow> nat \<Rightarrow> event_loop \<Rightarrow> unit result" where
  "EventLoop_removeChannel_check inLoopThread ch l =
     (if \<not> inLoopThread then Inl (Fatal ''EventLoop::abortNotInLoopThread'')
      else if eventHandling l
      then cassert (currentActiveChannel l = Some ch \<or> ch \<notin> set (activeChannels l)) ''currentActiveChannel_ == channel''
      else Inr ())"

section \<open>Interleavings\<close>

text \<open>
  Another thread's \<open>queueInLoop\<close> is \<open>el_push\<close> and later \<open>el_wake\<close>, its \<open>quit\<close> is \<open>el_quit\<close> and later \<open>el_wake\<close>.
  \<open>poll\<close> may return at any time (other descriptors, timeout); the events it found are handled, among
  them the eventfd's if its counter is not zero, and callbacks may queue functors.
\<close>

inductive el_step :: "event_loop \<Rightarrow> event_loop \<Rightarrow> bool" where
  el_push: "el_step l ((push_functor cb l)\<lparr>in_flight := in_flight l + 1\<rparr>)"
| el_quit: "el_step l (l\<lparr>quit := True, in_flight := in_flight l + 1\<rparr>)"
| el_wake: "0 < in_flight l \<Longrightarrow> el_step l ((EventLoop_wakeup l)\<lparr>in_flight := in_flight l - 1\<rparr>)"
| el_enter: "loop_pc l = NotLooping \<Longrightarrow> EventLoop_loop_enter l = Inr l' \<Longrightarrow> el_step l (l'\<lparr>loop_pc := Polling\<rparr>)"
| el_polled: "loop_pc l = Polling \<Longrightarrow> el_step l (l\<lparr>loop_pc := Handling, iteration := iteration l + 1, eventHandling := True\<rparr>)"
| el_callback: "loop_pc l = Handling \<Longrightarrow> el_step l (fold (EventLoop_queueInLoop True) cbs l)"
| el_handled: "loop_pc l = Handling \<Longrightarrow>
    el_step l ((if 0 < wakeupFd l then EventLoop_handleRead l else l)\<lparr>loop_pc := AtSwap, eventHandling := False\<rparr>)"
| el_swap: "loop_pc l = AtSwap \<Longrightarrow> el_step l ((swap_functors l)\<lparr>loop_pc := RunningFunctors\<rparr>)"
| el_run: "loop_pc l = RunningFunctors \<Longrightarrow> functors l = f # fs \<Longrightarrow> el_step l (run_one f l)"
| el_done: "loop_pc l = RunningFunctors \<Longrightarrow> functors l = [] \<Longrightarrow>
    el_step l (l\<lparr>callingPendingFunctors := False, looping := \<not> quit l,
                loop_pc := (if quit l then NotLooping else Polling)\<rparr>)"

inductive_cases el_stepE: "el_step l l'"

text \<open>Somebody has written to the eventfd or is about to.\<close>

definition woken :: "event_loop \<Rightarrow> bool" where
  "woken l \<longleftrightarrow> 0 < wakeupFd l \<or> 0 < in_flight l"

definition el_inv :: "event_loop \<Rightarrow> bool" where
  "el_inv l \<longleftrightarrow>
     pushed l = ran l @ functors l @ pendingFunctors l \<and>
     (functors l \<noteq> [] \<longrightarrow> loop_pc l = RunningFunctors) \<and>
     (callingPendingFunctors l \<longleftrightarrow> loop_pc l = RunningFunctors) \<and>
     (looping l \<longleftrightarrow> loop_pc l \<noteq> NotLooping) \<and>
     (pendingFunctors l \<noteq> [] \<and> loop_pc l \<in> {Polling, RunningFunctors, NotLooping} \<longrightarrow> woken l) \<and>
     (quit l \<and> loop_pc l = Polling \<longrightarrow> woken l)"

text \<open>What queueing in the loop thread does: push, and one write each while functors are being run.\<close>

lemma queueInLoop_true:
  "EventLoop_queueInLoop True cb l =
     l\<lparr>pendingFunctors := pendingFunctors l @ [cb], pushed := pushed l @ [cb],
       wakeupFd := wakeupFd l + (if callingPendingFunctors l then 1 else 0)\<rparr>"
  by (simp add: EventLoop_queueInLoop_def push_functor_def EventLoop_wakeup_def Let_def)

lemma queue_all:
  "fold (EventLoop_queueInLoop True) cbs l =
     l\<lparr>pendingFunctors := pendingFunctors l @ cbs, pushed := pushed l @ cbs,
       wakeupFd := wakeupFd l + (if callingPendingFunctors l then length cbs else 0)\<rparr>"
  by (induction cbs arbitrary: l) (simp_all add: queueInLoop_true)

primrec queues :: "ftor \<Rightarrow> ftor list" where
  "queues (Ftor n qs) = qs"

lemma call_ftor_eq: "call_ftor f l = fold (EventLoop_queueInLoop True) (queues f) l"
  by (cases f) simp

lemma run_one_eq:
  "run_one f l = l\<lparr>functors := tl (functors l), ran := ran l @ [f], pendingFunctors := pendingFunctors l @ queues f,
     pushed := pushed l @ queues f, wakeupFd := wakeupFd l + (if callingPendingFunctors l then length (queues f) else 0)\<rparr>"
  by (simp add: run_one_def call_ftor_eq queue_all)

lemma el_inv_step:
  assumes "el_inv l" "el_step l l'"
  shows "el_inv l'"
  using assms(2)
proof cases
  case (el_push cb)
  then show ?thesis using assms(1) by (auto simp: el_inv_def push_functor_def woken_def)
next
  case el_quit
  then show ?thesis using assms(1) by (auto simp: el_inv_def woken_def)
next
  case el_wake
  then show ?thesis using assms(1) by (auto simp: el_inv_def woken_def EventLoop_wakeup_def)
next
  case (el_enter l1)
  then show ?thesis using assms(1) by (auto simp: el_inv_def woken_def EventLoop_loop_enter_def rbind_eq_Inr_iff)
next
  case el_polled
  then show ?thesis using assms(1) by (auto simp: el_inv_def woken_def)
next
  case (el_callback cbs)
  then show ?thesis using assms(1) by (auto simp: el_inv_def woken_def queue_all)
next
  case el_handled
  then show ?thesis using assms(1) by (auto simp: el_inv_def woken_def EventLoop_handleRead_def)
next
  case el_swap
  then show ?thesis using assms(1) by (auto simp: el_inv_def woken_def swap_functors_def)
next
  case (el_run f fs)
  then show ?thesis using assms(1) by (auto simp: el_inv_def woken_def run_one_eq)
next
  case el_done
  then show ?thesis using assms(1) by (auto simp: el_inv_def woken_def)
qed

interpretation loop_run: inductive_invariant "(=) EventLoop_ctor" el_step el_inv
proof
  show "EventLoop_ctor = l \<Longrightarrow> el_inv l" for l
    by (auto simp: EventLoop_ctor_def el_inv_def)
qed (rule el_inv_step)

text \<open>Running a vector of functors one after the other.\<close>

lemma run_all_eq:
  "callingPendingFunctors l \<Longrightarrow> fold run_one fs (l\<lparr>functors := fs\<rparr>) =
     l\<lparr>functors := [], ran := ran l @ fs, pendingFunctors := pendingFunctors l @ concat (map queues fs),
       pushed := pushed l @ concat (map queues fs), wakeupFd := wakeupFd l + length (concat (map queues fs))\<rparr>"
proof (induction fs arbitrary: l)
  case (Cons f fs)
  have "run_one f (l\<lparr>functors := f # fs\<rparr>) =
      (l\<lparr>ran := ran l @ [f], pendingFunctors := pendingFunctors l @ queues f, pushed := pushed l @ queues f,
         wakeupFd := wakeupFd l + length (queues f)\<rparr>)\<lparr>functors := fs\<rparr>"
    using Cons.prems by (simp add: run_one_eq)
  then show ?case using Cons.prems by (simp add: Cons.IH)
qed simp

lemma doPendingFunctors_eq:
  "EventLoop_doPendingFunctors l =
     l\<lparr>callingPendingFunctors := False, functors := [], ran := ran l @ pendingFunctors l,
       pendingFunctors := concat (map queues (pendingFunctors l)),
       pushed := pushed l @ concat (map queues (pendingFunctors l)),
       wakeupFd := wakeupFd l + length (concat (map queues (pendingFunctors l)))\<rparr>"
proof -
  let ?l = "l\<lparr>callingPendingFunctors := True, pendingFunctors := []\<rparr>"
  have "swap_functors l = ?l\<lparr>functors := pendingFunctors l\<rparr>" by (simp add: swap_functors_def)
  then show ?thesis
    using run_all_eq [of ?l "pendingFunctors l"]
    by (simp add: EventLoop_doPendingFunctors_def Let_def)
qed

section \<open>\<open>EventLoopThreadPool\<close>\<close>

record thread_pool =
  baseLoop :: loop_id
  pool_name :: string
  pool_started :: bool
  numThreads :: nat
  pool_next :: nat
  loops :: "loop_id list"
  thread_names :: "string list"

definition EventLoopThreadPool_ctor :: "loop_id \<Rightarrow> string \<Rightarrow> thread_pool" where
  "EventLoopThreadPool_ctor base nm = \<lparr>baseLoop = base, pool_name = nm, pool_started = False, numThreads = 0,
     pool_next = 0, loops = [], thread_names = []\<rparr>"

definition EventLoopThreadPool_setThreadNum :: "nat \<Rightarrow> thread_pool \<Rightarrow> thread_pool" where
  "EventLoopThreadPool_setThreadNum n p = p\<lparr>numThreads := n\<rparr>"

text \<open>\<open>startLoop i\<close> is the loop that the \<open>i\<close>-th \<open>EventLoopThread\<close> returns.\<close>

definition EventLoopThreadPool_start :: "(nat \<Rightarrow> loop_id) \<Rightarrow> thread_pool \<Rightarrow> thread_pool result" where
  "EventLoopThreadPool_start startLoop p =
     rbind (cassert (\<not> pool_started p) ''!started_'') (\<lambda>_.
     Inr (fold (\<lambda>i q. q\<lparr>thread_names := thread_names q @
                          [snprintf_cut (length (pool_name q) + 32) (pool_name q @ show_nat i)],
                       loops := loops q @ [startLoop i]\<rparr>)
          [0 ..< numThreads p] (p\<lparr>pool_started := True\<rparr>)))"

definition EventLoopThreadPool_getNextLoop :: "thread_pool \<Rightarrow> (loop_id \<times> thread_pool) result" where
  "EventLoopThreadPool_getNextLoop p =
     rbind (cassert (pool_started p) ''started_'') (\<lambda>_.
     if loops p \<noteq> []
     then let l = loops p ! pool_next p; n = pool_next p + 1
          in Inr (l, p\<lparr>pool_next := (if n \<ge> length (loops p) then 0 else n)\<rparr>)
     else Inr (baseLoop p, p))"

definition EventLoopThreadPool_getLoopForHash :: "nat \<Rightarrow> thread_pool \<Rightarrow> loop_id" where
  "EventLoopThreadPool_getLoopForHash hashCode p =
     (if loops p \<noteq> [] then loops p ! (hashCode mod length (loops p)) else baseLoop p)"

definition EventLoopThreadPool_getAllLoops :: "thread_pool \<Rightarrow> loop_id list result" where
  "EventLoopThreadPool_getAllLoops p =
     rbind (cassert (pool_started p) ''started_'') (\<lambda>_. Inr (if loops p = [] then [baseLoop p] else loops p))"

definition pool_ok :: "thread_pool \<Rightarrow> bool" where
  "pool_ok p \<longleftrightarrow> pool_started p \<and> (loops p = [] \<or> pool_next p < length (loops p))"

fun next_loops :: "nat \<Rightarrow> thread_pool \<Rightarrow> (loop_id list \<times> thread_pool) result" where
  "next_loops 0 p = Inr ([], p)"
| "next_loops (Suc n) p =
     rbind (EventLoopThreadPool_getNextLoop p) (\<lambda>(l, p1).
     rbind (next_loops n p1) (\<lambda>(ls, p2). Inr (l # ls, p2)))"

text \<open>The loop that call \<open>i\<close> from now on returns.\<close>

definition pool_pick :: "thread_pool \<Rightarrow> nat \<Rightarrow> loop_id" where
  "pool_pick p i = (if loops p = [] then baseLoop p else loops p ! ((pool_next p + i) mod length (loops p)))"

lemma getNextLoop_ok:
  assumes "pool_ok p"
  obtains p' where "EventLoopThreadPool_getNextLoop p = Inr (pool_pick p 0, p')" "pool_ok p'"
    "loops p' = loops p" "baseLoop p' = baseLoop p" "\<And>i. pool_pick p' i = pool_pick p (Suc i)"
proof (cases "loops p = []")
  case True
  with assms that [of p] show thesis
    by (auto simp: pool_ok_def EventLoopThreadPool_getNextLoop_def pool_pick_def)
next
  case False
  let ?n = "length (loops p)"
  let ?k = "if pool_next p + 1 \<ge> ?n then 0 else pool_next p + 1"
  let ?p = "p\<lparr>pool_next := ?k\<rparr>"
  have lt: "pool_next p < ?n" using assms False by (simp add: pool_ok_def)
  have k: "?k = (pool_next p + 1) mod ?n"
  proof (cases "pool_next p + 1 \<ge> ?n")
    case True
    then have "pool_next p + 1 = ?n" using lt by linarith
    then show ?thesis by simp
  qed simp
  show thesis
  proof (rule that [of ?p])
    show "EventLoopThreadPool_getNextLoop p = Inr (pool_pick p 0, ?p)"
      using assms False lt by (simp add: EventLoopThreadPool_getNextLoop_def pool_ok_def pool_pick_def)
    show "pool_ok ?p" using assms False by (simp add: pool_ok_def)
    have "(?k + i) mod ?n = (pool_next p + Suc i) mod ?n" for i unfolding k by (simp add: mod_add_left_eq)
    then show "pool_pick ?p i = pool_pick p (Suc i)" for i
      using False unfolding pool_pick_def by simp
  qed simp_all
qed

lemma next_loops_ok:
  "pool_ok p \<Longrightarrow> \<exists>p'. next_loops n p = Inr (map (pool_pick p) [0 ..< n], p') \<and> pool_ok p' \<and> loops p' = loops p"
proof (induction n arbitrary: p)
  case (Suc n)
  obtain p1 where p1: "EventLoopThreadPool_getNextLoop p = Inr (pool_pick p 0, p1)" "pool_ok p1"
      "loops p1 = loops p" "\<And>i. pool_pick p1 i = pool_pick p (Suc i)"
    using getNextLoop_ok [OF Suc.prems] by metis
  obtain p2 where p2: "next_loops n p1 = Inr (map (pool_pick p1) [0 ..< n], p2)" "pool_ok p2" "loops p2 = loops p1"
    using Suc.IH [OF p1(2)] by blast
  have "map (pool_pick p) [0 ..< Suc n] = pool_pick p 0 # map (pool_pick p1) [0 ..< n]"
    by (simp add: upt_conv_Cons p1(4) map_Suc_upt [symmetric] del: upt_Suc)
  then show ?case using p1 p2 by simp
qed simp

lemma start_pool:
  "\<not> pool_started p \<Longrightarrow> \<exists>p'. EventLoopThreadPool_start st p = Inr p' \<and> pool_started p' \<and> baseLoop p' = baseLoop p \<and>
     loops p' = loops p @ map st [0 ..< numThreads p] \<and> pool_next p' = pool_next p"
proof -
  have "\<exists>tn. fold (\<lambda>i q. q\<lparr>thread_names := thread_names q @ [snprintf_cut (length (pool_name q) + 32) (pool_name q @ show_nat i)],
      loops := loops q @ [st i]\<rparr>) is q = q\<lparr>thread_names := tn, loops := loops q @ map st is\<rparr>" for "is" q
  proof (induction "is" arbitrary: q)
    case Nil
    show ?case by (rule exI [of _ "thread_names q"]) simp
  next
    case (Cons i "is")
    let ?q = "q\<lparr>thread_names := thread_names q @ [snprintf_cut (length (pool_name q) + 32) (pool_name q @ show_nat i)],
      loops := loops q @ [st i]\<rparr>"
    from Cons [of ?q] show ?case by auto
  qed
  from this [of "[0 ..< numThreads p]" "p\<lparr>pool_started := True\<rparr>"] show "\<not> pool_started p \<Longrightarrow> ?thesis"
    by (auto simp: EventLoopThreadPool_start_def)
qed

section \<open>Properties\<close>


definition demo_loop :: event_loop where
  "demo_loop = EventLoop_ctor\<lparr>looping := True, loop_pc := Polling, pendingFunctors := [Ftor 1 []], pushed := [Ftor 1 []],
     in_flight := 1\<rparr>"

lemma demo_loop_reached: "reaches ((=) EventLoop_ctor) el_step demo_loop"
proof -
  let ?l = "EventLoop_ctor\<lparr>looping := True, quit := False, loop_pc := Polling\<rparr>"
  have "reaches ((=) EventLoop_ctor) el_step EventLoop_ctor" by (rule reaches_init) simp
  moreover have "el_step EventLoop_ctor ?l"
    using el_enter [of EventLoop_ctor] by (simp add: EventLoop_ctor_def EventLoop_loop_enter_def)
  ultimately have "reaches ((=) EventLoop_ctor) el_step ?l" by (rule reaches_step)
  moreover have "el_step ?l demo_loop"
    using el_push [of ?l "Ftor 1 []"] by (simp add: EventLoop_ctor_def push_functor_def demo_loop_def)
  ultimately show ?thesis by (rule reaches_step)
qed


text \<open>
  Functors run once and in order: in every interleaving, the functors run so far, those still to
  run of the vector that was swapped out and those pending are, one after the other, exactly the
  functors that were queued, in the order of their pushes.
\<close>

theorem functors_run_in_order:
  assumes "reaches ((=) EventLoop_ctor) el_step l"
  shows "pushed l = ran l @ functors l @ pendingFunctors l"
  using loop_run.inv_reaches [OF assms] by (simp add: el_inv_def)

theorem functors_run_in_order_witness:
  "reaches ((=) EventLoop_ctor) el_step demo_loop \<and> pushed demo_loop = [Ftor 1 []] \<and>
   pushed demo_loop = ran demo_loop @ functors demo_loop @ pendingFunctors demo_loop"
  using functors_run_in_order [OF demo_loop_reached] demo_loop_reached by (simp add: demo_loop_def)

text \<open>
  One call of \<open>doPendingFunctors\<close> runs exactly the functors that were pending when it began, in
  order. Functors these queue stay for the next round, each with a write to the eventfd so that the
  next \<open>poll\<close> returns at once: a functor that keeps queueing itself cannot starve the loop's events.
\<close>

theorem pending_functors_snapshot:
  "let l' = EventLoop_doPendingFunctors l; new = concat (map queues (pendingFunctors l))
   in ran l' = ran l @ pendingFunctors l \<and> pendingFunctors l' = new \<and>
      wakeupFd l' = wakeupFd l + length new \<and> \<not> callingPendingFunctors l'"
  by (simp add: doPendingFunctors_eq Let_def)

text \<open>
  Round robin: a pool started with \<open>n\<close> threads assigns the \<open>i\<close>-th connection to loop \<open>i mod n\<close>, and
  every connection to the base loop when it has no threads; starting it twice is an assertion failure.
\<close>

theorem pool_round_robin:
  "rspec (EventLoopThreadPool_start st (EventLoopThreadPool_setThreadNum n (EventLoopThreadPool_ctor base nm)))
     (\<lambda>p. EventLoopThreadPool_start st p = Inl (AssertFail ''!started_'') \<and>
        rspec (next_loops k p) (\<lambda>(ls, p'). ls = map (\<lambda>i. if n = 0 then base else st (i mod n)) [0 ..< k]))"
proof -
  let ?p = "EventLoopThreadPool_setThreadNum n (EventLoopThreadPool_ctor base nm)"
  have "\<not> pool_started ?p" "loops ?p = []" "numThreads ?p = n" "pool_next ?p = 0" "baseLoop ?p = base"
    by (simp_all add: EventLoopThreadPool_setThreadNum_def EventLoopThreadPool_ctor_def)
  with start_pool [of ?p st] obtain p where p: "EventLoopThreadPool_start st ?p = Inr p" "pool_started p"
      "loops p = map st [0 ..< n]" "pool_next p = 0" "baseLoop p = base"
    by auto
  have "pool_ok p" using p by (cases n) (auto simp: pool_ok_def)
  from next_loops_ok [OF this, of k] obtain p' where
    k: "next_loops k p = Inr (map (pool_pick p) [0 ..< k], p')" by blast
  have "pool_pick p i = (if n = 0 then base else st (i mod n))" for i
    using p by (auto simp: pool_pick_def)
  then show ?thesis
    using p k by (simp add: EventLoopThreadPool_start_def [of st p])
qed

end
