(* ===== verification/UdpServer.thy ===== *)
theory UdpServer
  imports InetAddress Connectors EventLoop "HOL-Library.AList"
begin

text \<open>
  \<open>UdpAcceptor\<close> and \<open>UdpServer\<close> (\<open>core/UdpAcceptor.cpp\<close>, \<open>core/UdpServer.cpp\<close>, \<open>core/UdpSocketsOps.cpp\<close>). A datagram
  on the listening socket from an unknown peer makes the acceptor create a connector, which connects a
  socket to the peer and hands it to the server; the server names the connection, assigns it a loop
  and keeps it until its close callback. The acceptor's \<open>std::map\<close> is the one of theory \<open>StdMap\<close> with
  \<open>InetAddress::operator<\<close>. What the system calls return is an argument. \<open>UdpConnection\<close> objects are the
  records the server keeps of them; their own behaviour is in theory \<open>UdpConnection\<close>.
\<close>

section \<open>The acceptor\<close>

datatype recv_result = Datagram inet_address bytes | RecvErr int

definition krecvfromBufSize :: nat where "krecvfromBufSize = 1500"

definition sockets_recvfrom :: "recv_result \<Rightarrow> (inet_address \<times> bytes) option result" where
  "sockets_recvfrom r = (case r of
     Datagram addr d \<Rightarrow> Inr (Some (addr, take krecvfromBufSize d))
   | RecvErr savedErrno \<Rightarrow>
       (if savedErrno = EAGAIN then Inr None else Inl (Fatal ''unknown error of ::recvfrom'')))"

definition sockets_createUdpNonblockingOrDie :: "int \<Rightarrow> fd result" where
  "sockets_createUdpNonblockingOrDie sockfd =
     (if sockfd < 0 then Inl (Fatal ''sockets::createUdpNonblockingOrDie'') else Inr sockfd)"

record udp_acceptor =
  acceptChannel :: channel
  listenning :: bool
  listenAddr :: inet_address
  peerAddrToUdpConnectors :: "(inet_address, connector) smap"
  erase_timers :: "inet_address list"

definition UdpAcceptor_ctor :: "fd \<Rightarrow> inet_address \<Rightarrow> udp_acceptor" where
  "UdpAcceptor_ctor sockfd addr = \<lparr>acceptChannel = Channel_ctor sockfd, listenning = False, listenAddr = addr,
     peerAddrToUdpConnectors = [], erase_timers = []\<rparr>"

definition UdpAcceptor_GetListenPort :: "udp_acceptor \<Rightarrow> 16 word" where
  "UdpAcceptor_GetListenPort a = InetAddress_toPort (listenAddr a)"

text \<open>The destructor calls \<open>peerAddrToUdpConnectors_.empty()\<close>, which changes nothing.\<close>

definition UdpAcceptor_dtor :: "udp_acceptor \<Rightarrow> udp_acceptor result" where
  "UdpAcceptor_dtor a =
     rbind (Channel_remove (disableAll (acceptChannel a))) (\<lambda>ch. Inr (a\<lparr>acceptChannel := ch\<rparr>))"

definition UdpAcceptor_listen :: "udp_acceptor \<Rightarrow> udp_acceptor" where
  "UdpAcceptor_listen a = a\<lparr>listenning := True, acceptChannel := enableReading (acceptChannel a)\<rparr>"

text \<open>
  Starting the connector of a peer; what the connector hands over goes to the new-connection callback,
  which is the last thing \<open>start\<close> does. The connector's retry timer does the same later.
\<close>

type_synonym accept_out = "(udp_acceptor \<times> (fd \<times> inet_address) list) result"

definition run_connector ::
  "(connector \<Rightarrow> connector result) \<Rightarrow> inet_address \<Rightarrow> connector \<Rightarrow> udp_acceptor \<Rightarrow> accept_out" where
  "run_connector f peerAddr cn a =
     rbind (f cn) (\<lambda>cn'.
     Inr (a\<lparr>peerAddrToUdpConnectors := smap_put InetAddress_less peerAddr cn' (peerAddrToUdpConnectors a)\<rparr>,
          map (\<lambda>s. (s, peerAddr)) (drop (length (handed cn)) (handed cn'))))"

definition UdpAcceptor_handleRead ::
  "recv_result \<Rightarrow> fd \<Rightarrow> bool \<Rightarrow> int \<Rightarrow> udp_acceptor \<Rightarrow> accept_out" where
  "UdpAcceptor_handleRead r sockfd bindOk savedErrno a =
     rbind (sockets_recvfrom r) (\<lambda>rd.
     case rd of
       None \<Rightarrow> Inr (a, [])
     | Some (peerAddr, d) \<Rightarrow>
         rbind (smap_find InetAddress_less peerAddr (peerAddrToUdpConnectors a)) (\<lambda>found.
         case found of
           Some cn \<Rightarrow> Inr (a, [])
         | None \<Rightarrow>
             let cn = UdpConnector_ctor (unat (UdpAcceptor_GetListenPort a))
             in rbind (smap_insert InetAddress_less peerAddr cn (peerAddrToUdpConnectors a)) (\<lambda>m.
                run_connector (UdpConnector_start sockfd bindOk savedErrno) peerAddr cn
                  (a\<lparr>peerAddrToUdpConnectors := m\<rparr>))))"

definition UdpAcceptor_retryTimer :: "inet_address \<Rightarrow> fd \<Rightarrow> bool \<Rightarrow> int \<Rightarrow> udp_acceptor \<Rightarrow> accept_out" where
  "UdpAcceptor_retryTimer peerAddr sockfd bindOk savedErrno a =
     (case smap_lookup InetAddress_less peerAddr (peerAddrToUdpConnectors a) of
        None \<Rightarrow> Inr (a, [])
      | Some cn \<Rightarrow> run_connector (UdpConnector_startInLoop sockfd bindOk savedErrno) peerAddr cn a)"

text \<open>\<open>operator[]\<close> on a key that is missing inserts a null pointer, on which the assertion fails.\<close>

definition UdpAcceptor_RemoveConnector :: "inet_address \<Rightarrow> udp_acceptor \<Rightarrow> udp_acceptor result" where
  "UdpAcceptor_RemoveConnector peerAddr a =
     rbind (smap_find InetAddress_less peerAddr (peerAddrToUdpConnectors a)) (\<lambda>found.
     case found of
       None \<Rightarrow> Inl (AssertFail ''peerAddrToUdpConnectors_[peerAddr]'')
     | Some cn \<Rightarrow>
         Inr (a\<lparr>peerAddrToUdpConnectors :=
                  smap_put InetAddress_less peerAddr (UdpConnector_stop cn) (peerAddrToUdpConnectors a),
                erase_timers := erase_timers a @ [peerAddr]\<rparr>))"

definition UdpAcceptor_EraseConnector :: "inet_address \<Rightarrow> udp_acceptor \<Rightarrow> udp_acceptor result" where
  "UdpAcceptor_EraseConnector peerAddr a =
     rbind (smap_erase InetAddress_less peerAddr (peerAddrToUdpConnectors a)) (\<lambda>m.
     Inr (a\<lparr>peerAddrToUdpConnectors := m\<rparr>))"

section \<open>The server\<close>

record srv_conn =
  sc_name :: string
  sc_id :: int
  sc_loop :: loop_id
  sc_fd :: fd
  sc_local :: "16 word"
  sc_peer :: inet_address

datatype srv_functor = SConnectEstablished loop_id string | SConnectDestroyed loop_id string

record udp_server =
  ipPort :: string
  srv_name :: string
  acceptor :: udp_acceptor
  threadPool :: thread_pool
  started :: bool
  nextConnId :: int
  connections :: "(string \<times> srv_conn) list"
  removals :: "inet_address list"      \<comment> \<open>\<open>RemoveConnector\<close> functors queued in the acceptor's loop\<close>
  slog :: "srv_functor list"           \<comment> \<open>functors handed to the loops of the connections\<close>

definition UdpServer_ctor ::
  "(bytes \<Rightarrow> string) \<Rightarrow> loop_id \<Rightarrow> fd \<Rightarrow> inet_address \<Rightarrow> string \<Rightarrow> udp_server result" where
  "UdpServer_ctor ntop6 loop sockfd addr nameArg =
     rbind (InetAddress_toIpPort ntop6 addr) (\<lambda>ip.
     rbind (sockets_createUdpNonblockingOrDie sockfd) (\<lambda>f.
     Inr \<lparr>ipPort = ip, srv_name = nameArg, acceptor = UdpAcceptor_ctor f addr,
          threadPool = EventLoopThreadPool_ctor loop nameArg, started = False, nextConnId = 1,
          connections = [], removals = [], slog = []\<rparr>))"

definition UdpServer_setThreadNum :: "int \<Rightarrow> udp_server \<Rightarrow> udp_server result" where
  "UdpServer_setThreadNum n s =
     rbind (cassert (0 \<le> n) ''0 <= numThreads'') (\<lambda>_.
     Inr (s\<lparr>threadPool := EventLoopThreadPool_setThreadNum (nat n) (threadPool s)\<rparr>))"

definition UdpServer_start :: "(nat \<Rightarrow> loop_id) \<Rightarrow> udp_server \<Rightarrow> udp_server result" where
  "UdpServer_start startLoop s =
     (if \<not> started s
      then rbind (EventLoopThreadPool_start startLoop (threadPool s)) (\<lambda>p.
           rbind (cassert (\<not> listenning (acceptor s)) ''!acceptor_->listenning()'') (\<lambda>_.
           Inr (s\<lparr>started := True, threadPool := p, acceptor := UdpAcceptor_listen (acceptor s)\<rparr>)))
      else Inr s)"

text \<open>\<open>snprintf(buf, 64, "-%s#%d", ...)\<close> appended to the server's name.\<close>

definition srv_conn_name :: "udp_server \<Rightarrow> string" where
  "srv_conn_name s = srv_name s @ snprintf_cut 64 (''-'' @ ipPort s @ ''#'' @ show_int (nextConnId s))"

definition UdpServer_newConnection :: "fd \<Rightarrow> inet_address \<Rightarrow> udp_server \<Rightarrow> udp_server result" where
  "UdpServer_newConnection sockfd peerAddr s =
     rbind (EventLoopThreadPool_getNextLoop (threadPool s)) (\<lambda>(ioLoop, p).
     let connName = srv_conn_name s;
         conn = \<lparr>sc_name = connName, sc_id = nextConnId s, sc_loop = ioLoop, sc_fd = sockfd,
                 sc_local = UdpAcceptor_GetListenPort (acceptor s), sc_peer = peerAddr\<rparr>
     in if nextConnId s = INT_MAX then Inl (Undefined ''signed overflow'')
        else Inr (s\<lparr>threadPool := p, nextConnId := nextConnId s + 1,
                   connections := AList.update connName conn (connections s),
                   slog := slog s @ [SConnectEstablished ioLoop connName]\<rparr>))"

text \<open>The listening socket is readable, or a connector's retry timer fires: acceptor, then server.\<close>

definition accept_then_server :: "(udp_acceptor \<Rightarrow> accept_out) \<Rightarrow> udp_server \<Rightarrow> udp_server result" where
  "accept_then_server f s =
     rbind (f (acceptor s)) (\<lambda>(a, out).
     rfold (\<lambda>(sockfd, peerAddr). UdpServer_newConnection sockfd peerAddr) out (s\<lparr>acceptor := a\<rparr>))"

definition UdpServer_removeConnectionInLoop :: "srv_conn \<Rightarrow> udp_server \<Rightarrow> udp_server result" where
  "UdpServer_removeConnectionInLoop conn s =
     rbind (cassert (map_of (connections s) (sc_name conn) \<noteq> None) ''n == 1'') (\<lambda>_.
     Inr (s\<lparr>connections := AList.delete (sc_name conn) (connections s),
            removals := removals s @ [sc_peer conn],
            slog := slog s @ [SConnectDestroyed (sc_loop conn) (sc_name conn)]\<rparr>))"

text \<open>The close callback: \<open>runInLoop\<close> of the above.\<close>

definition UdpServer_removeConnection :: "srv_conn \<Rightarrow> udp_server \<Rightarrow> udp_server result" where
  "UdpServer_removeConnection conn s = UdpServer_removeConnectionInLoop conn s"

definition UdpServer_dtor :: "udp_server \<Rightarrow> udp_server" where
  "UdpServer_dtor s = s\<lparr>slog := slog s @ map (\<lambda>(n, c). SConnectDestroyed (sc_loop c) n) (connections s)\<rparr>"

text \<open>The acceptor's loop runs the queued \<open>RemoveConnector\<close> functors and the erase timers.\<close>

definition run_removal :: "udp_server \<Rightarrow> udp_server result" where
  "run_removal s = (case removals s of
     [] \<Rightarrow> Inr s
   | p # ps \<Rightarrow> rbind (UdpAcceptor_RemoveConnector p (acceptor s)) (\<lambda>a. Inr (s\<lparr>acceptor := a, removals := ps\<rparr>)))"

definition run_erase :: "udp_server \<Rightarrow> udp_server result" where
  "run_erase s = (case erase_timers (acceptor s) of
     [] \<Rightarrow> Inr s
   | p # ps \<Rightarrow> rbind (UdpAcceptor_EraseConnector p ((acceptor s)\<lparr>erase_timers := ps\<rparr>)) (\<lambda>a. Inr (s\<lparr>acceptor := a\<rparr>)))"

section \<open>The acceptor's map as a map from endpoints\<close>

definition endpoint :: "inet_address \<Rightarrow> 32 word \<times> 16 word" where
  "endpoint a = (s_addr a, sin_port a)"

definition peers_ordered :: "(inet_address \<Rightarrow> bool) \<Rightarrow> bool" where
  "peers_ordered C \<longleftrightarrow> ordered_keys InetAddress_less C \<and> (\<forall>a. C a \<longrightarrow> ipv4 a)"

lemma peers_ordered_host: "peers_ordered (on_host ip)" and peers_ordered_port: "peers_ordered (on_port p)"
  using host.ordered_keys_axioms port.ordered_keys_axioms by (auto simp: peers_ordered_def on_host_def on_port_def)

text \<open>What the map stores under an endpoint.\<close>

definition emap :: "(inet_address, 'v) smap \<Rightarrow> 32 word \<times> 16 word \<rightharpoonup> 'v" where
  "emap m = map_of (map (\<lambda>(k, v). (endpoint k, v)) m)"

definition keys_in :: "(inet_address \<Rightarrow> bool) \<Rightarrow> (inet_address, 'v) smap \<Rightarrow> bool" where
  "keys_in C m \<longleftrightarrow> list_all C (map fst m)"

lemma key_eq_endpoint: "peers_ordered C \<Longrightarrow> C a \<Longrightarrow> C b \<Longrightarrow> key_eq InetAddress_less a b \<longleftrightarrow> endpoint a = endpoint b"
  by (simp add: peers_ordered_def key_eq_ipv4 same_endpoint_def endpoint_def)

lemma smap_guard_peers:
  assumes "peers_ordered C" "C k" "keys_in C m"
  shows "smap_guard InetAddress_less k m = Inr ()"
proof -
  have "ordered_keys InetAddress_less C" using assms(1) by (simp add: peers_ordered_def)
  then show ?thesis by (rule ordered_keys.guard_carrier) (use assms in \<open>simp_all add: keys_in_def\<close>)
qed

lemma lookup_emap:
  "peers_ordered C \<Longrightarrow> C k \<Longrightarrow> keys_in C m \<Longrightarrow> smap_lookup InetAddress_less k m = emap m (endpoint k)"
  by (induction m) (auto simp: emap_def keys_in_def key_eq_endpoint)

lemma put_emap:
  assumes "peers_ordered C" "C k" "keys_in C m"
  shows "emap (smap_put InetAddress_less k v m) = (emap m)(endpoint k \<mapsto> v)"
    and "keys_in C (smap_put InetAddress_less k v m)"
proof -
  have "emap (smap_put InetAddress_less k v m) e = (if e = endpoint k then Some v else emap m e)" for e
    using assms by (induction m) (auto simp: emap_def keys_in_def key_eq_endpoint)
  then show "emap (smap_put InetAddress_less k v m) = (emap m)(endpoint k \<mapsto> v)" by (intro ext) simp
  show "keys_in C (smap_put InetAddress_less k v m)"
    using assms by (induction m) (auto simp: keys_in_def)
qed

lemma del_emap:
  assumes "peers_ordered C" "C k" "keys_in C m"
  shows "emap (smap_del InetAddress_less k m) = (emap m)(endpoint k := None)"
    and "keys_in C (smap_del InetAddress_less k m)"
proof -
  have "emap (smap_del InetAddress_less k m) e = (if e = endpoint k then None else emap m e)" for e
    using assms by (induction m) (auto simp: emap_def keys_in_def key_eq_endpoint smap_del_def)
  then show "emap (smap_del InetAddress_less k m) = (emap m)(endpoint k := None)" by (intro ext) simp
  show "keys_in C (smap_del InetAddress_less k m)"
    using assms by (induction m) (auto simp: keys_in_def smap_del_def)
qed

lemma peer_map_ops:
  assumes "peers_ordered C" "C k" "keys_in C m"
  shows "smap_find InetAddress_less k m = Inr (emap m (endpoint k))"
    "smap_insert InetAddress_less k v m = Inr (smap_put InetAddress_less k v m)"
    "smap_erase InetAddress_less k m = Inr (smap_del InetAddress_less k m)"
  using smap_guard_peers [OF assms] lookup_emap [OF assms]
  by (simp_all add: smap_find_def smap_insert_def smap_erase_def)

section \<open>Connectors in the server\<close>

lemma start_fresh:
  assumes "UdpConnector_start f b e (UdpConnector_ctor p) = Inr cn"
  shows "handed cn = [f] \<and> cn_state cn = kConnected \<or> handed cn = [] \<and> cn_state cn = kDisconnected"
  using assms
  by (auto simp: UdpConnector_start_def UdpConnector_startInLoop_def UdpConnector_connect_def UdpConnector_ctor_def
      UdpConnector_connected_def UdpConnector_retry_def Let_def split: if_splits)

lemma startInLoop_handover:
  assumes "UdpConnector_startInLoop f b e cn = Inr cn'"
  shows "cn_state cn = kDisconnected \<and>
    (handed cn' = handed cn @ [f] \<and> cn_state cn' = kConnected \<or> handed cn' = handed cn \<and> cn_state cn' = kDisconnected) \<and>
    cn_channel cn' = cn_channel cn"
  using assms
  by (auto simp: UdpConnector_startInLoop_def UdpConnector_connect_def UdpConnector_connected_def
      UdpConnector_retry_def Let_def rbind_eq_Inr_iff split: if_splits)

section \<open>Invariant of the server\<close>

text \<open>
  Every live connection, queued removal and erase timer stands for one peer, no two for the same one,
  and the acceptor has the peer's connector, connected.
\<close>

definition tokens :: "udp_server \<Rightarrow> inet_address list" where
  "tokens s = map (sc_peer \<circ> snd) (connections s) @ removals s @ erase_timers (acceptor s)"

definition name_of_id :: "udp_server \<Rightarrow> int \<Rightarrow> string" where
  "name_of_id s i = srv_name s @ ''-'' @ ipPort s @ ''#'' @ show_int i"

definition peers_ok :: "(inet_address \<Rightarrow> bool) \<Rightarrow> udp_server \<Rightarrow> bool" where
  "peers_ok C s \<longleftrightarrow> keys_in C (peerAddrToUdpConnectors (acceptor s)) \<and> list_all C (tokens s) \<and>
     distinct (map endpoint (tokens s)) \<and>
     (\<forall>t \<in> set (tokens s). \<exists>cn. emap (peerAddrToUdpConnectors (acceptor s)) (endpoint t) = Some cn \<and> cn_state cn = kConnected)"

definition names_ok :: "udp_server \<Rightarrow> bool" where
  "names_ok s \<longleftrightarrow> distinct (map fst (connections s)) \<and> length (ipPort s) \<le> 51 \<and>
     1 \<le> nextConnId s \<and> nextConnId s \<le> INT_MAX \<and> pool_ok (threadPool s) \<and>
     (\<forall>(n, c) \<in> set (connections s). n = sc_name c \<and> n = name_of_id s (sc_id c) \<and> 1 \<le> sc_id c \<and> sc_id c < nextConnId s)"

definition srv_ok :: "(inet_address \<Rightarrow> bool) \<Rightarrow> udp_server \<Rightarrow> bool" where
  "srv_ok C s \<longleftrightarrow> peers_ok C s \<and> names_ok s"

lemma srv_conn_name_eq:
  assumes "names_ok s"
  shows "srv_conn_name s = name_of_id s (nextConnId s)"
proof -
  have "length (show_int (nextConnId s)) \<le> 10" "length (ipPort s) \<le> 51"
    using assms length_show_id by (auto simp: names_ok_def)
  then show ?thesis by (simp add: srv_conn_name_def name_of_id_def snprintf_cut_def)
qed

lemma name_fresh:
  assumes "names_ok s"
  shows "srv_conn_name s \<notin> fst ` set (connections s)"
proof
  assume "srv_conn_name s \<in> fst ` set (connections s)"
  then obtain c where c: "(srv_conn_name s, c) \<in> set (connections s)" by auto
  then have "srv_conn_name s = name_of_id s (sc_id c)" "1 \<le> sc_id c" "sc_id c < nextConnId s" "1 \<le> nextConnId s"
    using assms by (auto simp: names_ok_def)
  then show False
    using srv_conn_name_eq [OF assms] show_int_inject [of "sc_id c" "nextConnId s"] by (simp add: name_of_id_def)
qed

lemma alist_update_fresh: "k \<notin> fst ` set al \<Longrightarrow> AList.update k v al = al @ [(k, v)]"
  by (induction al) auto

text \<open>A connection for a peer the acceptor has just connected.\<close>

lemma newConnection_ok:
  assumes "names_ok s" "UdpServer_newConnection f p s = Inr s'"
  shows "names_ok s' \<and> acceptor s' = acceptor s \<and> removals s' = removals s \<and>
    (\<exists>c. connections s' = connections s @ [(sc_name c, c)] \<and> sc_peer c = p \<and> sc_fd c = f)"
proof -
  obtain l q where l: "EventLoopThreadPool_getNextLoop (threadPool s) = Inr (l, q)" "pool_ok q"
    using getNextLoop_ok [of "threadPool s"] assms(1) by (metis names_ok_def)
  have n: "nextConnId s \<noteq> INT_MAX" using assms(2) l by (auto simp: UdpServer_newConnection_def Let_def)
  let ?c = "\<lparr>sc_name = srv_conn_name s, sc_id = nextConnId s, sc_loop = l, sc_fd = f,
                 sc_local = UdpAcceptor_GetListenPort (acceptor s), sc_peer = p\<rparr>"
  have s': "s' = s\<lparr>threadPool := q, nextConnId := nextConnId s + 1,
                   connections := connections s @ [(srv_conn_name s, ?c)],
                   slog := slog s @ [SConnectEstablished l (srv_conn_name s)]\<rparr>"
    using assms(2) l n alist_update_fresh [OF name_fresh [OF assms(1)]]
    by (simp add: UdpServer_newConnection_def Let_def)
  have "names_ok s'"
    using assms(1) n l(2) name_fresh [OF assms(1)] srv_conn_name_eq [OF assms(1)]
    by (fastforce simp: names_ok_def s' name_of_id_def)
  then show ?thesis by (auto simp: s')
qed

text \<open>The acceptor's map changes at the endpoint of a peer that nothing stands for yet.\<close>

lemma peers_ok_update:
  assumes "peers_ok C s" "C p" "keys_in C m"
    and "emap m = (emap (peerAddrToUdpConnectors (acceptor s)))(endpoint p \<mapsto> cn)"
    and new: "\<And>cn. emap (peerAddrToUdpConnectors (acceptor s)) (endpoint p) = Some cn \<Longrightarrow> cn_state cn \<noteq> kConnected"
  shows "endpoint p \<notin> endpoint ` set (tokens s)"
    and "peers_ok C (s\<lparr>acceptor := (acceptor s)\<lparr>peerAddrToUdpConnectors := m\<rparr>\<rparr>)"
proof -
  show nt: "endpoint p \<notin> endpoint ` set (tokens s)"
    using assms(1) new by (fastforce simp: peers_ok_def)
  have "tokens (s\<lparr>acceptor := (acceptor s)\<lparr>peerAddrToUdpConnectors := m\<rparr>\<rparr>) = tokens s" by (simp add: tokens_def)
  moreover have "endpoint t \<noteq> endpoint p" if "t \<in> set (tokens s)" for t using nt that by (metis imageI)
  ultimately show "peers_ok C (s\<lparr>acceptor := (acceptor s)\<lparr>peerAddrToUdpConnectors := m\<rparr>\<rparr>)"
    using assms(1,3,4) by (simp add: peers_ok_def)
qed

lemma peers_ok_connection:
  assumes "peers_ok C s" "C (sc_peer c)" "endpoint (sc_peer c) \<notin> endpoint ` set (tokens s)"
    "emap (peerAddrToUdpConnectors (acceptor s)) (endpoint (sc_peer c)) = Some cn" "cn_state cn = kConnected"
    and "acceptor s' = acceptor s" "removals s' = removals s" "connections s' = connections s @ [(n, c)]"
  shows "peers_ok C s'"
  using assms by (auto simp: peers_ok_def tokens_def)

lemma names_ok_acceptor [simp]: "names_ok (s\<lparr>acceptor := a\<rparr>) = names_ok s"
  by (simp add: names_ok_def name_of_id_def)

text \<open>A connector is run for such a peer, and the server takes what it hands over.\<close>

lemma run_connector_ok:
  assumes po: "peers_ordered C" and ok: "srv_ok C s" and p: "C p"
    and acc: "acceptor s = a0\<lparr>peerAddrToUdpConnectors := m0\<rparr>"
      "a = a0\<lparr>peerAddrToUdpConnectors := m\<rparr>" "keys_in C m"
      "\<And>cn. (emap m)(endpoint p \<mapsto> cn) = (emap m0)(endpoint p \<mapsto> cn)"
    and new: "\<And>cn. emap m0 (endpoint p) = Some cn \<Longrightarrow> cn_state cn \<noteq> kConnected"
    and run: "run_connector g p cn a = Inr (a', out)"
      "\<And>cn'. g cn = Inr cn' \<Longrightarrow> handed cn' = handed cn @ [f] \<and> cn_state cn' = kConnected \<or> handed cn' = handed cn"
    and srv: "rfold (\<lambda>(sockfd, peerAddr). UdpServer_newConnection sockfd peerAddr) out (s\<lparr>acceptor := a'\<rparr>) = Inr s'"
  shows "srv_ok C s'"
proof -
  obtain cn' where cn': "g cn = Inr cn'" "out = map (\<lambda>s. (s, p)) (drop (length (handed cn)) (handed cn'))"
      "a' = a\<lparr>peerAddrToUdpConnectors := smap_put InetAddress_less p cn' (peerAddrToUdpConnectors a)\<rparr>"
    using run(1) by (auto simp: run_connector_def rbind_eq_Inr_iff)
  let ?m = "smap_put InetAddress_less p cn' m"
  have a': "a' = (acceptor s)\<lparr>peerAddrToUdpConnectors := ?m\<rparr>" using cn'(3) acc(1,2) by simp
  have em: "emap ?m = (emap (peerAddrToUdpConnectors (acceptor s)))(endpoint p \<mapsto> cn')" "keys_in C ?m"
    using put_emap [OF po p acc(3), of cn'] acc(1,4) by simp_all
  have ok1: "peers_ok C (s\<lparr>acceptor := a'\<rparr>)" "endpoint p \<notin> endpoint ` set (tokens s)"
    using peers_ok_update [of C s p ?m cn'] ok p em new acc(1) by (simp_all add: a' srv_ok_def)
  consider "out = []" | "out = [(f, p)]" "cn_state cn' = kConnected"
    using run(2) [OF cn'(1)] cn'(2) by auto
  then show ?thesis
  proof cases
    case 1
    then have "s' = s\<lparr>acceptor := a'\<rparr>" using srv by simp
    then show ?thesis using ok1(1) ok by (simp add: srv_ok_def)
  next
    case 2
    then have "UdpServer_newConnection f p (s\<lparr>acceptor := a'\<rparr>) = Inr s'" using srv by (auto simp: rbind_eq_Inr_iff)
    with newConnection_ok [of "s\<lparr>acceptor := a'\<rparr>" f p s'] ok obtain c where
        c: "names_ok s'" "acceptor s' = a'" "removals s' = removals s"
          "connections s' = connections s @ [(sc_name c, c)]" "sc_peer c = p"
      by (auto simp: srv_ok_def)
    have "tokens (s\<lparr>acceptor := a'\<rparr>) = tokens s" by (simp add: tokens_def a')
    then have "peers_ok C s'"
      using peers_ok_connection [OF ok1(1), of c cn' s' "sc_name c"] c p ok1(2) em(1) 2(2) by (simp add: a')
    with c(1) show ?thesis by (simp add: srv_ok_def)
  qed
qed

lemma accept_ok:
  assumes po: "peers_ordered C" and ok: "srv_ok C s" and p: "C p"
    and "accept_then_server (UdpAcceptor_handleRead (Datagram p d) f b e) s = Inr s'"
  shows "srv_ok C s'"
proof -
  let ?m = "peerAddrToUdpConnectors (acceptor s)"
  have k: "keys_in C ?m" using ok by (simp add: srv_ok_def peers_ok_def)
  obtain a' out where h: "UdpAcceptor_handleRead (Datagram p d) f b e (acceptor s) = Inr (a', out)"
      "rfold (\<lambda>(sockfd, peerAddr). UdpServer_newConnection sockfd peerAddr) out (s\<lparr>acceptor := a'\<rparr>) = Inr s'"
    using assms(4) by (auto simp: accept_then_server_def rbind_eq_Inr_iff)
  show ?thesis
  proof (cases "emap ?m (endpoint p)")
    case (Some cn)
    then have "a' = acceptor s" "out = []"
      using h(1) po p k by (simp_all add: UdpAcceptor_handleRead_def sockets_recvfrom_def peer_map_ops [OF po p k])
    then show ?thesis using h(2) ok by simp
  next
    case None
    let ?cn = "UdpConnector_ctor (unat (UdpAcceptor_GetListenPort (acceptor s)))"
    let ?m1 = "smap_put InetAddress_less p ?cn ?m"
    have run: "run_connector (UdpConnector_start f b e) p ?cn ((acceptor s)\<lparr>peerAddrToUdpConnectors := ?m1\<rparr>) = Inr (a', out)"
      using h(1) None po p k
      by (simp add: UdpAcceptor_handleRead_def sockets_recvfrom_def peer_map_ops [OF po p k] Let_def)
    show ?thesis
    proof (rule run_connector_ok [OF po ok p _ refl _ _ _ run _ h(2)])
      show "acceptor s = (acceptor s)\<lparr>peerAddrToUdpConnectors := ?m\<rparr>" by simp
      show "keys_in C ?m1" using put_emap(2) [OF po p k] .
      show "(emap ?m1)(endpoint p \<mapsto> cn) = (emap ?m)(endpoint p \<mapsto> cn)" for cn using put_emap(1) [OF po p k] by simp
      show "emap ?m (endpoint p) = Some cn \<Longrightarrow> cn_state cn \<noteq> kConnected" for cn using None by simp
      show "UdpConnector_start f b e ?cn = Inr cn' \<Longrightarrow>
          handed cn' = handed ?cn @ [f] \<and> cn_state cn' = kConnected \<or> handed cn' = handed ?cn" for cn'
        using start_fresh [of f b e _ cn'] by (auto simp: UdpConnector_ctor_def)
    qed
  qed
qed

lemma timer_ok_srv:
  assumes po: "peers_ordered C" and ok: "srv_ok C s" and p: "C p"
    and "accept_then_server (UdpAcceptor_retryTimer p f b e) s = Inr s'"
  shows "srv_ok C s'"
proof -
  let ?m = "peerAddrToUdpConnectors (acceptor s)"
  have k: "keys_in C ?m" using ok by (simp add: srv_ok_def peers_ok_def)
  obtain a' out where h: "UdpAcceptor_retryTimer p f b e (acceptor s) = Inr (a', out)"
      "rfold (\<lambda>(sockfd, peerAddr). UdpServer_newConnection sockfd peerAddr) out (s\<lparr>acceptor := a'\<rparr>) = Inr s'"
    using assms(4) by (auto simp: accept_then_server_def rbind_eq_Inr_iff)
  show ?thesis
  proof (cases "emap ?m (endpoint p)")
    case None
    then have "a' = acceptor s" "out = []"
      using h(1) lookup_emap [OF po p k] by (simp_all add: UdpAcceptor_retryTimer_def)
    then show ?thesis using h(2) ok by simp
  next
    case (Some cn)
    have run: "run_connector (UdpConnector_startInLoop f b e) p cn (acceptor s) = Inr (a', out)"
      using h(1) Some lookup_emap [OF po p k] by (simp add: UdpAcceptor_retryTimer_def)
    then have st: "cn_state cn = kDisconnected"
      using startInLoop_handover by (auto simp: run_connector_def rbind_eq_Inr_iff)
    show ?thesis
    proof (rule run_connector_ok [OF po ok p _ _ k _ _ run _ h(2)])
      show "UdpConnector_startInLoop f b e cn = Inr cn' \<Longrightarrow>
          handed cn' = handed cn @ [f] \<and> cn_state cn' = kConnected \<or> handed cn' = handed cn" for cn'
        using startInLoop_handover [of f b e cn cn'] by auto
      show "emap ?m (endpoint p) = Some cn' \<Longrightarrow> cn_state cn' \<noteq> kConnected" for cn' using Some st by simp
      show "acceptor s = (acceptor s)\<lparr>peerAddrToUdpConnectors := ?m\<rparr>" by simp
      show "acceptor s = (acceptor s)\<lparr>peerAddrToUdpConnectors := ?m\<rparr>" by simp
    qed simp
  qed
qed

text \<open>The three stages of forgetting a peer; none of them can fail.\<close>

lemma close_ok:
  assumes "srv_ok C s" "(n, c) \<in> set (connections s)"
  shows "rspec (UdpServer_removeConnectionInLoop c s)
    (\<lambda>s'. srv_ok C s' \<and> set (connections s') = set (connections s) - {(n, c)} \<and> removals s' = removals s @ [sc_peer c])"
proof -
  have N: "names_ok s" and P: "peers_ok C s" using assms(1) by (simp_all add: srv_ok_def)
  have n: "n = sc_name c" using N assms(2) by (auto simp: names_ok_def)
  obtain xs ys where xy: "connections s = xs @ (n, c) # ys" using assms(2) by (meson in_set_conv_decomp)
  have "n \<notin> fst ` set xs" "n \<notin> fst ` set ys" using N by (auto simp: names_ok_def xy)
  then have "filter (\<lambda>(k, v). n \<noteq> k) xs = xs" "filter (\<lambda>(k, v). n \<noteq> k) ys = ys"
    by (force simp: filter_id_conv)+
  then have del: "AList.delete (sc_name c) (connections s) = xs @ ys"
    by (simp add: AList.delete_eq xy n [symmetric])
  let ?s = "s\<lparr>connections := xs @ ys, removals := removals s @ [sc_peer c],
      slog := slog s @ [SConnectDestroyed (sc_loop c) (sc_name c)]\<rparr>"
  have "map_of (connections s) (sc_name c) \<noteq> None" using assms(2) n weak_map_of_SomeI by fastforce
  then have run: "UdpServer_removeConnectionInLoop c s = Inr ?s"
    by (simp add: UdpServer_removeConnectionInLoop_def del)
  have "set (tokens ?s) = set (tokens s)" by (auto simp: tokens_def xy)
  moreover have "distinct (map endpoint (tokens ?s))"
    using P by (auto simp: peers_ok_def tokens_def xy)
  ultimately have "peers_ok C ?s" using P by (simp add: peers_ok_def list_all_iff)
  moreover have "names_ok ?s"
    using N by (auto simp: names_ok_def name_of_id_def xy)
  moreover have "set (xs @ ys) = set (connections s) - {(n, c)}"
    using \<open>n \<notin> fst ` set xs\<close> \<open>n \<notin> fst ` set ys\<close> by (force simp: xy)
  ultimately show ?thesis using run by (simp add: srv_ok_def)
qed

lemma removal_ok:
  assumes po: "peers_ordered C" and ok: "srv_ok C s"
  shows "rspec (run_removal s) (\<lambda>s'. srv_ok C s' \<and> connections s' = connections s)"
proof (cases "removals s")
  case Nil
  then show ?thesis using ok by (simp add: run_removal_def)
next
  case (Cons p ps)
  let ?m = "peerAddrToUdpConnectors (acceptor s)"
  have P: "peers_ok C s" using ok by (simp add: srv_ok_def)
  have p: "C p" and k: "keys_in C ?m" using P Cons by (auto simp: peers_ok_def tokens_def)
  obtain cn where cn: "emap ?m (endpoint p) = Some cn" "cn_state cn = kConnected"
    using P Cons by (auto simp: peers_ok_def tokens_def)
  let ?m1 = "smap_put InetAddress_less p (UdpConnector_stop cn) ?m"
  let ?s = "s\<lparr>acceptor := (acceptor s)\<lparr>peerAddrToUdpConnectors := ?m1, erase_timers := erase_timers (acceptor s) @ [p]\<rparr>,
             removals := ps\<rparr>"
  have run: "run_removal s = Inr ?s"
    using Cons cn by (simp add: run_removal_def UdpAcceptor_RemoveConnector_def peer_map_ops [OF po p k])
  have "set (tokens ?s) = set (tokens s)" "distinct (map endpoint (tokens ?s)) = distinct (map endpoint (tokens s))"
    by (auto simp: tokens_def Cons)
  moreover have "cn_state (UdpConnector_stop cn) = kConnected" using cn by (simp add: UdpConnector_stop_def)
  ultimately have "peers_ok C ?s"
    using P put_emap [OF po p k, of "UdpConnector_stop cn"] by (auto simp: peers_ok_def list_all_iff)
  moreover have "names_ok ?s" using ok by (simp add: srv_ok_def names_ok_def name_of_id_def)
  ultimately show ?thesis using run by (simp add: srv_ok_def)
qed

lemma erase_ok:
  assumes po: "peers_ordered C" and ok: "srv_ok C s"
  shows "rspec (run_erase s) (\<lambda>s'. srv_ok C s' \<and> connections s' = connections s)"
proof (cases "erase_timers (acceptor s)")
  case Nil
  then show ?thesis using ok by (simp add: run_erase_def)
next
  case (Cons p ps)
  let ?m = "peerAddrToUdpConnectors (acceptor s)"
  have P: "peers_ok C s" using ok by (simp add: srv_ok_def)
  have p: "C p" and k: "keys_in C ?m" using P Cons by (auto simp: peers_ok_def tokens_def)
  let ?s = "s\<lparr>acceptor := (acceptor s)\<lparr>erase_timers := ps, peerAddrToUdpConnectors := smap_del InetAddress_less p ?m\<rparr>\<rparr>"
  have run: "run_erase s = Inr ?s"
    using Cons by (simp add: run_erase_def UdpAcceptor_EraseConnector_def peer_map_ops [OF po p k])
  have t: "set (tokens s) = insert p (set (tokens ?s))" by (auto simp: tokens_def Cons)
  have d: "distinct (map endpoint (tokens ?s))" "endpoint p \<notin> endpoint ` set (tokens ?s)"
    using P by (auto simp: peers_ok_def tokens_def Cons)
  then have "endpoint x \<noteq> endpoint p" if "x \<in> set (tokens ?s)" for x using that by (metis imageI)
  then have "peers_ok C ?s"
    using P d(1) del_emap [OF po p k] by (simp add: peers_ok_def list_all_iff t)
  moreover have "names_ok ?s" using ok by (simp add: srv_ok_def names_ok_def name_of_id_def)
  ultimately show ?thesis using run by (simp add: srv_ok_def)
qed

text \<open>The runs of a started server whose peers all satisfy \<open>C\<close>.\<close>

inductive srv_step :: "(inet_address \<Rightarrow> bool) \<Rightarrow> udp_server \<Rightarrow> udp_server \<Rightarrow> bool" for C where
  sv_accept: "C p \<Longrightarrow> accept_then_server (UdpAcceptor_handleRead (Datagram p d) f b e) s = Inr s' \<Longrightarrow> srv_step C s s'"
| sv_again: "accept_then_server (UdpAcceptor_handleRead (RecvErr EAGAIN) f b e) s = Inr s' \<Longrightarrow> srv_step C s s'"
| sv_retry: "C p \<Longrightarrow> accept_then_server (UdpAcceptor_retryTimer p f b e) s = Inr s' \<Longrightarrow> srv_step C s s'"
| sv_close: "(n, c) \<in> set (connections s) \<Longrightarrow> UdpServer_removeConnection c s = Inr s' \<Longrightarrow> srv_step C s s'"
| sv_removal: "run_removal s = Inr s' \<Longrightarrow> srv_step C s s'"
| sv_erase: "run_erase s = Inr s' \<Longrightarrow> srv_step C s s'"

definition srv_init :: "(bytes \<Rightarrow> string) \<Rightarrow> udp_server \<Rightarrow> bool" where
  "srv_init ntop6 s \<longleftrightarrow> (\<exists>loop f addr nm n st s0 s1.
     UdpServer_ctor ntop6 loop f addr nm = Inr s0 \<and> UdpServer_setThreadNum n s0 = Inr s1 \<and> UdpServer_start st s1 = Inr s)"

lemma srv_init_ok:
  assumes "ntop6_ok ntop6" "srv_init ntop6 s"
  shows "srv_ok C s"
proof -
  obtain loop f addr nm n st s0 s1 where i: "UdpServer_ctor ntop6 loop f addr nm = Inr s0"
      "UdpServer_setThreadNum n s0 = Inr s1" "UdpServer_start st s1 = Inr s"
    using assms(2) by (auto simp: srv_init_def)
  obtain ip where ip: "InetAddress_toIpPort ntop6 addr = Inr ip" "length ip \<le> 51"
    using toIpPort_ok [OF assms(1), of addr] by (auto simp: rspec_iff)
  have s1: "connections s1 = []" "removals s1 = []" "acceptor s1 = UdpAcceptor_ctor f addr" "nextConnId s1 = 1"
      "ipPort s1 = ip" "\<not> started s1" "\<not> pool_started (threadPool s1)" "loops (threadPool s1) = []"
      "pool_next (threadPool s1) = 0"
    using i(1,2) ip(1)
    by (auto simp: UdpServer_ctor_def UdpServer_setThreadNum_def sockets_createUdpNonblockingOrDie_def rbind_eq_Inr_iff
        EventLoopThreadPool_ctor_def EventLoopThreadPool_setThreadNum_def split: if_splits)
  obtain p where p: "EventLoopThreadPool_start st (threadPool s1) = Inr p" "pool_ok p"
  proof -
    obtain p where "EventLoopThreadPool_start st (threadPool s1) = Inr p" "pool_started p"
        "loops p = map st [0 ..< numThreads (threadPool s1)]" "pool_next p = 0"
      using start_pool [OF s1(7), of st] s1(8,9) by auto
    then show thesis using that by (cases "numThreads (threadPool s1)") (auto simp: pool_ok_def)
  qed
  have "s = s1\<lparr>started := True, threadPool := p, acceptor := UdpAcceptor_listen (acceptor s1)\<rparr>"
    using i(3) p(1) s1(6) by (auto simp: UdpServer_start_def rbind_eq_Inr_iff)
  then show ?thesis
    using s1 p(2) ip(2)
    by (simp add: srv_ok_def peers_ok_def names_ok_def tokens_def keys_in_def UdpAcceptor_listen_def UdpAcceptor_ctor_def INT_MAX_def)
qed

lemma srv_invariant:
  assumes "ntop6_ok ntop6" "peers_ordered C"
  shows "inductive_invariant (srv_init ntop6) (srv_step C) (srv_ok C)"
proof
  show "srv_init ntop6 s \<Longrightarrow> srv_ok C s" for s by (rule srv_init_ok [OF assms(1)])
next
  fix s s' assume ok: "srv_ok C s" and "srv_step C s s'"
  from this(2) show "srv_ok C s'"
  proof cases
    case (sv_accept p d f b e)
    then show ?thesis using accept_ok [OF assms(2) ok] by blast
  next
    case (sv_again f b e)
    then show ?thesis using ok by (simp add: accept_then_server_def UdpAcceptor_handleRead_def sockets_recvfrom_def)
  next
    case (sv_retry p f b e)
    then show ?thesis using timer_ok_srv [OF assms(2) ok] by blast
  next
    case (sv_close n c)
    then show ?thesis using close_ok [OF ok sv_close(1)] by (simp add: UdpServer_removeConnection_def)
  next
    case sv_removal
    then show ?thesis using removal_ok [OF assms(2) ok] by simp
  next
    case sv_erase
    then show ?thesis using erase_ok [OF assms(2) ok] by simp
  qed
qed

section \<open>Properties\<close>


definition demo_server :: "udp_server result" where
  "demo_server =
     rbind (UdpServer_ctor (\<lambda>_. []) 0 3 (addr4 0 0x5000) ''s'') (\<lambda>s0.
     rbind (UdpServer_setThreadNum 0 s0) (UdpServer_start (\<lambda>i. i)))"

definition demo_peer :: inet_address where "demo_peer = addr4 0x0100007f 7"

definition demo_served :: "udp_server result" where
  "demo_served = rbind demo_server (accept_then_server (UdpAcceptor_handleRead (Datagram demo_peer [1]) 9 True 0))"

lemma demo_served_names:
  "rspec demo_served (\<lambda>s. map fst (connections s) = [''s-0.0.0.0:80#1''])"
  by code_simp


text \<open>
  C19. Two clients that the comparator does not order break the acceptor: when a peer is known and a
  datagram arrives from another whose IP address is larger and whose port is smaller (or the other way
  round), the lookup in \<open>std::map\<close> is undefined behaviour.
\<close>

theorem crossed_clients_undefined:
  assumes "ipv4 p" "ipv4 q" "crossed p q \<or> crossed q p" "(p, cn) \<in> set (peerAddrToUdpConnectors a)"
  shows "UdpAcceptor_handleRead (Datagram q d) f b e a =
     Inl (Undefined ''std::map: comparator is not a strict weak ordering'')"
proof -
  have "p \<in> set (q # map fst (peerAddrToUdpConnectors a))" using assms(4) by force
  then have "\<not> swo InetAddress_less (q # map fst (peerAddrToUdpConnectors a))"
    using crossed_not_swo [of p q] crossed_not_swo [of q p] assms(1-3) by (metis list.set_intros(1))
  then show ?thesis
    by (simp add: UdpAcceptor_handleRead_def sockets_recvfrom_def smap_find_def smap_guard_def)
qed

theorem crossed_clients_undefined_witness:
  "UdpAcceptor_handleRead (Datagram (addr4 2 1) [0]) 9 True 0
     ((UdpAcceptor_ctor 3 (addr4 0 80))\<lparr>peerAddrToUdpConnectors := [(addr4 1 2, UdpConnector_ctor 80)]\<rparr>) =
     Inl (Undefined ''std::map: comparator is not a strict weak ordering'')"
  by (rule crossed_clients_undefined [of "addr4 1 2" _ "UdpConnector_ctor 80"])
     (simp_all add: addr4_def ipv4_def crossed_def)

text \<open>
  A second close ends the process: the server forgets a connection at its first close callback, so
  when a connection calls it again (as it does for a second empty datagram) the assertion that one
  entry was erased fails.
\<close>

theorem second_close_aborts:
  assumes "UdpServer_removeConnection c s = Inr s'" "distinct (map fst (connections s))"
  shows "UdpServer_removeConnection c s' = Inl (AssertFail ''n == 1'')"
proof -
  have "connections s' = AList.delete (sc_name c) (connections s)"
    using assms(1) by (auto simp: UdpServer_removeConnection_def UdpServer_removeConnectionInLoop_def rbind_eq_Inr_iff)
  then have "map_of (connections s') (sc_name c) = None" by (simp add: AList.delete_conv')
  then show ?thesis by (simp add: UdpServer_removeConnection_def UdpServer_removeConnectionInLoop_def)
qed

definition demo_conn :: srv_conn where
  "demo_conn = \<lparr>sc_name = ''c'', sc_id = 1, sc_loop = 0, sc_fd = 9, sc_local = 80, sc_peer = demo_peer\<rparr>"

definition demo_one :: udp_server where
  "demo_one = \<lparr>ipPort = ''i'', srv_name = ''s'', acceptor = UdpAcceptor_ctor 3 (addr4 0 80),
     threadPool = EventLoopThreadPool_ctor 0 ''s'', started = True, nextConnId = 2,
     connections = [(''c'', demo_conn)], removals = [], slog = []\<rparr>"

theorem second_close_aborts_witness:
  "rspec (UdpServer_removeConnection demo_conn demo_one)
     (\<lambda>s'. UdpServer_removeConnection demo_conn s' = Inl (AssertFail ''n == 1''))"
proof -
  obtain s' where s': "UdpServer_removeConnection demo_conn demo_one = Inr s'"
    by (simp add: UdpServer_removeConnection_def UdpServer_removeConnectionInLoop_def demo_one_def demo_conn_def)
  have "distinct (map fst (connections demo_one))" by (simp add: demo_one_def)
  from second_close_aborts [OF s' this] s' show ?thesis by simp
qed



end
