(* ===== verification/UdpClient.thy ===== *)
theory UdpClient
  imports UdpConnection UdpServer
begin

text \<open>
  \<open>UdpClient\<close> (\<open>core/UdpClient.cpp\<close>): one connector and at most one connection. The connection is the one of
  theory \<open>UdpConnection\<close>, the connector the one of theory \<open>Connectors\<close>. The close callback of the connection
  is an entry of its log; the loop follows it with \<open>removeConnection\<close>. In \<open>removeConnection\<close> the restart of the
  connector is the last statement, so the socket it hands over is taken by \<open>newConnection\<close> right after.
\<close>

record 's udp_client =
  cl_connector :: connector
  cl_name :: string
  cl_retry :: bool
  cl_connect :: bool
  cl_nextConnId :: int
  connection :: "'s conn option"
  cl_queue :: "(string \<times> int) list"     \<comment> \<open>\<open>connectDestroyed\<close> functors queued in the loop\<close>

definition UdpClient_ctor :: "string \<Rightarrow> 's udp_client" where
  "UdpClient_ctor nameArg = \<lparr>cl_connector = UdpConnector_ctor 0, cl_name = nameArg, cl_retry = False, cl_connect = True,
     cl_nextConnId = 1, connection = None, cl_queue = []\<rparr>"

definition UdpClient_enableRetry :: "'s udp_client \<Rightarrow> 's udp_client" where
  "UdpClient_enableRetry c = c\<lparr>cl_retry := True\<rparr>"

text \<open>\<open>snprintf(buf, 32, ":%s#%d", ...)\<close> appended to the client's name.\<close>

definition client_conn_name :: "string \<Rightarrow> string \<Rightarrow> int \<Rightarrow> string" where
  "client_conn_name nm peerIpPort cid = nm @ snprintf_cut 32 ('':'' @ peerIpPort @ ''#'' @ show_int cid)"

definition UdpClient_newConnection ::
  "'s conn_env \<Rightarrow> nat \<Rightarrow> 's \<Rightarrow> (bytes \<Rightarrow> string) \<Rightarrow> inet_address \<Rightarrow> fd \<Rightarrow> 's udp_client \<Rightarrow> 's udp_client result" where
  "UdpClient_newConnection E depth sess ntop6 peerAddr sockfd c =
     rbind (InetAddress_toIpPort ntop6 peerAddr) (\<lambda>ip.
     let conn = UdpConnection_ctor (client_conn_name (cl_name c) ip (cl_nextConnId c)) sockfd (cl_nextConnId c) sess;
         c1 = c\<lparr>cl_nextConnId := cl_nextConnId c + 1, connection := Some conn\<rparr>
     in if cl_nextConnId c = INT_MAX then Inl (Undefined ''signed overflow'')
        else rbind (UdpConnection_connectEstablished E (call_connCb E depth) conn) (\<lambda>conn'.
             Inr (c1\<lparr>connection := Some conn'\<rparr>)))"

text \<open>Running the connector and taking what it hands over.\<close>

definition with_connector ::
  "(connector \<Rightarrow> connector result) \<Rightarrow> (fd \<Rightarrow> 's udp_client \<Rightarrow> 's udp_client result) \<Rightarrow> 's udp_client \<Rightarrow> 's udp_client result" where
  "with_connector f newConn c =
     rbind (f (cl_connector c)) (\<lambda>cn.
     rfold newConn (drop (length (handed (cl_connector c))) (handed cn)) (c\<lparr>cl_connector := cn\<rparr>))"

definition UdpClient_connect ::
  "fd \<Rightarrow> bool \<Rightarrow> int \<Rightarrow> (fd \<Rightarrow> 's udp_client \<Rightarrow> 's udp_client result) \<Rightarrow> 's udp_client \<Rightarrow> 's udp_client result" where
  "UdpClient_connect f b e newConn c =
     with_connector (UdpConnector_start f b e) newConn (c\<lparr>cl_connect := True\<rparr>)"

definition UdpClient_disconnect :: "'s udp_client \<Rightarrow> 's udp_client" where
  "UdpClient_disconnect c =
     (let c1 = c\<lparr>cl_connect := False\<rparr>
      in case connection c1 of None \<Rightarrow> c1 | Some conn \<Rightarrow> c1\<lparr>connection := Some (UdpConnection_shutdown conn)\<rparr>)"

definition UdpClient_stop :: "'s udp_client \<Rightarrow> 's udp_client" where
  "UdpClient_stop c = c\<lparr>cl_connect := False, cl_connector := UdpConnector_stop (cl_connector c)\<rparr>"

text \<open>\<open>conn\<close> identifies the connection object whose close callback this is; ids are never reused.\<close>

definition UdpClient_removeConnection ::
  "fd \<Rightarrow> bool \<Rightarrow> int \<Rightarrow> (fd \<Rightarrow> 's udp_client \<Rightarrow> 's udp_client result) \<Rightarrow> 's conn \<Rightarrow> 's udp_client \<Rightarrow> 's udp_client result" where
  "UdpClient_removeConnection f b e newConn conn c =
     rbind (cassert (map_option connId (connection c) = Some (connId conn)) ''connection_ == conn'') (\<lambda>_.
     let c1 = c\<lparr>connection := None, cl_queue := cl_queue c @ [(conn_name conn, connId conn)]\<rparr>
     in if cl_retry c1 \<and> cl_connect c1 then with_connector (UdpConnector_restart f b e) newConn c1 else Inr c1)"

text \<open>\<open>unique\<close> is \<open>connection_.unique()\<close>; the close callback is replaced by one that only queues the destruction.\<close>

definition UdpClient_dtor :: "bool \<Rightarrow> 's udp_client \<Rightarrow> 's udp_client" where
  "UdpClient_dtor unique c = (case connection c of
     Some conn \<Rightarrow> (if unique then c\<lparr>connection := Some (UdpConnection_forceClose conn)\<rparr> else c)
   | None \<Rightarrow> c\<lparr>cl_connector := UdpConnector_stop (cl_connector c)\<rparr>)"

section \<open>The client's life\<close>

type_synonym 's new_conn = "fd \<Rightarrow> 's udp_client \<Rightarrow> 's udp_client result"

text \<open>
  What happens to a client: calls of its user, the connector's retry timer and queued functor, the events
  of its connection, and the connection's close callback.
\<close>

inductive client_step ::
  "'s conn_env \<Rightarrow> nat \<Rightarrow> 's \<Rightarrow> (bytes \<Rightarrow> string) \<Rightarrow> inet_address \<Rightarrow> 's udp_client \<Rightarrow> 's udp_client \<Rightarrow> bool"
  for E :: "'s conn_env" and depth :: nat and sess :: 's and ntop6 :: "bytes \<Rightarrow> string" and peer :: inet_address where
  cs_retry: "client_step E depth sess ntop6 peer c (UdpClient_enableRetry c)"
| cs_connect: "UdpClient_connect f b e (UdpClient_newConnection E depth sess ntop6 peer) c = Inr c' \<Longrightarrow>
     client_step E depth sess ntop6 peer c c'"
| cs_disconnect: "client_step E depth sess ntop6 peer c (UdpClient_disconnect c)"
| cs_stop: "client_step E depth sess ntop6 peer c (UdpClient_stop c)"
| cs_timer: "with_connector (UdpConnector_startInLoop f b e) (UdpClient_newConnection E depth sess ntop6 peer) c = Inr c' \<Longrightarrow>
     client_step E depth sess ntop6 peer c c'"
| cs_stopped: "UdpConnector_stopInLoop (cl_connector c) = Inr cn \<Longrightarrow>
     client_step E depth sess ntop6 peer c (c\<lparr>cl_connector := cn\<rparr>)"
| cs_event: "connection c = Some conn \<Longrightarrow> conn_step E conn conn' \<Longrightarrow>
     client_step E depth sess ntop6 peer c (c\<lparr>connection := Some conn'\<rparr>)"
| cs_close: "UdpClient_removeConnection f b e (UdpClient_newConnection E depth sess ntop6 peer) conn c = Inr c' \<Longrightarrow>
     client_step E depth sess ntop6 peer c c'"

inductive_cases client_stepE: "client_step E depth sess ntop6 peer c c'"

definition client_init :: "'s udp_client \<Rightarrow> bool" where
  "client_init c \<longleftrightarrow> (\<exists>nm. c = UdpClient_ctor nm)"

text \<open>The connections made so far, in order: those that were closed, then the one that lives.\<close>

definition conn_ids :: "'s udp_client \<Rightarrow> int list" where
  "conn_ids c = map snd (cl_queue c) @ (case connection c of None \<Rightarrow> [] | Some conn \<Rightarrow> [connId conn])"

definition client_ok :: "'s udp_client \<Rightarrow> bool" where
  "client_ok c \<longleftrightarrow> conn_ids c = [1..cl_nextConnId c - 1] \<and> 1 \<le> cl_nextConnId c \<and> cl_nextConnId c \<le> INT_MAX \<and>
     cn_channel (cl_connector c) = None \<and> cn_state (cl_connector c) \<noteq> cstate.kConnecting \<and>
     (connection c \<noteq> None \<longrightarrow> cn_state (cl_connector c) = cstate.kConnected)"

lemma upto_snoc: "1 \<le> n \<Longrightarrow> [1..n - 1] @ [n] = [1..n :: int]"
  by (metis add.commute diff_add_cancel upto_rec2)

lemma newConnection_ids:
  assumes "UdpClient_newConnection E depth sess ntop6 peer f c = Inr c'" "connection c = None"
  shows "conn_ids c' = conn_ids c @ [cl_nextConnId c] \<and> cl_nextConnId c' = cl_nextConnId c + 1 \<and>
     cl_nextConnId c \<noteq> INT_MAX \<and> cl_connector c' = cl_connector c \<and> cl_queue c' = cl_queue c \<and>
     map_option connId (connection c') = Some (cl_nextConnId c)"
proof -
  have id: "connId k' = connId k"
    if "UdpConnection_connectEstablished E (call_connCb E depth) k = Inr k'" for k k' :: "'a conn"
    using rle_D [OF ident.connectEstablished_R [OF ident.call_connCb_R] that] by (simp add: same_id_def)
  show ?thesis
    using assms id
    by (fastforce simp: UdpClient_newConnection_def rbind_eq_Inr_iff Let_def conn_ids_def UdpConnection_ctor_def split: if_splits)
qed

definition ids_ok :: "'s udp_client \<Rightarrow> bool" where
  "ids_ok c \<longleftrightarrow> conn_ids c = [1..cl_nextConnId c - 1] \<and> 1 \<le> cl_nextConnId c \<and> cl_nextConnId c \<le> INT_MAX"

lemma client_ok_alt:
  "client_ok c \<longleftrightarrow> ids_ok c \<and> cn_channel (cl_connector c) = None \<and> cn_state (cl_connector c) \<noteq> cstate.kConnecting \<and>
     (connection c \<noteq> None \<longrightarrow> cn_state (cl_connector c) = cstate.kConnected)"
  by (auto simp: client_ok_def ids_ok_def)

lemma with_connector_ok:
  assumes "with_connector F (UdpClient_newConnection E depth sess ntop6 peer) c = Inr c'"
    and "F (cl_connector c) = UdpConnector_startInLoop f b e cn" "handed cn = handed (cl_connector c)"
    and "cn_channel cn = None" "connection c \<noteq> None \<longrightarrow> cn_state cn = cstate.kConnected" "ids_ok c"
  shows "client_ok c'"
proof -
  let ?nc = "UdpClient_newConnection E depth sess ntop6 peer"
  obtain cn' where cn': "UdpConnector_startInLoop f b e cn = Inr cn'"
    and run: "rfold ?nc (drop (length (handed cn)) (handed cn')) (c\<lparr>cl_connector := cn'\<rparr>) = Inr c'"
    using assms(1-3) by (auto simp: with_connector_def rbind_eq_Inr_iff)
  note out = startInLoop_handover [OF cn']
  then have none: "connection c = None" using assms(5) by auto
  consider "handed cn' = handed cn" "cn_state cn' = cstate.kDisconnected"
    | "handed cn' = handed cn @ [f]" "cn_state cn' = cstate.kConnected" using out by blast
  then show ?thesis
  proof cases
    case 1
    then have "c' = c\<lparr>cl_connector := cn'\<rparr>" using run by simp
    then show ?thesis using 1 out none assms(4,6) by (simp add: client_ok_alt ids_ok_def conn_ids_def)
  next
    case 2
    then have new: "?nc f (c\<lparr>cl_connector := cn'\<rparr>) = Inr c'" using run by (auto simp: rbind_eq_Inr_iff)
    have ids: "conn_ids (c\<lparr>cl_connector := cn'\<rparr>) = conn_ids c" by (simp add: conn_ids_def)
    from newConnection_ids [OF new] none ids
    have "conn_ids c' = conn_ids c @ [cl_nextConnId c]" "cl_nextConnId c' = cl_nextConnId c + 1"
      "cl_nextConnId c \<noteq> INT_MAX" "cl_connector c' = cn'" by simp_all
    then show ?thesis using 2 out assms(4,6) by (simp add: client_ok_alt ids_ok_def upto_snoc)
  qed
qed

lemma removeConnection_ok:
  assumes "UdpClient_removeConnection f b e (UdpClient_newConnection E depth sess ntop6 peer) conn c = Inr c'" "client_ok c"
  shows "client_ok c'"
proof -
  let ?nc = "UdpClient_newConnection E depth sess ntop6 peer"
  let ?c = "c\<lparr>connection := None, cl_queue := cl_queue c @ [(conn_name conn, connId conn)]\<rparr>"
  have id: "map_option connId (connection c) = Some (connId conn)"
    and run: "(if cl_retry c \<and> cl_connect c then with_connector (UdpConnector_restart f b e) ?nc ?c else Inr ?c) = Inr c'"
    using assms(1) by (auto simp: UdpClient_removeConnection_def rbind_eq_Inr_iff cassert_def Let_def split: if_splits)
  have "conn_ids ?c = conn_ids c" using id by (auto simp: conn_ids_def)
  with assms(2) have ids: "ids_ok ?c" by (simp add: client_ok_alt ids_ok_def)
  show ?thesis
  proof (cases "cl_retry c \<and> cl_connect c")
    case True
    then have "with_connector (UdpConnector_restart f b e) ?nc ?c = Inr c'" using run by simp
    then show ?thesis
      by (rule with_connector_ok [OF _ UdpConnector_restart_def]) (use assms(2) ids in \<open>simp_all add: client_ok_alt\<close>)
  next
    case False
    then show ?thesis using run ids assms(2) by (auto simp: client_ok_alt)
  qed
qed

lemma client_step_ok: "client_step E depth sess ntop6 peer c c' \<Longrightarrow> client_ok c \<Longrightarrow> client_ok c'"
proof (induction rule: client_step.induct)
  case (cs_connect f b e c c')
  let ?c = "c\<lparr>cl_connect := True\<rparr>"
  have "ids_ok ?c" using cs_connect.prems by (simp add: client_ok_alt ids_ok_def conn_ids_def)
  then show ?case
    by (intro with_connector_ok [OF cs_connect.hyps [unfolded UdpClient_connect_def] UdpConnector_start_def])
       (use cs_connect.prems in \<open>simp_all add: client_ok_alt\<close>)
next
  case (cs_timer f b e c c')
  then show ?case by (intro with_connector_ok [OF cs_timer.hyps refl]) (simp_all add: client_ok_alt)
next
  case (cs_close f b e conn c c')
  then show ?case by (rule removeConnection_ok)
next
  case (cs_stopped c cn)
  then show ?case by (simp add: UdpConnector_stopInLoop_def client_ok_def conn_ids_def)
next
  case (cs_event c conn conn')
  have "same_id conn conn'"
    by (rule conn_step_same_id) (rule cs_event.hyps(2))
  then show ?case using cs_event by (simp add: client_ok_def conn_ids_def same_id_def)
qed (auto simp: client_ok_def conn_ids_def UdpClient_enableRetry_def UdpClient_disconnect_def UdpClient_stop_def
       UdpConnector_stop_def UdpConnection_shutdown_def split: option.splits)

interpretation client_run: inductive_invariant client_init "client_step E depth sess ntop6 peer" client_ok
  for E :: "'s conn_env" and depth sess ntop6 peer
proof
  show "client_init c \<Longrightarrow> client_ok c" for c :: "'s udp_client"
    by (auto simp: client_init_def UdpClient_ctor_def UdpConnector_ctor_def client_ok_def conn_ids_def INT_MAX_def)
qed (rule client_step_ok)

lemma restart_outcome:
  assumes "with_connector (UdpConnector_restart f b e) (UdpClient_newConnection E depth sess ntop6 peer) c = Inr c'"
    and "connection c = None"
  shows "cl_queue c' = cl_queue c \<and>
     (connection c' = None \<and> \<not> started_errno e \<or> map_option connId (connection c') = Some (cl_nextConnId c)) \<and>
     (started_errno e \<longrightarrow> retryDelayMs (cl_connector c') = kInitRetryDelayMs)"
proof -
  let ?nc = "UdpClient_newConnection E depth sess ntop6 peer" and ?cn = "cl_connector c"
  obtain cn where cn: "UdpConnector_restart f b e ?cn = Inr cn"
    and run: "rfold ?nc (drop (length (handed ?cn)) (handed cn)) (c\<lparr>cl_connector := cn\<rparr>) = Inr c'"
    using assms(1) by (auto simp: with_connector_def rbind_eq_Inr_iff)
  have "handed cn = handed ?cn \<and> \<not> started_errno e \<or> handed cn = handed ?cn @ [f] \<and> retryDelayMs cn = kInitRetryDelayMs"
    using cn by (auto simp: UdpConnector_restart_def UdpConnector_startInLoop_def UdpConnector_connect_def
        UdpConnector_connected_def UdpConnector_retry_def Let_def split: if_splits)
  then show ?thesis
    using run newConnection_ids [of E depth sess ntop6 peer f "c\<lparr>cl_connector := cn\<rparr>" c'] assms(2)
    by (auto simp: rbind_eq_Inr_iff)
qed

lemma live_is_last: "client_ok c \<Longrightarrow> connection c = Some conn \<Longrightarrow> cl_nextConnId c = connId conn + 1"
  by (cases "cl_nextConnId c = 1")
     (auto simp: client_ok_def conn_ids_def upto_rec2 [of 1 "cl_nextConnId c - 1"])

section \<open>Properties\<close>

text \<open>
  C21. Connections of a client: in every state a client reaches, whatever its user, the network and its
  connection do, the connections it has made are numbered 1, 2, 3, ... in the order they were made; all
  but the last were each handed to \<open>connectDestroyed\<close> exactly once and in that order, and the last one too
  or it is the one that lives. A connection lives only while the connector is connected, and the
  connector never waits on a channel, so its destructor's assertion holds.
\<close>

theorem client_connections_accounted:
  assumes "reaches client_init (client_step E depth sess ntop6 peer) c"
  shows "map snd (cl_queue c) @ (case connection c of None \<Rightarrow> [] | Some conn \<Rightarrow> [connId conn]) = [1..cl_nextConnId c - 1] \<and>
     (connection c \<noteq> None \<longrightarrow> cn_state (cl_connector c) = cstate.kConnected) \<and>
     UdpConnector_dtor (cl_connector c) = Inr ()"
  using client_run.inv_reaches [OF assms] by (simp add: client_ok_def conn_ids_def UdpConnector_dtor_def)

definition demo_client :: "bytes list udp_client" where
  "demo_client = UdpClient_enableRetry (UdpClient_ctor ''cli'')"

definition demo_up :: "bytes list udp_client result" where
  "demo_up = UdpClient_connect 9 True 0 (UdpClient_newConnection fifo_env 2 [] (\<lambda>_. []) demo_peer) demo_client"

lemma demo_up_name: "rspec demo_up (\<lambda>c. map_option conn_name (connection c) = Some ''cli:127.0.0.1:1792#1'')"
  by code_simp

lemma demo_up_reached:
  "rspec demo_up (\<lambda>c. reaches client_init (client_step fifo_env 2 [] (\<lambda>_. []) demo_peer) c \<and> connection c \<noteq> None \<and>
     cl_retry c \<and> cl_connect c)"
proof -
  have f: "rspec demo_up (\<lambda>c. connection c \<noteq> None \<and> cl_retry c \<and> cl_connect c)" by code_simp
  have "reaches client_init (client_step fifo_env 2 [] (\<lambda>_. []) demo_peer) (UdpClient_ctor ''cli'')"
    by (rule reaches_init) (auto simp: client_init_def)
  then have "reaches client_init (client_step fifo_env 2 [] (\<lambda>_. []) demo_peer) demo_client"
    unfolding demo_client_def by (rule reaches_step) (rule cs_retry)
  then have "reaches client_init (client_step fifo_env 2 [] (\<lambda>_. []) demo_peer) c" if "demo_up = Inr c" for c
    by (rule reaches_step) (rule cs_connect, use that in \<open>simp add: demo_up_def\<close>)
  with f show ?thesis by (auto simp: rspec_iff)
qed

theorem client_connections_accounted_witness:
  "rspec demo_up (\<lambda>c. map snd (cl_queue c) @ (case connection c of None \<Rightarrow> [] | Some conn \<Rightarrow> [connId conn]) =
     [1..cl_nextConnId c - 1] \<and> connection c \<noteq> None \<and> cn_state (cl_connector c) = cstate.kConnected)"
proof (rule rspec_mono [OF demo_up_reached], elim conjE)
  fix c assume r: "reaches client_init (client_step fifo_env 2 [] (\<lambda>_. []) demo_peer) c" and n: "connection c \<noteq> None"
  show "map snd (cl_queue c) @ (case connection c of None \<Rightarrow> [] | Some conn \<Rightarrow> [connId conn]) = [1..cl_nextConnId c - 1] \<and>
     connection c \<noteq> None \<and> cn_state (cl_connector c) = cstate.kConnected"
    using client_connections_accounted [OF r] n by simp
qed

text \<open>
  A closed connection and the client: in every reachable state the close callback of the live connection
  queues its destruction. With retry on, a connector whose \<open>connect\<close> succeeds at once gives the client a
  fresh connection with the next number and the initial delay; without, the client has none, and calling
  \<open>connect()\<close> again ends the process, because the connector is still in the state connected. Either way a
  second close callback of the same connection ends the process.
\<close>

theorem client_after_close:
  assumes "reaches client_init (client_step E depth sess ntop6 peer) c" "connection c = Some conn"
    and "UdpClient_removeConnection f b e (UdpClient_newConnection E depth sess ntop6 peer) conn c = Inr c'"
  shows "UdpClient_removeConnection f' b' e' nc conn c' = Inl (AssertFail ''connection_ == conn'') \<and>
     cl_queue c' = cl_queue c @ [(conn_name conn, connId conn)] \<and>
     (cl_retry c \<and> cl_connect c \<and> started_errno e \<longrightarrow>
       map_option connId (connection c') = Some (connId conn + 1) \<and> retryDelayMs (cl_connector c') = kInitRetryDelayMs) \<and>
     (\<not> (cl_retry c \<and> cl_connect c) \<longrightarrow>
       connection c' = None \<and> UdpClient_connect f' b' e' nc c' = Inl (AssertFail ''state_ == kDisconnected''))"
proof -
  let ?c = "c\<lparr>connection := None, cl_queue := cl_queue c @ [(conn_name conn, connId conn)]\<rparr>"
  have ok: "client_ok c" by (rule client_run.inv_reaches [OF assms(1)])
  then have "client_ok c'" by (rule removeConnection_ok [OF assms(3)])
  note next_id = live_is_last [OF ok assms(2)]
  have up: "cn_state (cl_connector c) = cstate.kConnected" using ok assms(2) by (simp add: client_ok_def)
  have run: "(if cl_retry c \<and> cl_connect c
      then with_connector (UdpConnector_restart f b e) (UdpClient_newConnection E depth sess ntop6 peer) ?c else Inr ?c) = Inr c'"
    using assms(2,3) by (simp add: UdpClient_removeConnection_def Let_def)
  show ?thesis
  proof (cases "cl_retry c \<and> cl_connect c")
    case True
    then show ?thesis using run restart_outcome [of f b e E depth sess ntop6 peer ?c c'] next_id
      by (auto simp: UdpClient_removeConnection_def)
  next
    case False
    then have "c' = ?c" using run by (auto split: if_splits)
    then show ?thesis using False up
      by (auto simp: UdpClient_removeConnection_def UdpClient_connect_def with_connector_def UdpConnector_start_def
          UdpConnector_startInLoop_def)
  qed
qed

definition demo_again :: "bytes list udp_client result" where
  "demo_again = rbind demo_up (\<lambda>c.
     UdpClient_removeConnection 10 True 0 (UdpClient_newConnection fifo_env 2 [] (\<lambda>_. []) demo_peer) (the (connection c)) c)"

lemma demo_again_runs: "rspec demo_again (\<lambda>c. True)"
  by code_simp

theorem client_after_close_witness:
  "rspec demo_up (\<lambda>c. rspec demo_again (\<lambda>c'.
     cl_queue c' = cl_queue c @ [(conn_name (the (connection c)), connId (the (connection c)))] \<and>
     map_option connId (connection c') = Some (connId (the (connection c)) + 1)))"
proof -
  obtain c where c: "demo_up = Inr c" "connection c \<noteq> None" "cl_retry c" "cl_connect c"
    and r: "reaches client_init (client_step fifo_env 2 [] (\<lambda>_. []) demo_peer) c"
    using demo_up_reached by (auto simp: rspec_iff)
  obtain c' where c': "demo_again = Inr c'" using demo_again_runs by (auto simp: rspec_iff)
  then have rm: "UdpClient_removeConnection 10 True 0 (UdpClient_newConnection fifo_env 2 [] (\<lambda>_. []) demo_peer)
      (the (connection c)) c = Inr c'" by (simp add: demo_again_def c(1))
  have "connection c = Some (the (connection c))" using c(2) by simp
  from client_after_close [OF r this rm] c show ?thesis
    unfolding c(1) c' rspec_Inr by (simp add: started_errno_def)
qed

text \<open>
  Names of a client's connections: the 32-byte buffer keeps the number apart for every IPv4 peer and the
  first 99999999 connections, so these names are pairwise different; an IPv6 peer whose text has 30
  characters or more leaves no room for the number, and all its connections have one and the same name.
\<close>

theorem client_names:
  assumes "InetAddress_toIpPort ntop6 peer = Inr ip" "1 \<le> i" "1 \<le> j"
  shows "(ipv4 peer \<and> i < 10 ^ 8 \<and> j < 10 ^ 8 \<longrightarrow>
       (client_conn_name nm ip i = client_conn_name nm ip j \<longleftrightarrow> i = j)) \<and>
     (30 \<le> length ip \<longrightarrow> client_conn_name nm ip i = client_conn_name nm ip j)"
proof -
  have e: "client_conn_name nm ip k = nm @ '':'' @ ip @ ''#'' @ show_int k" if "length ip \<le> 21" "1 \<le> k" "k < 10 ^ 8" for k
  proof -
    have "length (show_nat (nat k)) \<le> 8" using that(3) by (intro length_show_nat) auto
    with that show ?thesis by (simp add: client_conn_name_def snprintf_cut_def show_int_def)
  qed
  have "length ip \<le> 21" if "ipv4 peer"
    using assms(1) that length_ntop4 [of "s_addr peer"] length_show_port [of "networkToHost16 (sin_port peer)"]
    by (auto simp: InetAddress_toIpPort_def sockets_toIpPort_def sockets_toIp_def ipv4_def Let_def snprintf_cut_def)
  moreover have "client_conn_name nm ip k = nm @ '':'' @ take 30 ip" if "30 \<le> length ip" for k
    using that by (simp add: client_conn_name_def snprintf_cut_def)
  ultimately show ?thesis using e [of i] e [of j] assms(2,3) by (auto simp: show_int_def)
qed

text \<open>The text of \<open>2001:db8:85a3:1111:2222:8a2e:370:7334\<close> has 36 characters.\<close>

definition demo_ntop6 :: "bytes \<Rightarrow> string" where
  "demo_ntop6 b = ''2001:db8:85a3:1111:2222:8a2e:370:7334''"

theorem client_names_witness:
  "client_conn_name ''c'' ''127.0.0.1:1792'' 1 \<noteq> client_conn_name ''c'' ''127.0.0.1:1792'' 2 \<and>
   (\<exists>ip. InetAddress_toIpPort demo_ntop6 (demo_peer\<lparr>sin_family := AF_INET6\<rparr>) = Inr ip \<and>
      client_conn_name ''c'' ip 1 = client_conn_name ''c'' ip 2)"
proof -
  have a: "InetAddress_toIpPort demo_ntop6 demo_peer = Inr ''127.0.0.1:1792''" by code_simp
  have v4: "ipv4 demo_peer" by (simp add: ipv4_def demo_peer_def addr4_def)
  have l: "rspec (InetAddress_toIpPort demo_ntop6 (demo_peer\<lparr>sin_family := AF_INET6\<rparr>)) (\<lambda>ip. 30 \<le> length ip)" by code_simp
  then obtain ip where ip: "InetAddress_toIpPort demo_ntop6 (demo_peer\<lparr>sin_family := AF_INET6\<rparr>) = Inr ip" "30 \<le> length ip"
    by (auto simp: rspec_iff)
  show ?thesis
    using client_names [OF a, of 1 2 "''c''"] client_names [OF ip(1), of 1 2 "''c''"] v4 ip by auto
qed

end
