(* ===== verification/TcpConnection.thy ===== *)
theory TcpConnection
  imports Complex_Main Codec Channel
begin

text \<open>
  \<open>TcpConnection\<close> (\<open>third/muduo/net/TcpConnection.h\<close>, \<open>TcpConnection.cc\<close>). Unlike the UDP connection it has
  an output buffer: what the socket does not take at once is appended there and written when the socket
  becomes writable. No operation calls back into itself (callbacks that could are queued in the loop),
  so the user's callbacks are the list of calls they make on the connection.

  The system calls are a script: the results of \<open>write\<close> in order (an error, or the number of bytes taken),
  \<open>read\<close> is an argument. \<open>wire\<close> are the bytes the kernel took, \<open>write_shut\<close> says that \<open>shutdown(SHUT_WR)\<close> was
  called, after which \<open>write\<close> fails with \<open>EPIPE\<close>. \<open>tlog\<close> records the calls of user callbacks, what was queued in
  the loop, and what became of each message handed to \<open>sendInLoop\<close>.
\<close>

datatype tcp_state = kDisconnected | kConnecting | kConnected | kDisconnecting

datatype tcp_act = TSend bytes | TShutdown | TForceClose | TStartRead | TStopRead

datatype tcp_effect =
    TConnCb tcp_state | TMsgCb int bytes "bytes list" | TClose
  | TTaken bytes | TDropped bytes
  | TQueueWriteComplete | TQueueHighWater nat | TQueueForceClose | TQueueSend bytes | TRunAfterForceClose rat
  | TUpdate "32 word" | TRemove | TShutdownWrite

record tcp_conn =
  t_name :: string
  t_id :: int                        \<comment> \<open>which object this is\<close>
  t_state :: tcp_state
  t_reading :: bool
  t_chan :: channel
  highWaterMark :: int               \<comment> \<open>a \<open>size_t\<close>\<close>
  t_in :: buffer
  t_out :: buffer
  wire :: bytes
  write_shut :: bool
  os_writes :: "(int + nat) list"
  tlog :: "tcp_effect list"

record tcp_env =
  t_connectionCallback :: "tcp_conn \<Rightarrow> tcp_act list"
  t_messageCallback :: "int \<Rightarrow> tcp_conn \<Rightarrow> (tcp_act list \<times> bytes list \<times> buffer) result"
  t_writeCompleteCallback :: bool
  t_highWaterMarkCallback :: bool

definition EWOULDBLOCK :: int where "EWOULDBLOCK = 11"
definition EPIPE :: int where "EPIPE = 32"
definition ECONNRESET :: int where "ECONNRESET = 104"

definition temit :: "tcp_effect \<Rightarrow> tcp_conn \<Rightarrow> tcp_conn" where
  "temit e c = c\<lparr>tlog := tlog c @ [e]\<rparr>"

definition on_tchan :: "(channel \<Rightarrow> channel) \<Rightarrow> tcp_conn \<Rightarrow> tcp_conn" where
  "on_tchan f c = temit (TUpdate (events (f (t_chan c)))) (c\<lparr>t_chan := f (t_chan c)\<rparr>)"

text \<open>A script that has run out takes everything.\<close>

definition sockets_write :: "bytes \<Rightarrow> tcp_conn \<Rightarrow> (int + nat) \<times> tcp_conn" where
  "sockets_write d c =
     (if write_shut c then (Inl EPIPE, c)
      else case os_writes c of
        [] \<Rightarrow> (Inr (length d), c\<lparr>wire := wire c @ d\<rparr>)
      | Inl e # r \<Rightarrow> (Inl e, c\<lparr>os_writes := r\<rparr>)
      | Inr n # r \<Rightarrow> (Inr (min n (length d)), c\<lparr>os_writes := r, wire := wire c @ take n d\<rparr>))"

definition TcpConnection_ctor :: "string \<Rightarrow> fd \<Rightarrow> int \<Rightarrow> tcp_conn" where
  "TcpConnection_ctor nameArg sockfd obj =
     \<lparr>t_name = nameArg, t_id = obj, t_state = kConnecting, t_reading = True, t_chan = Channel_ctor sockfd,
      highWaterMark = 64 * 1024 * 1024, t_in = Buffer_ctor kInitialSize, t_out = Buffer_ctor kInitialSize,
      wire = [], write_shut = False, os_writes = [], tlog = []\<rparr>"

definition TcpConnection_dtor :: "tcp_conn \<Rightarrow> unit result" where
  "TcpConnection_dtor c = cassert (t_state c = kDisconnected) ''state_ == kDisconnected''"

definition TcpConnection_connected :: "tcp_conn \<Rightarrow> bool" where
  "TcpConnection_connected c \<longleftrightarrow> t_state c = kConnected"
definition TcpConnection_disconnected :: "tcp_conn \<Rightarrow> bool" where
  "TcpConnection_disconnected c \<longleftrightarrow> t_state c = kDisconnected"

definition TcpConnection_setHighWaterMark :: "nat \<Rightarrow> tcp_conn \<Rightarrow> tcp_conn" where
  "TcpConnection_setHighWaterMark n c = c\<lparr>highWaterMark := int n\<rparr>"

definition TcpConnection_stateToString :: "tcp_state \<Rightarrow> string" where
  "TcpConnection_stateToString s = (case s of kDisconnected \<Rightarrow> ''kDisconnected'' | kConnecting \<Rightarrow> ''kConnecting''
     | kConnected \<Rightarrow> ''kConnected'' | kDisconnecting \<Rightarrow> ''kDisconnecting'')"

definition defaultConnectionCallback :: "tcp_conn \<Rightarrow> tcp_act list" where
  "defaultConnectionCallback c = []"

definition defaultMessageCallback :: "int \<Rightarrow> tcp_conn \<Rightarrow> (tcp_act list \<times> bytes list \<times> buffer) result" where
  "defaultMessageCallback receiveTime c = Inr ([], [], Buffer_retrieveAll (t_in c))"

section \<open>Sending\<close>

text \<open>The direct write, when nothing is queued: bytes written, bytes remaining, \<open>faultError\<close>.\<close>

definition try_write :: "tcp_env \<Rightarrow> bytes \<Rightarrow> tcp_conn \<Rightarrow> nat \<times> nat \<times> bool \<times> tcp_conn" where
  "try_write E d c =
     (if \<not> isWriting (t_chan c) \<and> readableBytes (t_out c) = 0
      then (case sockets_write d c of
              (Inr nwrote, c') \<Rightarrow>
                (nwrote, length d - nwrote, False,
                 if length d - nwrote = 0 \<and> t_writeCompleteCallback E then temit TQueueWriteComplete c' else c')
            | (Inl errno, c') \<Rightarrow>
                (0, length d, errno \<noteq> EWOULDBLOCK \<and> (errno = EPIPE \<or> errno = ECONNRESET), c'))
      else (0, length d, False, c))"

definition queue_output :: "tcp_env \<Rightarrow> bytes \<Rightarrow> tcp_conn \<Rightarrow> tcp_conn result" where
  "queue_output E d c =
     (let oldLen = readableBytes (t_out c); remaining = length d;
          c1 = (if highWaterMark c \<le> int (oldLen + remaining) \<and> int oldLen < highWaterMark c \<and> t_highWaterMarkCallback E
                then temit (TQueueHighWater (oldLen + remaining)) c else c)
      in rbind (Buffer_append d (t_out c1)) (\<lambda>ob.
         let c2 = c1\<lparr>t_out := ob\<rparr>
         in Inr (if \<not> isWriting (t_chan c2) then on_tchan enableWriting c2 else c2)))"

definition TcpConnection_sendInLoop :: "tcp_env \<Rightarrow> bytes \<Rightarrow> tcp_conn \<Rightarrow> tcp_conn result" where
  "TcpConnection_sendInLoop E d c =
     (if t_state c = kDisconnected then Inr c
      else let (nwrote, remaining, faultError, c1) = try_write E d c;
               c2 = temit (if faultError then TDropped d else TTaken d) c1
           in rbind (cassert (remaining \<le> length d) ''remaining <= len'') (\<lambda>_.
              if \<not> faultError \<and> 0 < remaining then queue_output E (take remaining (drop nwrote d)) c2 else Inr c2))"

text \<open>\<open>inLoop\<close> is \<open>loop_->isInLoopThread()\<close>; otherwise the message is copied into a functor.\<close>

definition TcpConnection_send :: "tcp_env \<Rightarrow> bool \<Rightarrow> bytes \<Rightarrow> tcp_conn \<Rightarrow> tcp_conn result" where
  "TcpConnection_send E inLoop d c =
     (if t_state c = kConnected
      then (if inLoop then TcpConnection_sendInLoop E d c else Inr (temit (TQueueSend d) c))
      else Inr c)"

definition TcpConnection_sendBuffer ::
  "tcp_env \<Rightarrow> bool \<Rightarrow> buffer \<Rightarrow> tcp_conn \<Rightarrow> (tcp_conn \<times> buffer) result" where
  "TcpConnection_sendBuffer E inLoop buf c =
     (if t_state c = kConnected
      then (if inLoop
            then rbind (TcpConnection_sendInLoop E (span buf (peek buf) (beginWrite buf)) c) (\<lambda>c'.
                 Inr (c', Buffer_retrieveAll buf))
            else rbind (Buffer_retrieveAllAsString buf) (\<lambda>(s, buf'). Inr (temit (TQueueSend s) c, buf')))
      else Inr (c, buf))"

section \<open>Shutting down\<close>

definition TcpConnection_shutdownInLoop :: "tcp_conn \<Rightarrow> tcp_conn" where
  "TcpConnection_shutdownInLoop c =
     (if \<not> isWriting (t_chan c) then temit TShutdownWrite (c\<lparr>write_shut := True\<rparr>) else c)"

text \<open>Called in the loop's thread, where \<open>runInLoop\<close> runs the functor at once.\<close>

definition TcpConnection_shutdown :: "tcp_conn \<Rightarrow> tcp_conn" where
  "TcpConnection_shutdown c =
     (if t_state c = kConnected then TcpConnection_shutdownInLoop (c\<lparr>t_state := kDisconnecting\<rparr>) else c)"

definition TcpConnection_forceClose :: "tcp_conn \<Rightarrow> tcp_conn" where
  "TcpConnection_forceClose c =
     (if t_state c = kConnected \<or> t_state c = kDisconnecting
      then temit TQueueForceClose (c\<lparr>t_state := kDisconnecting\<rparr>) else c)"

definition TcpConnection_forceCloseWithDelay :: "rat \<Rightarrow> tcp_conn \<Rightarrow> tcp_conn" where
  "TcpConnection_forceCloseWithDelay seconds c =
     (if t_state c = kConnected \<or> t_state c = kDisconnecting
      then temit (TRunAfterForceClose seconds) (c\<lparr>t_state := kDisconnecting\<rparr>) else c)"

definition TcpConnection_startReadInLoop :: "tcp_conn \<Rightarrow> tcp_conn" where
  "TcpConnection_startReadInLoop c =
     (if \<not> t_reading c \<or> \<not> isReading (t_chan c) then (on_tchan enableReading c)\<lparr>t_reading := True\<rparr> else c)"

definition TcpConnection_stopReadInLoop :: "tcp_conn \<Rightarrow> tcp_conn" where
  "TcpConnection_stopReadInLoop c =
     (if t_reading c \<or> isReading (t_chan c) then (on_tchan disableReading c)\<lparr>t_reading := False\<rparr> else c)"

section \<open>Callbacks and events\<close>

fun tcp_call :: "tcp_env \<Rightarrow> tcp_act \<Rightarrow> tcp_conn \<Rightarrow> tcp_conn result" where
  "tcp_call E (TSend d) c = TcpConnection_send E True d c"
| "tcp_call E TShutdown c = Inr (TcpConnection_shutdown c)"
| "tcp_call E TForceClose c = Inr (TcpConnection_forceClose c)"
| "tcp_call E TStartRead c = Inr (TcpConnection_startReadInLoop c)"
| "tcp_call E TStopRead c = Inr (TcpConnection_stopReadInLoop c)"

definition tcp_connCb :: "tcp_env \<Rightarrow> tcp_conn \<Rightarrow> tcp_conn result" where
  "tcp_connCb E c = rfold (tcp_call E) (t_connectionCallback E c) (temit (TConnCb (t_state c)) c)"

definition TcpConnection_connectEstablished :: "tcp_env \<Rightarrow> tcp_conn \<Rightarrow> tcp_conn result" where
  "TcpConnection_connectEstablished E c =
     rbind (cassert (t_state c = kConnecting) ''state_ == kConnecting'') (\<lambda>_.
     tcp_connCb E (on_tchan enableReading (c\<lparr>t_state := kConnected, t_chan := Channel_tie (t_chan c)\<rparr>)))"

definition TcpConnection_connectDestroyed :: "tcp_env \<Rightarrow> tcp_conn \<Rightarrow> tcp_conn result" where
  "TcpConnection_connectDestroyed E c =
     rbind (if t_state c = kConnected
            then tcp_connCb E (on_tchan disableAll (c\<lparr>t_state := kDisconnected\<rparr>)) else Inr c) (\<lambda>c'.
     rbind (Channel_remove (t_chan c')) (\<lambda>ch. Inr (temit TRemove (c'\<lparr>t_chan := ch\<rparr>))))"

definition TcpConnection_handleClose :: "tcp_env \<Rightarrow> tcp_conn \<Rightarrow> tcp_conn result" where
  "TcpConnection_handleClose E c =
     rbind (cassert (t_state c = kConnected \<or> t_state c = kDisconnecting)
              ''state_ == kConnected || state_ == kDisconnecting'') (\<lambda>_.
     rbind (tcp_connCb E (on_tchan disableAll (c\<lparr>t_state := kDisconnected\<rparr>))) (\<lambda>c'. Inr (temit TClose c')))"

definition TcpConnection_forceCloseInLoop :: "tcp_env \<Rightarrow> tcp_conn \<Rightarrow> tcp_conn result" where
  "TcpConnection_forceCloseInLoop E c =
     (if t_state c = kConnected \<or> t_state c = kDisconnecting then TcpConnection_handleClose E c else Inr c)"

text \<open>\<open>handleError\<close> reads \<open>SO_ERROR\<close> and logs it.\<close>

definition TcpConnection_handleError :: "tcp_conn \<Rightarrow> tcp_conn result" where
  "TcpConnection_handleError c = Inr c"

definition kread_data :: "kread \<Rightarrow> bytes" where
  "kread_data r = (case r of ReadErr e \<Rightarrow> [] | ReadOk d \<Rightarrow> d)"

definition TcpConnection_handleRead :: "tcp_env \<Rightarrow> kread \<Rightarrow> int \<Rightarrow> tcp_conn \<Rightarrow> tcp_conn result" where
  "TcpConnection_handleRead E r receiveTime c =
     rbind (Buffer_readFd r (t_in c)) (\<lambda>(n, savedErrno, ib).
     let c1 = c\<lparr>t_in := ib\<rparr>
     in if 0 < n
        then rbind (t_messageCallback E receiveTime c1) (\<lambda>(acts, apps, ib').
             rfold (tcp_call E) acts (temit (TMsgCb receiveTime (kread_data r) apps) (c1\<lparr>t_in := ib'\<rparr>)))
        else if n = 0 then TcpConnection_handleClose E c1
        else TcpConnection_handleError c1)"

definition TcpConnection_handleWrite :: "tcp_env \<Rightarrow> tcp_conn \<Rightarrow> tcp_conn result" where
  "TcpConnection_handleWrite E c =
     (if isWriting (t_chan c)
      then (case sockets_write (span (t_out c) (peek (t_out c)) (beginWrite (t_out c))) c of
              (Inr n, c1) \<Rightarrow>
                if 0 < n
                then rbind (Buffer_retrieve n (t_out c1)) (\<lambda>ob.
                     let c2 = c1\<lparr>t_out := ob\<rparr>
                     in if readableBytes (t_out c2) = 0
                        then let c3 = on_tchan disableWriting c2;
                                 c4 = (if t_writeCompleteCallback E then temit TQueueWriteComplete c3 else c3)
                             in Inr (if t_state c4 = kDisconnecting then TcpConnection_shutdownInLoop c4 else c4)
                        else Inr c2)
                else Inr c1
            | (Inl errno, c1) \<Rightarrow> Inr c1)
      else Inr c)"

text \<open>The channel's callbacks as the constructor sets them; \<open>rd\<close> is what the next \<open>readv\<close> returns.\<close>

definition tcp_callbacks :: "tcp_env \<Rightarrow> kread \<Rightarrow> tcp_conn callbacks" where
  "tcp_callbacks E rd = \<lparr>readCallback = Some (TcpConnection_handleRead E rd),
     writeCallback = Some (TcpConnection_handleWrite E),
     closeCallback = Some (TcpConnection_handleClose E), errorCallback = Some TcpConnection_handleError\<rparr>"

section \<open>What every operation respects\<close>

lemma temit_simps [simp]:
  "t_name (temit e c) = t_name c" "t_id (temit e c) = t_id c" "t_state (temit e c) = t_state c"
  "t_reading (temit e c) = t_reading c" "t_chan (temit e c) = t_chan c" "highWaterMark (temit e c) = highWaterMark c"
  "t_in (temit e c) = t_in c" "t_out (temit e c) = t_out c" "wire (temit e c) = wire c"
  "write_shut (temit e c) = write_shut c" "os_writes (temit e c) = os_writes c" "tlog (temit e c) = tlog c @ [e]"
  by (simp_all add: temit_def)

lemma on_tchan_simps [simp]:
  "t_name (on_tchan f c) = t_name c" "t_id (on_tchan f c) = t_id c" "t_state (on_tchan f c) = t_state c"
  "t_reading (on_tchan f c) = t_reading c" "t_chan (on_tchan f c) = f (t_chan c)"
  "highWaterMark (on_tchan f c) = highWaterMark c" "t_in (on_tchan f c) = t_in c" "t_out (on_tchan f c) = t_out c"
  "wire (on_tchan f c) = wire c" "write_shut (on_tchan f c) = write_shut c" "os_writes (on_tchan f c) = os_writes c"
  "tlog (on_tchan f c) = tlog c @ [TUpdate (events (f (t_chan c)))]"
  by (simp_all add: on_tchan_def)

text \<open>
  A relation on connections that holds across each elementary operation holds across the calls of the
  user's callbacks and the operations built from them.
\<close>

locale tcp_relation =
  fixes R :: "tcp_conn \<Rightarrow> tcp_conn \<Rightarrow> bool"
  assumes refl: "R c c"
    and trans: "R x y \<Longrightarrow> R y z \<Longrightarrow> R x z"
    and sends: "TcpConnection_sendInLoop E d c = Inr c' \<Longrightarrow> R c c'"
    and shuts: "R c (TcpConnection_shutdown c)"
    and forces: "R c (TcpConnection_forceClose c)"
    and starts: "R c (TcpConnection_startReadInLoop c)"
    and stops: "R c (TcpConnection_stopReadInLoop c)"
    and tells: "R c (temit (TConnCb (t_state c)) c)"
    and goes_up: "t_state c = kConnecting \<Longrightarrow>
       R c (on_tchan enableReading (c\<lparr>t_state := kConnected, t_chan := Channel_tie (t_chan c)\<rparr>))"
    and goes_down: "R c (on_tchan disableAll (c\<lparr>t_state := kDisconnected\<rparr>))"
    and removes: "Channel_remove (t_chan c) = Inr ch \<Longrightarrow> R c (temit TRemove (c\<lparr>t_chan := ch\<rparr>))"
begin

lemma call_R: "tcp_call E a c = Inr c' \<Longrightarrow> R c c'"
  by (cases a) (auto simp: TcpConnection_send_def refl sends shuts forces starts stops split: if_splits)

lemma calls_R: "rfold (tcp_call E) as c = Inr c' \<Longrightarrow> R c c'"
  by (induction as arbitrary: c) (auto simp: rbind_eq_Inr_iff intro: refl trans call_R)

lemma connCb_R: "tcp_connCb E c = Inr c' \<Longrightarrow> R c c'"
  unfolding tcp_connCb_def by (rule trans [OF tells calls_R])

lemma down_R: "tcp_connCb E (on_tchan disableAll (c\<lparr>t_state := kDisconnected\<rparr>)) = Inr c' \<Longrightarrow> R c c'"
  by (rule trans [OF goes_down connCb_R])

lemma connectEstablished_R: "TcpConnection_connectEstablished E c = Inr c' \<Longrightarrow> R c c'"
  by (auto simp: TcpConnection_connectEstablished_def rbind_eq_Inr_iff cassert_def split: if_splits
      intro: trans [OF goes_up connCb_R])

lemma connectDestroyed_R: "TcpConnection_connectDestroyed E c = Inr c' \<Longrightarrow> R c c'"
  by (auto simp: TcpConnection_connectDestroyed_def rbind_eq_Inr_iff split: if_splits
      intro: removes trans [OF down_R removes])

text \<open>Closing: the callback of the user, then that of the owner.\<close>

lemma handleClose_R:
  assumes "TcpConnection_handleClose E c = Inr c'"
  shows "\<exists>c1. R c c1 \<and> c' = temit TClose c1 \<and> (t_state c = kConnected \<or> t_state c = kDisconnecting) \<and>
     tcp_connCb E (on_tchan disableAll (c\<lparr>t_state := kDisconnected\<rparr>)) = Inr c1"
  using assms by (auto simp: TcpConnection_handleClose_def rbind_eq_Inr_iff cassert_def split: if_splits intro: down_R)

end

section \<open>Output\<close>

primrec trank :: "tcp_state \<Rightarrow> nat" where
  "trank kConnecting = 0"
| "trank kConnected = 1"
| "trank kDisconnecting = 2"
| "trank kDisconnected = 3"

lemma trank_simps [simp]: "trank s \<le> 3" "3 \<le> trank s \<longleftrightarrow> s = kDisconnected" "trank s = 3 \<longleftrightarrow> s = kDisconnected"
  by (cases s; simp)+

text \<open>The bytes of all messages taken for sending, and the states the user was told.\<close>

fun taken :: "tcp_effect list \<Rightarrow> bytes" where
  "taken [] = []"
| "taken (TTaken d # l) = d @ taken l"
| "taken (_ # l) = taken l"

fun ttold :: "tcp_effect list \<Rightarrow> tcp_state list" where
  "ttold [] = []"
| "ttold (TConnCb s # l) = s # ttold l"
| "ttold (_ # l) = ttold l"

lemma taken_append [simp]: "taken (l @ l') = taken l @ taken l'"
  by (induction l rule: taken.induct) auto

lemma ttold_append [simp]: "ttold (l @ l') = ttold l @ ttold l'"
  by (induction l rule: ttold.induct) auto

definition out_ok :: "tcp_conn \<Rightarrow> bool" where
  "out_ok c \<longleftrightarrow> buffer_inv (t_out c) \<and> mask_ok (events (t_chan c)) \<and>
     taken (tlog c) = wire c @ content (t_out c) \<and>
     (t_state c \<noteq> kDisconnected \<longrightarrow> isWriting (t_chan c) = (content (t_out c) \<noteq> [])) \<and>
     (write_shut c \<longrightarrow> t_state c = kDisconnected \<or> t_state c = kDisconnecting \<and> content (t_out c) = []) \<and>
     sorted (map trank (ttold (tlog c))) \<and> (\<forall>s \<in> set (ttold (tlog c)). trank s \<le> trank (t_state c))"

definition out_rel :: "tcp_conn \<Rightarrow> tcp_conn \<Rightarrow> bool" where
  "out_rel c c' \<longleftrightarrow> (out_ok c \<longrightarrow> out_ok c') \<and> trank (t_state c) \<le> trank (t_state c') \<and>
     (\<exists>l. tlog c' = tlog c @ l \<and> TClose \<notin> set l) \<and> t_id c' = t_id c \<and> t_name c' = t_name c"

lemma out_rel_trans: "out_rel x y \<Longrightarrow> out_rel y z \<Longrightarrow> out_rel x z"
  by (auto simp: out_rel_def)

lemma readable_empty: "buffer_inv b \<Longrightarrow> readableBytes b = 0 \<longleftrightarrow> content b = []"
  by (metis length_0_conv length_content)

text \<open>The direct write takes a prefix of the message, and nothing of one that faults.\<close>

lemma try_write_ok:
  assumes "try_write E d c = (n, r, fault, c1)"
  shows "r = length d - n" and "n \<le> length d" and "fault \<Longrightarrow> n = 0" and "wire c1 = wire c @ take n d"
    and "0 < n \<Longrightarrow> \<not> isWriting (t_chan c) \<and> readableBytes (t_out c) = 0 \<and> \<not> write_shut c"
    and "write_shut c \<Longrightarrow> \<not> isWriting (t_chan c) \<Longrightarrow> readableBytes (t_out c) = 0 \<Longrightarrow> fault"
    and "tlog c1 = tlog c \<or> tlog c1 = tlog c @ [TQueueWriteComplete]"
    and "t_out c1 = t_out c" "t_chan c1 = t_chan c" "t_state c1 = t_state c" "write_shut c1 = write_shut c"
     "t_in c1 = t_in c" "t_id c1 = t_id c" "t_name c1 = t_name c"
  using assms
  by (auto simp: try_write_def sockets_write_def EPIPE_def EWOULDBLOCK_def ECONNRESET_def min_def
      split: if_splits list.splits sum.splits)

lemmas try_write_frame = try_write_ok(8-14)

definition silent_log :: "tcp_effect list \<Rightarrow> bool" where
  "silent_log l \<longleftrightarrow> taken l = [] \<and> ttold l = [] \<and> TClose \<notin> set l \<and> (\<forall>t d a. TMsgCb t d a \<notin> set l)"

lemma silent_logI [simp]: "silent_log []" "silent_log [TUpdate ev]" "silent_log [TQueueHighWater n]" "silent_log [TQueueWriteComplete]"
  "silent_log [TDropped d]" "silent_log [TQueueForceClose]" "silent_log [TShutdownWrite]" "silent_log [TRemove]"
  "silent_log [TQueueHighWater n, TUpdate ev]"
  by (simp_all add: silent_log_def)

lemma queue_output_frame:
  assumes "queue_output E d c = Inr c'"
  shows "wire c' = wire c \<and> t_chan c' = (if isWriting (t_chan c) then t_chan c else enableWriting (t_chan c)) \<and>
     t_state c' = t_state c \<and> write_shut c' = write_shut c \<and> t_in c' = t_in c \<and> t_id c' = t_id c \<and> t_name c' = t_name c \<and>
     (\<exists>l. tlog c' = tlog c @ l \<and> silent_log l)"
  using assms by (cases "isWriting (t_chan c)") (auto simp: queue_output_def Let_def rbind_eq_Inr_iff split: if_splits)

lemma queue_output_content:
  assumes "queue_output E d c = Inr c'" "buffer_inv (t_out c)"
  shows "buffer_inv (t_out c') \<and> content (t_out c') = content (t_out c) @ d"
  using assms append_ok [OF assms(2), of d]
  by (auto simp: queue_output_def Let_def rbind_eq_Inr_iff rspec_iff split: if_splits)

lemma sendInLoop_cases:
  assumes "t_state c \<noteq> kDisconnected" "try_write E d c = (n, r, f, c1)"
  shows "TcpConnection_sendInLoop E d c =
     (let c2 = temit (if f then TDropped d else TTaken d) c1
      in if \<not> f \<and> 0 < r then queue_output E (take r (drop n d)) c2 else Inr c2)"
  using assms try_write_ok(1) [OF assms(2)] by (simp add: TcpConnection_sendInLoop_def Let_def)

lemma sendInLoop_frame:
  assumes "TcpConnection_sendInLoop E d c = Inr c'"
  shows "t_state c' = t_state c \<and> write_shut c' = write_shut c \<and> t_in c' = t_in c \<and> t_id c' = t_id c \<and> t_name c' = t_name c \<and>
     (\<exists>l. tlog c' = tlog c @ l \<and> ttold l = [] \<and> TClose \<notin> set l \<and> (\<forall>t d a. TMsgCb t d a \<notin> set l))"
proof (cases "t_state c = kDisconnected")
  case True
  then show ?thesis using assms by (simp add: TcpConnection_sendInLoop_def)
next
  case False
  obtain n r f c1 where w: "try_write E d c = (n, r, f, c1)" by (metis prod_cases4)
  define e where "e = (if f then TDropped d else TTaken d)"
  have "c' = temit e c1 \<or> queue_output E (take r (drop n d)) (temit e c1) = Inr c'"
    using assms by (simp add: sendInLoop_cases [OF False w] Let_def e_def split: if_splits)
  then obtain l where l: "tlog c' = (tlog c1 @ [e]) @ l" "silent_log l"
    "t_state c' = t_state c1 \<and> write_shut c' = write_shut c1 \<and> t_in c' = t_in c1 \<and> t_id c' = t_id c1 \<and> t_name c' = t_name c1"
    using queue_output_frame [of E "take r (drop n d)" "temit e c1" c'] by fastforce
  then show ?thesis using try_write_frame [OF w] try_write_ok(7) [OF w] by (cases f) (auto simp: e_def silent_log_def)
qed

lemma sendInLoop_out_ok:
  assumes "TcpConnection_sendInLoop E d c = Inr c'" "out_ok c"
  shows "out_ok c'"
proof (cases "t_state c = kDisconnected")
  case True
  then show ?thesis using assms by (simp add: TcpConnection_sendInLoop_def)
next
  case False
  obtain n r f c1 where w: "try_write E d c = (n, r, f, c1)" by (metis prod_cases4)
  note tw = try_write_ok [OF w] and fr = try_write_frame [OF w]
  let ?c2 = "temit (if f then TDropped d else TTaken d) c1"
  have inv: "buffer_inv (t_out c)" and m: "mask_ok (events (t_chan c))" and wr: "isWriting (t_chan c) \<longleftrightarrow> content (t_out c) \<noteq> []"
    using assms(2) False by (auto simp: out_ok_def)
  have empty: "content (t_out c) = []" if "0 < n" using tw(5) [OF that] readable_empty [OF inv] by simp
  have told: "ttold (tlog c1) = ttold (tlog c)" and tk: "taken (tlog c1) = taken (tlog c)" using tw(7) by auto
  consider "f" "c' = ?c2" | "\<not> f" "r = 0" "c' = ?c2" | "\<not> f" "0 < r" "queue_output E (take r (drop n d)) ?c2 = Inr c'"
    using assms(1) by (cases f; cases "0 < r") (simp_all add: sendInLoop_cases [OF False w] Let_def)
  then show ?thesis
  proof cases
    case 1
    then have "wire c1 = wire c" using tw(3,4) by simp
    then show ?thesis using 1 assms(2) fr told tk by (simp add: out_ok_def)
  next
    case 2
    then have "take n d = d" "d \<noteq> [] \<Longrightarrow> 0 < n" using tw(1,2) by auto
    then have "wire c1 @ content (t_out c) = wire c @ content (t_out c) @ d" using tw(4) empty by (cases "d = []") auto
    then show ?thesis using 2 assms(2) fr told tk by (simp add: out_ok_def)
  next
    case 3
    note q = queue_output_frame [OF 3(3)] queue_output_content [OF 3(3)]
    have c': "buffer_inv (t_out c')" "content (t_out c') = content (t_out c) @ take r (drop n d)" using q(2) inv fr(1) by auto
    have ne: "content (t_out c') \<noteq> []" using c'(2) 3(2) tw(1) by auto
    have "\<not> write_shut c" using assms(2) tw(6) 3(1) False readable_empty [OF inv] wr by (auto simp: out_ok_def)
    moreover have "isWriting (t_chan c')" "mask_ok (events (t_chan c'))" using q(1) fr(2) mask_bits(6) [OF m] m by auto
    moreover have "wire c' @ content (t_out c') = wire c @ content (t_out c) @ d"
      using q(1) tw(1,4) c'(2) empty by (cases "n = 0") auto
    moreover have "taken (tlog c') = taken (tlog c) @ d" "ttold (tlog c') = ttold (tlog c)"
      using q(1) 3(1) told tk by (auto simp: silent_log_def)
    moreover have "t_state c' = t_state c" "write_shut c' = write_shut c" using q(1) fr by simp_all
    ultimately show ?thesis using assms(2) c'(1) ne by (simp add: out_ok_def)
  qed
qed

lemma sendInLoop_out: "TcpConnection_sendInLoop E d c = Inr c' \<Longrightarrow> out_rel c c'"
  using sendInLoop_frame [of E d c c'] sendInLoop_out_ok [of E d c c'] by (auto simp: out_rel_def)

lemma shutdownInLoop_out:
  assumes "out_ok c" "t_state c = kDisconnecting \<or> t_state c = kDisconnected"
  shows "out_ok (TcpConnection_shutdownInLoop c)"
  using assms by (auto simp: out_ok_def TcpConnection_shutdownInLoop_def)

interpretation outp: tcp_relation out_rel
proof
  fix c :: tcp_conn
  show "out_rel c c" by (simp add: out_rel_def)
  have "out_ok (c\<lparr>t_state := kDisconnecting\<rparr>)" if "out_ok c" "t_state c = kConnected"
    using that by (fastforce simp: out_ok_def)
  then show "out_rel c (TcpConnection_shutdown c)"
    using shutdownInLoop_out [of "c\<lparr>t_state := kDisconnecting\<rparr>"]
    by (auto simp: out_rel_def TcpConnection_shutdown_def TcpConnection_shutdownInLoop_def)
next
  fix c :: tcp_conn
  show "out_rel c (TcpConnection_forceClose c)"
    by (fastforce simp: out_rel_def TcpConnection_forceClose_def out_ok_def)
next
  fix c :: tcp_conn
  show "out_rel c (TcpConnection_startReadInLoop c)" "out_rel c (TcpConnection_stopReadInLoop c)"
    by (auto simp: out_rel_def TcpConnection_startReadInLoop_def TcpConnection_stopReadInLoop_def out_ok_def mask_bits)
next
  fix c :: tcp_conn
  show "out_rel c (temit (TConnCb (t_state c)) c)"
    by (auto simp: out_rel_def out_ok_def sorted_append)
next
  fix c :: tcp_conn assume "t_state c = kConnecting"
  then show "out_rel c (on_tchan enableReading (c\<lparr>t_state := kConnected, t_chan := Channel_tie (t_chan c)\<rparr>))"
    by (auto simp: out_rel_def out_ok_def mask_bits Channel_tie_def isWriting_def [of "_\<lparr>tied := _\<rparr>"] isWriting_def [of "t_chan c"])
next
  fix c :: tcp_conn
  show "out_rel c (on_tchan disableAll (c\<lparr>t_state := kDisconnected\<rparr>))"
    by (auto simp: out_rel_def out_ok_def)
next
  fix c :: tcp_conn and ch assume "Channel_remove (t_chan c) = Inr ch"
  then have "events ch = events (t_chan c)" "isWriting ch = isWriting (t_chan c)"
    by (auto simp: Channel_remove_def rbind_eq_Inr_iff isWriting_def)
  then show "out_rel c (temit TRemove (c\<lparr>t_chan := ch\<rparr>))" by (auto simp: out_rel_def out_ok_def)
qed (auto intro: out_rel_trans sendInLoop_out)

lemma sockets_write_ok:
  assumes "sockets_write d c = (res, c1)"
  shows "t_out c1 = t_out c" "t_chan c1 = t_chan c" "t_state c1 = t_state c" "write_shut c1 = write_shut c"
    "t_in c1 = t_in c" "t_id c1 = t_id c" "t_name c1 = t_name c" "tlog c1 = tlog c"
    and "res = Inl e \<Longrightarrow> wire c1 = wire c"
    and "res = Inr n \<Longrightarrow> n \<le> length d \<and> wire c1 = wire c @ take n d \<and> \<not> write_shut c"
  using assms by (auto simp: sockets_write_def min_def split: if_splits list.splits sum.splits)

lemma span_out: "buffer_inv b \<Longrightarrow> span b (peek b) (beginWrite b) = content b"
  by (simp add: content_def peek_def beginWrite_def)

text \<open>What \<open>handleWrite\<close> does with a watched socket, whatever \<open>write\<close> returns.\<close>

lemma handleWrite_cases:
  assumes "isWriting (t_chan c)" "buffer_inv (t_out c)" "sockets_write (content (t_out c)) c = (res, c1)"
  shows "(\<forall>n. res = Inr n \<longrightarrow> n = 0) \<and> TcpConnection_handleWrite E c = Inr c1 \<or>
     (\<exists>n ob. res = Inr n \<and> 0 < n \<and> n \<le> readableBytes (t_out c) \<and> buffer_inv ob \<and> content ob = drop n (content (t_out c)) \<and>
        TcpConnection_handleWrite E c = Inr
          (let c2 = c1\<lparr>t_out := ob\<rparr>; c3 = on_tchan disableWriting c2;
               c4 = (if t_writeCompleteCallback E then temit TQueueWriteComplete c3 else c3)
           in if content ob = [] then (if t_state c4 = kDisconnecting then TcpConnection_shutdownInLoop c4 else c4) else c2))"
proof (cases "\<exists>n. res = Inr n \<and> 0 < n")
  case True
  then obtain n where n: "res = Inr n" "0 < n" by blast
  with sockets_write_ok(10) [OF assms(3)] assms(2) have le: "n \<le> readableBytes (t_out c)" by simp
  obtain ob where ob: "Buffer_retrieve n (t_out c) = Inr ob" "buffer_inv ob" "content ob = drop n (content (t_out c))"
    using retrieve_ok [OF assms(2), of n] le assms(2) by (auto simp: rspec_iff)
  have "TcpConnection_handleWrite E c = Inr
      (let c2 = c1\<lparr>t_out := ob\<rparr>; c3 = on_tchan disableWriting c2;
           c4 = (if t_writeCompleteCallback E then temit TQueueWriteComplete c3 else c3)
       in if content ob = [] then (if t_state c4 = kDisconnecting then TcpConnection_shutdownInLoop c4 else c4) else c2)"
    using assms n ob(1) sockets_write_ok(1) [OF assms(3)] readable_empty [OF ob(2)]
    by (simp add: TcpConnection_handleWrite_def span_out Let_def)
  then show ?thesis using n le ob(2,3) by blast
next
  case False
  then show ?thesis using assms by (auto simp: TcpConnection_handleWrite_def span_out split: sum.split)
qed

lemma handleWrite_out:
  assumes "TcpConnection_handleWrite E c = Inr c'" "out_ok c"
  shows "out_rel c c'"
proof (cases "isWriting (t_chan c)")
  case True
  have inv: "buffer_inv (t_out c)" and m: "mask_ok (events (t_chan c))" using assms(2) by (auto simp: out_ok_def)
  obtain res c1 where w: "sockets_write (content (t_out c)) c = (res, c1)" by (metis prod.exhaust)
  note sw = sockets_write_ok [OF w]
  from handleWrite_cases [OF True inv w, of E] show ?thesis
  proof (elim disjE conjE exE)
    assume "\<forall>n. res = Inr n \<longrightarrow> n = 0" "TcpConnection_handleWrite E c = Inr c1"
    moreover have "wire c1 = wire c" using sw(9) sw(10) [of 0] calculation(1) by (cases res) auto
    ultimately show ?thesis using assms sw by (auto simp: out_rel_def out_ok_def)
  next
    fix n ob
    let ?c2 = "c1\<lparr>t_out := ob\<rparr>"
    let ?c4 = "if t_writeCompleteCallback E then temit TQueueWriteComplete (on_tchan disableWriting ?c2) else on_tchan disableWriting ?c2"
    assume n: "res = Inr n" "0 < n" "n \<le> readableBytes (t_out c)" and ob: "buffer_inv ob" "content ob = drop n (content (t_out c))"
      and run: "TcpConnection_handleWrite E c = Inr
          (let c2 = c1\<lparr>t_out := ob\<rparr>; c3 = on_tchan disableWriting c2;
               c4 = (if t_writeCompleteCallback E then temit TQueueWriteComplete c3 else c3)
           in if content ob = [] then (if t_state c4 = kDisconnecting then TcpConnection_shutdownInLoop c4 else c4) else c2)"
    have wire: "wire c1 @ content ob = wire c @ content (t_out c)" and ns: "\<not> write_shut c"
      using sw(10) [OF n(1)] ob(2) by simp_all
    show ?thesis
    proof (cases "content ob = []")
      case True
      then have "out_ok ?c4" using assms(2) sw wire ns ob(1) m mask_bits(8) [OF m] by (auto simp: out_ok_def)
      then have "out_rel c (if t_state ?c4 = kDisconnecting then TcpConnection_shutdownInLoop ?c4 else ?c4)"
        using sw shutdownInLoop_out [of ?c4] by (auto simp: out_rel_def TcpConnection_shutdownInLoop_def)
      then show ?thesis using run assms(1) True by (simp add: Let_def)
    next
      case False
      then have "content (t_out c) \<noteq> []" using ob(2) by auto
      then show ?thesis using False run assms sw wire ns ob(1) by (auto simp: out_rel_def out_ok_def Let_def)
    qed
  qed
qed (use assms in \<open>simp add: TcpConnection_handleWrite_def out_rel_def\<close>)

section \<open>Life of a connection\<close>

text \<open>What the loop thread does with a connection; the kernel returns at most what \<open>readFd\<close> offers room for.\<close>

inductive tcp_step :: "tcp_env \<Rightarrow> tcp_conn \<Rightarrow> tcp_conn \<Rightarrow> bool" for E :: tcp_env where
  ts_os: "tcp_step E c (c\<lparr>os_writes := ws\<rparr>)"
| ts_mark: "tcp_step E c (TcpConnection_setHighWaterMark n c)"
| ts_established: "TcpConnection_connectEstablished E c = Inr c' \<Longrightarrow> tcp_step E c c'"
| ts_read: "length (kread_data r) \<le> readFd_offer (t_in c) \<Longrightarrow> TcpConnection_handleRead E r t c = Inr c' \<Longrightarrow> tcp_step E c c'"
| ts_write: "TcpConnection_handleWrite E c = Inr c' \<Longrightarrow> tcp_step E c c'"
| ts_close: "TcpConnection_handleClose E c = Inr c' \<Longrightarrow> tcp_step E c c'"
| ts_user: "tcp_call E a c = Inr c' \<Longrightarrow> tcp_step E c c'"
| ts_send: "TcpConnection_sendInLoop E d c = Inr c' \<Longrightarrow> tcp_step E c c'"
| ts_shutdown: "t_state c = kDisconnecting \<or> t_state c = kDisconnected \<Longrightarrow> tcp_step E c (TcpConnection_shutdownInLoop c)"
| ts_delay: "tcp_step E c (TcpConnection_forceCloseWithDelay s c)"
| ts_force: "TcpConnection_forceCloseInLoop E c = Inr c' \<Longrightarrow> tcp_step E c c'"
| ts_destroyed: "TcpConnection_connectDestroyed E c = Inr c' \<Longrightarrow> tcp_step E c c'"

definition tcp_init :: "tcp_conn \<Rightarrow> bool" where
  "tcp_init c \<longleftrightarrow> (\<exists>nm f obj. c = TcpConnection_ctor nm f obj)"

definition tcp_ok :: "tcp_conn \<Rightarrow> bool" where
  "tcp_ok c \<longleftrightarrow> out_ok c \<and> count_list (tlog c) TClose \<le> 1 \<and> (TClose \<in> set (tlog c) \<longrightarrow> t_state c = kDisconnected)"

lemma out_rel_tcp_ok: "out_rel c c' \<Longrightarrow> tcp_ok c \<Longrightarrow> tcp_ok c'"
  by (auto simp: out_rel_def tcp_ok_def count_notin)

lemma handleClose_tcp_ok:
  assumes "TcpConnection_handleClose E c = Inr c'" "tcp_ok c"
  shows "tcp_ok c'"
proof -
  obtain c1 where c1: "out_rel c c1" "c' = temit TClose c1" "t_state c = kConnected \<or> t_state c = kDisconnecting"
    "tcp_connCb E (on_tchan disableAll (c\<lparr>t_state := kDisconnected\<rparr>)) = Inr c1"
    using outp.handleClose_R [OF assms(1)] by blast
  then have "TClose \<notin> set (tlog c)" using assms(2) by (auto simp: tcp_ok_def)
  moreover have "t_state c1 = kDisconnected" using outp.connCb_R [OF c1(4)] by (simp add: out_rel_def)
  ultimately show ?thesis using out_rel_tcp_ok [OF c1(1) assms(2)] c1(1,2) by (auto simp: out_rel_def tcp_ok_def out_ok_def count_notin)
qed

lemma tcp_ok_input: "tcp_ok c \<Longrightarrow> tcp_ok (c\<lparr>t_in := ib\<rparr>)"
  by (simp add: tcp_ok_def out_ok_def)

lemma handleRead_tcp_ok:
  assumes "TcpConnection_handleRead E r t c = Inr c'" "tcp_ok c"
  shows "tcp_ok c'"
proof -
  obtain n e ib where rd: "Buffer_readFd r (t_in c) = Inr (n, e, ib)" using assms(1)
    by (auto simp: TcpConnection_handleRead_def rbind_eq_Inr_iff)
  have ok: "tcp_ok (c\<lparr>t_in := ib\<rparr>)" by (rule tcp_ok_input [OF assms(2)])
  have msg: "tcp_ok (temit (TMsgCb t d apps) (c\<lparr>t_in := ib'\<rparr>))" for d apps ib'
    using tcp_ok_input [OF assms(2)] by (simp add: tcp_ok_def out_ok_def)
  show ?thesis
    using assms(1) rd ok msg
    by (auto simp: TcpConnection_handleRead_def TcpConnection_handleError_def rbind_eq_Inr_iff Let_def split: if_splits
        intro: handleClose_tcp_ok out_rel_tcp_ok [OF outp.calls_R])
qed

lemma tcp_step_ok: "tcp_step E c c' \<Longrightarrow> tcp_ok c \<Longrightarrow> tcp_ok c'"
proof (induction rule: tcp_step.induct)
  case (ts_shutdown c)
  then show ?case using shutdownInLoop_out [of c] by (auto simp: tcp_ok_def TcpConnection_shutdownInLoop_def)
next
  case (ts_delay c s)
  have "out_rel c (TcpConnection_forceCloseWithDelay s c)"
    by (fastforce simp: out_rel_def TcpConnection_forceCloseWithDelay_def out_ok_def)
  then show ?case using ts_delay out_rel_tcp_ok by blast
next
  case (ts_force c c')
  then show ?case by (auto simp: TcpConnection_forceCloseInLoop_def split: if_splits intro: handleClose_tcp_ok)
next
  case (ts_write c c')
  then have "out_ok c" by (simp add: tcp_ok_def)
  then show ?case using ts_write by (blast intro: out_rel_tcp_ok [OF handleWrite_out])
next
  case (ts_os c ws)
  then show ?case by (simp add: tcp_ok_def out_ok_def)
next
  case (ts_mark c n)
  then show ?case by (simp add: tcp_ok_def out_ok_def TcpConnection_setHighWaterMark_def)
qed (auto intro: handleRead_tcp_ok handleClose_tcp_ok out_rel_tcp_ok [OF outp.connectEstablished_R] out_rel_tcp_ok [OF outp.call_R]
        out_rel_tcp_ok [OF outp.sends] out_rel_tcp_ok [OF outp.connectDestroyed_R])

text \<open>A step keeps the identity of the connection and only adds to its log.\<close>

definition same_conn :: "tcp_conn \<Rightarrow> tcp_conn \<Rightarrow> bool" where
  "same_conn c c' \<longleftrightarrow> t_name c' = t_name c \<and> t_id c' = t_id c \<and> (\<exists>l. tlog c' = tlog c @ l)"

lemma same_conn_refl [simp]: "same_conn c c"
  by (simp add: same_conn_def)

lemma out_rel_same: "out_rel c c' \<Longrightarrow> same_conn c c'"
  by (auto simp: out_rel_def same_conn_def)

lemma handleClose_same: "TcpConnection_handleClose E c = Inr c' \<Longrightarrow> same_conn c c'"
  using outp.handleClose_R [of E c c'] by (auto simp: out_rel_def same_conn_def)

lemma handleRead_same:
  assumes "TcpConnection_handleRead E r t c = Inr c'"
  shows "same_conn c c'"
proof -
  have "same_conn c c'" if "rfold (tcp_call E) acts (temit (TMsgCb t d apps) (c\<lparr>t_in := ib\<rparr>)) = Inr c'" for acts d apps ib
    using outp.calls_R [OF that] by (auto simp: out_rel_def same_conn_def)
  moreover have "same_conn c c'" if "TcpConnection_handleClose E (c\<lparr>t_in := ib\<rparr>) = Inr c'" for ib
    using handleClose_same [OF that] by (auto simp: same_conn_def)
  ultimately show ?thesis
    using assms by (auto simp: TcpConnection_handleRead_def TcpConnection_handleError_def rbind_eq_Inr_iff Let_def same_conn_def split: if_splits)
qed

lemma pure_same:
  "same_conn c (c\<lparr>os_writes := ws\<rparr>)" "same_conn c (TcpConnection_setHighWaterMark n c)"
  "same_conn c (TcpConnection_shutdownInLoop c)" "same_conn c (TcpConnection_forceCloseWithDelay s c)"
  by (auto simp: same_conn_def TcpConnection_setHighWaterMark_def TcpConnection_shutdownInLoop_def
      TcpConnection_forceCloseWithDelay_def)

lemma tcp_step_same: "tcp_step E c c' \<Longrightarrow> tcp_ok c \<Longrightarrow> same_conn c c'"
proof (induction rule: tcp_step.induct)
  case (ts_force c c')
  then show ?case by (auto simp: TcpConnection_forceCloseInLoop_def split: if_splits intro: handleClose_same)
next
  case (ts_write c c')
  then have "out_ok c" by (simp add: tcp_ok_def)
  then show ?case using ts_write by (blast intro: out_rel_same handleWrite_out)
qed (auto intro: pure_same handleRead_same handleClose_same out_rel_same [OF outp.connectEstablished_R] out_rel_same [OF outp.call_R]
       out_rel_same [OF outp.sends] out_rel_same [OF outp.connectDestroyed_R])

interpretation tcp_run: inductive_invariant tcp_init "tcp_step E" tcp_ok for E
proof
  show "tcp_init c \<Longrightarrow> tcp_ok c" for c
    by (auto simp: tcp_init_def TcpConnection_ctor_def tcp_ok_def out_ok_def Channel_ctor_def mask_ok_def isWriting_def)
qed (rule tcp_step_ok)

section \<open>Input\<close>

text \<open>What the connection has read, and what its message callback has handed to the application.\<close>

fun tchunks :: "tcp_effect list \<Rightarrow> bytes" where
  "tchunks [] = []"
| "tchunks (TMsgCb t d apps # l) = d @ tchunks l"
| "tchunks (_ # l) = tchunks l"

fun tapps :: "tcp_effect list \<Rightarrow> bytes list" where
  "tapps [] = []"
| "tapps (TMsgCb t d apps # l) = apps @ tapps l"
| "tapps (_ # l) = tapps l"

lemma tchunks_append [simp]: "tchunks (l @ l') = tchunks l @ tchunks l'"
  by (induction l rule: tchunks.induct) auto

lemma tapps_append [simp]: "tapps (l @ l') = tapps l @ tapps l'"
  by (induction l rule: tapps.induct) auto

lemma no_messages: "\<forall>t d a. TMsgCb t d a \<notin> set l \<Longrightarrow> tchunks l = [] \<and> tapps l = []"
  by (induction l rule: tchunks.induct) auto

text \<open>The codec as the connection's message callback, as the chat programs install it.\<close>

definition tcp_codec_callback :: "int \<Rightarrow> tcp_conn \<Rightarrow> (tcp_act list \<times> bytes list \<times> buffer) result" where
  "tcp_codec_callback receiveTime c =
     rbind (TcpLengthHeaderCodec_onMessage (\<lambda>m (acts, ms). (acts, ms @ [m])) (\<lambda>(acts, ms). (acts @ [TShutdown], ms))
       (t_in c) ([], [])) (\<lambda>(buf, acts, ms). Inr (acts, ms, buf))"

definition in_ok :: "tcp_conn \<Rightarrow> bool" where
  "in_ok c \<longleftrightarrow> buffer_inv (t_in c) \<and>
     (case deframe (tchunks (tlog c)) of (ms, bad, rest) \<Rightarrow> \<not> bad \<longrightarrow> tapps (tlog c) = ms \<and> content (t_in c) = rest)"

definition in_rel :: "tcp_conn \<Rightarrow> tcp_conn \<Rightarrow> bool" where
  "in_rel c c' \<longleftrightarrow> t_in c' = t_in c \<and> tchunks (tlog c') = tchunks (tlog c) \<and> tapps (tlog c') = tapps (tlog c)"

lemma in_rel_ok: "in_rel c c' \<Longrightarrow> in_ok c \<Longrightarrow> in_ok c'"
  by (simp add: in_rel_def in_ok_def)

lemma sendInLoop_in: "TcpConnection_sendInLoop E d c = Inr c' \<Longrightarrow> in_rel c c'"
  using sendInLoop_frame [of E d c c'] no_messages by (auto simp: in_rel_def)

interpretation inpt: tcp_relation in_rel
  by unfold_locales
     (auto simp: in_rel_def TcpConnection_shutdown_def TcpConnection_shutdownInLoop_def TcpConnection_forceClose_def
       TcpConnection_startReadInLoop_def TcpConnection_stopReadInLoop_def dest: sendInLoop_in)

lemma handleClose_in: "TcpConnection_handleClose E c = Inr c' \<Longrightarrow> in_rel c c'"
  using inpt.handleClose_R [of E c c'] by (auto simp: in_rel_def)

lemma handleWrite_in:
  assumes "TcpConnection_handleWrite E c = Inr c'"
  shows "in_rel c c'"
proof -
  obtain res c1 where w: "sockets_write (span (t_out c) (peek (t_out c)) (beginWrite (t_out c))) c = (res, c1)"
    by (metis prod.exhaust)
  note sw = sockets_write_ok(5,8) [OF w]
  show ?thesis
    using assms w sw
    by (cases res)
       (auto simp: TcpConnection_handleWrite_def in_rel_def rbind_eq_Inr_iff Let_def TcpConnection_shutdownInLoop_def split: if_splits)
qed

lemma handleRead_in:
  assumes "t_messageCallback E = tcp_codec_callback" "in_ok c" "length (kread_data r) \<le> readFd_offer (t_in c)"
    and "TcpConnection_handleRead E r t c = Inr c'"
  shows "in_ok c'"
proof (cases r)
  case (ReadErr e)
  then show ?thesis
    using assms by (simp add: TcpConnection_handleRead_def Buffer_readFd_def TcpConnection_handleError_def Let_def)
next
  case (ReadOk d)
  have inv: "buffer_inv (t_in c)" using assms(2) by (simp add: in_ok_def)
  obtain e ib where rd: "Buffer_readFd r (t_in c) = Inr (int (length d), e, ib)"
    and ib: "buffer_inv ib" "content ib = content (t_in c) @ d"
    using readFd_ok [OF inv, of d] assms(3) ReadOk by (auto simp: rspec_iff kread_data_def)
  show ?thesis
  proof (cases "d = []")
    case True
    then have "TcpConnection_handleClose E (c\<lparr>t_in := ib\<rparr>) = Inr c'"
      using assms(4) rd by (simp add: TcpConnection_handleRead_def Let_def)
    moreover have "in_ok (c\<lparr>t_in := ib\<rparr>)" using assms(2) ib True by (simp add: in_ok_def)
    ultimately show ?thesis using handleClose_in in_rel_ok by blast
  next
    case False
    obtain acts apps ib' where cb: "tcp_codec_callback t (c\<lparr>t_in := ib\<rparr>) = Inr (acts, apps, ib')"
      and acts: "rfold (tcp_call E) acts (temit (TMsgCb t d apps) (c\<lparr>t_in := ib'\<rparr>)) = Inr c'"
      using assms(1,4) rd False ReadOk by (auto simp: TcpConnection_handleRead_def Let_def rbind_eq_Inr_iff kread_data_def)
    have msg: "TcpLengthHeaderCodec_onMessage (\<lambda>m (acts, ms). (acts, ms @ [m])) (\<lambda>(acts, ms). (acts @ [TShutdown], ms))
        ib ([], []) = Inr (ib', acts, apps)" using cb by (auto simp: tcp_codec_callback_def rbind_eq_Inr_iff)
    obtain ms bad rest where B: "deframe (tchunks (tlog c)) = (ms, bad, rest)" by (metis prod_cases3)
    have inv': "buffer_inv ib'" by (rule tcp_codec.msg_inv [OF ib(1) msg])
    have "in_ok (temit (TMsgCb t d apps) (c\<lparr>t_in := ib'\<rparr>))"
    proof (cases bad)
      case True
      then show ?thesis using deframe_bad_append [of _ ms rest d] B inv' by (simp add: in_ok_def)
    next
      case False
      then have "tapps (tlog c) = ms" "content (t_in c) = rest" using assms(2) B by (auto simp: in_ok_def)
      then show ?thesis
        using tcp_codec.msg_stream [OF ib(1) _ _ msg, of rest d "tchunks (tlog c)" ms] B False ib(2) inv' by (auto simp: in_ok_def)
    qed
    then show ?thesis by (rule in_rel_ok [OF inpt.calls_R [OF acts]])
  qed
qed

lemma pure_in:
  "in_rel c (c\<lparr>os_writes := ws\<rparr>)" "in_rel c (TcpConnection_setHighWaterMark n c)"
  "in_rel c (TcpConnection_shutdownInLoop c)" "in_rel c (TcpConnection_forceCloseWithDelay s c)"
  by (auto simp: in_rel_def TcpConnection_setHighWaterMark_def TcpConnection_shutdownInLoop_def
      TcpConnection_forceCloseWithDelay_def)

lemma tcp_step_in:
  "tcp_step E c c' \<Longrightarrow> t_messageCallback E = tcp_codec_callback \<Longrightarrow> in_ok c \<Longrightarrow> in_ok c'"
proof (induction rule: tcp_step.induct)
  case (ts_read r c t c')
  then show ?case by (rule handleRead_in [rotated 2])
next
  case (ts_force c c')
  then show ?case by (auto simp: TcpConnection_forceCloseInLoop_def split: if_splits intro: in_rel_ok [OF handleClose_in])
qed (blast intro: pure_in in_rel_ok handleClose_in handleWrite_in inpt.connectEstablished_R inpt.call_R
      inpt.sends inpt.connectDestroyed_R)+

lemma reached_in:
  assumes "reaches tcp_init (tcp_step E) c" "t_messageCallback E = tcp_codec_callback"
  shows "in_ok c"
proof -
  have "deframe [] = ([], False, [])" by (simp add: deframe.simps)
  then have "in_ok c" if "tcp_init c" for c using that by (auto simp: tcp_init_def TcpConnection_ctor_def in_ok_def)
  then have "inductive_invariant tcp_init (tcp_step E) in_ok"
    by unfold_locales (blast intro: tcp_step_in [OF _ assms(2)])+
  then show ?thesis using assms(1) by (rule inductive_invariant.inv_reaches)
qed

section \<open>Operations that cannot fail\<close>

lemma sendInLoop_total:
  assumes "out_ok c"
  shows "rspec (TcpConnection_sendInLoop E d c) out_ok"
proof (cases "t_state c = kDisconnected")
  case True
  then show ?thesis using assms by (simp add: TcpConnection_sendInLoop_def)
next
  case False
  obtain n r f c1 where w: "try_write E d c = (n, r, f, c1)" by (metis prod_cases4)
  have "buffer_inv (t_out c1)" using assms try_write_frame(1) [OF w] by (simp add: out_ok_def)
  then have "\<exists>c'. queue_output E (take r (drop n d)) (temit e c1) = Inr c'" for e
    using append_ok [of "t_out c1" "take r (drop n d)"] by (auto simp: queue_output_def Let_def rspec_iff)
  then have "\<exists>c'. TcpConnection_sendInLoop E d c = Inr c'" by (simp add: sendInLoop_cases [OF False w] Let_def)
  then show ?thesis using sendInLoop_out_ok assms by (auto simp: rspec_iff)
qed

lemma call_total: "out_ok c \<Longrightarrow> rspec (tcp_call E a c) out_ok"
  using outp.call_R [of E a c] sendInLoop_total [of c E]
  by (cases a) (auto simp: TcpConnection_send_def out_rel_def)

lemma calls_total: "out_ok c \<Longrightarrow> rspec (rfold (tcp_call E) as c) out_ok"
  by (rule rfold_invariant) (auto intro: call_total)

lemma connCb_total: "out_ok c \<Longrightarrow> rspec (tcp_connCb E c) out_ok"
  using outp.tells [of c] by (auto simp: tcp_connCb_def out_rel_def intro: calls_total)

lemma handleClose_total:
  assumes "out_ok c" "t_state c = kConnected \<or> t_state c = kDisconnecting"
  shows "\<exists>c'. TcpConnection_handleClose E c = Inr c'"
proof -
  have "out_ok (on_tchan disableAll (c\<lparr>t_state := kDisconnected\<rparr>))" using outp.goes_down [of c] assms(1) by (simp add: out_rel_def)
  from connCb_total [OF this, of E] show ?thesis using assms(2) by (auto simp: TcpConnection_handleClose_def rspec_iff)
qed

lemma handleWrite_total:
  assumes "out_ok c"
  shows "\<exists>c'. TcpConnection_handleWrite E c = Inr c'"
proof (cases "isWriting (t_chan c)")
  case True
  obtain res c1 where "sockets_write (content (t_out c)) c = (res, c1)" by (metis prod.exhaust)
  then show ?thesis using handleWrite_cases [OF True, of res c1 E] assms by (auto simp: out_ok_def)
qed (simp add: TcpConnection_handleWrite_def)

text \<open>A message callback that leaves the buffer usable, as the default one and the codec do.\<close>

definition well_behaved :: "tcp_env \<Rightarrow> bool" where
  "well_behaved E \<longleftrightarrow> (\<forall>t c. buffer_inv (t_in c) \<longrightarrow> rspec (t_messageCallback E t c) (\<lambda>(acts, apps, ib). buffer_inv ib))"

lemma well_behaved_codec: "t_messageCallback E = tcp_codec_callback \<Longrightarrow> well_behaved E"
proof -
  assume E: "t_messageCallback E = tcp_codec_callback"
  have "rspec (tcp_codec_callback t c) (\<lambda>(acts, apps, ib). buffer_inv ib)" if "buffer_inv (t_in c)" for t c
    using tcp_codec.msg_law [OF that, of _ _ _ "\<lambda>m (acts, ms). (acts, ms @ [m])" "\<lambda>(acts, ms). (acts @ [TShutdown], ms)" "([], [])"]
    by (cases "deframe (content (t_in c))") (auto simp: tcp_codec_callback_def rspec_iff)
  then show ?thesis by (simp add: well_behaved_def E)
qed

lemma well_behaved_default: "t_messageCallback E = defaultMessageCallback \<Longrightarrow> well_behaved E"
  by (simp add: well_behaved_def defaultMessageCallback_def)

lemma readFd_total:
  assumes "buffer_inv b" "length (kread_data r) \<le> readFd_offer b"
  shows "rspec (Buffer_readFd r b) (\<lambda>(n, e, b'). buffer_inv b')"
  using readFd_ok [OF assms(1), of "kread_data r"] assms
  by (cases r) (auto simp: Buffer_readFd_def kread_data_def rspec_iff)

text \<open>\<open>handleRead\<close> in its three cases, for any connection whose buffers are in order.\<close>

lemma handleRead_cases:
  assumes "well_behaved E" "buffer_inv (t_in c)" "length (kread_data r) \<le> readFd_offer (t_in c)"
  obtains ib acts apps where "buffer_inv ib"
      "TcpConnection_handleRead E r t c = rfold (tcp_call E) acts (temit (TMsgCb t (kread_data r) apps) (c\<lparr>t_in := ib\<rparr>))"
  | ib where "buffer_inv ib" "TcpConnection_handleRead E r t c = TcpConnection_handleClose E (c\<lparr>t_in := ib\<rparr>)"
  | ib where "buffer_inv ib" "TcpConnection_handleRead E r t c = Inr (c\<lparr>t_in := ib\<rparr>)"
proof -
  obtain n e ib where rd: "Buffer_readFd r (t_in c) = Inr (n, e, ib)" "buffer_inv ib"
    using readFd_total [OF assms(2,3)] by (auto simp: rspec_iff)
  have "rspec (t_messageCallback E t (c\<lparr>t_in := ib\<rparr>)) (\<lambda>(acts, apps, ib'). buffer_inv ib')"
    using assms(1) rd(2) by (simp add: well_behaved_def)
  then obtain acts apps ib' where cb: "t_messageCallback E t (c\<lparr>t_in := ib\<rparr>) = Inr (acts, apps, ib')" "buffer_inv ib'"
    by (auto simp: rspec_iff)
  show thesis
    using that(1) [OF cb(2)] that(2,3) [OF rd(2)] rd cb
    by (cases "0 < n"; cases "n = 0") (auto simp: TcpConnection_handleRead_def TcpConnection_handleError_def Let_def)
qed

lemma out_ok_message: "out_ok c \<Longrightarrow> out_ok (temit (TMsgCb t d apps) (c\<lparr>t_in := ib\<rparr>))" "out_ok c \<Longrightarrow> out_ok (c\<lparr>t_in := ib\<rparr>)"
  by (simp_all add: out_ok_def)

lemma handleRead_total:
  assumes "well_behaved E" "out_ok c" "buffer_inv (t_in c)" "length (kread_data r) \<le> readFd_offer (t_in c)"
    and "t_state c = kConnected \<or> t_state c = kDisconnecting"
  shows "\<exists>c'. TcpConnection_handleRead E r t c = Inr c'"
proof (rule handleRead_cases [OF assms(1,3,4), of t])
  fix ib acts apps assume "TcpConnection_handleRead E r t c = rfold (tcp_call E) acts (temit (TMsgCb t (kread_data r) apps) (c\<lparr>t_in := ib\<rparr>))"
  then show ?thesis using calls_total [OF out_ok_message(1) [OF assms(2)], of E acts t "kread_data r" apps ib] by (auto simp: rspec_iff)
next
  fix ib assume "TcpConnection_handleRead E r t c = TcpConnection_handleClose E (c\<lparr>t_in := ib\<rparr>)"
  then show ?thesis using handleClose_total [OF out_ok_message(2) [OF assms(2)], of ib E] assms(5) by simp
qed simp

lemma handleRead_buffer:
  assumes "well_behaved E" "buffer_inv (t_in c)" "length (kread_data r) \<le> readFd_offer (t_in c)" "TcpConnection_handleRead E r t c = Inr c'"
  shows "buffer_inv (t_in c')"
proof (rule handleRead_cases [OF assms(1-3), of t])
  fix ib acts apps assume "buffer_inv ib"
    "TcpConnection_handleRead E r t c = rfold (tcp_call E) acts (temit (TMsgCb t (kread_data r) apps) (c\<lparr>t_in := ib\<rparr>))"
  then show ?thesis using inpt.calls_R [of E acts _ c'] assms(4) by (fastforce simp: in_rel_def)
next
  fix ib assume "buffer_inv ib" "TcpConnection_handleRead E r t c = TcpConnection_handleClose E (c\<lparr>t_in := ib\<rparr>)"
  then show ?thesis using handleClose_in [of E "c\<lparr>t_in := ib\<rparr>" c'] assms(4) by (simp add: in_rel_def)
qed (use assms(4) in simp)

lemma tcp_step_buffer: "tcp_step E c c' \<Longrightarrow> well_behaved E \<Longrightarrow> buffer_inv (t_in c) \<Longrightarrow> buffer_inv (t_in c')"
proof (induction rule: tcp_step.induct)
  case (ts_read r c t c')
  then show ?case by (rule handleRead_buffer [rotated 2])
next
  case (ts_force c c')
  then show ?case by (auto simp: TcpConnection_forceCloseInLoop_def in_rel_def split: if_splits dest!: handleClose_in)
qed (use pure_in handleClose_in handleWrite_in inpt.connectEstablished_R inpt.call_R inpt.sends inpt.connectDestroyed_R in
     \<open>fastforce simp: in_rel_def\<close>)+

lemma reached_buffers:
  assumes "reaches tcp_init (tcp_step E) c" "well_behaved E"
  shows "buffer_inv (t_in c)"
proof -
  have "inductive_invariant tcp_init (tcp_step E) (\<lambda>c. buffer_inv (t_in c))"
    by unfold_locales (auto simp: tcp_init_def TcpConnection_ctor_def intro: tcp_step_buffer [OF _ assms(2)])
  then show ?thesis using assms(1) by (rule inductive_invariant.inv_reaches)
qed

section \<open>Flushing\<close>

lemma handleWrite_flush:
  assumes "out_ok c" "t_state c = kDisconnecting" "content (t_out c) \<noteq> []" "\<forall>w \<in> set (os_writes c). \<exists>n. w = Inr (Suc n)"
  shows "\<exists>c'. TcpConnection_handleWrite E c = Inr c' \<and> out_ok c' \<and> t_state c' = kDisconnecting \<and>
     length (content (t_out c')) < length (content (t_out c)) \<and> taken (tlog c') = taken (tlog c) \<and>
     (content (t_out c') = [] \<longrightarrow> write_shut c') \<and> (\<forall>w \<in> set (os_writes c'). \<exists>n. w = Inr (Suc n))"
proof -
  have w: "isWriting (t_chan c)" and inv: "buffer_inv (t_out c)" and m: "mask_ok (events (t_chan c))" and ns: "\<not> write_shut c"
    using assms(1-3) by (auto simp: out_ok_def)
  obtain res c1 where sw: "sockets_write (content (t_out c)) c = (res, c1)" by (metis prod.exhaust)
  have pos: "\<exists>n. res = Inr n \<and> 0 < n" and os: "\<forall>w \<in> set (os_writes c1). \<exists>n. w = Inr (Suc n)"
    using sw assms(3,4) ns by (auto simp: sockets_write_def split: list.splits sum.splits)
  note f = sockets_write_ok [OF sw]
  obtain n ob where n: "res = Inr n" "0 < n" "n \<le> readableBytes (t_out c)" and ob: "buffer_inv ob" "content ob = drop n (content (t_out c))"
    and run: "TcpConnection_handleWrite E c = Inr
          (let c2 = c1\<lparr>t_out := ob\<rparr>; c3 = on_tchan disableWriting c2;
               c4 = (if t_writeCompleteCallback E then temit TQueueWriteComplete c3 else c3)
           in if content ob = [] then (if t_state c4 = kDisconnecting then TcpConnection_shutdownInLoop c4 else c4) else c2)"
    using handleWrite_cases [OF w inv sw, of E] pos by auto
  obtain c' where c': "TcpConnection_handleWrite E c = Inr c'" using run by blast
  moreover have "out_ok c'" using handleWrite_out [OF c' assms(1)] assms(1) by (simp add: out_rel_def)
  moreover have "length (content ob) < length (content (t_out c))" using n ob(2) inv assms(3) by auto
  moreover have "\<not> isWriting (disableWriting (t_chan c))" by (rule mask_bits(8) [OF m])
  ultimately show ?thesis using run f os assms(2) by (auto simp: Let_def TcpConnection_shutdownInLoop_def split: if_splits)
qed

lemma flush_all:
  assumes "out_ok c" "t_state c = kDisconnecting" "content (t_out c) = [] \<longrightarrow> write_shut c"
    "\<forall>w \<in> set (os_writes c). \<exists>n. w = Inr (Suc n)" "length (content (t_out c)) \<le> k"
  shows "rspec (rfold (\<lambda>_. TcpConnection_handleWrite E) (replicate k ()) c)
     (\<lambda>c'. wire c' = taken (tlog c) \<and> content (t_out c') = [] \<and> write_shut c')"
  using assms
proof (induction k arbitrary: c)
  case 0
  then have "content (t_out c) = []" by simp
  with 0 show ?case by (simp add: out_ok_def)
next
  case (Suc k)
  show ?case
  proof (cases "content (t_out c) = []")
    case True
    then have "TcpConnection_handleWrite E c = Inr c" using Suc.prems by (simp add: TcpConnection_handleWrite_def out_ok_def)
    then show ?thesis using Suc.IH [of c] Suc.prems True by simp
  next
    case False
    then obtain c1 where "TcpConnection_handleWrite E c = Inr c1" "out_ok c1" "t_state c1 = kDisconnecting"
      "length (content (t_out c1)) < length (content (t_out c))" "taken (tlog c1) = taken (tlog c)"
      "content (t_out c1) = [] \<longrightarrow> write_shut c1" "\<forall>w \<in> set (os_writes c1). \<exists>n. w = Inr (Suc n)"
      using handleWrite_flush [OF Suc.prems(1,2) False Suc.prems(4), of E] by blast
    then show ?thesis using Suc.IH [of c1] Suc.prems(5) by simp
  qed
qed

section \<open>Properties\<close>

text \<open>
  C6. The output of a TCP connection is one unbroken stream: in every state the loop thread can bring it to,
  for any behaviour of the socket and of the user's callbacks, the bytes the kernel took followed by those in
  the output buffer are exactly the messages taken for sending, in order, each whole; the socket is watched
  for writability exactly while output is pending; \<open>shutdown(SHUT_WR)\<close> is called only when everything taken is
  on the wire, unless the connection was closed before; the user sees states that only advance; and the
  close callback runs at most once.
\<close>

theorem tcp_output_stream:
  assumes "reaches tcp_init (tcp_step E) c"
  shows "wire c @ content (t_out c) = taken (tlog c) \<and>
     (t_state c \<noteq> kDisconnected \<longrightarrow> isWriting (t_chan c) = (content (t_out c) \<noteq> [])) \<and>
     (write_shut c \<and> t_state c \<noteq> kDisconnected \<longrightarrow> t_state c = kDisconnecting \<and> wire c = taken (tlog c)) \<and>
     sorted (map trank (ttold (tlog c))) \<and> count_list (tlog c) TClose \<le> 1 \<and>
     (TClose \<in> set (tlog c) \<longrightarrow> t_state c = kDisconnected)"
  using tcp_run.inv_reaches [OF assms] by (auto simp: tcp_ok_def out_ok_def)

text \<open>A connection on which five bytes are sent, of which the socket takes two, and which is then shut down.\<close>

definition demo_env :: tcp_env where
  "demo_env = \<lparr>t_connectionCallback = \<lambda>c. if TcpConnection_connected c then [TSend [1, 2, 3, 4, 5], TShutdown] else [],
     t_messageCallback = tcp_codec_callback, t_writeCompleteCallback = True, t_highWaterMarkCallback = False\<rparr>"

definition demo_fresh :: tcp_conn where
  "demo_fresh = (TcpConnection_ctor ''c'' 7 1)\<lparr>os_writes := [Inr 2, Inr 1]\<rparr>"

definition demo_sent :: "tcp_conn result" where
  "demo_sent = TcpConnection_connectEstablished demo_env demo_fresh"

lemma demo_sent_state:
  "rspec demo_sent (\<lambda>c. wire c = [1, 2] \<and> content (t_out c) = [3, 4, 5] \<and> t_state c = kDisconnecting \<and> \<not> write_shut c \<and>
     os_writes c = [Inr 1] \<and> isWriting (t_chan c))"
  by code_simp

lemma demo_fresh_reached: "reaches tcp_init (tcp_step demo_env) demo_fresh"
proof (rule reaches_step)
  show "reaches tcp_init (tcp_step demo_env) (TcpConnection_ctor ''c'' 7 1)" by (rule reaches_init) (auto simp: tcp_init_def)
qed (simp add: demo_fresh_def ts_os)

lemma demo_sent_reached: "demo_sent = Inr c \<Longrightarrow> reaches tcp_init (tcp_step demo_env) c"
  using reaches_step [OF demo_fresh_reached] ts_established by (auto simp: demo_sent_def)

theorem tcp_output_stream_witness:
  "rspec demo_sent (\<lambda>c. wire c @ content (t_out c) = taken (tlog c) \<and> isWriting (t_chan c) \<and> count_list (tlog c) TClose \<le> 1)"
proof -
  obtain c where c: "demo_sent = Inr c" "isWriting (t_chan c)" using demo_sent_state by (auto simp: rspec_iff)
  show ?thesis unfolding c(1) rspec_Inr using tcp_output_stream [OF demo_sent_reached [OF c(1)]] c(2) by blast
qed

text \<open>
  C10. A shutdown loses nothing: a connection that is shut down with output pending, on a socket that takes at
  least one byte each time it is writable, has after at most as many \<open>handleWrite\<close> events as bytes are pending
  put every message it took on the wire, and only then is the sending side of the socket closed.
\<close>

theorem tcp_shutdown_flushes:
  assumes "reaches tcp_init (tcp_step E) c" "t_state c = kDisconnecting" "content (t_out c) \<noteq> []"
    and "\<forall>w \<in> set (os_writes c). \<exists>n. w = Inr (Suc n)"
  shows "\<not> write_shut c \<and>
     rspec (rfold (\<lambda>_. TcpConnection_handleWrite E) (replicate (length (content (t_out c))) ()) c)
       (\<lambda>c'. wire c' = taken (tlog c) \<and> content (t_out c') = [] \<and> write_shut c')"
proof -
  have ok: "out_ok c" using tcp_run.inv_reaches [OF assms(1)] by (simp add: tcp_ok_def)
  then have "\<not> write_shut c" using assms(2,3) by (auto simp: out_ok_def)
  then show ?thesis using flush_all [OF ok assms(2) _ assms(4) order_refl, of E] assms(3) by simp
qed

theorem tcp_shutdown_flushes_witness:
  "rspec demo_sent (\<lambda>c. content (t_out c) = [3, 4, 5] \<and>
     rspec (rfold (\<lambda>_. TcpConnection_handleWrite demo_env) (replicate 3 ()) c)
       (\<lambda>c'. wire c' = taken (tlog c) \<and> content (t_out c') = [] \<and> write_shut c'))"
proof -
  obtain c where c: "demo_sent = Inr c" "t_state c = kDisconnecting" "content (t_out c) = [3, 4, 5]" "os_writes c = [Inr 1]"
    using demo_sent_state by (auto simp: rspec_iff)
  show ?thesis
    unfolding c(1) rspec_Inr using tcp_shutdown_flushes [OF demo_sent_reached [OF c(1)] c(2)] c(3,4)
    by (simp add: numeral_3_eq_3)
qed



text \<open>
  Reading turned on again on a closed connection (by the user's callback, or by a \<open>startRead\<close> of another
  thread that was queued) registers its channel once more; destroying the connection then fails.
\<close>

lemma start_read_after_close_aborts:
  assumes "t_state c = kDisconnected" "isNoneEvent (t_chan c)"
  shows "TcpConnection_connectDestroyed E (TcpConnection_startReadInLoop c) = Inl (AssertFail ''isNoneEvent()'')"
  using assms
  by (auto simp: TcpConnection_connectDestroyed_def TcpConnection_startReadInLoop_def Channel_remove_def Channel_defs poll_flags)

end
