(* ===== verification/TcpServer.thy ===== *)
theory TcpServer
  imports InetAddress EventLoop Connectors TcpConnection "HOL-Library.AList"
begin

text \<open>
  \<open>Acceptor\<close> (\<open>third/muduo/net/Acceptor.cc\<close>) and \<open>TcpServer\<close> (\<open>third/muduo/net/TcpServer.cc\<close>) with the
  connections they make. Connections are objects, numbered in the order they are made; \<open>connections_\<close> maps
  names to them. The functors a connection's life goes through are queues of these numbers:
  \<open>connectEstablished\<close> in its io loop, \<open>removeConnectionInLoop\<close> in the server's loop (queued by the close
  callback), \<open>connectDestroyed\<close> in its io loop again. A connection takes any of the steps of theory
  \<open>TcpConnection\<close> at any time in between.
\<close>

section \<open>\<open>Acceptor\<close>\<close>

definition ECONNABORTED :: int where "ECONNABORTED = 103"
definition EPROTO :: int where "EPROTO = 71"
definition EMFILE :: int where "EMFILE = 24"

datatype accept_result = Accepted fd inet_address | AcceptErr int

text \<open>Errors that are not expected end the process.\<close>

definition sockets_accept :: "accept_result \<Rightarrow> accept_result result" where
  "sockets_accept r = (case r of
     Accepted f a \<Rightarrow> Inr r
   | AcceptErr e \<Rightarrow> (if e \<in> {EAGAIN, ECONNABORTED, EINTR, EPROTO, EPERM, EMFILE} then Inr r
                    else Inl (Fatal ''unexpected error of ::accept'')))"

record tcp_acceptor =
  ac_channel :: channel
  ac_listenning :: bool
  idleFd :: fd
  ac_closed :: "fd list"         \<comment> \<open>descriptors closed, in order\<close>

definition Acceptor_ctor :: "fd \<Rightarrow> fd \<Rightarrow> tcp_acceptor result" where
  "Acceptor_ctor sockfd idle =
     rbind (cassert (0 \<le> idle) ''idleFd_ >= 0'') (\<lambda>_.
     Inr \<lparr>ac_channel = Channel_ctor sockfd, ac_listenning = False, idleFd = idle, ac_closed = []\<rparr>)"

definition Acceptor_dtor :: "tcp_acceptor \<Rightarrow> tcp_acceptor result" where
  "Acceptor_dtor a =
     rbind (Channel_remove (disableAll (ac_channel a))) (\<lambda>ch.
     Inr (a\<lparr>ac_channel := ch, ac_closed := ac_closed a @ [idleFd a]\<rparr>))"

definition Acceptor_listen :: "tcp_acceptor \<Rightarrow> tcp_acceptor" where
  "Acceptor_listen a = a\<lparr>ac_listenning := True, ac_channel := enableReading (ac_channel a)\<rparr>"

text \<open>
  \<open>hasCb\<close>: a callback is set. When the process is out of descriptors the idle one is given up for the
  pending connection (\<open>idleAccept\<close> is what \<open>accept\<close> returns then), both are closed, and an idle one is opened
  again (\<open>idleOpen\<close>).
\<close>

definition Acceptor_handleRead ::
  "accept_result \<Rightarrow> bool \<Rightarrow> fd \<Rightarrow> fd \<Rightarrow> tcp_acceptor \<Rightarrow> (tcp_acceptor \<times> (fd \<times> inet_address) option) result" where
  "Acceptor_handleRead r hasCb idleAccept idleOpen a =
     rbind (sockets_accept r) (\<lambda>r'. case r' of
       Accepted connfd peerAddr \<Rightarrow>
         if hasCb then Inr (a, Some (connfd, peerAddr)) else Inr (a\<lparr>ac_closed := ac_closed a @ [connfd]\<rparr>, None)
     | AcceptErr e \<Rightarrow>
         if e = EMFILE
         then Inr (a\<lparr>ac_closed := ac_closed a @ [idleFd a, idleAccept], idleFd := idleOpen\<rparr>, None)
         else Inr (a, None))"

section \<open>\<open>TcpServer\<close>\<close>

record tcp_server =
  tv_ipPort :: string
  tv_name :: string
  tv_acceptor :: tcp_acceptor
  tv_pool :: thread_pool
  tv_started :: bool
  tv_nextConnId :: int
  tv_connections :: "(string \<times> int) list"
  tv_objs :: "int \<rightharpoonup> loop_id \<times> tcp_conn"
  tv_establish :: "int list"
  tv_removals :: "int list"
  tv_destroy :: "int list"

definition TcpServer_ctor ::
  "(bytes \<Rightarrow> string) \<Rightarrow> loop_id \<Rightarrow> fd \<Rightarrow> fd \<Rightarrow> inet_address \<Rightarrow> string \<Rightarrow> tcp_server result" where
  "TcpServer_ctor ntop6 loop sockfd idle addr nameArg =
     rbind (InetAddress_toIpPort ntop6 addr) (\<lambda>ip.
     rbind (Acceptor_ctor sockfd idle) (\<lambda>a.
     Inr \<lparr>tv_ipPort = ip, tv_name = nameArg, tv_acceptor = a, tv_pool = EventLoopThreadPool_ctor loop nameArg,
          tv_started = False, tv_nextConnId = 1, tv_connections = [], tv_objs = Map.empty,
          tv_establish = [], tv_removals = [], tv_destroy = []\<rparr>))"

definition TcpServer_setThreadNum :: "int \<Rightarrow> tcp_server \<Rightarrow> tcp_server result" where
  "TcpServer_setThreadNum n s =
     rbind (cassert (0 \<le> n) ''0 <= numThreads'') (\<lambda>_.
     Inr (s\<lparr>tv_pool := EventLoopThreadPool_setThreadNum (nat n) (tv_pool s)\<rparr>))"

definition TcpServer_start :: "(nat \<Rightarrow> loop_id) \<Rightarrow> tcp_server \<Rightarrow> tcp_server result" where
  "TcpServer_start startLoop s =
     (if \<not> tv_started s
      then rbind (EventLoopThreadPool_start startLoop (tv_pool s)) (\<lambda>p.
           rbind (cassert (\<not> ac_listenning (tv_acceptor s)) ''!acceptor_->listenning()'') (\<lambda>_.
           Inr (s\<lparr>tv_started := True, tv_pool := p, tv_acceptor := Acceptor_listen (tv_acceptor s)\<rparr>)))
      else Inr s)"

definition tcp_conn_name :: "tcp_server \<Rightarrow> int \<Rightarrow> string" where
  "tcp_conn_name s i = tv_name s @ snprintf_cut 64 (''-'' @ tv_ipPort s @ ''#'' @ show_int i)"

definition TcpServer_newConnection :: "fd \<Rightarrow> tcp_server \<Rightarrow> tcp_server result" where
  "TcpServer_newConnection sockfd s =
     rbind (EventLoopThreadPool_getNextLoop (tv_pool s)) (\<lambda>(ioLoop, p).
     let i = tv_nextConnId s; connName = tcp_conn_name s i; conn = TcpConnection_ctor connName sockfd i
     in if i = INT_MAX then Inl (Undefined ''signed overflow'')
        else Inr (s\<lparr>tv_pool := p, tv_nextConnId := i + 1, tv_connections := AList.update connName i (tv_connections s),
                   tv_objs := (tv_objs s)(i \<mapsto> (ioLoop, conn)), tv_establish := tv_establish s @ [i]\<rparr>))"

definition TcpServer_accept :: "accept_result \<Rightarrow> fd \<Rightarrow> fd \<Rightarrow> tcp_server \<Rightarrow> tcp_server result" where
  "TcpServer_accept r idleAccept idleOpen s =
     rbind (Acceptor_handleRead r True idleAccept idleOpen (tv_acceptor s)) (\<lambda>(a, out).
     let s1 = s\<lparr>tv_acceptor := a\<rparr>
     in case out of None \<Rightarrow> Inr s1 | Some (sockfd, peerAddr) \<Rightarrow> TcpServer_newConnection sockfd s1)"

text \<open>The close callback, called in the io loop.\<close>

definition TcpServer_removeConnection :: "int \<Rightarrow> tcp_server \<Rightarrow> tcp_server" where
  "TcpServer_removeConnection i s = s\<lparr>tv_removals := tv_removals s @ [i]\<rparr>"

definition TcpServer_removeConnectionInLoop :: "int \<Rightarrow> tcp_server \<Rightarrow> tcp_server result" where
  "TcpServer_removeConnectionInLoop i s = (case tv_objs s i of
     None \<Rightarrow> Inl (Undefined ''null connection'')
   | Some (ioLoop, conn) \<Rightarrow>
       rbind (cassert (map_of (tv_connections s) (t_name conn) \<noteq> None) ''n == 1'') (\<lambda>_.
       Inr (s\<lparr>tv_connections := AList.delete (t_name conn) (tv_connections s), tv_destroy := tv_destroy s @ [i]\<rparr>)))"

definition TcpServer_dtor :: "tcp_server \<Rightarrow> tcp_server" where
  "TcpServer_dtor s = s\<lparr>tv_destroy := tv_destroy s @ map snd (tv_connections s)\<rparr>"

text \<open>The steps: accepting, an event on a connection, and the queued functors.\<close>

definition closes :: "tcp_conn \<Rightarrow> nat" where
  "closes c = count_list (tlog c) TClose"

inductive tsv_step :: "tcp_env \<Rightarrow> tcp_server \<Rightarrow> tcp_server \<Rightarrow> bool" for E :: tcp_env where
  sv_accept: "TcpServer_accept r ia io s = Inr s' \<Longrightarrow> tsv_step E s s'"
| sv_event: "tv_objs s i = Some (l, c) \<Longrightarrow> tcp_step E c c' \<Longrightarrow>
     tsv_step E s ((TcpServer_removeConnection i ^^ (closes c' - closes c)) (s\<lparr>tv_objs := (tv_objs s)(i \<mapsto> (l, c'))\<rparr>))"
| sv_establish: "tv_establish s = xs @ i # ys \<Longrightarrow> tv_objs s i = Some (l, c) \<Longrightarrow> TcpConnection_connectEstablished E c = Inr c' \<Longrightarrow>
     tsv_step E s (s\<lparr>tv_objs := (tv_objs s)(i \<mapsto> (l, c')), tv_establish := xs @ ys\<rparr>)"
| sv_remove: "tv_removals s = i # ys \<Longrightarrow> TcpServer_removeConnectionInLoop i (s\<lparr>tv_removals := ys\<rparr>) = Inr s' \<Longrightarrow> tsv_step E s s'"
| sv_destroy: "tv_destroy s = xs @ i # ys \<Longrightarrow> tv_objs s i = Some (l, c) \<Longrightarrow> TcpConnection_connectDestroyed E c = Inr c' \<Longrightarrow>
     tsv_step E s (s\<lparr>tv_objs := (tv_objs s)(i \<mapsto> (l, c')), tv_destroy := xs @ ys\<rparr>)"

definition tsv_init :: "(bytes \<Rightarrow> string) \<Rightarrow> tcp_server \<Rightarrow> bool" where
  "tsv_init ntop6 s \<longleftrightarrow> (\<exists>loop f idle addr nm n st s0 s1. TcpServer_ctor ntop6 loop f idle addr nm = Inr s0 \<and>
     TcpServer_setThreadNum n s0 = Inr s1 \<and> TcpServer_start st s1 = Inr s)"

section \<open>Invariant of the server\<close>

definition tsv_obj_ok :: "tcp_server \<Rightarrow> int \<Rightarrow> tcp_conn \<Rightarrow> bool" where
  "tsv_obj_ok s i c \<longleftrightarrow> tcp_ok c \<and> t_name c = tcp_conn_name s i \<and>
     closes c = count_list (tv_removals s) i + (if map_of (tv_connections s) (tcp_conn_name s i) = None then 1 else 0)"

definition tsv_ok :: "tcp_server \<Rightarrow> bool" where
  "tsv_ok s \<longleftrightarrow> length (tv_ipPort s) \<le> 51 \<and> 1 \<le> tv_nextConnId s \<and> tv_nextConnId s \<le> INT_MAX \<and>
     (\<forall>i. tv_objs s i \<noteq> None \<longleftrightarrow> 1 \<le> i \<and> i < tv_nextConnId s) \<and>
     (\<forall>i l c. tv_objs s i = Some (l, c) \<longrightarrow> tsv_obj_ok s i c) \<and>
     (\<forall>i \<in> set (tv_removals s). tv_objs s i \<noteq> None) \<and> distinct (map fst (tv_connections s)) \<and>
     (\<forall>(n, i) \<in> set (tv_connections s). n = tcp_conn_name s i \<and> 1 \<le> i \<and> i < tv_nextConnId s)"

lemma tsv_okD:
  assumes "tsv_ok s"
  shows "length (tv_ipPort s) \<le> 51" "1 \<le> tv_nextConnId s" "tv_nextConnId s \<le> INT_MAX"
    and "tv_objs s i \<noteq> None \<longleftrightarrow> 1 \<le> i \<and> i < tv_nextConnId s"
    and "tv_objs s i = Some (l, c) \<Longrightarrow> tsv_obj_ok s i c"
    and "i \<in> set (tv_removals s) \<Longrightarrow> tv_objs s i \<noteq> None"
    and "distinct (map fst (tv_connections s))"
    and "(n, i) \<in> set (tv_connections s) \<Longrightarrow> n = tcp_conn_name s i \<and> 1 \<le> i \<and> i < tv_nextConnId s"
  using assms unfolding tsv_ok_def by blast+

lemma tcp_names_differ:
  assumes "length (tv_ipPort s) \<le> 51" "1 \<le> i" "i \<le> INT_MAX" "1 \<le> j" "j \<le> INT_MAX"
  shows "tcp_conn_name s i = tcp_conn_name s j \<longleftrightarrow> i = j"
proof -
  have "tcp_conn_name s k = tv_name s @ ''-'' @ tv_ipPort s @ ''#'' @ show_int k" if "1 \<le> k" "k \<le> INT_MAX" for k
    using length_show_id [OF that] assms(1) by (simp add: tcp_conn_name_def snprintf_cut_def)
  then show ?thesis using assms show_int_inject [of i j] by simp
qed

lemma set_update_subset: "set (AList.update k v al) \<subseteq> insert (k, v) (set al)"
  by (induction al) auto

lemma tsv_newConnection_ok:
  assumes "TcpServer_newConnection f s = Inr s'" "tsv_ok s"
  shows "tsv_ok s'"
proof -
  let ?i = "tv_nextConnId s" and ?n = "tcp_conn_name s (tv_nextConnId s)"
  obtain l p where lt: "?i < INT_MAX"
    and s': "s' = s\<lparr>tv_pool := p, tv_nextConnId := ?i + 1, tv_connections := AList.update ?n ?i (tv_connections s),
       tv_objs := (tv_objs s)(?i \<mapsto> (l, TcpConnection_ctor ?n f ?i)), tv_establish := tv_establish s @ [?i]\<rparr>"
    using assms tsv_okD(3) [OF assms(2)]
    by (auto simp: TcpServer_newConnection_def rbind_eq_Inr_iff Let_def split: if_splits)
  note ok = tsv_okD [OF assms(2)]
  have nm: "tcp_conn_name s' k = tcp_conn_name s k" for k by (simp add: s' tcp_conn_name_def)
  have ne: "tcp_conn_name s k \<noteq> ?n" if "1 \<le> k" "k < ?i" for k
    using tcp_names_differ [OF ok(1) that(1) _ ok(2), of] that lt by auto
  have new: "tsv_obj_ok s' ?i (TcpConnection_ctor ?n f ?i)"
  proof -
    have "tcp_ok (TcpConnection_ctor ?n f ?i)" by (rule tcp_run.inv_init) (auto simp: tcp_init_def)
    moreover have "?i \<notin> set (tv_removals s)" using ok(4,6) by blast
    ultimately show ?thesis by (auto simp: tsv_obj_ok_def s' tcp_conn_name_def closes_def TcpConnection_ctor_def update_conv' count_notin)
  qed
  have old: "tsv_obj_ok s' k c" if "tv_objs s k = Some (l', c)" for k l' c
  proof -
    have "1 \<le> k \<and> k < ?i" using ok(4) [of k] that by simp
    then have "map_of (tv_connections s') (tcp_conn_name s k) = map_of (tv_connections s) (tcp_conn_name s k)"
      using ne [of k] by (simp add: s' update_conv')
    moreover have "tv_removals s' = tv_removals s" by (simp add: s')
    ultimately show ?thesis using ok(5) [OF that] by (simp add: tsv_obj_ok_def nm)
  qed
  show ?thesis
    unfolding tsv_ok_def
  proof (intro conjI)
    show "\<forall>i. tv_objs s' i \<noteq> None \<longleftrightarrow> 1 \<le> i \<and> i < tv_nextConnId s'" using ok(2,4) by (auto simp: s')
    show "\<forall>i l c. tv_objs s' i = Some (l, c) \<longrightarrow> tsv_obj_ok s' i c"
    proof (intro allI impI)
      fix k l' c assume h: "tv_objs s' k = Some (l', c)"
      show "tsv_obj_ok s' k c" using h new old [of k l' c] by (cases "k = ?i") (auto simp: s')
    qed
    show "\<forall>i \<in> set (tv_removals s'). tv_objs s' i \<noteq> None" using ok(6) by (auto simp: s')
    show "distinct (map fst (tv_connections s'))" using ok(7) by (simp add: s' distinct_update)
    show "\<forall>(n, i) \<in> set (tv_connections s'). n = tcp_conn_name s' i \<and> 1 \<le> i \<and> i < tv_nextConnId s'"
    proof -
      have "set (AList.update ?n ?i (tv_connections s)) \<subseteq> insert (?n, ?i) (set (tv_connections s))"
        by (rule set_update_subset)
      then show ?thesis using ok(8,2) nm by (fastforce simp: s')
    qed
  qed (use ok(1-3) lt in \<open>auto simp: s'\<close>)
qed

lemma removeConnection_times:
  "(TcpServer_removeConnection i ^^ k) s = s\<lparr>tv_removals := tv_removals s @ replicate k i\<rparr>"
proof (induction k)
  case (Suc k)
  then show ?case by (simp add: TcpServer_removeConnection_def replicate_append_same)
qed simp

lemma count_replicate: "count_list (replicate k i) j = (if i = j then k else 0)"
  by (induction k) auto

text \<open>A connection changes and calls its close callback \<open>closes c' - closes c\<close> times.\<close>

lemma event_ok:
  assumes "tsv_ok s" "tv_objs s i = Some (l, c)" "tcp_ok c'" "same_conn c c'"
  shows "tsv_ok ((TcpServer_removeConnection i ^^ (closes c' - closes c)) (s\<lparr>tv_objs := (tv_objs s)(i \<mapsto> (l, c'))\<rparr>))"
    (is "tsv_ok ?s'")
proof -
  note ok = tsv_okD [OF assms(1)]
  have le: "closes c \<le> closes c'" using assms(4) by (auto simp: same_conn_def closes_def)
  have nm: "tcp_conn_name ?s' k = tcp_conn_name s k" for k by (simp add: removeConnection_times tcp_conn_name_def)
  have "tsv_obj_ok ?s' k d" if "tv_objs ?s' k = Some (l', d)" for k l' d
  proof (cases "k = i")
    case True
    then have "d = c'" using that by (simp add: removeConnection_times)
    then show ?thesis
      using ok(5) [OF assms(2)] assms(3,4) le True
      unfolding tsv_obj_ok_def nm by (simp add: removeConnection_times count_replicate same_conn_def)
  next
    case False
    then have "tv_objs s k = Some (l', d)" using that by (simp add: removeConnection_times)
    from ok(5) [OF this] show ?thesis
      using False unfolding tsv_obj_ok_def nm by (simp add: removeConnection_times count_replicate)
  qed
  moreover have "\<forall>k. tv_objs ?s' k \<noteq> None \<longleftrightarrow> 1 \<le> k \<and> k < tv_nextConnId ?s'" using ok(4) assms(2) by (auto simp: removeConnection_times)
  moreover have "\<forall>(n, k) \<in> set (tv_connections ?s'). n = tcp_conn_name ?s' k \<and> 1 \<le> k \<and> k < tv_nextConnId ?s'"
    unfolding nm using ok(8) by (auto simp: removeConnection_times)
  moreover have "\<forall>k \<in> set (tv_removals ?s'). tv_objs ?s' k \<noteq> None" using ok(6) by (auto simp: removeConnection_times)
  ultimately show ?thesis using ok(1-3,7) unfolding tsv_ok_def by (auto simp: removeConnection_times)
qed

lemma tsv_ok_queues:
  "tsv_ok (s\<lparr>tv_establish := a\<rparr>) \<longleftrightarrow> tsv_ok s" "tsv_ok (s\<lparr>tv_destroy := a\<rparr>) \<longleftrightarrow> tsv_ok s" "tsv_ok (s\<lparr>tv_acceptor := b\<rparr>) \<longleftrightarrow> tsv_ok s"
  "tsv_ok (s\<lparr>tv_pool := p\<rparr>) \<longleftrightarrow> tsv_ok s" "tsv_ok (s\<lparr>tv_started := g\<rparr>) \<longleftrightarrow> tsv_ok s"
  by (simp_all add: tsv_ok_def tsv_obj_ok_def tcp_conn_name_def)

text \<open>The functors that call \<open>connectEstablished\<close> and \<open>connectDestroyed\<close> close nothing.\<close>

lemma functor_ok:
  assumes "tsv_ok s" "tv_objs s i = Some (l, c)" "out_rel c c'"
  shows "tsv_ok (s\<lparr>tv_objs := (tv_objs s)(i \<mapsto> (l, c'))\<rparr>)"
proof -
  have "tcp_ok c" using tsv_okD(5) [OF assms(1,2)] by (simp add: tsv_obj_ok_def)
  then have "tcp_ok c'" by (rule out_rel_tcp_ok [OF assms(3)])
  moreover have "closes c' - closes c = 0" using assms(3) by (auto simp: out_rel_def closes_def count_notin)
  ultimately show ?thesis using event_ok [OF assms(1,2) _ out_rel_same [OF assms(3)]] by simp
qed

text \<open>A queued removal finds its connection in the map.\<close>

lemma removal_finds:
  assumes "tsv_ok s" "tv_removals s = i # ys"
  obtains l c where "tv_objs s i = Some (l, c)" "map_of (tv_connections s) (t_name c) \<noteq> None" "i \<notin> set ys"
    "closes c = 1" "t_name c = tcp_conn_name s i"
proof -
  note ok = tsv_okD [OF assms(1)]
  obtain l c where c: "tv_objs s i = Some (l, c)" using ok(6) [of i] assms(2) by auto
  have "closes c \<le> 1" using ok(5) [OF c] by (simp add: tsv_obj_ok_def tcp_ok_def closes_def)
  then have "count_list ys i = 0" "map_of (tv_connections s) (t_name c) \<noteq> None" "closes c = 1"
    using ok(5) [OF c] assms(2) by (auto simp: tsv_obj_ok_def split: if_splits)
  then show thesis using that [OF c] ok(5) [OF c] by (simp add: tsv_obj_ok_def count_list_0_iff)
qed

lemma removeInLoop_ok:
  assumes "tsv_ok s" "tv_removals s = i # ys" "TcpServer_removeConnectionInLoop i (s\<lparr>tv_removals := ys\<rparr>) = Inr s'"
  shows "tsv_ok s'"
proof -
  note ok = tsv_okD [OF assms(1)]
  obtain l c where c: "tv_objs s i = Some (l, c)" "map_of (tv_connections s) (t_name c) \<noteq> None" "i \<notin> set ys" "closes c = 1"
    "t_name c = tcp_conn_name s i" by (rule removal_finds [OF assms(1,2)])
  have i: "1 \<le> i" "i < tv_nextConnId s" using ok(4) [of i] c(1) by simp_all
  have s': "s' = s\<lparr>tv_removals := ys, tv_connections := AList.delete (tcp_conn_name s i) (tv_connections s),
      tv_destroy := tv_destroy s @ [i]\<rparr>"
    using assms(3) c by (auto simp: TcpServer_removeConnectionInLoop_def)
  have nm: "tcp_conn_name s' k = tcp_conn_name s k" for k by (simp add: s' tcp_conn_name_def)
  have obj: "tsv_obj_ok s' k d" if d: "tv_objs s k = Some (l', d)" for k l' d
  proof (cases "k = i")
    case True
    then show ?thesis using ok(5) [OF d] d c unfolding tsv_obj_ok_def nm by (simp add: s' delete_conv' count_notin)
  next
    case False
    have "1 \<le> k" "k < tv_nextConnId s" using ok(4) [of k] d by simp_all
    then have "tcp_conn_name s k \<noteq> tcp_conn_name s i" using tcp_names_differ [OF ok(1), of k i] False i ok(3) by simp
    then show ?thesis using ok(5) [OF d] assms(2) False unfolding tsv_obj_ok_def nm by (simp add: s' delete_conv')
  qed
  have "distinct (map fst (tv_connections s'))" using ok(7) by (simp add: s' distinct_delete)
  moreover have "\<forall>(n, k) \<in> set (tv_connections s'). n = tcp_conn_name s' k \<and> 1 \<le> k \<and> k < tv_nextConnId s'"
    unfolding nm using ok(8) by (auto simp: s' AList.delete_eq)
  ultimately show ?thesis using ok(1-4,6) obj assms(2) unfolding tsv_ok_def by (auto simp: s')
qed

lemma tsv_step_ok: "tsv_step E s s' \<Longrightarrow> tsv_ok s \<Longrightarrow> tsv_ok s'"
proof (induction rule: tsv_step.induct)
  case (sv_accept r ia ii s s')
  obtain a out where "Acceptor_handleRead r True ia ii (tv_acceptor s) = Inr (a, out)"
    and run: "(case out of None \<Rightarrow> Inr (s\<lparr>tv_acceptor := a\<rparr>) | Some (f, p) \<Rightarrow> TcpServer_newConnection f (s\<lparr>tv_acceptor := a\<rparr>)) = Inr s'"
    using sv_accept.hyps by (auto simp: TcpServer_accept_def rbind_eq_Inr_iff Let_def)
  then show ?case using sv_accept.prems tsv_newConnection_ok tsv_ok_queues(3) by (auto split: option.splits)
next
  case (sv_event s i l c c')
  then have "tcp_ok c" using tsv_okD(5) by (auto simp: tsv_obj_ok_def)
  then show ?case using event_ok [OF sv_event.prems sv_event.hyps(1)] tcp_step_ok tcp_step_same sv_event.hyps(2) by blast
next
  case (sv_establish s xs i ys l c c')
  then show ?case using functor_ok [OF sv_establish.prems sv_establish.hyps(2) outp.connectEstablished_R]
    tsv_ok_queues(1) [of "xs @ ys" "s\<lparr>tv_objs := (tv_objs s)(i \<mapsto> (l, c'))\<rparr>"] by simp
next
  case (sv_remove s i ys s')
  show ?case by (rule removeInLoop_ok [OF sv_remove.prems sv_remove.hyps])
next
  case (sv_destroy s xs i ys l c c')
  then show ?case using functor_ok [OF sv_destroy.prems sv_destroy.hyps(2) outp.connectDestroyed_R]
    tsv_ok_queues(2) [of "xs @ ys" "s\<lparr>tv_objs := (tv_objs s)(i \<mapsto> (l, c'))\<rparr>"] by simp
qed

lemma tsv_init_ok:
  assumes "ntop6_ok ntop6" "tsv_init ntop6 s"
  shows "tsv_ok s"
proof -
  obtain loop f idle addr nm n st s0 s1 where s: "TcpServer_ctor ntop6 loop f idle addr nm = Inr s0"
     "TcpServer_setThreadNum n s0 = Inr s1" "TcpServer_start st s1 = Inr s" using assms(2) by (auto simp: tsv_init_def)
  have "tsv_ok s0"
    using s(1) toIpPort_ok [OF assms(1), of addr]
    by (auto simp: TcpServer_ctor_def Acceptor_ctor_def rbind_eq_Inr_iff tsv_ok_def INT_MAX_def rspec_iff)
  then have "tsv_ok s1" using s(2) by (auto simp: TcpServer_setThreadNum_def rbind_eq_Inr_iff tsv_ok_queues)
  then show ?thesis using s(3) by (auto simp: TcpServer_start_def rbind_eq_Inr_iff tsv_ok_queues split: if_splits)
qed

section \<open>Properties\<close>

text \<open>
  C7. The server's bookkeeping is right, unlike that of the UDP server: in every state it reaches, whatever the
  connections, their users and the network do, each connection calls its close callback at most once, so
  that every queued removal finds its connection in the map and the assertion there holds; a connection
  that is not closed is in the map under its own name; and the names are pairwise different.
\<close>

theorem tcp_server_removals_safe:
  assumes "ntop6_ok ntop6" "reaches (tsv_init ntop6) (tsv_step E) s"
  shows "(\<forall>i ys. tv_removals s = i # ys \<longrightarrow>
       rspec (TcpServer_removeConnectionInLoop i (s\<lparr>tv_removals := ys\<rparr>)) (\<lambda>s'. i \<notin> set (map snd (tv_connections s')) \<and> i \<notin> set ys)) \<and>
     (\<forall>i l c. tv_objs s i = Some (l, c) \<and> t_state c \<noteq> tcp_state.kDisconnected \<longrightarrow> map_of (tv_connections s) (t_name c) = Some i) \<and>
     distinct (map fst (tv_connections s))"
proof -
  have "inductive_invariant (tsv_init ntop6) (tsv_step E) tsv_ok"
    by unfold_locales (auto intro: tsv_init_ok [OF assms(1)] tsv_step_ok)
  from inductive_invariant.inv_reaches [OF this assms(2)] have s: "tsv_ok s" .
  note ok = tsv_okD [OF s]
  have "rspec (TcpServer_removeConnectionInLoop i (s\<lparr>tv_removals := ys\<rparr>)) (\<lambda>s'. i \<notin> set (map snd (tv_connections s')) \<and> i \<notin> set ys)"
    if "tv_removals s = i # ys" for i ys
  proof (rule removal_finds [OF s that])
    fix l c assume c: "tv_objs s i = Some (l, c)" "map_of (tv_connections s) (t_name c) \<noteq> None" "i \<notin> set ys"
      "t_name c = tcp_conn_name s i"
    have "n = tcp_conn_name s i" if "(n, i) \<in> set (tv_connections s)" for n using ok(8) [OF that] by simp
    then have "i \<notin> set (map snd (AList.delete (t_name c) (tv_connections s)))" using c(4) by (auto simp: AList.delete_eq)
    then show ?thesis using c by (auto simp: TcpServer_removeConnectionInLoop_def)
  qed
  moreover have "map_of (tv_connections s) (t_name c) = Some i"
    if c: "tv_objs s i = Some (l, c)" "t_state c \<noteq> tcp_state.kDisconnected" for i l c
  proof -
    have o: "tsv_obj_ok s i c" by (rule ok(5) [OF c(1)])
    then have "tcp_ok c" by (simp add: tsv_obj_ok_def)
    then have "closes c = 0" using c(2) by (auto simp: tcp_ok_def closes_def count_notin)
    then have "map_of (tv_connections s) (t_name c) \<noteq> None"
      using o by (cases "map_of (tv_connections s) (tcp_conn_name s i) = None") (simp_all add: tsv_obj_ok_def)
    then obtain j where j: "map_of (tv_connections s) (t_name c) = Some j" by blast
    have "tcp_conn_name s j = tcp_conn_name s i" "1 \<le> j \<and> j < tv_nextConnId s"
      using ok(8) [OF map_of_SomeD [OF j]] o by (auto simp: tsv_obj_ok_def)
    then show ?thesis using j tcp_names_differ [OF ok(1), of j i] ok(3) ok(4) [of i] c(1) by auto
  qed
  ultimately show ?thesis using ok(7) by blast
qed

text \<open>A server that has accepted one connection.\<close>

definition tsv_env :: tcp_env where
  "tsv_env = \<lparr>t_connectionCallback = defaultConnectionCallback, t_messageCallback = defaultMessageCallback,
     t_writeCompleteCallback = False, t_highWaterMarkCallback = False\<rparr>"

definition tsv_started :: "tcp_server result" where
  "tsv_started = rbind (TcpServer_ctor (\<lambda>_. []) 0 3 4 (addr4 0 0x5000) ''s'') (\<lambda>s0.
     rbind (TcpServer_setThreadNum 0 s0) (TcpServer_start (\<lambda>i. i)))"

definition tsv_accepted :: "tcp_server result" where
  "tsv_accepted = rbind tsv_started (TcpServer_accept (Accepted 9 (addr4 0x0100007f 7)) 0 0)"

lemma tsv_accepted_obj:
  "rspec tsv_accepted (\<lambda>s. map_option (\<lambda>(l, c). (t_name c, t_state c)) (tv_objs s 1) = Some (''s-0.0.0.0:80#1'', tcp_state.kConnecting))"
  by code_simp

theorem tcp_server_removals_safe_witness:
  "rspec tsv_accepted (\<lambda>s. map_of (tv_connections s) ''s-0.0.0.0:80#1'' = Some 1 \<and> distinct (map fst (tv_connections s)))"
proof -
  obtain s where s: "tsv_accepted = Inr s"
    and o: "map_option (\<lambda>(l, c). (t_name c, t_state c)) (tv_objs s 1) = Some (''s-0.0.0.0:80#1'', tcp_state.kConnecting)"
    using tsv_accepted_obj by (auto simp: rspec_iff)
  obtain s0 where s0: "tsv_started = Inr s0" "TcpServer_accept (Accepted 9 (addr4 0x0100007f 7)) 0 0 s0 = Inr s"
    using s unfolding tsv_accepted_def rbind_eq_Inr_iff by blast
  have "tsv_init (\<lambda>_. []) s0" using s0(1) unfolding tsv_init_def tsv_started_def rbind_eq_Inr_iff by blast
  then have "reaches (tsv_init (\<lambda>_. [])) (tsv_step tsv_env) s0" by (rule reaches_init)
  then have r: "reaches (tsv_init (\<lambda>_. [])) (tsv_step tsv_env) s" by (rule reaches_step) (rule sv_accept [OF s0(2)])
  have n: "ntop6_ok (\<lambda>_. [])" by (simp add: ntop6_ok_def)
  obtain l c where "tv_objs s 1 = Some (l, c)" "t_name c = ''s-0.0.0.0:80#1''" "t_state c = tcp_state.kConnecting"
    using o by auto
  with tcp_server_removals_safe [OF n r] show ?thesis unfolding s rspec_Inr by fastforce
qed

end
