(* ===== verification/TcpClient.thy ===== *)
theory TcpClient
  imports InetAddress Connectors TcpConnection
begin

text \<open>
  \<open>TcpClient\<close> (\<open>third/muduo/net/TcpClient.cc\<close>): a connector, at most one connection, and reconnects. The
  connection calls its close callback, which is \<open>removeConnection\<close>, in the loop of the client, as the last thing
  it does in an event; so an event of the connection is a step of theory \<open>TcpConnection\<close>, followed by
  \<open>removeConnection\<close> when the step closed it. \<open>connectDestroyed\<close> is queued in the loop.
\<close>

record tcp_client =
  tc_connector :: connector
  tc_name :: string
  tc_retry :: bool
  tc_connect :: bool
  tc_nextConnId :: int
  tc_connection :: "tcp_conn option"
  tc_queue :: "(string \<times> int) list"

definition TcpClient_ctor :: "string \<Rightarrow> tcp_client" where
  "TcpClient_ctor nameArg = \<lparr>tc_connector = Connector_ctor, tc_name = nameArg, tc_retry = False, tc_connect = True,
     tc_nextConnId = 1, tc_connection = None, tc_queue = []\<rparr>"

definition TcpClient_enableRetry :: "tcp_client \<Rightarrow> tcp_client" where
  "TcpClient_enableRetry c = c\<lparr>tc_retry := True\<rparr>"

definition tcp_client_conn_name :: "string \<Rightarrow> string \<Rightarrow> int \<Rightarrow> string" where
  "tcp_client_conn_name nm peerIpPort cid = nm @ snprintf_cut 32 ('':'' @ peerIpPort @ ''#'' @ show_int cid)"

definition TcpClient_newConnection ::
  "tcp_env \<Rightarrow> (bytes \<Rightarrow> string) \<Rightarrow> inet_address \<Rightarrow> fd \<Rightarrow> tcp_client \<Rightarrow> tcp_client result" where
  "TcpClient_newConnection E ntop6 peerAddr sockfd c =
     rbind (InetAddress_toIpPort ntop6 peerAddr) (\<lambda>ip.
     let i = tc_nextConnId c; conn = TcpConnection_ctor (tcp_client_conn_name (tc_name c) ip i) sockfd i
     in if i = INT_MAX then Inl (Undefined ''signed overflow'')
        else rbind (TcpConnection_connectEstablished E conn) (\<lambda>conn'.
             Inr (c\<lparr>tc_nextConnId := i + 1, tc_connection := Some conn'\<rparr>)))"

definition with_tcp_connector ::
  "(connector \<Rightarrow> connector result) \<Rightarrow> (fd \<Rightarrow> tcp_client \<Rightarrow> tcp_client result) \<Rightarrow> tcp_client \<Rightarrow> tcp_client result" where
  "with_tcp_connector f newConn c =
     rbind (f (tc_connector c)) (\<lambda>cn.
     rfold newConn (drop (length (handed (tc_connector c))) (handed cn)) (c\<lparr>tc_connector := cn\<rparr>))"

definition TcpClient_connect ::
  "fd \<Rightarrow> int \<Rightarrow> (fd \<Rightarrow> tcp_client \<Rightarrow> tcp_client result) \<Rightarrow> tcp_client \<Rightarrow> tcp_client result" where
  "TcpClient_connect f e newConn c = with_tcp_connector (Connector_start f e) newConn (c\<lparr>tc_connect := True\<rparr>)"

definition TcpClient_disconnect :: "tcp_client \<Rightarrow> tcp_client" where
  "TcpClient_disconnect c =
     (let c1 = c\<lparr>tc_connect := False\<rparr>
      in case tc_connection c1 of None \<Rightarrow> c1 | Some conn \<Rightarrow> c1\<lparr>tc_connection := Some (TcpConnection_shutdown conn)\<rparr>)"

definition TcpClient_stop :: "tcp_client \<Rightarrow> tcp_client" where
  "TcpClient_stop c = c\<lparr>tc_connect := False, tc_connector := Connector_stop (tc_connector c)\<rparr>"

definition TcpClient_removeConnection ::
  "fd \<Rightarrow> int \<Rightarrow> (fd \<Rightarrow> tcp_client \<Rightarrow> tcp_client result) \<Rightarrow> tcp_conn \<Rightarrow> tcp_client \<Rightarrow> tcp_client result" where
  "TcpClient_removeConnection f e newConn conn c =
     rbind (cassert (map_option t_id (tc_connection c) = Some (t_id conn)) ''connection_ == conn'') (\<lambda>_.
     let c1 = c\<lparr>tc_connection := None, tc_queue := tc_queue c @ [(t_name conn, t_id conn)]\<rparr>
     in if tc_retry c1 \<and> tc_connect c1 then with_tcp_connector (Connector_restart f e) newConn c1 else Inr c1)"

text \<open>\<open>unique\<close> is \<open>connection_.unique()\<close>.\<close>

definition TcpClient_dtor :: "bool \<Rightarrow> tcp_client \<Rightarrow> tcp_client" where
  "TcpClient_dtor unique c = (case tc_connection c of
     Some conn \<Rightarrow> (if unique then c\<lparr>tc_connection := Some (TcpConnection_forceClose conn)\<rparr> else c)
   | None \<Rightarrow> c\<lparr>tc_connector := Connector_stop (tc_connector c)\<rparr>)"

text \<open>An event of the connection, and what its close callback does.\<close>

definition conn_event ::
  "fd \<Rightarrow> int \<Rightarrow> (fd \<Rightarrow> tcp_client \<Rightarrow> tcp_client result) \<Rightarrow> tcp_conn \<Rightarrow> tcp_conn \<Rightarrow> tcp_client \<Rightarrow> tcp_client result" where
  "conn_event f e newConn conn conn' c =
     (let c1 = c\<lparr>tc_connection := Some conn'\<rparr>
      in if count_list (tlog conn) TClose < count_list (tlog conn') TClose
         then TcpClient_removeConnection f e newConn conn' c1 else Inr c1)"

section \<open>The client's life\<close>

inductive tcl_step :: "tcp_env \<Rightarrow> (bytes \<Rightarrow> string) \<Rightarrow> inet_address \<Rightarrow> tcp_client \<Rightarrow> tcp_client \<Rightarrow> bool"
  for E :: tcp_env and ntop6 :: "bytes \<Rightarrow> string" and peer :: inet_address where
  tcl_retry: "tcl_step E ntop6 peer c (TcpClient_enableRetry c)"
| tcl_connect: "TcpClient_connect f e (TcpClient_newConnection E ntop6 peer) c = Inr c' \<Longrightarrow> tcl_step E ntop6 peer c c'"
| tcl_disconnect: "tcl_step E ntop6 peer c (TcpClient_disconnect c)"
| tcl_stop: "tcl_step E ntop6 peer c (TcpClient_stop c)"
| tcl_timer: "with_tcp_connector (Connector_startInLoop f e) (TcpClient_newConnection E ntop6 peer) c = Inr c' \<Longrightarrow>
     tcl_step E ntop6 peer c c'"
| tcl_writable: "with_tcp_connector (Connector_handleWrite err self) (TcpClient_newConnection E ntop6 peer) c = Inr c' \<Longrightarrow>
     tcl_step E ntop6 peer c c'"
| tcl_error: "Connector_handleError (tc_connector c) = Inr cn \<Longrightarrow> tcl_step E ntop6 peer c (c\<lparr>tc_connector := cn\<rparr>)"
| tcl_stopped: "Connector_stopInLoop (tc_connector c) = Inr cn \<Longrightarrow> tcl_step E ntop6 peer c (c\<lparr>tc_connector := cn\<rparr>)"
| tcl_reset: "tcl_step E ntop6 peer c (c\<lparr>tc_connector := Connector_resetChannel (tc_connector c)\<rparr>)"
| tcl_event: "tc_connection c = Some conn \<Longrightarrow> tcp_step E conn conn' \<Longrightarrow>
     conn_event f e (TcpClient_newConnection E ntop6 peer) conn conn' c = Inr c' \<Longrightarrow> tcl_step E ntop6 peer c c'"

definition tcl_init :: "tcp_client \<Rightarrow> bool" where
  "tcl_init c \<longleftrightarrow> (\<exists>nm. c = TcpClient_ctor nm)"

definition tcl_ids :: "tcp_client \<Rightarrow> int list" where
  "tcl_ids c = map snd (tc_queue c) @ (case tc_connection c of None \<Rightarrow> [] | Some conn \<Rightarrow> [t_id conn])"

definition tcl_ids_ok :: "tcp_client \<Rightarrow> bool" where
  "tcl_ids_ok c \<longleftrightarrow> tcl_ids c = [1..tc_nextConnId c - 1] \<and> 1 \<le> tc_nextConnId c \<and> tc_nextConnId c \<le> INT_MAX \<and>
     (\<forall>conn. tc_connection c = Some conn \<longrightarrow> tcp_ok conn \<and> TClose \<notin> set (tlog conn))"

definition tcl_ok :: "tcp_client \<Rightarrow> bool" where
  "tcl_ok c \<longleftrightarrow> tcl_ids_ok c \<and> (tc_connection c \<noteq> None \<longrightarrow> cn_state (tc_connector c) = cstate.kConnected)"

lemma tcl_ids_ok_frame:
  "tcl_ids_ok (c\<lparr>tc_connector := cn\<rparr>) = tcl_ids_ok c" "tcl_ids_ok (c\<lparr>tc_connect := b\<rparr>) = tcl_ids_ok c"
  "tcl_ids_ok (c\<lparr>tc_retry := b\<rparr>) = tcl_ids_ok c"
  by (simp_all add: tcl_ids_ok_def tcl_ids_def)

lemma tcp_newConnection_ok:
  assumes "TcpClient_newConnection E ntop6 peer f c = Inr c'" "tcl_ids_ok c" "tc_connection c = None"
  shows "tcl_ids_ok c' \<and> tc_connector c' = tc_connector c"
proof -
  let ?i = "tc_nextConnId c"
  obtain nm conn where conn: "TcpConnection_connectEstablished E (TcpConnection_ctor nm f ?i) = Inr conn" "?i \<noteq> INT_MAX"
    and c': "c' = c\<lparr>tc_nextConnId := ?i + 1, tc_connection := Some conn\<rparr>"
    using assms(1) by (auto simp: TcpClient_newConnection_def rbind_eq_Inr_iff Let_def split: if_splits)
  have r: "out_rel (TcpConnection_ctor nm f ?i) conn" by (rule outp.connectEstablished_R [OF conn(1)])
  have "tcp_ok (TcpConnection_ctor nm f ?i)" by (rule tcp_run.inv_init) (auto simp: tcp_init_def)
  then have "tcp_ok conn" by (rule out_rel_tcp_ok [OF r])
  moreover have "t_id conn = ?i" "TClose \<notin> set (tlog conn)" using r by (auto simp: out_rel_def TcpConnection_ctor_def)
  moreover have "[1..?i - 1] @ [?i] = [1..?i]" using assms(2) by (simp add: tcl_ids_ok_def upto_rec2 [of 1 ?i])
  ultimately show ?thesis using assms(2,3) conn(2) by (simp add: tcl_ids_ok_def tcl_ids_def c')
qed

text \<open>A connector hands over a socket only when it was not connected before, and is then connected.\<close>

definition hands_over :: "(connector \<Rightarrow> connector result) \<Rightarrow> connector \<Rightarrow> bool" where
  "hands_over F cn \<longleftrightarrow> (\<forall>cn'. F cn = Inr cn' \<longrightarrow> cn_state cn \<noteq> cstate.kConnected \<and>
     (handed cn' = handed cn \<or> (\<exists>f. handed cn' = handed cn @ [f]) \<and> cn_state cn' = cstate.kConnected))"

lemma connect_hands_nothing: "Connector_connect f e cn = Inr cn' \<Longrightarrow> handed cn' = handed cn"
  by (auto simp: Connector_connect_def Connector_connecting_def Connector_retry_def rbind_eq_Inr_iff Let_def split: if_splits)

lemma startInLoop_hands_nothing:
  "Connector_startInLoop f e cn = Inr cn' \<Longrightarrow> cn_state cn = cstate.kDisconnected \<and> handed cn' = handed cn"
  using connect_hands_nothing [of f e cn cn'] by (auto simp: Connector_startInLoop_def rbind_eq_Inr_iff cassert_def split: if_splits)

lemma startInLoop_hands_over: "hands_over (Connector_startInLoop f e) cn"
  using startInLoop_hands_nothing [of f e cn] by (auto simp: hands_over_def)

lemma start_hands_over: "hands_over (Connector_start f e) cn"
  using startInLoop_hands_nothing [of f e "cn\<lparr>connect_flag := True\<rparr>"] by (auto simp: hands_over_def Connector_start_def)

lemma removeChannel_handed:
  "Connector_removeAndResetChannel cn = Inr (f, cn') \<Longrightarrow> handed cn' = handed cn \<and> cn_state cn' = cn_state cn"
  by (auto simp: Connector_removeAndResetChannel_def rbind_eq_Inr_iff split: option.splits)

lemma retry_hands_nothing: "handed (Connector_retry f cn) = handed cn"
  by (simp add: Connector_retry_def Let_def)

lemma handleWrite_hands:
  assumes "Connector_handleWrite err self cn = Inr cn'"
  shows "cn_state cn \<noteq> cstate.kConnected \<and>
     (handed cn' = handed cn \<or> (\<exists>f. handed cn' = handed cn @ [f]) \<and> cn_state cn' = cstate.kConnected)"
proof (cases "cn_state cn = cstate.kConnecting")
  case True
  then obtain f cn1 where r: "Connector_removeAndResetChannel cn = Inr (f, cn1)"
    using assms by (auto simp: Connector_handleWrite_def rbind_eq_Inr_iff)
  have h: "handed cn1 = handed cn" using removeChannel_handed [OF r] by simp
  show ?thesis
  proof (cases "err \<noteq> 0 \<or> self")
    case t: True
    then have "cn' = Connector_retry f cn1" using assms True r by (auto simp: Connector_handleWrite_def split: if_splits)
    then show ?thesis using True h by (simp add: retry_hands_nothing)
  next
    case False
    then show ?thesis using assms True r h by (auto simp: Connector_handleWrite_def Let_def split: if_splits)
  qed
next
  case False
  then show ?thesis using assms by (auto simp: Connector_handleWrite_def rbind_eq_Inr_iff cassert_def split: if_splits)
qed

lemma handleWrite_hands_over: "hands_over (Connector_handleWrite err self) cn"
  using handleWrite_hands [of err self cn] by (simp add: hands_over_def)

lemma with_tcp_connector_ok:
  assumes "with_tcp_connector F (TcpClient_newConnection E ntop6 peer) c = Inr c'" "tcl_ids_ok c" "tc_connection c = None"
    and "\<And>cn'. F (tc_connector c) = Inr cn' \<Longrightarrow> handed cn' = handed (tc_connector c) \<or>
       (\<exists>f. handed cn' = handed (tc_connector c) @ [f]) \<and> cn_state cn' = cstate.kConnected"
  shows "tcl_ok c'"
proof -
  obtain cn where cn: "F (tc_connector c) = Inr cn"
    and run: "rfold (TcpClient_newConnection E ntop6 peer) (drop (length (handed (tc_connector c))) (handed cn)) (c\<lparr>tc_connector := cn\<rparr>) = Inr c'"
    using assms(1) by (auto simp: with_tcp_connector_def rbind_eq_Inr_iff)
  have ids: "tcl_ids_ok (c\<lparr>tc_connector := cn\<rparr>)" using assms(2) by (simp add: tcl_ids_ok_frame)
  from assms(4) [OF cn] show ?thesis
  proof (elim disjE conjE exE)
    assume "handed cn = handed (tc_connector c)"
    then have "c' = c\<lparr>tc_connector := cn\<rparr>" using run by simp
    then show ?thesis using ids assms(3) by (simp add: tcl_ok_def)
  next
    fix f assume f: "handed cn = handed (tc_connector c) @ [f]" and up: "cn_state cn = cstate.kConnected"
    then have "TcpClient_newConnection E ntop6 peer f (c\<lparr>tc_connector := cn\<rparr>) = Inr c'" using run by (auto simp: rbind_eq_Inr_iff)
    from tcp_newConnection_ok [OF this ids] show ?thesis using assms(3) up by (simp add: tcl_ok_def)
  qed
qed

lemma connector_event_ok:
  assumes "with_tcp_connector F (TcpClient_newConnection E ntop6 peer) c = Inr c'" "tcl_ok c" "hands_over F (tc_connector c)"
  shows "tcl_ok c'"
proof (rule with_tcp_connector_ok [OF assms(1)])
  show "tcl_ids_ok c" using assms(2) by (simp add: tcl_ok_def)
  obtain cn where "F (tc_connector c) = Inr cn" using assms(1) by (auto simp: with_tcp_connector_def rbind_eq_Inr_iff)
  then show "tc_connection c = None" using assms(2,3) by (auto simp: tcl_ok_def hands_over_def)
qed (use assms(3) in \<open>auto simp: hands_over_def\<close>)

lemma tcp_removeConnection_ok:
  assumes "TcpClient_removeConnection f e (TcpClient_newConnection E ntop6 peer) conn' (c\<lparr>tc_connection := Some conn'\<rparr>) = Inr c'"
    and "tcl_ids_ok c" "tc_connection c = Some conn" "t_id conn' = t_id conn"
  shows "tcl_ok c'"
proof -
  let ?c = "c\<lparr>tc_connection := None, tc_queue := tc_queue c @ [(t_name conn', t_id conn')]\<rparr>"
  have ids: "tcl_ids_ok ?c" using assms(2-4) by (simp add: tcl_ids_ok_def tcl_ids_def)
  have run: "(if tc_retry c \<and> tc_connect c then with_tcp_connector (Connector_restart f e) (TcpClient_newConnection E ntop6 peer) ?c
      else Inr ?c) = Inr c'" using assms(1) by (simp add: TcpClient_removeConnection_def Let_def)
  show ?thesis
  proof (cases "tc_retry c \<and> tc_connect c")
    case True
    then have "with_tcp_connector (Connector_restart f e) (TcpClient_newConnection E ntop6 peer) ?c = Inr c'" using run by simp
    then show ?thesis by (rule with_tcp_connector_ok [OF _ ids]) (auto simp: Connector_restart_def dest!: startInLoop_hands_nothing)
  next
    case False
    then have "c' = ?c" using run by (simp split: if_splits)
    then show ?thesis using ids by (simp add: tcl_ok_def)
  qed
qed

lemma conn_event_ok:
  assumes "conn_event f e (TcpClient_newConnection E ntop6 peer) conn conn' c = Inr c'"
    and "tcl_ok c" "tc_connection c = Some conn" "tcp_step E conn conn'"
  shows "tcl_ok c'"
proof -
  have ids: "tcl_ids_ok c" using assms(2) by (simp add: tcl_ok_def)
  then have live: "TClose \<notin> set (tlog conn)" "tcp_ok conn" using assms(3) by (simp_all add: tcl_ids_ok_def)
  have same: "t_id conn' = t_id conn" using tcp_step_same [OF assms(4) live(2)] by (simp add: same_conn_def)
  show ?thesis
  proof (cases "count_list (tlog conn) TClose < count_list (tlog conn') TClose")
    case True
    then show ?thesis using assms(1) tcp_removeConnection_ok [OF _ ids assms(3) same] by (simp add: conn_event_def Let_def)
  next
    case False
    then have "TClose \<notin> set (tlog conn')" "tcp_ok conn'"
      using live tcp_step_ok [OF assms(4)] by (simp_all add: count_notin count_list_0_iff)
    then have "tcl_ids_ok (c\<lparr>tc_connection := Some conn'\<rparr>)" using ids assms(3) same by (simp add: tcl_ids_ok_def tcl_ids_def)
    then show ?thesis using False assms(1-3) by (auto simp: conn_event_def Let_def tcl_ok_def)
  qed
qed

lemma disconnect_ok:
  assumes "tcl_ok c"
  shows "tcl_ok (TcpClient_disconnect c)"
proof (cases "tc_connection c")
  case None
  then show ?thesis using assms by (simp add: TcpClient_disconnect_def tcl_ok_def tcl_ids_ok_frame)
next
  case (Some conn)
  have r: "out_rel conn (TcpConnection_shutdown conn)" by (rule outp.shuts)
  have "tcp_ok conn" "TClose \<notin> set (tlog conn)" using assms Some by (simp_all add: tcl_ok_def tcl_ids_ok_def)
  then have "tcp_ok (TcpConnection_shutdown conn)" "TClose \<notin> set (tlog (TcpConnection_shutdown conn))"
    "t_id (TcpConnection_shutdown conn) = t_id conn"
    using out_rel_tcp_ok [OF r] r by (auto simp: out_rel_def)
  then show ?thesis using assms Some by (simp add: TcpClient_disconnect_def tcl_ok_def tcl_ids_ok_def tcl_ids_def)
qed

text \<open>The other events of the connector leave a connected one as it is.\<close>

lemma connected_connector_kept:
  assumes "cn_state cn = cstate.kConnected"
  shows "Connector_handleError cn = Inr cn' \<Longrightarrow> cn' = cn" "Connector_stopInLoop cn = Inr cn' \<Longrightarrow> cn' = cn"
    "cn_state (Connector_resetChannel cn) = cstate.kConnected" "cn_state (Connector_stop cn) = cstate.kConnected"
  using assms by (simp_all add: Connector_handleError_def Connector_stopInLoop_def Connector_resetChannel_def Connector_stop_def)

lemma connector_swap_ok:
  assumes "tcl_ok c" "cn_state (tc_connector c) = cstate.kConnected \<Longrightarrow> cn_state cn = cstate.kConnected"
  shows "tcl_ok (c\<lparr>tc_connector := cn\<rparr>)" "tcl_ok (c\<lparr>tc_connect := b, tc_connector := cn\<rparr>)"
  using assms by (simp_all add: tcl_ok_def tcl_ids_ok_frame)

lemma tcl_step_ok: "tcl_step E ntop6 peer c c' \<Longrightarrow> tcl_ok c \<Longrightarrow> tcl_ok c'"
proof (induction rule: tcl_step.induct)
  case (tcl_connect f e c c')
  have "tcl_ok (c\<lparr>tc_connect := True\<rparr>)" using tcl_connect.prems by (simp add: tcl_ok_def tcl_ids_ok_frame)
  then show ?case using connector_event_ok [OF _ _ start_hands_over] tcl_connect.hyps by (auto simp: TcpClient_connect_def)
next
  case (tcl_timer f e c c')
  then show ?case using connector_event_ok [OF _ _ startInLoop_hands_over] by blast
next
  case (tcl_writable err self c c')
  then show ?case using connector_event_ok [OF _ _ handleWrite_hands_over] by blast
next
  case (tcl_event c conn conn' f e c')
  then show ?case using conn_event_ok by blast
next
  case (tcl_disconnect c)
  then show ?case by (rule disconnect_ok)
next
  case (tcl_error c cn)
  then show ?case using connected_connector_kept(1) [of "tc_connector c" cn] connector_swap_ok(1) [of c cn] by auto
next
  case (tcl_stopped c cn)
  then show ?case using connected_connector_kept(2) [of "tc_connector c" cn] connector_swap_ok(1) [of c cn] by auto
qed (auto simp: TcpClient_enableRetry_def TcpClient_stop_def tcl_ok_def tcl_ids_ok_frame connected_connector_kept)

lemma tcl_init_ok: "tcl_init c \<Longrightarrow> tcl_ok c"
  by (auto simp: tcl_init_def TcpClient_ctor_def tcl_ok_def tcl_ids_ok_def tcl_ids_def INT_MAX_def)

interpretation tcl_run: inductive_invariant tcl_init "tcl_step E ntop6 peer" tcl_ok
  by unfold_locales (auto intro: tcl_init_ok tcl_step_ok)


section \<open>Properties\<close>

text \<open>A restart hands nothing over; it is connecting or has set the first timer again.\<close>

lemma tcp_restart_outcome:
  assumes "cn_channel cn = None"
  shows "rspec (Connector_restart f e cn) (\<lambda>cn'. handed cn' = handed cn \<and>
     (started_errno e \<longrightarrow> cn_state cn' = cstate.kConnecting) \<and>
     (retry_errno e \<longrightarrow> cn_state cn' = cstate.kDisconnected \<and> retries cn' = retries cn @ [kInitRetryDelayMs]))"
  using assms
  by (auto simp: Connector_restart_def Connector_startInLoop_def Connector_connect_def Connector_connecting_def
      Connector_retry_def Let_def)

text \<open>
  A TCP client and its connections: in every state a client reaches, its connections were numbered
  1, 2, 3, ... and each of them but the live one was queued for destruction exactly once, in that order. When an
  event closes the live connection, \<open>removeConnection\<close> finds it (its assertion cannot fail, whatever the event),
  queues its destruction and leaves the client without one. With retry on, the connector is then connecting again, or has set
  a timer of the initial delay; without, the client stays idle, and \<open>connect()\<close> ends the process, because the
  connector is still in the state connected.
\<close>

theorem tcp_client_close:
  assumes "reaches tcl_init (tcl_step E ntop6 peer) c" "tc_connection c = Some conn" "tcp_step E conn conn'"
    and "count_list (tlog conn) TClose < count_list (tlog conn') TClose" "cn_channel (tc_connector c) = None"
  shows "map snd (tc_queue c) @ [t_id conn] = [1..tc_nextConnId c - 1] \<and>
     rspec (conn_event f e nc conn conn' c) (\<lambda>c'.
       tc_connection c' = None \<and> tc_queue c' = tc_queue c @ [(t_name conn, t_id conn)] \<and>
       (tc_retry c \<and> tc_connect c \<and> started_errno e \<longrightarrow> cn_state (tc_connector c') = cstate.kConnecting) \<and>
       (tc_retry c \<and> tc_connect c \<and> retry_errno e \<longrightarrow> cn_state (tc_connector c') = cstate.kDisconnected \<and>
          retries (tc_connector c') = retries (tc_connector c) @ [kInitRetryDelayMs]) \<and>
       (\<not> (tc_retry c \<and> tc_connect c) \<longrightarrow> TcpClient_connect f' e' nc c' = Inl (AssertFail ''state_ == kDisconnected'')))"
proof -
  let ?c = "c\<lparr>tc_connection := None, tc_queue := tc_queue c @ [(t_name conn, t_id conn)]\<rparr>"
  have ok: "tcl_ok c" by (rule tcl_run.inv_reaches [OF assms(1)])
  then have ids: "tcl_ids c = [1..tc_nextConnId c - 1]" and "tcp_ok conn"
    and up: "cn_state (tc_connector c) = cstate.kConnected" using assms(2) by (simp_all add: tcl_ok_def tcl_ids_ok_def)
  then have same: "t_id conn' = t_id conn" "t_name conn' = t_name conn"
    using tcp_step_same [OF assms(3)] by (simp_all add: same_conn_def)
  have run: "conn_event f e nc conn conn' c =
      (if tc_retry c \<and> tc_connect c then with_tcp_connector (Connector_restart f e) nc ?c else Inr ?c)"
    using assms(4) same by (simp add: conn_event_def TcpClient_removeConnection_def Let_def)
  obtain cn where cn: "Connector_restart f e (tc_connector c) = Inr cn" "handed cn = handed (tc_connector c)"
      "started_errno e \<Longrightarrow> cn_state cn = cstate.kConnecting"
      "retry_errno e \<Longrightarrow> cn_state cn = cstate.kDisconnected \<and> retries cn = retries (tc_connector c) @ [kInitRetryDelayMs]"
    using tcp_restart_outcome [OF assms(5), of f e] by (auto simp: rspec_iff)
  have "with_tcp_connector (Connector_restart f e) nc ?c = Inr (?c\<lparr>tc_connector := cn\<rparr>)"
    using cn(1,2) by (simp add: with_tcp_connector_def)
  moreover have "TcpClient_connect f' e' nc ?c = Inl (AssertFail ''state_ == kDisconnected'')"
    using up by (simp add: TcpClient_connect_def with_tcp_connector_def Connector_start_def Connector_startInLoop_def)
  ultimately show ?thesis using ids assms(2) cn(3,4) unfolding run by (auto simp: tcl_ids_def)
qed

text \<open>A client that has connected and whose peer then closes.\<close>

definition tcl_env :: tcp_env where
  "tcl_env = \<lparr>t_connectionCallback = defaultConnectionCallback, t_messageCallback = defaultMessageCallback,
     t_writeCompleteCallback = False, t_highWaterMarkCallback = False\<rparr>"

abbreviation tcl_new :: "fd \<Rightarrow> tcp_client \<Rightarrow> tcp_client result" where
  "tcl_new \<equiv> TcpClient_newConnection tcl_env (\<lambda>_. []) (addr4 0x0100007f 7)"

definition tcl_up :: "tcp_client result" where
  "tcl_up = rbind (TcpClient_connect 9 EINPROGRESS tcl_new (TcpClient_ctor ''cli'')) (\<lambda>c1.
     rbind (with_tcp_connector (Connector_handleWrite 0 False) tcl_new c1) (\<lambda>c2.
     Inr (c2\<lparr>tc_connector := Connector_resetChannel (tc_connector c2)\<rparr>)))"

lemma tcl_up_reached: "tcl_up = Inr c \<Longrightarrow> reaches tcl_init (tcl_step tcl_env (\<lambda>_. []) (addr4 0x0100007f 7)) c"
proof -
  assume "tcl_up = Inr c"
  then obtain c1 c2 where c: "TcpClient_connect 9 EINPROGRESS tcl_new (TcpClient_ctor ''cli'') = Inr c1"
      "with_tcp_connector (Connector_handleWrite 0 False) tcl_new c1 = Inr c2"
      "c = c2\<lparr>tc_connector := Connector_resetChannel (tc_connector c2)\<rparr>"
    by (auto simp: tcl_up_def rbind_eq_Inr_iff)
  let ?R = "reaches tcl_init (tcl_step tcl_env (\<lambda>_. []) (addr4 0x0100007f 7))"
  have "?R (TcpClient_ctor ''cli'')" by (rule reaches_init) (auto simp: tcl_init_def)
  then have "?R c1" by (rule reaches_step) (rule tcl_connect [OF c(1)])
  then have "?R c2" by (rule reaches_step) (rule tcl_writable [OF c(2)])
  then show "?R c" unfolding c(3) by (rule reaches_step) (rule tcl_reset)
qed

definition tcl_closing :: "tcp_client \<Rightarrow> tcp_conn result" where
  "tcl_closing c = TcpConnection_handleClose tcl_env (the (tc_connection c))"

lemma tcl_up_runs: "rspec tcl_up (\<lambda>c. tc_connection c \<noteq> None \<and> cn_channel (tc_connector c) = None \<and> \<not> tc_retry c \<and>
   rspec (tcl_closing c) (\<lambda>conn'. count_list (tlog (the (tc_connection c))) TClose < count_list (tlog conn') TClose))"
  by code_simp

theorem tcp_client_close_witness:
  "rspec tcl_up (\<lambda>c. rspec (tcl_closing c) (\<lambda>conn'.
     rspec (conn_event 10 0 tcl_new (the (tc_connection c)) conn' c) (\<lambda>c'. tc_connection c' = None \<and>
       TcpClient_connect 11 0 tcl_new c' = Inl (AssertFail ''state_ == kDisconnected''))))"
proof -
  obtain c conn' where c: "tcl_up = Inr c" "tc_connection c \<noteq> None" "cn_channel (tc_connector c) = None" "\<not> tc_retry c"
      "tcl_closing c = Inr conn'" "count_list (tlog (the (tc_connection c))) TClose < count_list (tlog conn') TClose"
    using tcl_up_runs by (auto simp: rspec_iff)
  have s: "tcp_step tcl_env (the (tc_connection c)) conn'" using c(5) by (auto simp: tcl_closing_def intro: ts_close)
  have "tc_connection c = Some (the (tc_connection c))" using c(2) by simp
  from tcp_client_close [OF tcl_up_reached [OF c(1)] this s c(6,3), of 10 0 tcl_new 11 0] c(4) show ?thesis
    unfolding c(1,5) rspec_Inr by (auto simp: rspec_iff)
qed

end
