(* ===== verification/LogStream.thy ===== *)
theory LogStream
  imports Prelude "HOL-Library.Signed_Division"
begin

text \<open>
  The log stream (\<open>third/muduo/base/LogStream.h\<close>, \<open>LogStream.cc\<close>): a fixed buffer of characters, the conversion
  of integers and pointers, and the operators that append to the stream. A write beyond the array is
  \<open>Undefined\<close>. The texts that \<open>snprintf\<close> makes of doubles and of the values of a \<open>Fmt\<close> are arguments. An integer type is the range
  of its values; C's \<open>/\<close> and \<open>%\<close> truncate, which are \<open>sdiv\<close> and \<open>smod\<close>.
\<close>

section \<open>\<open>FixedBuffer\<close>\<close>

definition kSmallBuffer :: nat where "kSmallBuffer = 4000"

record fixed_buffer =
  fb_data :: string
  fb_cur :: nat

text \<open>The array is not initialised: \<open>d\<close> is what it happens to hold.\<close>

definition FixedBuffer_ctor :: "string \<Rightarrow> fixed_buffer" where
  "FixedBuffer_ctor d = \<lparr>fb_data = d, fb_cur = 0\<rparr>"

definition FixedBuffer_avail :: "fixed_buffer \<Rightarrow> int" where
  "FixedBuffer_avail b = int (length (fb_data b)) - int (fb_cur b)"

definition FixedBuffer_length :: "fixed_buffer \<Rightarrow> nat" where
  "FixedBuffer_length b = fb_cur b"

definition FixedBuffer_add :: "nat \<Rightarrow> fixed_buffer \<Rightarrow> fixed_buffer" where
  "FixedBuffer_add n b = b\<lparr>fb_cur := fb_cur b + n\<rparr>"

definition FixedBuffer_reset :: "fixed_buffer \<Rightarrow> fixed_buffer" where
  "FixedBuffer_reset b = b\<lparr>fb_cur := 0\<rparr>"

definition FixedBuffer_bzero :: "fixed_buffer \<Rightarrow> fixed_buffer" where
  "FixedBuffer_bzero b = b\<lparr>fb_data := replicate (length (fb_data b)) (CHR 0x00)\<rparr>"

text \<open>A store at the current position.\<close>

definition fb_write :: "string \<Rightarrow> fixed_buffer \<Rightarrow> fixed_buffer result" where
  "fb_write s b = (if fb_cur b + length s \<le> length (fb_data b) then Inr (b\<lparr>fb_data := blit (fb_cur b) s (fb_data b)\<rparr>)
     else Inl (Undefined ''write past data_''))"

definition FixedBuffer_append :: "string \<Rightarrow> fixed_buffer \<Rightarrow> fixed_buffer result" where
  "FixedBuffer_append s b =
     (if FixedBuffer_avail b > int (length s)
      then rbind (fb_write s b) (\<lambda>b'. Inr (FixedBuffer_add (length s) b')) else Inr b)"

definition FixedBuffer_debugString :: "fixed_buffer \<Rightarrow> fixed_buffer result" where
  "FixedBuffer_debugString b = fb_write [CHR 0x00] b"

definition FixedBuffer_toString :: "fixed_buffer \<Rightarrow> string" where
  "FixedBuffer_toString b = take (fb_cur b) (fb_data b)"

section \<open>Conversions\<close>

definition digits :: string where "digits = ''9876543210123456789''"

text \<open>\<open>zero[lsd]\<close>, where \<open>zero\<close> points at the tenth character.\<close>

definition zero_at :: "int \<Rightarrow> char" where
  "zero_at lsd = digits ! nat (9 + lsd)"

definition digitsHex :: string where "digitsHex = ''0123456789ABCDEF''"

text \<open>The \<open>do\<close> loop: the characters it stores, in order.\<close>

function convert_loop :: "int \<Rightarrow> string" where
  "convert_loop i =
     (let lsd = i smod 10; i' = i sdiv 10
      in zero_at lsd # (if i' \<noteq> 0 then convert_loop i' else []))"
  by pat_completeness auto

termination
proof (relation "measure (\<lambda>i. nat \<bar>i\<bar>)")
  fix i lsd i' :: int
  assume "i' = i sdiv 10" "i' \<noteq> 0"
  then show "(i', i) \<in> measure (\<lambda>i. nat \<bar>i\<bar>)"
    by (cases "0 \<le> i") (auto simp: signed_divide_int_def sgn_if split: if_splits)
qed simp

declare convert_loop.simps [simp del]

definition convert :: "int \<Rightarrow> string" where
  "convert value = rev (convert_loop value @ (if value < 0 then ''-'' else ''''))"

function convertHex_loop :: "nat \<Rightarrow> string" where
  "convertHex_loop i =
     (let lsd = i mod 16; i' = i div 16
      in digitsHex ! lsd # (if i' \<noteq> 0 then convertHex_loop i' else []))"
  by pat_completeness auto

termination
  by (relation "measure id") auto

declare convertHex_loop.simps [simp del]

definition convertHex :: "nat \<Rightarrow> string" where
  "convertHex value = rev (convertHex_loop value)"

section \<open>\<open>LogStream\<close>\<close>

definition kMaxNumericSize :: nat where "kMaxNumericSize = 32"

text \<open>\<open>convert\<close> ends its text with a zero byte, which \<open>add\<close> does not count.\<close>

definition LogStream_formatInteger :: "int \<Rightarrow> fixed_buffer \<Rightarrow> fixed_buffer result" where
  "LogStream_formatInteger v b =
     (if FixedBuffer_avail b \<ge> int kMaxNumericSize
      then rbind (fb_write (convert v @ [CHR 0x00]) b) (\<lambda>b'. Inr (FixedBuffer_add (length (convert v)) b'))
      else Inr b)"

definition LogStream_putPointer :: "nat \<Rightarrow> fixed_buffer \<Rightarrow> fixed_buffer result" where
  "LogStream_putPointer v b =
     (if FixedBuffer_avail b \<ge> int kMaxNumericSize
      then rbind (fb_write (''0x'' @ convertHex v @ [CHR 0x00]) b) (\<lambda>b'. Inr (FixedBuffer_add (length (convertHex v) + 2) b'))
      else Inr b)"

text \<open>\<open>txt\<close> is what \<open>%.12g\<close> makes of the double; \<open>snprintf\<close> stores what fits and returns the whole length.\<close>

definition LogStream_putDouble :: "string \<Rightarrow> fixed_buffer \<Rightarrow> fixed_buffer result" where
  "LogStream_putDouble dtext b =
     (if FixedBuffer_avail b \<ge> int kMaxNumericSize
      then rbind (fb_write (snprintf_cut kMaxNumericSize dtext @ [CHR 0x00]) b) (\<lambda>b'. Inr (FixedBuffer_add (length dtext) b'))
      else Inr b)"

definition strlen :: "string \<Rightarrow> nat" where
  "strlen s = length (takeWhile (\<lambda>c. c \<noteq> CHR 0x00) s)"

definition LogStream_putCString :: "string option \<Rightarrow> fixed_buffer \<Rightarrow> fixed_buffer result" where
  "LogStream_putCString str b =
     (case str of Some s \<Rightarrow> FixedBuffer_append (take (strlen s) s) b | None \<Rightarrow> FixedBuffer_append ''(null)'' b)"

text \<open>A \<open>Fmt\<close> holds the text \<open>snprintf\<close> made, and asserts that it was not cut.\<close>

definition Fmt_ctor :: "string \<Rightarrow> string result" where
  "Fmt_ctor ftext = rbind (cassert (length ftext < 32) ''length_ < sizeof buf_'') (\<lambda>_. Inr ftext)"

text \<open>What can be put into a stream: the overloads of \<open>operator<<\<close>.\<close>

datatype log_item =
    LBool bool
  | LInteger int
  | LPointer nat
  | LDouble string
  | LChar char
  | LCString "string option"
  | LString string
  | LFmt string

fun LogStream_put :: "log_item \<Rightarrow> fixed_buffer \<Rightarrow> fixed_buffer result" where
  "LogStream_put (LBool v) b = FixedBuffer_append (if v then ''1'' else ''0'') b"
| "LogStream_put (LInteger v) b = LogStream_formatInteger v b"
| "LogStream_put (LPointer v) b = LogStream_putPointer v b"
| "LogStream_put (LDouble t) b = LogStream_putDouble t b"
| "LogStream_put (LChar v) b = FixedBuffer_append [v] b"
| "LogStream_put (LCString v) b = LogStream_putCString v b"
| "LogStream_put (LString v) b = FixedBuffer_append v b"
| "LogStream_put (LFmt t) b = rbind (Fmt_ctor t) (\<lambda>t'. FixedBuffer_append t' b)"

section \<open>The conversions compute the usual notation\<close>

lemma zero_at_abs:
  assumes "\<bar>d\<bar> < 10"
  shows "zero_at d = digit_char (nat \<bar>d\<bar>)"
proof -
  have "d = -9 \<or> d = -8 \<or> d = -7 \<or> d = -6 \<or> d = -5 \<or> d = -4 \<or> d = -3 \<or> d = -2 \<or> d = -1 \<or> d = 0 \<or>
    d = 1 \<or> d = 2 \<or> d = 3 \<or> d = 4 \<or> d = 5 \<or> d = 6 \<or> d = 7 \<or> d = 8 \<or> d = 9" using assms by arith
  then show ?thesis
    by (elim disjE) (simp_all add: zero_at_def digits_def digit_char_def nth_Cons' char_of_def bit_0)
qed

text \<open>Truncating division treats both signs alike.\<close>

lemma trunc_abs: "nat \<bar>i sdiv 10\<bar> = nat \<bar>i\<bar> div 10" "nat \<bar>i smod 10\<bar> = nat \<bar>i\<bar> mod 10"
proof -
  have "\<bar>i sdiv 10\<bar> = \<bar>i\<bar> div 10" by (cases i "0 :: int" rule: linorder_cases) (auto simp: signed_divide_int_def)
  then show "nat \<bar>i sdiv 10\<bar> = nat \<bar>i\<bar> div 10" by (simp add: nat_div_distrib)
  have "\<bar>i smod 10\<bar> = \<bar>i\<bar> mod 10"
    by (cases i "0 :: int" rule: linorder_cases) (auto simp: signed_modulo_int_def signed_divide_int_def minus_div_mult_eq_mod [symmetric])
  then show "nat \<bar>i smod 10\<bar> = nat \<bar>i\<bar> mod 10" by (simp add: nat_mod_distrib)
qed

lemma convert_loop_show: "rev (convert_loop i) = show_nat (nat \<bar>i\<bar>)"
proof (induction i rule: convert_loop.induct)
  case (1 i)
  have "\<bar>i smod 10\<bar> < 10" using trunc_abs(2) [of i] by (metis abs_ge_zero nat_less_iff of_nat_numeral mod_less_divisor zero_less_numeral)
  then have z: "zero_at (i smod 10) = digit_char (nat \<bar>i\<bar> mod 10)" by (simp add: zero_at_abs trunc_abs)
  show ?case
  proof (cases "i sdiv 10 = 0")
    case True
    then have "nat \<bar>i\<bar> div 10 = 0" using trunc_abs(1) [of i] by simp
    then have "nat \<bar>i\<bar> < 10" by simp
    then show ?thesis using True z by (simp add: convert_loop.simps [of i] show_nat.simps [of "nat \<bar>i\<bar>"])
  next
    case False
    then have "nat \<bar>i\<bar> div 10 \<noteq> 0" using trunc_abs(1) [of i] by auto
    then have "\<not> nat \<bar>i\<bar> < 10" by simp
    then show ?thesis
      using 1 [OF refl refl False] False z by (simp add: convert_loop.simps [of i] show_nat.simps [of "nat \<bar>i\<bar>"] trunc_abs)
  qed
qed

lemma convert_eq: "convert v = show_int v"
  using convert_loop_show [of v] by (auto simp: convert_def show_int_def)


definition hex_value :: "string \<Rightarrow> nat" where
  "hex_value s = foldl (\<lambda>a c. 16 * a + (if of_char c < (58 :: nat) then of_char c - 48 else of_char c - 55)) 0 s"

lemma hex_value_digit:
  assumes "d < 16"
  shows "hex_value (s @ [digitsHex ! d]) = 16 * hex_value s + d"
proof -
  have "d = 0 \<or> d = 1 \<or> d = 2 \<or> d = 3 \<or> d = 4 \<or> d = 5 \<or> d = 6 \<or> d = 7 \<or> d = 8 \<or> d = 9 \<or> d = 10 \<or> d = 11 \<or> d = 12 \<or>
    d = 13 \<or> d = 14 \<or> d = 15" using assms by arith
  then show ?thesis by (elim disjE) (simp_all add: hex_value_def digitsHex_def)
qed

lemma convertHex_value: "hex_value (convertHex v) = v"
  unfolding convertHex_def
proof (induction v rule: convertHex_loop.induct)
  case (1 i)
  show ?case
  proof (cases "i div 16 = 0")
    case True
    then have "i mod 16 = i" by (simp add: div_eq_0_iff)
    then show ?thesis using True hex_value_digit [of "i mod 16" "[]"] by (simp add: convertHex_loop.simps [of i] hex_value_def [of "[]"])
  next
    case False
    then show ?thesis
      using 1 [OF refl refl False] hex_value_digit [of "i mod 16"] by (simp add: convertHex_loop.simps [of i])
  qed
qed

lemma length_convertHex: "v < 16 ^ k \<Longrightarrow> 0 < k \<Longrightarrow> length (convertHex v) \<le> k"
proof (induction k arbitrary: v)
  case (Suc k)
  show ?case
  proof (cases "v div 16 = 0")
    case True
    then show ?thesis by (simp add: convertHex_def convertHex_loop.simps [of v])
  next
    case False
    then have "v div 16 < 16 ^ k" using Suc.prems by auto
    moreover have "0 < k" using False Suc.prems by (cases k) auto
    ultimately have "length (convertHex (v div 16)) \<le> k" by (rule Suc.IH)
    then show ?thesis using False by (simp add: convertHex_def convertHex_loop.simps [of v])
  qed
qed simp

section \<open>What a stream holds\<close>

fun item_text :: "log_item \<Rightarrow> string" where
  "item_text (LBool v) = (if v then ''1'' else ''0'')"
| "item_text (LInteger v) = show_int v"
| "item_text (LPointer v) = ''0x'' @ convertHex v"
| "item_text (LDouble t) = t"
| "item_text (LChar v) = [v]"
| "item_text (LCString v) = (case v of Some s \<Rightarrow> takeWhile (\<lambda>c. c \<noteq> CHR 0x00) s | None \<Rightarrow> ''(null)'')"
| "item_text (LString v) = v"
| "item_text (LFmt t) = t"

fun item_numeric :: "log_item \<Rightarrow> bool" where
  "item_numeric (LInteger v) = True"
| "item_numeric (LPointer v) = True"
| "item_numeric (LDouble t) = True"
| "item_numeric _ = False"

text \<open>The values of the C++ types: 64-bit integers and pointers; \<open>%.12g\<close> has at most 19 characters.\<close>

fun item_ok :: "log_item \<Rightarrow> bool" where
  "item_ok (LInteger v) = (- (2 ^ 63) \<le> v \<and> v < 2 ^ 64)"
| "item_ok (LPointer v) = (v < 2 ^ 64)"
| "item_ok (LDouble t) = (length t \<le> 19)"
| "item_ok (LFmt t) = (length t < 32)"
| "item_ok _ = True"

text \<open>The specification of \<open>operator<<\<close>: an item is appended whole or not at all.\<close>

definition log_spec :: "log_item \<Rightarrow> string \<Rightarrow> string" where
  "log_spec x acc =
     (if (if item_numeric x then length acc + kMaxNumericSize \<le> kSmallBuffer else length acc + length (item_text x) < kSmallBuffer)
      then acc @ item_text x else acc)"

definition holds_text :: "string \<Rightarrow> fixed_buffer \<Rightarrow> bool" where
  "holds_text acc b \<longleftrightarrow> length (fb_data b) = kSmallBuffer \<and> fb_cur b = length acc \<and> length acc \<le> kSmallBuffer \<and>
     take (length acc) (fb_data b) = acc"

lemma holds_text_toString: "holds_text acc b \<Longrightarrow> FixedBuffer_toString b = acc"
  by (simp add: holds_text_def FixedBuffer_toString_def)

text \<open>A store of \<open>s\<close>, of which \<open>n\<close> characters are then counted.\<close>

lemma fb_store:
  assumes "holds_text acc b" "length acc + length s \<le> kSmallBuffer" "n \<le> length s"
  shows "rspec (rbind (fb_write s b) (\<lambda>b'. Inr (FixedBuffer_add n b'))) (holds_text (acc @ take n s))"
  using assms by (auto simp: holds_text_def fb_write_def FixedBuffer_add_def blit_def)

lemma append_holds:
  assumes "holds_text acc b"
  shows "rspec (FixedBuffer_append s b) (holds_text (if length acc + length s < kSmallBuffer then acc @ s else acc))"
proof (cases "length acc + length s < kSmallBuffer")
  case True
  then show ?thesis using fb_store [OF assms, of s "length s"] assms by (simp add: FixedBuffer_append_def FixedBuffer_avail_def holds_text_def)
next
  case False
  then show ?thesis using assms by (simp add: FixedBuffer_append_def FixedBuffer_avail_def holds_text_def)
qed

lemma append_item:
  assumes "holds_text acc b" "item_text x = s" "\<not> item_numeric x"
  shows "rspec (FixedBuffer_append s b) (holds_text (log_spec x acc))"
  using append_holds [OF assms(1), of s] assms(2,3) by (simp add: log_spec_def cong: if_cong split del: if_split)

lemma length_integer: "- (2 ^ 63) \<le> v \<Longrightarrow> v < 2 ^ 64 \<Longrightarrow> length (show_int v) \<le> 20"
  using length_show_nat [of "nat v" 20] length_show_nat [of "nat (- v)" 19] by (auto simp: show_int_def nat_less_iff)

lemma numeric_holds:
  assumes "holds_text acc b" "length s < kMaxNumericSize"
  shows "rspec (if FixedBuffer_avail b \<ge> int kMaxNumericSize
      then rbind (fb_write (s @ [CHR 0x00]) b) (\<lambda>b'. Inr (FixedBuffer_add (length s) b')) else Inr b)
     (holds_text (if length acc + kMaxNumericSize \<le> kSmallBuffer then acc @ s else acc))"
proof (cases "length acc + kMaxNumericSize \<le> kSmallBuffer")
  case True
  then show ?thesis
    using fb_store [OF assms(1), of "s @ [CHR 0x00]" "length s"] assms by (simp add: FixedBuffer_avail_def holds_text_def)
next
  case False
  then show ?thesis using assms by (simp add: FixedBuffer_avail_def holds_text_def)
qed

lemma put_holds:
  assumes "holds_text acc b" "item_ok x"
  shows "rspec (LogStream_put x b) (holds_text (log_spec x acc))"
proof (cases x)
  case (LInteger v)
  then have "length (show_int v) < kMaxNumericSize" using length_integer [of v] assms(2) by (simp add: kMaxNumericSize_def)
  from numeric_holds [OF assms(1) this] show ?thesis
    unfolding LInteger LogStream_put.simps LogStream_formatInteger_def log_spec_def convert_eq item_text.simps item_numeric.simps if_True .
next
  case (LPointer v)
  then have "length (''0x'' @ convertHex v) < kMaxNumericSize"
    using length_convertHex [of v 16] assms(2) by (simp add: kMaxNumericSize_def)
  from numeric_holds [OF assms(1) this] show ?thesis using LPointer
    by (simp add: LogStream_putPointer_def log_spec_def cong: if_cong split del: if_split)
next
  case (LDouble t)
  then have t: "length t < kMaxNumericSize" "snprintf_cut kMaxNumericSize t = t"
    using assms(2) by (simp_all add: kMaxNumericSize_def snprintf_cut_def)
  from numeric_holds [OF assms(1) t(1)] show ?thesis using LDouble t(2)
    by (simp add: LogStream_putDouble_def log_spec_def cong: if_cong split del: if_split)
next
  case (LCString v)
  then show ?thesis using append_item [OF assms(1), of x]
    by (cases v) (simp_all add: LogStream_putCString_def strlen_def takeWhile_eq_take [symmetric])
next
  case (LFmt t)
  then show ?thesis using append_item [OF assms(1), of x] assms(2) by (simp add: Fmt_ctor_def)
qed (use append_item [OF assms(1), of x] in simp_all)

lemma puts_hold:
  assumes "holds_text acc b" "list_all item_ok xs"
  shows "rspec (rfold LogStream_put xs b) (holds_text (fold log_spec xs acc))"
  using assms
proof (induction xs arbitrary: acc b)
  case (Cons x xs)
  then show ?case using put_holds [OF Cons.prems(1), of x] by (auto simp: rspec_iff)
qed simp

lemma holds_fresh: "length d = kSmallBuffer \<Longrightarrow> holds_text [] (FixedBuffer_ctor d)"
  by (simp add: holds_text_def FixedBuffer_ctor_def)

lemma specs_all_fit:
  assumes "length acc + length (concat (map item_text xs)) + kMaxNumericSize \<le> kSmallBuffer"
  shows "fold log_spec xs acc = acc @ concat (map item_text xs)"
  using assms
proof (induction xs arbitrary: acc)
  case (Cons x xs)
  then have "log_spec x acc = acc @ item_text x" by (auto simp: log_spec_def kMaxNumericSize_def)
  then show ?case using Cons.IH [of "acc @ item_text x"] Cons.prems by simp
qed simp

section \<open>Properties\<close>

text \<open>
  The integer conversion is the decimal notation: for every value of every integer type, the smallest one included,
  the loop over truncated quotients, its table of nineteen digits and the final reversal give the same text
  as the textbook definition, with the sign in front; and the text of a pointer reads back as the pointer.
\<close>

theorem convert_is_decimal:
  "convert v = (if v < 0 then ''-'' @ show_nat (nat (- v)) else show_nat (nat v)) \<and>
   read_nat (dropWhile (\<lambda>c. c = CHR ''-'') (convert v)) = nat \<bar>v\<bar> \<and> hex_value (convertHex p) = p"
proof -
  have "dropWhile (\<lambda>c. c = CHR ''-'') (show_nat n) = show_nat n" for n
  proof -
    obtain d where "hd (show_nat n) = digit_char d" "d < 10" using show_nat_digits [of "hd (show_nat n)" n] by auto
    then have "hd (show_nat n) \<noteq> CHR ''-''" by (auto simp: digit_char_def char_of_eq_iff take_bit_eq_mod)
    then show ?thesis by (cases "show_nat n") simp_all
  qed
  then show ?thesis by (auto simp: convert_eq show_int_def convertHex_value)
qed

text \<open>
  C22. A log stream never writes outside its array and never cuts an item: whatever is put into a fresh stream (any array contents,
  any number of items), the stream holds exactly the concatenation of the items that were accepted,
  each whole; an item is dropped when it does not fit, and a number as soon as fewer than 32 characters are
  left; nothing is dropped while the whole text leaves 32 characters free.
\<close>

theorem log_stream_contents:
  assumes "length d = kSmallBuffer" "list_all item_ok xs"
  shows "rspec (rfold LogStream_put xs (FixedBuffer_ctor d)) (\<lambda>b.
     FixedBuffer_toString b = fold log_spec xs [] \<and> FixedBuffer_length b \<le> kSmallBuffer \<and>
     length (fb_data b) = kSmallBuffer \<and>
     (length (concat (map item_text xs)) + 32 \<le> 4000 \<longrightarrow> FixedBuffer_toString b = concat (map item_text xs)))"
  using puts_hold [OF holds_fresh [OF assms(1)] assms(2)]
proof (rule rspec_mono)
  fix b assume b: "holds_text (fold log_spec xs []) b"
  moreover have "fold log_spec xs [] = concat (map item_text xs)" if "length (concat (map item_text xs)) + 32 \<le> 4000"
    using specs_all_fit [of "[]" xs] that by (simp add: kMaxNumericSize_def kSmallBuffer_def)
  ultimately show "FixedBuffer_toString b = fold log_spec xs [] \<and> FixedBuffer_length b \<le> kSmallBuffer \<and> length (fb_data b) = kSmallBuffer \<and>
     (length (concat (map item_text xs)) + 32 \<le> 4000 \<longrightarrow> FixedBuffer_toString b = concat (map item_text xs))"
    using holds_text_toString [OF b] by (simp add: holds_text_def FixedBuffer_length_def)
qed

definition log_line :: "log_item list" where
  "log_line = [LCString (Some ''fd=''), LInteger (-12), LChar CHR '' '', LPointer 190, LBool True, LCString None]"

theorem log_stream_contents_witness:
  "rspec (rfold LogStream_put log_line (FixedBuffer_ctor (replicate kSmallBuffer (CHR 0x00))))
     (\<lambda>b. FixedBuffer_toString b = ''fd=-12 0xBE1(null)'')"
proof -
  have t: "concat (map item_text log_line) = ''fd=-12 0xBE1(null)''" by code_simp
  have ok: "list_all item_ok log_line" by (simp add: log_line_def)
  have d: "length (replicate kSmallBuffer (CHR 0x00)) = kSmallBuffer" by simp
  from log_stream_contents [OF d ok] show ?thesis by (rule rspec_mono) (use t in auto)
qed

end
