(* ===== verification/Calendar.thy ===== *)
theory Calendar
  imports Prelude "HOL-Library.Signed_Division" "HOL-Library.Product_Lexorder"
begin

text \<open>
  Dates and UTC times (\<open>third/muduo/base/Date.h\<close>, \<open>Date.cc\<close> and the UTC part of \<open>TimeZone.cc\<close>). C's division truncates
  (\<open>sdiv\<close>, \<open>smod\<close>), and a signed overflow is \<open>Undefined\<close>: \<open>fits_int\<close> lists the values a computation goes through.
  The reference is the Gregorian calendar as a successor function on dates.
\<close>

definition fits_int :: "int list \<Rightarrow> unit result" where
  "fits_int xs = (if list_all (\<lambda>x. - (2 ^ 31) \<le> x \<and> x < 2 ^ 31) xs then Inr () else Inl (Undefined ''signed overflow''))"

record YearMonthDay =
  year :: int
  month :: int
  day :: int

definition getJulianDayNumber :: "int \<Rightarrow> int \<Rightarrow> int \<Rightarrow> int result" where
  "getJulianDayNumber yr mon dy =
     (let a = (14 - mon) sdiv 12;
          y = yr + 4800 - a;
          m = mon + 12 * a - 3;
          s1 = dy + (153 * m + 2) sdiv 5;
          s2 = s1 + y * 365;
          s3 = s2 + y sdiv 4;
          s4 = s3 - y sdiv 100;
          s5 = s4 + y sdiv 400;
          s6 = s5 - 32045
      in rbind (fits_int [14 - mon, yr + 4800, y, 12 * a, mon + 12 * a, m, 153 * m, 153 * m + 2, s1, y * 365, s2, s3, s4, s5, s6])
         (\<lambda>_. Inr s6))"

definition getYearMonthDay :: "int \<Rightarrow> YearMonthDay result" where
  "getYearMonthDay julianDayNumber =
     (let a = julianDayNumber + 32044;
          b = (4 * a + 3) sdiv 146097;
          c = a - (b * 146097) sdiv 4;
          d = (4 * c + 3) sdiv 1461;
          e = c - (1461 * d) sdiv 4;
          m = (5 * e + 2) sdiv 153;
          dy = e - (153 * m + 2) sdiv 5 + 1;
          mon = m + 3 - 12 * (m sdiv 10);
          yr = b * 100 + d - 4800 + m sdiv 10
      in rbind (fits_int [a, 4 * a, 4 * a + 3, b * 146097, c, 4 * c, 4 * c + 3, 1461 * d, e, 5 * e, 5 * e + 2, 153 * m, 153 * m + 2,
           e - (153 * m + 2) sdiv 5, dy, m + 3, 12 * (m sdiv 10), mon, b * 100, b * 100 + d, b * 100 + d - 4800, yr])
         (\<lambda>_. Inr \<lparr>year = yr, month = mon, day = dy\<rparr>))"

definition kJulianDayOf1970_01_01 :: int where "kJulianDayOf1970_01_01 = 2440588"

definition kDaysPerWeek :: int where "kDaysPerWeek = 7"

text \<open>A \<open>Date\<close> is its Julian day number.\<close>

definition Date_valid :: "int \<Rightarrow> bool" where
  "Date_valid julianDayNumber \<longleftrightarrow> julianDayNumber > 0"

definition Date_weekDay :: "int \<Rightarrow> int" where
  "Date_weekDay julianDayNumber = (julianDayNumber + 1) smod kDaysPerWeek"

text \<open>\<open>%4d\<close> pads with blanks, \<open>%02d\<close> with zeros (after the sign).\<close>

definition pad_blank :: "nat \<Rightarrow> string \<Rightarrow> string" where
  "pad_blank n s = replicate (n - length s) (CHR '' '') @ s"

definition fmt_0d :: "nat \<Rightarrow> int \<Rightarrow> string" where
  "fmt_0d n i = (if i < 0 then ''-'' @ replicate (n - 1 - length (show_nat (nat (- i)))) (CHR ''0'') @ show_nat (nat (- i))
     else replicate (n - length (show_nat (nat i))) (CHR ''0'') @ show_nat (nat i))"

definition Date_toIsoString :: "int \<Rightarrow> string result" where
  "Date_toIsoString julianDayNumber =
     rbind (getYearMonthDay julianDayNumber) (\<lambda>ymd.
     Inr (snprintf_cut 32 (pad_blank 4 (show_int (year ymd)) @ ''-'' @ fmt_0d 2 (month ymd) @ ''-'' @ fmt_0d 2 (day ymd))))"

section \<open>UTC times\<close>

record tm =
  tm_sec :: int
  tm_min :: int
  tm_hour :: int
  tm_mday :: int
  tm_mon :: int
  tm_year :: int
  tm_wday :: int
  tm_yday :: int
  tm_isdst :: bool
  tm_gmtoff :: int
  tm_zone :: string

definition kSecondsPerDay :: int where "kSecondsPerDay = 24 * 60 * 60"

text \<open>\<open>bzero\<close>: all fields are zero.\<close>

definition tm_zero :: tm where
  "tm_zero = \<lparr>tm_sec = 0, tm_min = 0, tm_hour = 0, tm_mday = 0, tm_mon = 0, tm_year = 0, tm_wday = 0, tm_yday = 0,
     tm_isdst = False, tm_gmtoff = 0, tm_zone = []\<rparr>"

definition fillHMS :: "int \<Rightarrow> tm \<Rightarrow> tm" where
  "fillHMS seconds utc =
     (let minutes = seconds div 60
      in utc\<lparr>tm_sec := seconds mod 60, tm_min := minutes mod 60, tm_hour := minutes div 60\<rparr>)"

definition TimeZone_toUtcTime :: "int \<Rightarrow> bool \<Rightarrow> tm result" where
  "TimeZone_toUtcTime secondsSinceEpoch yday =
     (let s0 = secondsSinceEpoch smod kSecondsPerDay; d0 = secondsSinceEpoch sdiv kSecondsPerDay
      in rbind (fits_int [s0, d0]) (\<lambda>_.
         let (seconds, days) = (if s0 < 0 then (s0 + kSecondsPerDay, d0 - 1) else (s0, d0));
             utc = fillHMS seconds (tm_zero\<lparr>tm_zone := ''GMT''\<rparr>);
             date = days + kJulianDayOf1970_01_01
         in rbind (fits_int [seconds, days, date, date + 1]) (\<lambda>_.
            rbind (getYearMonthDay date) (\<lambda>ymd.
            let utc1 = utc\<lparr>tm_mday := day ymd, tm_mon := month ymd - 1, tm_year := year ymd - 1900, tm_wday := Date_weekDay date\<rparr>
            in if yday then rbind (getJulianDayNumber (year ymd) 1 1) (\<lambda>start. Inr (utc1\<lparr>tm_yday := date - start\<rparr>))
               else Inr utc1))))"

definition fromUtcTime_fields :: "int \<Rightarrow> int \<Rightarrow> int \<Rightarrow> int \<Rightarrow> int \<Rightarrow> int \<Rightarrow> int result" where
  "fromUtcTime_fields yr mon dy hr minute seconds =
     rbind (getJulianDayNumber yr mon dy) (\<lambda>date.
     let secondsInDay = hr * 3600 + minute * 60 + seconds; days = date - kJulianDayOf1970_01_01
     in rbind (fits_int [hr * 3600, minute * 60, hr * 3600 + minute * 60, secondsInDay, days]) (\<lambda>_.
        Inr (days * kSecondsPerDay + secondsInDay)))"

definition TimeZone_fromUtcTime :: "tm \<Rightarrow> int result" where
  "TimeZone_fromUtcTime utc =
     rbind (fits_int [tm_year utc + 1900, tm_mon utc + 1]) (\<lambda>_.
     fromUtcTime_fields (tm_year utc + 1900) (tm_mon utc + 1) (tm_mday utc) (tm_hour utc) (tm_min utc) (tm_sec utc))"

section \<open>The Gregorian calendar\<close>

definition leap :: "int \<Rightarrow> bool" where
  "leap y \<longleftrightarrow> 4 dvd y \<and> (100 dvd y \<longrightarrow> 400 dvd y)"

definition days_in_month :: "int \<Rightarrow> int \<Rightarrow> int" where
  "days_in_month y m = (if m = 2 then (if leap y then 29 else 28) else if m \<in> {4, 6, 9, 11} then 30 else 31)"

definition valid_date :: "int \<times> int \<times> int \<Rightarrow> bool" where
  "valid_date = (\<lambda>(y, m, d). 1 \<le> m \<and> m \<le> 12 \<and> 1 \<le> d \<and> d \<le> days_in_month y m)"

definition next_day :: "int \<times> int \<times> int \<Rightarrow> int \<times> int \<times> int" where
  "next_day = (\<lambda>(y, m, d). if d < days_in_month y m then (y, m, d + 1) else if m < 12 then (y, m + 1, 1) else (y + 1, 1, 1))"

text \<open>The day number, with the year beginning in March; \<open>y\<close> and \<open>m\<close> are the shifted ones.\<close>

definition march_day :: "int \<Rightarrow> int" where
  "march_day m = (153 * m + 2) div 5"

definition year_day :: "int \<Rightarrow> int" where
  "year_day y = 365 * y + y div 4 - y div 100 + y div 400"

definition day_number :: "int \<times> int \<times> int \<Rightarrow> int" where
  "day_number = (\<lambda>(y, m, d). let a = (if m \<le> 2 then 1 else 0)
     in d + march_day (m + 12 * a - 3) + year_day (y + (4800 - a)) - 32045)"

lemma months:
  assumes "1 \<le> (m :: int)" "m \<le> 12"
  shows "m \<in> {1, 2, 3, 4, 5, 6, 7, 8, 9, 10, 11, 12}"
proof -
  have "m = 1 \<or> m = 2 \<or> m = 3 \<or> m = 4 \<or> m = 5 \<or> m = 6 \<or> m = 7 \<or> m = 8 \<or> m = 9 \<or> m = 10 \<or> m = 11 \<or> m = 12"
    using assms by presburger
  then show ?thesis by simp
qed

lemma div_Suc_int:
  assumes "0 < (n :: int)"
  shows "(x + 1) div n = x div n + (if n dvd x + 1 then 1 else 0)"
proof -
  show ?thesis
  proof (cases "x mod n = n - 1")
    case True
    then have "x + 1 = n * (x div n) + n" using mult_div_mod_eq [of n x] by linarith
    then have "x + 1 = n * (x div n + 1)" by (simp add: distrib_left)
    then show ?thesis using assms by simp
  next
    case False
    then have r: "0 \<le> x mod n + 1" "x mod n + 1 < n" using assms pos_mod_bound [of n x] pos_mod_sign [of n x] by linarith+
    have e: "x + 1 = n * (x div n) + (x mod n + 1)" using mult_div_mod_eq [of n x] by linarith
    have "(x + 1) div n = x div n" by (rule int_div_pos_eq [OF e r])
    moreover have "(x + 1) mod n = x mod n + 1" by (rule int_mod_pos_eq [OF e r])
    moreover have "x mod n + 1 \<noteq> 0" using assms pos_mod_sign [of n x] by linarith
    ultimately show ?thesis by (simp add: dvd_eq_mod_eq_0)
  qed
qed

lemma year_day_Suc: "year_day (y + 4800) = year_day (y + 4799) + 365 + (if leap y then 1 else 0)"
proof -
  have d: "n dvd 4800 \<Longrightarrow> n dvd y + 4800 \<longleftrightarrow> n dvd y" for n :: int by (simp add: dvd_add_left_iff)
  have e: "y + 4799 + 1 = y + 4800" by simp
  have "(y + 4800) div n = (y + 4799) div n + (if n dvd y then 1 else 0)" if "0 < n" "n dvd 4800" for n :: int
    using div_Suc_int [OF that(1), of "y + 4799"] unfolding e d [OF that(2)] .
  from this [of 4] this [of 100] this [of 400]
  have "(y + 4800) div 4 = (y + 4799) div 4 + (if 4 dvd y then 1 else 0)"
    "(y + 4800) div 100 = (y + 4799) div 100 + (if 100 dvd y then 1 else 0)"
    "(y + 4800) div 400 = (y + 4799) div 400 + (if 400 dvd y then 1 else 0)" by simp_all
  note q = this
  have i: "400 dvd y \<Longrightarrow> 100 dvd y" "100 dvd y \<Longrightarrow> 4 dvd y" by (auto elim: dvd_trans [rotated])
  have "A = A' + (if p then 1 else 0) \<Longrightarrow> B = B' + (if p' then 1 else 0) \<Longrightarrow> C = C' + (if p'' then 1 else 0) \<Longrightarrow>
      (p'' \<Longrightarrow> p') \<Longrightarrow> (p' \<Longrightarrow> p) \<Longrightarrow>
      365 * (y + 4800) + A - B + C = 365 * (y + 4799) + A' - B' + C' + 365 + (if p \<and> (p' \<longrightarrow> p'') then 1 else 0)"
    for A A' B B' C C' :: int and p p' p'' by (cases p; cases p'; cases p'') simp_all
  from this [OF q i] show ?thesis unfolding year_day_def leap_def .
qed

lemma day_number_next:
  assumes "valid_date x"
  shows "day_number (next_day x) = day_number x + 1"
proof -
  obtain y m d where x: "x = (y, m, d)" by (metis prod_cases3)
  have m: "m \<in> {1, 2, 3, 4, 5, 6, 7, 8, 9, 10, 11, 12}" using assms months by (simp add: x valid_date_def)
  have d: "1 \<le> d" "d \<le> days_in_month y m" using assms by (simp_all add: x valid_date_def)
  show ?thesis
  proof (cases "d < days_in_month y m")
    case True
    then show ?thesis by (simp add: x next_day_def day_number_def Let_def)
  next
    case False
    then have "d = days_in_month y m" using d by simp
    then show ?thesis using m year_day_Suc [of y]
      by (auto simp: add.commute [of y] x next_day_def day_number_def days_in_month_def march_day_def)
  qed
qed

lemma valid_next: "valid_date x \<Longrightarrow> valid_date (next_day x)"
  by (auto simp: valid_date_def next_day_def days_in_month_def split: if_splits)


section \<open>The conversions invert each other\<close>

lemma century_days: "(b * 146097) div 4 = 36524 * b + b div (4 :: int)"
  using div_mult_self2 [of 4 b "36524 * b"] by (simp add: algebra_simps)

lemma year_day_split:
  assumes "0 \<le> r" "r < 100"
  shows "year_day (100 * b + r) = (b * 146097) div 4 + 365 * r + r div 4"
proof -
  have h: "(100 * b + r) div 100 = b" using assms by (simp add: div_add1_eq)
  have h4: "(100 * b + r) div 400 = b div 4" using zdiv_zmult2_eq [of 4 "100 * b + r" 100] h by simp
  have q: "(100 * b + r) div 4 = 25 * b + r div 4" using div_mult_self2 [of 4 r "25 * b"] by (simp add: add.commute)
  have "365 * (100 * b + r) + (25 * b + k) - b + l = 36524 * b + l + 365 * r + k" for k l by simp
  then show ?thesis unfolding year_day_def century_days h h4 q .
qed

text \<open>The century, the year in it and the month are recovered from the day.\<close>

lemma century_of_day:
  assumes "0 \<le> c" "c \<le> 36523 \<or> c = 36524 \<and> b mod 4 = (3 :: int)"
  shows "(4 * ((b * 146097) div 4 + c) + 3) div 146097 = b"
proof -
  have "4 * ((b * 146097) div 4) = b * 146097 - b mod 4"
    unfolding century_days using mult_div_mod_eq [of 4 b] by (simp add: algebra_simps)
  then have e: "4 * ((b * 146097) div 4 + c) + 3 = 146097 * b + (4 * c + 3 - b mod 4)" by simp
  have "0 \<le> b mod 4" "b mod 4 \<le> 3" by simp_all
  then show ?thesis using assms by (intro int_div_pos_eq [OF e]) auto
qed

lemma year_of_day:
  assumes "0 \<le> e" "e \<le> 364 \<or> e = 365 \<and> r mod 4 = (3 :: int)"
  shows "(4 * (365 * r + r div 4 + e) + 3) div 1461 = r"
proof -
  have "4 * (r div 4) = r - r mod 4" by presburger
  then have q: "4 * (365 * r + r div 4 + e) + 3 = 1461 * r + (4 * e + 3 - r mod 4)" by simp
  have "0 \<le> r mod 4" "r mod 4 \<le> 3" by simp_all
  then show ?thesis using assms by (intro int_div_pos_eq [OF q]) auto
qed

lemma month_of_day:
  assumes "0 \<le> m" "m \<le> 11" "0 \<le> k" "march_day m + k < march_day (m + 1)"
  shows "(5 * (march_day m + k) + 2) div 153 = m"
proof -
  have "5 * march_day m \<le> 153 * m + 2" "153 * m + 2 < 5 * march_day m + 5" "5 * march_day (m + 1) \<le> 153 * (m + 1) + 2"
    unfolding march_day_def by presburger+
  then have "(5 * (march_day m + k) + 2) = 153 * m + (5 * (march_day m + k) + 2 - 153 * m)"
    "0 \<le> 5 * (march_day m + k) + 2 - 153 * m" "5 * (march_day m + k) + 2 - 153 * m < 153" using assms by auto
  then show ?thesis by (rule int_div_pos_eq)
qed

lemma march_shift:
  assumes "valid_date (y, mon, d)"
  defines "a \<equiv> (if mon \<le> 2 then 1 else 0 :: int)"
  defines "m \<equiv> mon + 12 * a - 3"
  shows "0 \<le> m" "m \<le> 11" "march_day m + (d - 1) < march_day (m + 1)" "march_day m + (d - 1) \<le> 365"
    "march_day m + (d - 1) = 365 \<Longrightarrow> leap (y + 1 - a)" "mon = m + 3 - 12 * (m div 10)" "a = m div 10" "(14 - mon) sdiv 12 = a"
proof -
  have c: "mon \<in> {1, 2, 3, 4, 5, 6, 7, 8, 9, 10, 11, 12}" using assms(1) months by (simp add: valid_date_def)
  have d: "d \<le> days_in_month y mon" using assms(1) by (simp add: valid_date_def)
  show "0 \<le> m" "m \<le> 11" "march_day m + (d - 1) < march_day (m + 1)" "march_day m + (d - 1) \<le> 365"
    "march_day m + (d - 1) = 365 \<Longrightarrow> leap (y + 1 - a)" "mon = m + 3 - 12 * (m div 10)" "a = m div 10" "(14 - mon) sdiv 12 = a"
    using c d by (elim insertE emptyE; simp add: m_def a_def days_in_month_def march_day_def split: if_splits)+
qed


lemma sdiv_pos [simp]: "0 \<le> (x :: int) \<Longrightarrow> 0 < n \<Longrightarrow> x sdiv n = x div n"
  by (cases "x = 0") (simp_all add: signed_divide_int_def)

lemma fits_int_ok [simp]: "fits_int [] = Inr ()"
  "fits_int (x # xs) = (if - (2 ^ 31) \<le> x \<and> x < 2 ^ 31 then fits_int xs else Inl (Undefined ''signed overflow''))"
  by (auto simp: fits_int_def)

text \<open>The day number split into century, year of the century and day of the year.\<close>

lemma day_number_parts:
  assumes "valid_date (y, mon, d)" "- 4799 \<le> y" "y \<le> 1000000"
  obtains m b r e where "day_number (y, mon, d) + 32044 = (b * 146097) div 4 + (365 * r + r div 4 + e)"
    "e = march_day m + (d - 1)" "0 \<le> m" "m \<le> 11" "mon = m + 3 - 12 * (m div 10)" "y = b * 100 + r - 4800 + m div 10"
    "0 \<le> b" "b \<le> 10048" "0 \<le> r" "r \<le> 99" "0 \<le> e" "e \<le> 365" "(5 * e + 2) div 153 = m"
    "(4 * (365 * r + r div 4 + e) + 3) div 1461 = r" "(4 * ((b * 146097) div 4 + (365 * r + r div 4 + e)) + 3) div 146097 = b"
proof -
  define a where "a = (if mon \<le> 2 then 1 else 0 :: int)"
  define m where "m = mon + 12 * a - 3"
  define x where "x = y + 4800 - a"
  define b where "b = x div 100"
  define r where "r = x mod 100"
  define e where "e = march_day m + (d - 1)"
  note sh = march_shift [OF assms(1), folded a_def, folded m_def]
  have x: "x = 100 * b + r" "0 \<le> x" "x \<le> 1004800" using assms(2,3) by (simp_all add: b_def r_def x_def a_def)
  have r: "0 \<le> r" "r < 100" by (simp_all add: r_def)
  have b: "0 \<le> b" "b \<le> 10048" using x r by linarith+
  have "1 \<le> d" using assms(1) by (simp add: valid_date_def)
  moreover have "0 \<le> march_day m" using sh(1) by (simp add: march_day_def)
  ultimately have e: "0 \<le> e" "e \<le> 365" "e = 365 \<Longrightarrow> leap (x + 1 - 4800)"
    using sh(4,5) by (simp_all add: e_def x_def algebra_simps)
  have num: "day_number (y, mon, d) + 32044 = (b * 146097) div 4 + (365 * r + r div 4 + e)"
    using year_day_split [OF r, of b] x(1) by (simp add: day_number_def Let_def a_def e_def m_def x_def add_diff_eq)
  have l: "4 dvd x + 1" "100 dvd x + 1 \<Longrightarrow> 400 dvd x + 1" if "e = 365"
  proof -
    have n: "n dvd x + 1 - 4800 \<longleftrightarrow> n dvd x + 1" if "n dvd 4800" for n :: int using that by (simp only: dvd_diff_left_iff)
    show "4 dvd x + 1" "100 dvd x + 1 \<Longrightarrow> 400 dvd x + 1"
      using e(3) [OF that] n [of 4] n [of 100] n [of 400] unfolding leap_def by simp_all
  qed
  have r3: "r mod 4 = 3" if "e = 365"
  proof -
    have "(x + 1) mod 4 = (r + 1) mod 4" unfolding x(1) using mod_mult_self2 [of "r + 1" 4 "25 * b"] by (simp add: algebra_simps)
    then have "(r + 1) mod 4 = 0" using l(1) [OF that] by (simp add: dvd_eq_mod_eq_0)
    then show ?thesis by presburger
  qed
  have b3: "b mod 4 = 3" if "e = 365" "r = 99"
  proof -
    have "x + 1 = 100 * (b + 1)" using x(1) that(2) by simp
    moreover have "100 dvd 100 * (b + 1)" by simp
    ultimately have "400 dvd 100 * (b + 1)" using l(2) [OF that(1)] by (simp only:)
    then have "4 dvd b + 1" using dvd_times_left_cancel_iff [of 100 4 "b + 1"] by simp
    then show ?thesis by presburger
  qed
  have c: "0 \<le> 365 * r + r div 4 + e" "365 * r + r div 4 + e \<le> 36523 \<or> 365 * r + r div 4 + e = 36524 \<and> b mod 4 = 3"
  proof -
    have "0 \<le> r div 4" "r div 4 \<le> 24" using r by simp_all
    then show "0 \<le> 365 * r + r div 4 + e" "365 * r + r div 4 + e \<le> 36523 \<or> 365 * r + r div 4 + e = 36524 \<and> b mod 4 = 3"
      using r e(1,2) b3 by (cases "r = 99"; cases "e = 365"; simp)+
  qed
  show thesis
  proof (rule that [OF num _ sh(1,2) _ _ b r(1) _ e(1,2) _ _ century_of_day [OF c]])
    show "e = march_day m + (d - 1)" by (simp add: e_def)
    show "mon = m + 3 - 12 * (m div 10)" by (rule sh(6))
    show "y = b * 100 + r - 4800 + m div 10" using sh(7) x(1) by (simp add: x_def)
    show "r \<le> 99" using r by simp
    show "(5 * e + 2) div 153 = m" unfolding e_def by (rule month_of_day [OF sh(1,2) _ sh(3)]) (use \<open>1 \<le> d\<close> in simp)
    show "(4 * (365 * r + r div 4 + e) + 3) div 1461 = r" by (rule year_of_day [OF e(1)]) (use e(2) r3 in \<open>cases "e = 365"; simp\<close>)
  qed
qed

lemma getYearMonthDay_run:
  assumes "j + 32044 = q + c" "(4 * (q + c) + 3) sdiv 146097 = b" "(b * 146097) sdiv 4 = q" "(4 * c + 3) sdiv 1461 = r"
    "(1461 * r) sdiv 4 = z" "c - z = e" "(5 * e + 2) sdiv 153 = m" "(153 * m + 2) sdiv 5 = w" "m sdiv 10 = t"
    and "0 \<le> q" "q \<le> 366995664" "0 \<le> c" "c \<le> 40000" "0 \<le> b" "b \<le> 10048" "0 \<le> r" "r \<le> 99" "0 \<le> e" "e \<le> 365"
      "0 \<le> m" "m \<le> 11" "0 \<le> w" "w \<le> 337" "0 \<le> t" "t \<le> 1"
  shows "getYearMonthDay j = Inr \<lparr>year = b * 100 + r - 4800 + t, month = m + 3 - 12 * t, day = e - w + 1\<rparr>"
proof -
  have c: "q + c - q = c" by simp
  show ?thesis
    unfolding getYearMonthDay_def Let_def assms(1,2,3) c assms(4,5,6,7,8,9)
    using assms(10-) by simp
qed

lemma getYearMonthDay_day:
  assumes "valid_date (y, mon, d)" "- 4799 \<le> y" "y \<le> 1000000"
  shows "getYearMonthDay (day_number (y, mon, d)) = Inr \<lparr>year = y, month = mon, day = d\<rparr>"
proof (rule day_number_parts [OF assms])
  fix m b r e :: int
  assume num: "day_number (y, mon, d) + 32044 = (b * 146097) div 4 + (365 * r + r div 4 + e)"
    and e: "e = march_day m + (d - 1)" and m: "0 \<le> m" "m \<le> 11" and mon: "mon = m + 3 - 12 * (m div 10)"
    and y: "y = b * 100 + r - 4800 + m div 10" and b: "0 \<le> b" "b \<le> 10048" and r: "0 \<le> r" "r \<le> 99" and el: "0 \<le> e" "e \<le> 365"
    and M: "(5 * e + 2) div 153 = m" and R: "(4 * (365 * r + r div 4 + e) + 3) div 1461 = r"
    and B: "(4 * ((b * 146097) div 4 + (365 * r + r div 4 + e)) + 3) div 146097 = b"
  have r4: "0 \<le> r div 4" "r div 4 \<le> 24" using r by simp_all
  have z: "(1461 * r) div 4 = 365 * r + r div 4" using div_mult_self2 [of 4 r "365 * r"] by (simp add: algebra_simps)
  have b4: "0 \<le> (b * 146097) div 4" "(b * 146097) div 4 \<le> 366995664" using b by simp_all
  have m5: "0 \<le> march_day m" "march_day m \<le> 337" "0 \<le> m div 10" "m div 10 \<le> 1" using m by (simp_all add: march_day_def)
  define k where "k = r div 4"
  define q where "q = (b * 146097) div 4"
  note k = r4 [folded k_def] and q = b4 [folded q_def]
  have "getYearMonthDay (day_number (y, mon, d)) =
      Inr \<lparr>year = b * 100 + r - 4800 + m div 10, month = m + 3 - 12 * (m div 10), day = e - march_day m + 1\<rparr>"
  proof (rule getYearMonthDay_run)
    show "day_number (y, mon, d) + 32044 = q + (365 * r + k + e)" unfolding q_def k_def by (rule num)
    have "0 \<le> 4 * (q + (365 * r + k + e)) + 3" using q(1) k(1) r(1) el(1) by simp
    then show "(4 * (q + (365 * r + k + e)) + 3) sdiv 146097 = b" using B by (simp add: q_def k_def)
    show "(b * 146097) sdiv 4 = q" using b by (simp add: q_def)
    have "0 \<le> 4 * (365 * r + k + e) + 3" using k(1) r(1) el(1) by simp
    then show "(4 * (365 * r + k + e) + 3) sdiv 1461 = r" using R by (simp add: k_def)
    show "(1461 * r) sdiv 4 = 365 * r + k" using r z by (simp add: k_def)
    show "(5 * e + 2) sdiv 153 = m" using M el by simp
    show "(153 * m + 2) sdiv 5 = march_day m" using m by (simp add: march_day_def)
    show "m sdiv 10 = m div 10" using m by simp
    show "365 * r + k + e \<le> 40000" "0 \<le> 365 * r + k + e" using k r el by linarith+
  qed (use q b r el m m5 in auto)
  then show ?thesis using y mon e by simp
qed


lemma getJulianDayNumber_run:
  assumes "(14 - mon) sdiv 12 = a" "(153 * (mon + 12 * a - 3) + 2) sdiv 5 = w" "(yr + 4800 - a) sdiv 4 = p"
    "(yr + 4800 - a) sdiv 100 = q" "(yr + 4800 - a) sdiv 400 = r"
    and "0 \<le> yr + 4799" "yr \<le> 1000000" "1 \<le> mon" "mon \<le> 12" "1 \<le> dy" "dy \<le> 31" "0 \<le> a" "a \<le> 1" "0 \<le> w" "w \<le> 337"
      "0 \<le> p" "p \<le> 1004800" "0 \<le> q" "q \<le> 1004800" "0 \<le> r" "r \<le> 1004800"
  shows "getJulianDayNumber yr mon dy = Inr (dy + w + (yr + 4800 - a) * 365 + p - q + r - 32045)"
  unfolding getJulianDayNumber_def Let_def assms(1-5) using assms(6-) by simp

lemma getJulianDayNumber_day:
  assumes "valid_date (y, mon, d)" "- 4799 \<le> y" "y \<le> 1000000"
  shows "getJulianDayNumber y mon d = Inr (day_number (y, mon, d))"
proof -
  define a where "a = (if mon \<le> 2 then 1 else 0 :: int)"
  define m where "m = mon + 12 * a - 3"
  define x where "x = y + 4800 - a"
  note sh = march_shift [OF assms(1), folded a_def, folded m_def]
  have x: "0 \<le> x" "x \<le> 1004800" using assms(2,3) by (simp_all add: x_def a_def)
  then have q: "0 \<le> x div n" "x div n \<le> 1004800" if "0 < n" for n
    using that zdiv_mono2 [of x 1 n] by (simp_all add: pos_imp_zdiv_nonneg_iff)
  have d: "1 \<le> d" "d \<le> 31" "1 \<le> mon" "mon \<le> 12"
    using assms(1) by (auto simp: valid_date_def days_in_month_def split: if_splits)
  have w: "0 \<le> march_day m" "march_day m \<le> 337" using sh(1,2) by (simp_all add: march_day_def)
  have "getJulianDayNumber y mon d = Inr (d + march_day m + (y + 4800 - a) * 365 + x div 4 - x div 100 + x div 400 - 32045)"
  proof (rule getJulianDayNumber_run)
    show "(14 - mon) sdiv 12 = a" by (rule sh(8))
    show "(153 * (mon + 12 * a - 3) + 2) sdiv 5 = march_day m"
      unfolding m_def [symmetric] using sh(1) by (simp add: march_day_def)
    show "(y + 4800 - a) sdiv 4 = x div 4" "(y + 4800 - a) sdiv 100 = x div 100" "(y + 4800 - a) sdiv 400 = x div 400"
      unfolding x_def [symmetric] using x by simp_all
    show "0 \<le> a" "a \<le> 1" by (simp_all add: a_def)
    show "0 \<le> x div 4" "x div 4 \<le> 1004800" "0 \<le> x div 100" "x div 100 \<le> 1004800" "0 \<le> x div 400" "x div 400 \<le> 1004800"
      by (rule q, simp)+
  qed (use assms(2,3) d w in simp_all)
  then show ?thesis by (simp add: day_number_def Let_def a_def m_def x_def year_day_def add_diff_eq)
qed

text \<open>Every day number is the number of a date.\<close>

lemma day_exists: "\<exists>y mon d. valid_date (y, mon, d) \<and> - 4799 \<le> y \<and> day_number (y, mon, d) = int n - 31738"
proof (induction n)
  case 0
  have "valid_date (- 4799, 1, 1) \<and> day_number (- 4799, 1, 1) = - 31738"
    by (simp add: valid_date_def days_in_month_def day_number_def march_day_def year_day_def)
  then show ?case by fastforce
next
  case (Suc n)
  then obtain y mon d where x: "valid_date (y, mon, d)" "- 4799 \<le> y" "day_number (y, mon, d) = int n - 31738" by blast
  obtain y' mon' d' where nx: "next_day (y, mon, d) = (y', mon', d')" by (metis prod_cases3)
  then have "- 4799 \<le> y'" using x(2) by (auto simp: next_day_def split: if_splits)
  moreover have "valid_date (y', mon', d')" "day_number (y', mon', d') = int (Suc n) - 31738"
    using valid_next [OF x(1)] day_number_next [OF x(1)] x(3) nx by simp_all
  ultimately show ?case by blast
qed

lemma year_bound:
  assumes "valid_date (y, mon, d)" "- 4799 \<le> y" "day_number (y, mon, d) \<le> 366000000"
  shows "y \<le> 1000000"
proof -
  define a where "a = (if mon \<le> 2 then 1 else 0 :: int)"
  define m where "m = mon + 12 * a - 3"
  define x where "x = y + 4800 - a"
  have x: "0 \<le> x" "y \<le> x - 4799" using assms(2) by (simp_all add: x_def a_def)
  then have "x div 100 \<le> x div 4" by (intro zdiv_mono2) auto
  moreover have "0 \<le> x div 400" using x(1) by simp
  moreover have "0 \<le> march_day m" using march_shift(1) [OF assms(1)] by (simp add: march_day_def a_def m_def)
  moreover have "1 \<le> d" using assms(1) by (simp add: valid_date_def)
  moreover have "day_number (y, mon, d) = d + march_day m + (365 * x + x div 4 - x div 100 + x div 400) - 32045"
    by (simp add: day_number_def Let_def a_def m_def x_def year_day_def add_diff_eq)
  ultimately have "365 * x \<le> 366032045" using assms(3) by simp
  then show ?thesis using x(2) by simp
qed

lemma day_upper:
  assumes "valid_date (y, mon, d)" "- 4799 \<le> y"
  shows "day_number (y, mon, d) \<le> 366 * (y + 4801)"
proof -
  define a where "a = (if mon \<le> 2 then 1 else 0 :: int)"
  define m where "m = mon + 12 * a - 3"
  define x where "x = y + 4800 - a"
  have x: "0 \<le> x" "x \<le> y + 4800" using assms(2) by (simp_all add: x_def a_def)
  have "x div 4 \<le> x" "x div 400 \<le> x div 100" "march_day m + (d - 1) \<le> 365"
    using x zdiv_mono2 [of x 1 4] zdiv_mono2 [of x 100 400] march_shift(4) [OF assms(1)] by (simp_all add: a_def m_def)
  moreover have "day_number (y, mon, d) = d + march_day m + (365 * x + x div 4 - x div 100 + x div 400) - 32045"
    by (simp add: day_number_def Let_def a_def m_def x_def year_day_def add_diff_eq)
  ultimately show ?thesis using x by simp
qed

text \<open>The day numbers that are considered; the last is in the year 997268.\<close>

definition day_range :: "int \<Rightarrow> bool" where
  "day_range j \<longleftrightarrow> - 31738 \<le> j \<and> j \<le> 366000000"

lemma day_date:
  assumes "day_range j"
  obtains y mon d where "valid_date (y, mon, d)" "- 4799 \<le> y" "y \<le> 1000000" "day_number (y, mon, d) = j"
    "getYearMonthDay j = Inr \<lparr>year = y, month = mon, day = d\<rparr>" "getJulianDayNumber y mon d = Inr j"
proof -
  obtain y mon d where x: "valid_date (y, mon, d)" "- 4799 \<le> y" "day_number (y, mon, d) = j"
    using day_exists [of "nat (j + 31738)"] assms by (auto simp: day_range_def)
  then have "y \<le> 1000000" using year_bound assms by (simp add: day_range_def)
  then show thesis using that x getYearMonthDay_day getJulianDayNumber_day by metis
qed

section \<open>Seconds\<close>

text \<open>The truncated quotient and remainder, corrected, are the floored ones.\<close>

lemma floored:
  assumes "0 < (n :: int)"
  shows "(if t smod n < 0 then (t smod n + n, t sdiv n - 1) else (t smod n, t sdiv n)) = (t mod n, t div n)"
proof (cases "0 \<le> t")
  case True
  then have "t smod n = t mod n" "t sdiv n = t div n" using assms by (cases "t = 0"; simp add: signed_modulo_int_def)+
  then show ?thesis using pos_mod_sign [OF assms, of t] by (simp add: not_less)
next
  case False
  define k where "k = - t"
  have k: "t = - k" "0 < k" using False by (simp_all add: k_def)
  have "t smod n = - (k mod n)" "t sdiv n = - (k div n)" using assms k by (simp_all add: signed_modulo_int_def signed_divide_int_def)
  moreover have "k mod n = 0 \<or> 0 < k mod n" using pos_mod_sign [OF assms, of k] by linarith
  ultimately show ?thesis
    using zdiv_zminus1_eq_if [of n k] zmod_zminus1_eq_if [of k n] assms k(1) by (cases "k mod n = 0") simp_all
qed

lemma hms_split: "3600 * (t div 60 div 60) + 60 * (t div 60 mod 60) + t mod 60 = (t :: int)"
proof -
  have "60 * p + r = t \<Longrightarrow> 60 * h + m = p \<Longrightarrow> 3600 * h + 60 * m + r = t" for p r h m :: int by simp
  from this [OF mult_div_mod_eq mult_div_mod_eq] show ?thesis .
qed

text \<open>The times considered: the days of \<open>day_range\<close>.\<close>

definition time_range :: "int \<Rightarrow> bool" where
  "time_range t \<longleftrightarrow> day_range (t div kSecondsPerDay + kJulianDayOf1970_01_01)"

definition utc_fields :: "int \<Rightarrow> int \<Rightarrow> tm \<Rightarrow> bool" where
  "utc_fields t j u \<longleftrightarrow> 0 \<le> tm_sec u \<and> tm_sec u < 60 \<and> 0 \<le> tm_min u \<and> tm_min u < 60 \<and> 0 \<le> tm_hour u \<and> tm_hour u < 24 \<and>
     3600 * tm_hour u + 60 * tm_min u + tm_sec u = t mod kSecondsPerDay \<and>
     valid_date (tm_year u + 1900, tm_mon u + 1, tm_mday u) \<and> day_number (tm_year u + 1900, tm_mon u + 1, tm_mday u) = j"

lemma hour_bound: "0 \<le> s \<Longrightarrow> s < 86400 \<Longrightarrow> 0 \<le> s div 60 div 60 \<and> s div 60 div 60 < (24 :: int)"
  using zdiv_zmult2_eq [of 60 s 60] zdiv_mono1 [of s 86399 3600] pos_imp_zdiv_nonneg_iff [of 3600 s] by simp

lemma toUtcTime_fields:
  assumes "time_range t"
  shows "rspec (TimeZone_toUtcTime t yday) (\<lambda>u. utc_fields t (t div kSecondsPerDay + kJulianDayOf1970_01_01) u \<and>
     - 4799 \<le> tm_year u + 1900 \<and> tm_year u + 1900 \<le> 1000000 \<and> tm_wday u = Date_weekDay (t div kSecondsPerDay + kJulianDayOf1970_01_01) \<and>
     (yday \<longrightarrow> tm_yday u = day_number (tm_year u + 1900, tm_mon u + 1, tm_mday u) - day_number (tm_year u + 1900, 1, 1)))"
proof -
  let ?s = "t mod kSecondsPerDay" and ?d = "t div kSecondsPerDay"
  let ?j = "?d + kJulianDayOf1970_01_01"
  obtain y mon d where x: "valid_date (y, mon, d)" "- 4799 \<le> y" "y \<le> 1000000" "day_number (y, mon, d) = ?j"
    "getYearMonthDay ?j = Inr \<lparr>year = y, month = mon, day = d\<rparr>"
    using day_date [of ?j] assms by (metis time_range_def)
  have jan: "getJulianDayNumber y 1 1 = Inr (day_number (y, 1, 1))"
    by (rule getJulianDayNumber_day [OF _ x(2,3)]) (simp add: valid_date_def days_in_month_def)
  have k: "0 < kSecondsPerDay" "kSecondsPerDay = 86400" by (simp_all add: kSecondsPerDay_def)
  have s: "0 \<le> ?s" "?s < kSecondsPerDay" using k(1) by simp_all
  have j: "- 31738 \<le> ?j" "?j \<le> 366000000" using assms by (simp_all add: time_range_def day_range_def)
  have fl: "(if t smod kSecondsPerDay < 0 then (t smod kSecondsPerDay + kSecondsPerDay, t sdiv kSecondsPerDay - 1)
      else (t smod kSecondsPerDay, t sdiv kSecondsPerDay)) = (?s, ?d)" by (rule floored [OF k(1)])
  have r: "- kSecondsPerDay \<le> t smod kSecondsPerDay" "t smod kSecondsPerDay < kSecondsPerDay"
    "?d \<le> t sdiv kSecondsPerDay" "t sdiv kSecondsPerDay \<le> ?d + 1"
    using fl s by (auto split: if_splits)
  have "- 2147483648 \<le> ?s" "?s < 2147483648" using s k(2) by linarith+
  then have f: "fits_int [t smod kSecondsPerDay, t sdiv kSecondsPerDay] = Inr ()" "fits_int [?s, ?d, ?j, ?j + 1] = Inr ()"
    using r j k(2) unfolding kJulianDayOf1970_01_01_def fits_int_def by auto
  define sc mi hr where "sc = ?s mod 60" and "mi = ?s div 60 mod 60" and "hr = ?s div 60 div 60"
  have fill: "fillHMS ?s z = z\<lparr>tm_sec := sc, tm_min := mi, tm_hour := hr\<rparr>" for z
    by (simp add: fillHMS_def Let_def sc_def mi_def hr_def)
  have h: "0 \<le> sc" "sc < 60" "0 \<le> mi" "mi < 60" by (simp_all add: sc_def mi_def)
  have "0 \<le> hr \<and> hr < 24" "3600 * hr + 60 * mi + sc = ?s"
    unfolding sc_def mi_def hr_def by (rule hour_bound [OF s [unfolded k(2)], folded k(2)], rule hms_split)
  then show ?thesis
    unfolding TimeZone_toUtcTime_def Let_def f fl prod.case rbind_Inr x(5) fill
    using x(1-4) jan h by (simp add: utc_fields_def)
qed

lemma fromUtcTime_fields_ok:
  assumes "utc_fields t j u" "- 4799 \<le> tm_year u + 1900" "tm_year u + 1900 \<le> 1000000" "j = t div kSecondsPerDay + kJulianDayOf1970_01_01"
    "day_range j"
  shows "TimeZone_fromUtcTime u = Inr t"
proof -
  have u: "0 \<le> tm_sec u" "tm_sec u < 60" "0 \<le> tm_min u" "tm_min u < 60" "0 \<le> tm_hour u" "tm_hour u < 24"
     "3600 * tm_hour u + 60 * tm_min u + tm_sec u = t mod kSecondsPerDay"
     "valid_date (tm_year u + 1900, tm_mon u + 1, tm_mday u)" "day_number (tm_year u + 1900, tm_mon u + 1, tm_mday u) = j"
    using assms(1) by (simp_all add: utc_fields_def)
  have "1 \<le> tm_mon u + 1" "tm_mon u + 1 \<le> 12" using u(8) by (simp_all add: valid_date_def)
  then have f: "fits_int [tm_year u + 1900, tm_mon u + 1] = Inr ()" using assms(2,3) by simp
  have "t = kSecondsPerDay * (t div kSecondsPerDay) + t mod kSecondsPerDay" by simp
  then have t: "(j - kJulianDayOf1970_01_01) * kSecondsPerDay + (tm_hour u * 3600 + tm_min u * 60 + tm_sec u) = t"
    using u(7) assms(4) by (simp add: mult.commute)
  show ?thesis
    using getJulianDayNumber_day [OF u(8) assms(2,3)] u assms(5) t f
    by (simp add: TimeZone_fromUtcTime_def fromUtcTime_fields_def Let_def day_range_def kJulianDayOf1970_01_01_def)
qed

section \<open>Properties\<close>

definition ymd_triple :: "YearMonthDay \<Rightarrow> int \<times> int \<times> int" where
  "ymd_triple x = (year x, month x, day x)"

text \<open>
  C23. Dates are the Gregorian calendar: for every day from 1 January 4800 BC (the year \<open>-4799\<close>) on for a million years, the conversions
  between Julian day numbers and dates run without overflow, give an existing date, invert each other, and the day after a
  day is the next date of the calendar, with its leap years; day 2440588 is 1 January 1970, a Thursday,
  and the days of the week follow one another.
\<close>

theorem date_is_gregorian:
  assumes "day_range j" "day_range (j + 1)"
  shows "rspec (getYearMonthDay j) (\<lambda>x. valid_date (ymd_triple x) \<and> getJulianDayNumber (year x) (month x) (day x) = Inr j \<and>
       rspec (getYearMonthDay (j + 1)) (\<lambda>x'. ymd_triple x' = next_day (ymd_triple x))) \<and>
     rspec (getYearMonthDay kJulianDayOf1970_01_01) (\<lambda>x. ymd_triple x = (1970, 1, 1)) \<and>
     Date_weekDay kJulianDayOf1970_01_01 = 4 \<and> (0 \<le> j \<longrightarrow> Date_weekDay (j + 1) = (Date_weekDay j + 1) mod 7)"
proof -
  obtain y mon d where x: "valid_date (y, mon, d)" "day_number (y, mon, d) = j"
    "getYearMonthDay j = Inr \<lparr>year = y, month = mon, day = d\<rparr>" "getJulianDayNumber y mon d = Inr j" "- 4799 \<le> y"
    by (rule day_date [OF assms(1)])
  obtain y' mon' d' where nx: "next_day (y, mon, d) = (y', mon', d')" by (metis prod_cases3)
  have n: "valid_date (y', mon', d')" "day_number (y', mon', d') = j + 1" "- 4799 \<le> y'"
    using valid_next [OF x(1)] day_number_next [OF x(1)] x(2,5) nx by (auto simp: next_day_def split: if_splits)
  have "y' \<le> 1000000" using year_bound [OF n(1,3)] n(2) assms(2) by (simp add: day_range_def)
  then have "getYearMonthDay (j + 1) = Inr \<lparr>year = y', month = mon', day = d'\<rparr>" using getYearMonthDay_day [OF n(1,3)] n(2) by simp
  then have "rspec (getYearMonthDay j) (\<lambda>x. valid_date (ymd_triple x) \<and> getJulianDayNumber (year x) (month x) (day x) = Inr j \<and>
       rspec (getYearMonthDay (j + 1)) (\<lambda>x'. ymd_triple x' = next_day (ymd_triple x)))"
    using x nx by (simp add: ymd_triple_def)
  moreover have "rspec (getYearMonthDay kJulianDayOf1970_01_01) (\<lambda>x. ymd_triple x = (1970, 1, 1))" by code_simp
  moreover have "Date_weekDay kJulianDayOf1970_01_01 = 4" by code_simp
  moreover have "Date_weekDay (j + 1) = (Date_weekDay j + 1) mod 7" if "0 \<le> j"
    using that by (simp add: Date_weekDay_def kDaysPerWeek_def signed_modulo_int_def mod_simps)
  ultimately show ?thesis by blast
qed

theorem date_is_gregorian_witness:
  "rspec (getYearMonthDay 2451604) (\<lambda>x. ymd_triple x = (2000, 2, 29) \<and>
     rspec (getYearMonthDay 2451605) (\<lambda>x'. ymd_triple x' = (2000, 3, 1)))"
proof -
  have x: "rspec (getYearMonthDay 2451604) (\<lambda>x. ymd_triple x = (2000, 2, 29))" by code_simp
  have n: "next_day (2000, 2, 29) = (2000, 3, 1)" by (simp add: next_day_def days_in_month_def leap_def)
  have "day_range 2451604" "day_range (2451604 + 1)" by (simp_all add: day_range_def)
  from date_is_gregorian [OF this] x show ?thesis using n by (auto simp: rspec_iff)
qed


text \<open>
  UTC times: for every time of the million years considered, before and after 1970, \<open>toUtcTime\<close> runs without overflow, its hours,
  minutes and seconds are in their ranges and its date exists, \<open>fromUtcTime\<close> of the result is the time
  itself, and the day of the year, when it is asked for, is the distance to 1 January.
\<close>

theorem utc_time_roundtrip:
  assumes "time_range t"
  shows "rspec (TimeZone_toUtcTime t yday) (\<lambda>u. TimeZone_fromUtcTime u = Inr t \<and>
     0 \<le> tm_sec u \<and> tm_sec u < 60 \<and> 0 \<le> tm_min u \<and> tm_min u < 60 \<and> 0 \<le> tm_hour u \<and> tm_hour u < 24 \<and>
     valid_date (tm_year u + 1900, tm_mon u + 1, tm_mday u) \<and>
     (yday \<longrightarrow> getJulianDayNumber (tm_year u + 1900) 1 1 = Inr (t div kSecondsPerDay + kJulianDayOf1970_01_01 - tm_yday u)))"
  using toUtcTime_fields [OF assms, of yday]
proof (rule rspec_mono, elim conjE)
  fix u assume u: "utc_fields t (t div kSecondsPerDay + kJulianDayOf1970_01_01) u" "- 4799 \<le> tm_year u + 1900" "tm_year u + 1900 \<le> 1000000"
    and yd: "yday \<longrightarrow> tm_yday u = day_number (tm_year u + 1900, tm_mon u + 1, tm_mday u) - day_number (tm_year u + 1900, 1, 1)"
  have "getJulianDayNumber (tm_year u + 1900) 1 1 = Inr (day_number (tm_year u + 1900, 1, 1))"
    by (rule getJulianDayNumber_day [OF _ u(2,3)]) (simp add: valid_date_def days_in_month_def)
  then show "TimeZone_fromUtcTime u = Inr t \<and>
     0 \<le> tm_sec u \<and> tm_sec u < 60 \<and> 0 \<le> tm_min u \<and> tm_min u < 60 \<and> 0 \<le> tm_hour u \<and> tm_hour u < 24 \<and>
     valid_date (tm_year u + 1900, tm_mon u + 1, tm_mday u) \<and>
     (yday \<longrightarrow> getJulianDayNumber (tm_year u + 1900) 1 1 = Inr (t div kSecondsPerDay + kJulianDayOf1970_01_01 - tm_yday u))"
    using fromUtcTime_fields_ok [OF u(1-3) refl] assms u(1) yd by (simp add: time_range_def utc_fields_def)
qed

theorem utc_time_roundtrip_witness:
  "rspec (TimeZone_toUtcTime (- 1) True) (\<lambda>u. TimeZone_fromUtcTime u = Inr (- 1) \<and>
     (tm_year u, tm_mon u, tm_mday u, tm_hour u, tm_min u, tm_sec u, tm_yday u) = (69, 11, 31, 23, 59, 59, 364))"
proof -
  have "time_range (- 1)" by (simp add: time_range_def day_range_def kSecondsPerDay_def kJulianDayOf1970_01_01_def)
  moreover have "getYearMonthDay 2440587 = Inr \<lparr>year = 1969, month = 12, day = 31\<rparr>" "getJulianDayNumber 1969 1 1 = Inr 2440223"
    by code_simp+
  then have "rspec (TimeZone_toUtcTime (- 1) True) (\<lambda>u.
     (tm_year u, tm_mon u, tm_mday u, tm_hour u, tm_min u, tm_sec u, tm_yday u) = (69, 11, 31, 23, 59, 59, 364))"
    by (simp add: TimeZone_toUtcTime_def Let_def kSecondsPerDay_def kJulianDayOf1970_01_01_def fillHMS_def
        signed_modulo_int_def)
  ultimately show ?thesis using utc_time_roundtrip [of "- 1" True] by (auto simp: rspec_iff)
qed

end
