(* ===== verification/TimeZone.thy ===== *)
theory TimeZone
  imports Calendar Endian
begin

text \<open>
  Time zones (\<open>third/muduo/base/TimeZone.cc\<close>): the file of transitions, the search for the local time in force, and
  the conversions. A \<open>TimeZone\<close> is a shared pointer, \<open>None\<close> when it is null. Exceptions of type
  \<open>logic_error\<close> are caught where the file is read, so that what was read before stays; reading past a vector is
  \<open>Undefined\<close>. A file is its bytes, \<open>None\<close> when \<open>fopen\<close> fails.
\<close>

record transition =
  gmttime :: int
  localtime :: int
  localtimeIdx :: nat

record local_time =
  gmtOffset :: int
  isDst :: bool
  arrbIdx :: nat

record tz_data =
  transitions :: "transition list"
  localtimes :: "local_time list"
  abbreviation_text :: string

section \<open>The file\<close>

definition be_int32 :: "bytes \<Rightarrow> int" where
  "be_int32 b = sint (word_of_int (foldl (\<lambda>a x. 256 * a + uint x) 0 b) :: 32 word)"

text \<open>\<open>char buf[n]\<close> with a negative \<open>n\<close> is undefined; too few bytes throw.\<close>

definition File_readBytes :: "int \<Rightarrow> bytes \<Rightarrow> (bytes \<times> bytes) option result" where
  "File_readBytes n f =
     (if n < 0 then Inl (Undefined ''array of negative size'')
      else if length f < nat n then Inr None else Inr (Some (take (nat n) f, drop (nat n) f)))"

definition File_readInt32 :: "bytes \<Rightarrow> (int \<times> bytes) option" where
  "File_readInt32 f = (if length f < 4 then None else Some (be_int32 (take 4 f), drop 4 f))"

definition File_readUInt8 :: "bytes \<Rightarrow> (nat \<times> bytes) option" where
  "File_readUInt8 f = (case f of [] \<Rightarrow> None | x # f' \<Rightarrow> Some (unat x, f'))"

fun read_many :: "(bytes \<Rightarrow> ('a \<times> bytes) option) \<Rightarrow> nat \<Rightarrow> bytes \<Rightarrow> ('a list \<times> bytes) option" where
  "read_many rd 0 f = Some ([], f)"
| "read_many rd (Suc n) f = (case rd f of None \<Rightarrow> None
     | Some (x, f') \<Rightarrow> (case read_many rd n f' of None \<Rightarrow> None | Some (xs, f'') \<Rightarrow> Some (x # xs, f'')))"

text \<open>The local times are stored one by one: those before a throw stay.\<close>

fun read_localtimes :: "nat \<Rightarrow> bytes \<Rightarrow> local_time list \<times> bytes option" where
  "read_localtimes 0 f = ([], Some f)"
| "read_localtimes (Suc n) f =
     (case File_readInt32 f of None \<Rightarrow> ([], None) | Some (gmtoff, f1) \<Rightarrow>
     (case File_readUInt8 f1 of None \<Rightarrow> ([], None) | Some (isdst, f2) \<Rightarrow>
     (case File_readUInt8 f2 of None \<Rightarrow> ([], None) | Some (abbrind, f3) \<Rightarrow>
     (let (ls, r) = read_localtimes n f3 in (\<lparr>gmtOffset = gmtoff, isDst = isdst \<noteq> 0, arrbIdx = abbrind\<rparr> # ls, r)))))"

definition vec_at :: "'a list \<Rightarrow> nat \<Rightarrow> 'a result" where
  "vec_at xs i = (if i < length xs then Inr (xs ! i) else Inl (Undefined ''vector index''))"

fun build_transitions :: "local_time list \<Rightarrow> (int \<times> nat) list \<Rightarrow> transition list result" where
  "build_transitions ls [] = Inr []"
| "build_transitions ls ((t, i) # ts) =
     rbind (vec_at ls i) (\<lambda>l. rbind (build_transitions ls ts) (\<lambda>trs.
     Inr (\<lparr>gmttime = t, localtime = t + gmtOffset l, localtimeIdx = i\<rparr> # trs)))"

text \<open>The part of the file after its six counts; \<open>vector::reserve\<close> of a negative count throws.\<close>

definition read_body :: "int \<Rightarrow> int \<Rightarrow> int \<Rightarrow> bytes \<Rightarrow> tz_data \<Rightarrow> tz_data result" where
  "read_body timecnt typecnt charcnt f data =
     (if timecnt < 0 then Inr data else
      case read_many File_readInt32 (nat timecnt) f of None \<Rightarrow> Inr data | Some (tms, f1) \<Rightarrow>
      (case read_many File_readUInt8 (nat timecnt) f1 of None \<Rightarrow> Inr data | Some (idx, f2) \<Rightarrow>
      (case read_localtimes (nat typecnt) f2 of
         (ls, None) \<Rightarrow> Inr (data\<lparr>localtimes := localtimes data @ ls\<rparr>)
       | (ls, Some f3) \<Rightarrow>
         let data1 = data\<lparr>localtimes := localtimes data @ ls\<rparr>
         in rbind (build_transitions (localtimes data1) (zip tms idx)) (\<lambda>trs.
            let data2 = data1\<lparr>transitions := transitions data1 @ trs\<rparr>
            in rbind (File_readBytes charcnt f3) (\<lambda>r.
               case r of None \<Rightarrow> Inr data2 | Some (ab, f4) \<Rightarrow> Inr (data2\<lparr>abbreviation_text := map (\<lambda>b. char_of (unat b)) ab\<rparr>))))))"

definition TZif :: bytes where "TZif = [84, 90, 105, 102]"

definition read_zone :: "bytes \<Rightarrow> tz_data \<Rightarrow> tz_data result" where
  "read_zone f data =
     rbind (File_readBytes 4 f) (\<lambda>r. case r of None \<Rightarrow> Inr data | Some (head, f1) \<Rightarrow>
     if head \<noteq> TZif then Inr data else
     rbind (File_readBytes 1 f1) (\<lambda>r. case r of None \<Rightarrow> Inr data | Some (version, f2) \<Rightarrow>
     rbind (File_readBytes 15 f2) (\<lambda>r. case r of None \<Rightarrow> Inr data | Some (_, f3) \<Rightarrow>
     (case read_many File_readInt32 6 f3 of None \<Rightarrow> Inr data
      | Some (counts, f4) \<Rightarrow> read_body (counts ! 3) (counts ! 4) (counts ! 5) f4 data))))"

definition readTimeZoneFile :: "bytes option \<Rightarrow> tz_data \<Rightarrow> (bool \<times> tz_data) result" where
  "readTimeZoneFile file data =
     (case file of None \<Rightarrow> Inr (True, data) | Some f \<Rightarrow> rbind (read_zone f data) (\<lambda>d. Inr (True, d)))"

definition TimeZone_ctor :: "bytes option \<Rightarrow> tz_data option result" where
  "TimeZone_ctor file =
     rbind (readTimeZoneFile file \<lparr>transitions = [], localtimes = [], abbreviation_text = []\<rparr>) (\<lambda>(ok, d).
     Inr (if ok then Some d else None))"

definition TimeZone_fixed :: "int \<Rightarrow> string \<Rightarrow> tz_data option" where
  "TimeZone_fixed eastOfUtc nm =
     Some \<lparr>transitions = [], localtimes = [\<lparr>gmtOffset = eastOfUtc, isDst = False, arrbIdx = 0\<rparr>], abbreviation_text = nm\<rparr>"

definition TimeZone_valid :: "tz_data option \<Rightarrow> bool" where
  "TimeZone_valid tz \<longleftrightarrow> tz \<noteq> None"

section \<open>The search\<close>

definition Comp_less :: "bool \<Rightarrow> transition \<Rightarrow> transition \<Rightarrow> bool" where
  "Comp_less compareGmt lhs rhs = (if compareGmt then gmttime lhs < gmttime rhs else localtime lhs < localtime rhs)"

definition Comp_equal :: "bool \<Rightarrow> transition \<Rightarrow> transition \<Rightarrow> bool" where
  "Comp_equal compareGmt lhs rhs = (if compareGmt then gmttime lhs = gmttime rhs else localtime lhs = localtime rhs)"

text \<open>\<open>std::lower_bound\<close> demands that the elements less than the value come first.\<close>

definition lower_bound :: "('a \<Rightarrow> 'a \<Rightarrow> bool) \<Rightarrow> 'a \<Rightarrow> 'a list \<Rightarrow> nat result" where
  "lower_bound lt x xs =
     (let i = length (takeWhile (\<lambda>y. lt y x) xs)
      in if list_all (\<lambda>y. \<not> lt y x) (drop i xs) then Inr i else Inl (Undefined ''lower_bound on an unsorted range''))"

definition findLocaltime :: "tz_data \<Rightarrow> transition \<Rightarrow> bool \<Rightarrow> local_time result" where
  "findLocaltime data sentry gmt =
     (if transitions data = [] \<or> Comp_less gmt sentry (hd (transitions data)) then vec_at (localtimes data) 0
      else rbind (lower_bound (Comp_less gmt) sentry (transitions data)) (\<lambda>transI.
           if transI < length (transitions data)
           then rbind (if \<not> Comp_equal gmt sentry (transitions data ! transI)
                       then rbind (cassert (transI \<noteq> 0) ''transI != data.transitions.begin()'') (\<lambda>_. Inr (transI - 1))
                       else Inr transI) (\<lambda>i. vec_at (localtimes data) (localtimeIdx (transitions data ! i)))
           else vec_at (localtimes data) (localtimeIdx (last (transitions data)))))"

section \<open>Local times\<close>

text \<open>
  \<open>gmtime_r\<close> and \<open>timegm\<close> of the C library: the calendar of theory \<open>Calendar\<close>. \<open>timegm\<close> takes a month out of range
  for months of later or earlier years, and adds up the other fields as they are.
\<close>

definition libc_gmtime :: "int \<Rightarrow> tm result" where
  "libc_gmtime t = TimeZone_toUtcTime t True"

definition libc_timegm :: "tm \<Rightarrow> int" where
  "libc_timegm u =
     (day_number (tm_year u + 1900 + tm_mon u div 12, tm_mon u mod 12 + 1, 1) + (tm_mday u - 1) - kJulianDayOf1970_01_01) * kSecondsPerDay +
     (3600 * tm_hour u + 60 * tm_min u + tm_sec u)"

definition zone_text :: "string \<Rightarrow> nat \<Rightarrow> string result" where
  "zone_text ab i = (if i \<le> length ab then Inr (takeWhile (\<lambda>c. c \<noteq> CHR 0x00) (drop i ab)) else Inl (Undefined ''string index''))"

definition TimeZone_toLocalTime :: "tz_data option \<Rightarrow> int \<Rightarrow> tm result" where
  "TimeZone_toLocalTime tz seconds =
     (case tz of None \<Rightarrow> Inl (AssertFail ''data_ != NULL'') | Some data \<Rightarrow>
      rbind (findLocaltime data \<lparr>gmttime = seconds, localtime = 0, localtimeIdx = 0\<rparr> True) (\<lambda>local.
      rbind (libc_gmtime (seconds + gmtOffset local)) (\<lambda>localTime.
      rbind (zone_text (abbreviation_text data) (arrbIdx local)) (\<lambda>z.
      Inr (localTime\<lparr>tm_isdst := isDst local, tm_gmtoff := gmtOffset local, tm_zone := z\<rparr>)))))"

definition TimeZone_fromLocalTime :: "tz_data option \<Rightarrow> tm \<Rightarrow> int result" where
  "TimeZone_fromLocalTime tz localTm =
     (case tz of None \<Rightarrow> Inl (AssertFail ''data_ != NULL'') | Some data \<Rightarrow>
      let seconds = libc_timegm localTm
      in rbind (findLocaltime data \<lparr>gmttime = 0, localtime = seconds, localtimeIdx = 0\<rparr> False) (\<lambda>local.
         if tm_isdst localTm
         then rbind (TimeZone_toLocalTime tz (seconds - gmtOffset local)) (\<lambda>tryTm.
              if \<not> tm_isdst tryTm \<and> tm_hour tryTm = tm_hour localTm \<and> tm_min tryTm = tm_min localTm
              then Inr (seconds - 3600 - gmtOffset local) else Inr (seconds - gmtOffset local))
         else Inr (seconds - gmtOffset local)))"

section \<open>What the search finds\<close>

definition tr_key :: "bool \<Rightarrow> transition \<Rightarrow> int" where
  "tr_key gmt x = (if gmt then gmttime x else localtime x)"

lemma Comp_key: "Comp_less gmt x y \<longleftrightarrow> tr_key gmt x < tr_key gmt y" "Comp_equal gmt x y \<longleftrightarrow> tr_key gmt x = tr_key gmt y"
  by (auto simp: Comp_less_def Comp_equal_def tr_key_def)

text \<open>The local time in force after the first \<open>k\<close> transitions, and the \<open>k\<close> that belongs to a time.\<close>

definition entry :: "tz_data \<Rightarrow> nat \<Rightarrow> local_time" where
  "entry d k = localtimes d ! (if k = 0 then 0 else localtimeIdx (transitions d ! (k - 1)))"

definition in_force :: "tz_data \<Rightarrow> bool \<Rightarrow> int \<Rightarrow> nat \<Rightarrow> bool" where
  "in_force d gmt t k \<longleftrightarrow> k \<le> length (transitions d) \<and> (\<forall>j < k. tr_key gmt (transitions d ! j) \<le> t) \<and>
     (k < length (transitions d) \<longrightarrow> t < tr_key gmt (transitions d ! k))"

definition indices_ok :: "tz_data \<Rightarrow> bool" where
  "indices_ok d \<longleftrightarrow> localtimes d \<noteq> [] \<and> list_all (\<lambda>x. localtimeIdx x < length (localtimes d)) (transitions d)"

definition sorted_by :: "bool \<Rightarrow> tz_data \<Rightarrow> bool" where
  "sorted_by gmt d \<longleftrightarrow> sorted_wrt (\<lambda>x y. tr_key gmt x < tr_key gmt y) (transitions d)"

lemma in_force_exists:
  assumes "sorted_by gmt d"
  obtains k where "in_force d gmt t k"
proof -
  let ?P = "\<lambda>x. tr_key gmt x \<le> t"
  let ?k = "length (takeWhile ?P (transitions d))"
  have "tr_key gmt (transitions d ! j) \<le> t" if "j < ?k" for j
    using that nth_mem [OF that] set_takeWhileD [of _ ?P "transitions d"] by (simp add: takeWhile_nth)
  moreover have "t < tr_key gmt (transitions d ! ?k)" if "?k < length (transitions d)"
    using nth_length_takeWhile [OF that] by simp
  ultimately have "in_force d gmt t ?k" by (simp add: in_force_def length_takeWhile_le)
  then show thesis by (rule that)
qed

lemma lower_bound_sorted:
  assumes "sorted_by gmt d" "i \<le> length (transitions d)" "\<forall>j < i. tr_key gmt (transitions d ! j) < tr_key gmt s"
    "i < length (transitions d) \<Longrightarrow> tr_key gmt s \<le> tr_key gmt (transitions d ! i)"
  shows "lower_bound (Comp_less gmt) s (transitions d) = Inr i"
proof -
  let ?T = "transitions d"
  have tw: "takeWhile (\<lambda>y. Comp_less gmt y s) ?T = take i ?T"
    using assms(3,4) by (intro takeWhile_eq_take_P_nth) (auto simp: Comp_key)
  have "\<not> Comp_less gmt y s" if y: "y \<in> set (drop i ?T)" for y
  proof -
    have "\<exists>n. n < length ?T - i \<and> y = ?T ! (i + n)" using y assms(2) by (auto simp: in_set_conv_nth)
    then obtain n where "n < length ?T - i" "y = ?T ! (i + n)" by blast
    then obtain j where j: "i \<le> j" "j < length ?T" "y = ?T ! j" by (metis le_add1 less_diff_conv add.commute)
    have "tr_key gmt (?T ! i) \<le> tr_key gmt (?T ! j)"
      using j assms(1) by (cases "i = j") (auto simp: sorted_by_def sorted_wrt_iff_nth_less intro: less_imp_le)
    then show ?thesis using assms(4) j by (auto simp: Comp_key)
  qed
  then have "list_all (\<lambda>y. \<not> Comp_less gmt y s) (drop i ?T)" by (simp add: list_all_iff)
  then show ?thesis using tw assms(2) by (simp add: lower_bound_def)
qed

lemma findLocaltime_entry:
  assumes "sorted_by gmt d" "indices_ok d" "in_force d gmt (tr_key gmt s) k"
  shows "findLocaltime d s gmt = Inr (entry d k)"
proof -
  let ?T = "transitions d" and ?t = "tr_key gmt s"
  have k: "k \<le> length ?T" "\<And>j. j < k \<Longrightarrow> tr_key gmt (?T ! j) \<le> ?t" "k < length ?T \<Longrightarrow> ?t < tr_key gmt (?T ! k)"
    using assms(3) by (auto simp: in_force_def)
  have at: "vec_at (localtimes d) (localtimeIdx (?T ! j)) = Inr (entry d (Suc j))" if "j < length ?T" for j
    using that assms(2) by (simp add: vec_at_def entry_def indices_ok_def list_all_length)
  have mono: "i < j \<Longrightarrow> j < length ?T \<Longrightarrow> tr_key gmt (?T ! i) < tr_key gmt (?T ! j)" for i j
    using assms(1) by (simp add: sorted_by_def sorted_wrt_iff_nth_less)
  show ?thesis
  proof (cases k)
    case 0
    then have "?T = [] \<or> Comp_less gmt s (hd ?T)" using k(3) by (cases ?T) (auto simp: Comp_key)
    then show ?thesis using 0 assms(2) by (simp add: findLocaltime_def vec_at_def entry_def indices_ok_def)
  next
    case (Suc i)
    then have i: "i < length ?T" "tr_key gmt (?T ! i) \<le> ?t" using k(1,2) by auto
    then have "?T \<noteq> []" by auto
    then have ne: "?T \<noteq> []" "\<not> Comp_less gmt s (hd ?T)" using k(2) [of 0] Suc by (simp_all add: Comp_key hd_conv_nth)
    show ?thesis
    proof (cases "tr_key gmt (?T ! i) = ?t")
      case True
      have "lower_bound (Comp_less gmt) s ?T = Inr i"
        using True i mono [of _ i] by (intro lower_bound_sorted [OF assms(1)]) auto
      then show ?thesis using ne True i at [OF i(1)] Suc by (simp add: findLocaltime_def Comp_key)
    next
      case False
      have "lower_bound (Comp_less gmt) s ?T = Inr (Suc i)"
      proof (rule lower_bound_sorted [OF assms(1)])
        show "\<forall>j < Suc i. tr_key gmt (?T ! j) < ?t" using False i mono [of _ i] by (force simp: less_Suc_eq)
      qed (use k Suc in auto)
      moreover have "?T ! i = last ?T" if "Suc i = length ?T" using that ne(1) by (simp add: last_conv_nth flip: that)
      ultimately show ?thesis
        using ne i at [OF i(1)] k(3) Suc by (cases "Suc i < length ?T") (auto simp: findLocaltime_def Comp_key)
    qed
  qed
qed


section \<open>Zones with summer time\<close>

text \<open>
  What a zone file has: the transitions are at least an hour apart, in both times; the local times
  are those of the offsets; and where a transition sets the clock back, it ends a summer time of one hour.
\<close>

definition set_back_ok :: "local_time \<Rightarrow> local_time \<Rightarrow> bool" where
  "set_back_ok e e' \<longleftrightarrow> gmtOffset e \<le> gmtOffset e' \<or> isDst e \<and> \<not> isDst e' \<and> gmtOffset e = gmtOffset e' + 3600"

definition zone_ok :: "tz_data \<Rightarrow> bool" where
  "zone_ok d \<longleftrightarrow> indices_ok d \<and>
     list_all (\<lambda>x. localtime x = gmttime x + gmtOffset (localtimes d ! localtimeIdx x)) (transitions d) \<and>
     list_all (\<lambda>l. arrbIdx l \<le> length (abbreviation_text d)) (localtimes d) \<and>
     list_all (\<lambda>k. set_back_ok (entry d k) (entry d (Suc k))) [0 ..< length (transitions d)] \<and>
     list_all (\<lambda>k. gmttime (transitions d ! k) + 3600 \<le> gmttime (transitions d ! Suc k) \<and>
        localtime (transitions d ! k) + 3600 \<le> localtime (transitions d ! Suc k)) [0 ..< length (transitions d) - 1]"

lemma zone_okD:
  assumes "zone_ok d"
  shows "indices_ok d" "k < length (transitions d) \<Longrightarrow> localtime (transitions d ! k) = gmttime (transitions d ! k) + gmtOffset (entry d (Suc k))"
    "k < length (transitions d) \<Longrightarrow> set_back_ok (entry d k) (entry d (Suc k))"
    "Suc k < length (transitions d) \<Longrightarrow> gmttime (transitions d ! k) + 3600 \<le> gmttime (transitions d ! Suc k)"
    "Suc k < length (transitions d) \<Longrightarrow> localtime (transitions d ! k) + 3600 \<le> localtime (transitions d ! Suc k)"
    "l \<in> set (localtimes d) \<Longrightarrow> arrbIdx l \<le> length (abbreviation_text d)"
  using assms by (auto simp: zone_ok_def list_all_iff entry_def)

lemma zone_sorted: "zone_ok d \<Longrightarrow> sorted_by gmt d"
proof -
  assume z: "zone_ok d"
  have "transp (\<lambda>x y. tr_key gmt x < tr_key gmt y)" by (auto intro: transpI)
  then show ?thesis
    using zone_okD(4,5) [OF z] unfolding sorted_by_def
    by (subst sorted_wrt_iff_nth_Suc_transp) (force simp: tr_key_def)+
qed

lemma entry_mem: "indices_ok d \<Longrightarrow> k \<le> length (transitions d) \<Longrightarrow> entry d k \<in> set (localtimes d)"
  by (cases k) (auto simp: entry_def indices_ok_def list_all_length)

lemma timegm_gmtime:
  assumes "time_range t"
  shows "rspec (libc_gmtime t) (\<lambda>u. libc_timegm u = t)"
  unfolding libc_gmtime_def using toUtcTime_fields [OF assms]
proof (rule rspec_mono, elim conjE)
  fix u assume u: "utc_fields t (t div kSecondsPerDay + kJulianDayOf1970_01_01) u"
  then have m: "0 \<le> tm_mon u" "tm_mon u < 12" by (auto simp: utc_fields_def valid_date_def)
  have "day_number (y, m, 1) + (d - 1) = day_number (y, m, d)" for y m d by (simp add: day_number_def Let_def)
  then show "libc_timegm u = t"
    using u m by (simp add: libc_timegm_def utc_fields_def mult.commute)
qed

lemma toLocalTime_entry:
  assumes "zone_ok d" "in_force d True t k" "libc_gmtime (t + gmtOffset (entry d k)) = Inr u"
  shows "\<exists>z. TimeZone_toLocalTime (Some d) t = Inr (u\<lparr>tm_isdst := isDst (entry d k), tm_gmtoff := gmtOffset (entry d k), tm_zone := z\<rparr>)"
proof -
  have "findLocaltime d \<lparr>gmttime = t, localtime = 0, localtimeIdx = 0\<rparr> True = Inr (entry d k)"
    by (rule findLocaltime_entry [OF zone_sorted [OF assms(1)] zone_okD(1) [OF assms(1)]]) (use assms(2) in \<open>simp add: tr_key_def\<close>)
  moreover have "entry d k \<in> set (localtimes d)"
    using entry_mem [OF zone_okD(1) [OF assms(1)]] assms(2) by (simp add: in_force_def)
  ultimately show ?thesis
    using zone_okD(6) [OF assms(1)] assms(3) by (auto simp: TimeZone_toLocalTime_def zone_text_def)
qed

text \<open>The transitions before \<open>k\<close> are at or before the local time too; the next one may not be after it.\<close>

lemma in_force_local:
  assumes "zone_ok d" "in_force d True t k"
  defines "s \<equiv> t + gmtOffset (entry d k)"
  shows "in_force d False s k \<or>
     k < length (transitions d) \<and> isDst (entry d k) \<and> \<not> isDst (entry d (Suc k)) \<and> s = t + 3600 + gmtOffset (entry d (Suc k)) \<and>
     in_force d False s (Suc k) \<and> in_force d True (t + 3600) (Suc k)"
proof -
  let ?T = "transitions d"
  have k: "k \<le> length ?T" "\<And>j. j < k \<Longrightarrow> gmttime (?T ! j) \<le> t" "k < length ?T \<Longrightarrow> t < gmttime (?T ! k)"
    using assms(2) by (auto simp: in_force_def tr_key_def)
  have mono: "i < j \<Longrightarrow> j < length ?T \<Longrightarrow> localtime (?T ! i) < localtime (?T ! j)" for i j
    using zone_sorted [OF assms(1), of False] by (simp add: sorted_by_def sorted_wrt_iff_nth_less tr_key_def)
  have before: "localtime (?T ! j) \<le> s" if "j < k" for j
  proof (cases k)
    case (Suc i)
    then have "localtime (?T ! i) \<le> s" using zone_okD(2) [OF assms(1), of i] k(1,2) by (simp add: s_def)
    then show ?thesis using mono [of j i] that Suc k(1) by (cases "j = i") auto
  qed (use that in simp)
  show ?thesis
  proof (cases "k < length ?T \<and> localtime (?T ! k) \<le> s")
    case False
    then show ?thesis using before k(1) by (auto simp: in_force_def tr_key_def)
  next
    case True
    then have l: "localtime (?T ! k) = gmttime (?T ! k) + gmtOffset (entry d (Suc k))" using zone_okD(2) [OF assms(1)] by simp
    have g: "t < gmttime (?T ! k)" using True k(3) by simp
    have "set_back_ok (entry d k) (entry d (Suc k))" using zone_okD(3) [OF assms(1)] True by simp
    then have b: "isDst (entry d k)" "\<not> isDst (entry d (Suc k))" "gmtOffset (entry d k) = gmtOffset (entry d (Suc k)) + 3600"
      using True l g by (auto simp: set_back_ok_def s_def)
    have n: "t + 3600 < gmttime (?T ! Suc k)" "s < localtime (?T ! Suc k)" if "Suc k < length ?T"
      using zone_okD(4,5) [OF assms(1) that] g l b(3) by (simp_all add: s_def)
    have "gmttime (?T ! k) \<le> t + 3600" using True l b(3) by (simp add: s_def)
    then have "in_force d True (t + 3600) (Suc k)" using True k(2) n by (force simp: in_force_def tr_key_def less_Suc_eq)
    moreover have "in_force d False s (Suc k)" using True before n by (auto simp: in_force_def tr_key_def less_Suc_eq)
    ultimately show ?thesis using True b by (simp add: s_def)
  qed
qed

lemma findLocaltime_local:
  assumes "zone_ok d" "in_force d False s k"
  shows "findLocaltime d \<lparr>gmttime = 0, localtime = s, localtimeIdx = 0\<rparr> False = Inr (entry d k)"
  by (rule findLocaltime_entry [OF zone_sorted [OF assms(1)] zone_okD(1) [OF assms(1)]]) (use assms(2) in \<open>simp add: tr_key_def\<close>)

section \<open>Properties\<close>

text \<open>
  C24. Local times: in a zone with summer time (of one hour, its transitions at least an hour apart), every time
  converted to local time and back is the time itself, also in the hour that occurs twice when the
  clock is set back.
\<close>

theorem local_time_roundtrip:
  assumes "zone_ok d" "list_all (\<lambda>l. time_range (t + gmtOffset l)) (localtimes d)"
  shows "rspec (TimeZone_toLocalTime (Some d) t) (\<lambda>u. TimeZone_fromLocalTime (Some d) u = Inr t)"
proof -
  obtain k where k: "in_force d True t k" by (rule in_force_exists [OF zone_sorted [OF assms(1)]])
  define s where "s = t + gmtOffset (entry d k)"
  have "entry d k \<in> set (localtimes d)" using entry_mem zone_okD(1) [OF assms(1)] k by (simp add: in_force_def)
  then have "time_range s" using assms(2) by (simp add: s_def list_all_iff)
  then obtain u where u: "libc_gmtime s = Inr u" "libc_timegm u = s" using timegm_gmtime by (auto simp: rspec_iff)
  obtain z where l: "TimeZone_toLocalTime (Some d) t = Inr (u\<lparr>tm_isdst := isDst (entry d k), tm_gmtoff := gmtOffset (entry d k), tm_zone := z\<rparr>)"
    using toLocalTime_entry [OF assms(1) k] u(1) by (auto simp: s_def)
  have tg: "libc_timegm (u\<lparr>tm_isdst := a, tm_gmtoff := b, tm_zone := z\<rparr>) = s" for a b z using u(2) by (simp add: libc_timegm_def)
  consider "in_force d False s k"
    | "isDst (entry d k)" "\<not> isDst (entry d (Suc k))" "s = t + 3600 + gmtOffset (entry d (Suc k))"
      "in_force d False s (Suc k)" "in_force d True (t + 3600) (Suc k)"
    using in_force_local [OF assms(1) k] by (auto simp: s_def)
  then show ?thesis
  proof cases
    case 1
    have e: "s - gmtOffset (entry d k) = t" by (simp add: s_def)
    show ?thesis unfolding l rspec_Inr
      using findLocaltime_local [OF assms(1) 1] l by (simp add: TimeZone_fromLocalTime_def tg e)
  next
    case 2
    have e: "s - gmtOffset (entry d (Suc k)) = t + 3600" "s - 3600 - gmtOffset (entry d (Suc k)) = t" using 2(3) by simp_all
    obtain z' where "TimeZone_toLocalTime (Some d) (t + 3600) =
        Inr (u\<lparr>tm_isdst := isDst (entry d (Suc k)), tm_gmtoff := gmtOffset (entry d (Suc k)), tm_zone := z'\<rparr>)"
      using toLocalTime_entry [OF assms(1) 2(5)] u(1) 2(3) by auto
    then show ?thesis unfolding l rspec_Inr
      using findLocaltime_local [OF assms(1) 2(4)] 2(1,2) by (simp add: TimeZone_fromLocalTime_def tg e)
  qed
qed

text \<open>Central Europe in 1996: summer time from 31 March to 27 October, at one in the morning, UTC.\<close>

definition cet1996 :: tz_data where
  "cet1996 = \<lparr>transitions = [\<lparr>gmttime = 828234000, localtime = 828241200, localtimeIdx = 1\<rparr>,
       \<lparr>gmttime = 846378000, localtime = 846381600, localtimeIdx = 0\<rparr>],
     localtimes = [\<lparr>gmtOffset = 3600, isDst = False, arrbIdx = 0\<rparr>, \<lparr>gmtOffset = 7200, isDst = True, arrbIdx = 4\<rparr>],
     abbreviation_text = ''CET'' @ [CHR 0x00] @ ''CEST'' @ [CHR 0x00]\<rparr>"

text \<open>Half an hour before the clock was set back it was half past two for the first time.\<close>

theorem local_time_roundtrip_witness:
  "rspec (TimeZone_toLocalTime (Some cet1996) 846376200) (\<lambda>u. TimeZone_fromLocalTime (Some cet1996) u = Inr 846376200)"
proof (rule local_time_roundtrip)
  show "zone_ok cet1996"
    by (simp add: zone_ok_def indices_ok_def cet1996_def set_back_ok_def entry_def upt_rec)
  show "list_all (\<lambda>l. time_range (846376200 + gmtOffset l)) (localtimes cet1996)"
    by (simp add: cet1996_def time_range_def day_range_def kSecondsPerDay_def kJulianDayOf1970_01_01_def)
qed

text \<open>
  A zone file that cannot be opened, or that does not begin with the magic number, gives a time zone that
  calls itself valid and has no local time at all: the first conversion reads the front of an empty vector,
  which is undefined.
\<close>

theorem unreadable_zone_undefined:
  assumes "case file of None \<Rightarrow> True | Some f \<Rightarrow> length f < 20 \<or> take 4 f \<noteq> TZif"
  shows "rspec (TimeZone_ctor file) (\<lambda>tz. TimeZone_valid tz \<and>
     TimeZone_toLocalTime tz t = Inl (Undefined ''vector index'') \<and> TimeZone_fromLocalTime tz u = Inl (Undefined ''vector index''))"
proof -
  let ?d = "\<lparr>transitions = [], localtimes = [], abbreviation_text = []\<rparr>"
  have "readTimeZoneFile file ?d = Inr (True, ?d)"
    using assms by (auto simp: readTimeZoneFile_def read_zone_def File_readBytes_def split: option.splits)
  then show ?thesis
    by (simp add: TimeZone_ctor_def TimeZone_valid_def TimeZone_toLocalTime_def TimeZone_fromLocalTime_def findLocaltime_def vec_at_def)
qed

theorem unreadable_zone_undefined_witness:
  "rspec (TimeZone_ctor (Some [84, 90, 105])) (\<lambda>tz. TimeZone_valid tz \<and> TimeZone_toLocalTime tz 0 = Inl (Undefined ''vector index''))"
  using unreadable_zone_undefined [of "Some [84, 90, 105]" 0 tm_zero] by (auto simp: rspec_iff)

end
