(* ===== verification/Logging.thy ===== *)
theory Logging
  imports LogStream TimeZone
begin

text \<open>
  The logger (\<open>third/muduo/base/Logging.h\<close>, \<open>Logging.cc\<close>) and the texts of a \<open>Timestamp\<close>. Every thread keeps the text of the
  last second it logged; \<open>log_cache\<close> is that state. The clock, the thread's number, the text of \<open>strerror_r\<close> and
  what the array of the stream holds at first are arguments; a line is the text handed to the output
  function and whether the process is then aborted.
\<close>

record log_cache =
  t_time :: string
  t_lastSecond :: int

definition log_cache_init :: log_cache where
  "log_cache_init = \<lparr>t_time = replicate 32 (CHR 0x00), t_lastSecond = 0\<rparr>"

datatype log_level = TRACE | DEBUG | INFO | WARN | ERROR_level | FATAL

primrec level_rank :: "log_level \<Rightarrow> nat" where
  "level_rank TRACE = 0" | "level_rank DEBUG = 1" | "level_rank INFO = 2" | "level_rank WARN = 3" | "level_rank ERROR_level = 4"
| "level_rank FATAL = 5"

lemma level_rank_inject: "level_rank a = level_rank b \<longleftrightarrow> a = b"
  by (cases a; cases b) simp_all

instantiation log_level :: linorder
begin

definition less_eq_log_level :: "log_level \<Rightarrow> log_level \<Rightarrow> bool" where
  "less_eq_log_level a b = (level_rank a \<le> level_rank b)"

definition less_log_level :: "log_level \<Rightarrow> log_level \<Rightarrow> bool" where
  "less_log_level a b = (level_rank a < level_rank b)"

instance
  by standard (auto simp: less_eq_log_level_def less_log_level_def level_rank_inject)

end

text \<open>The four constructors of \<open>Logger\<close>; the last one logs the \<open>errno\<close> and may abort.\<close>

datatype logger_ctor =
    Logger_plain
  | Logger_func log_level string
  | Logger_at log_level
  | Logger_sys bool int

fun logger_level :: "logger_ctor \<Rightarrow> log_level" where
  "logger_level Logger_plain = INFO"
| "logger_level (Logger_func l func) = l"
| "logger_level (Logger_at l) = l"
| "logger_level (Logger_sys toAbort err) = (if toAbort then FATAL else ERROR_level)"

fun logger_errno :: "logger_ctor \<Rightarrow> int" where
  "logger_errno (Logger_sys toAbort err) = err"
| "logger_errno _ = 0"

fun logger_prefix :: "logger_ctor \<Rightarrow> log_item list" where
  "logger_prefix (Logger_func l func) = [LCString (Some func), LChar (CHR '' '')]"
| "logger_prefix _ = []"

primrec LogLevelName :: "log_level \<Rightarrow> string" where
  "LogLevelName TRACE = ''TRACE ''"
| "LogLevelName DEBUG = ''DEBUG ''"
| "LogLevelName INFO = ''INFO  ''"
| "LogLevelName WARN = ''WARN  ''"
| "LogLevelName ERROR_level = ''ERROR ''"
| "LogLevelName FATAL = ''FATAL ''"

definition kMicrosPerSecond :: int where "kMicrosPerSecond = 1000 * 1000"

text \<open>\<open>%4d%02d%02d %02d:%02d:%02d\<close>\<close>

definition fmt_time :: "tm \<Rightarrow> string" where
  "fmt_time u = pad_blank 4 (show_int (tm_year u + 1900)) @ fmt_0d 2 (tm_mon u + 1) @ fmt_0d 2 (tm_mday u) @ '' '' @
     fmt_0d 2 (tm_hour u) @ '':'' @ fmt_0d 2 (tm_min u) @ '':'' @ fmt_0d 2 (tm_sec u)"

definition Timestamp_toString :: "int \<Rightarrow> string" where
  "Timestamp_toString micros =
     snprintf_cut 31 (show_int (micros sdiv kMicrosPerSecond) @ ''.'' @ fmt_0d 6 (micros smod kMicrosPerSecond))"

definition Timestamp_toFormattedString :: "bool \<Rightarrow> int \<Rightarrow> string result" where
  "Timestamp_toFormattedString showMicroseconds micros =
     rbind (libc_gmtime (micros sdiv kMicrosPerSecond)) (\<lambda>tm_time.
     Inr (snprintf_cut 32 (if showMicroseconds then fmt_time tm_time @ ''.'' @ fmt_0d 6 (micros smod kMicrosPerSecond) else fmt_time tm_time)))"

text \<open>The helper class \<open>T\<close>: a text whose length the caller knows.\<close>

definition T_ctor :: "string \<Rightarrow> nat \<Rightarrow> string result" where
  "T_ctor str len = rbind (cassert (strlen str = len) ''strlen(str) == len_'') (\<lambda>_. Inr (take len str))"

definition SourceFile_ctor :: "string \<Rightarrow> string" where
  "SourceFile_ctor path = rev (takeWhile (\<lambda>c. c \<noteq> CHR ''/'') (rev path))"

definition CurrentThread_tidString :: "int \<Rightarrow> string" where
  "CurrentThread_tidString tid = snprintf_cut 32 (pad_blank 5 (show_int tid) @ '' '')"

text \<open>The broken-down time: local in a valid zone, else UTC.\<close>

definition log_tm :: "tz_data option \<Rightarrow> int \<Rightarrow> tm result" where
  "log_tm zone seconds = (if TimeZone_valid zone then TimeZone_toLocalTime zone seconds else libc_gmtime seconds)"

definition refresh_time :: "tz_data option \<Rightarrow> int \<Rightarrow> log_cache \<Rightarrow> log_cache result" where
  "refresh_time zone seconds c =
     (if seconds \<noteq> t_lastSecond c
      then rbind (log_tm zone seconds) (\<lambda>tm_time.
           rbind (cassert (length (fmt_time tm_time) = 17) ''len == 17'') (\<lambda>_.
           Inr (c\<lparr>t_lastSecond := seconds, t_time := snprintf_cut 32 (fmt_time tm_time) @ [CHR 0x00]\<rparr>)))
      else Inr c)"

definition Impl_formatTime :: "tz_data option \<Rightarrow> int \<Rightarrow> log_cache \<Rightarrow> fixed_buffer \<Rightarrow> (log_cache \<times> fixed_buffer) result" where
  "Impl_formatTime zone micros c b =
     (let seconds = micros sdiv kMicrosPerSecond; microseconds = micros smod kMicrosPerSecond
      in rbind (refresh_time zone seconds c) (\<lambda>c'.
         let (tail, n) = (if TimeZone_valid zone then ('' '', 8) else (''Z '', 9))
         in rbind (Fmt_ctor (''.'' @ fmt_0d 6 microseconds @ tail)) (\<lambda>us.
            rbind (cassert (length us = n) ''us.length()'') (\<lambda>_.
            rbind (T_ctor (t_time c') 17) (\<lambda>t1.
            rbind (FixedBuffer_append t1 b) (\<lambda>b1.
            rbind (T_ctor us n) (\<lambda>t2.
            rbind (FixedBuffer_append t2 b1) (\<lambda>b2. Inr (c', b2)))))))))"

text \<open>\<open>errno_items\<close>: the system error, when there is one.\<close>

definition errno_items :: "(int \<Rightarrow> string) \<Rightarrow> int \<Rightarrow> log_item list" where
  "errno_items strerr savedErrno =
     (if savedErrno \<noteq> 0
      then [LCString (Some (strerr savedErrno)), LCString (Some '' (errno=''), LInteger savedErrno, LCString (Some '') '')] else [])"

definition Impl_ctor ::
  "tz_data option \<Rightarrow> int \<Rightarrow> int \<Rightarrow> (int \<Rightarrow> string) \<Rightarrow> log_level \<Rightarrow> int \<Rightarrow> log_cache \<Rightarrow> string \<Rightarrow> (log_cache \<times> fixed_buffer) result" where
  "Impl_ctor zone micros tid strerr level savedErrno c array =
     rbind (Impl_formatTime zone micros c (FixedBuffer_ctor array)) (\<lambda>(c', b).
     rbind (T_ctor (CurrentThread_tidString tid) (length (CurrentThread_tidString tid))) (\<lambda>t1.
     rbind (FixedBuffer_append t1 b) (\<lambda>b1.
     rbind (T_ctor (LogLevelName level) 6) (\<lambda>t2.
     rbind (FixedBuffer_append t2 b1) (\<lambda>b2.
     rbind (rfold LogStream_put (errno_items strerr savedErrno) b2) (\<lambda>b3. Inr (c', b3)))))))"

definition finish_items :: "string \<Rightarrow> int \<Rightarrow> log_item list" where
  "finish_items basename line = [LCString (Some '' - ''), LString basename, LChar (CHR '':''), LInteger line, LChar (CHR 0x0A)]"

definition Impl_finish :: "string \<Rightarrow> int \<Rightarrow> fixed_buffer \<Rightarrow> fixed_buffer result" where
  "Impl_finish basename line = rfold LogStream_put (finish_items basename line)"

text \<open>A whole log statement: the constructor, the items streamed into it, the destructor.\<close>

definition Logger_statement ::
  "tz_data option \<Rightarrow> (int \<Rightarrow> string) \<Rightarrow> int \<Rightarrow> int \<Rightarrow> string \<Rightarrow> logger_ctor \<Rightarrow> string \<Rightarrow> int \<Rightarrow> log_item list \<Rightarrow> log_cache \<Rightarrow>
     (log_cache \<times> string \<times> bool) result" where
  "Logger_statement zone strerr tid micros array ctor file line items c =
     rbind (Impl_ctor zone micros tid strerr (logger_level ctor) (logger_errno ctor) c array) (\<lambda>(c', b).
     rbind (rfold LogStream_put (logger_prefix ctor @ items) b) (\<lambda>b1.
     rbind (Impl_finish (SourceFile_ctor file) line b1) (\<lambda>b2.
     Inr (c', FixedBuffer_toString b2, logger_level ctor = FATAL))))"

text \<open>The macros \<open>LOG_TRACE\<close>, \<open>LOG_DEBUG\<close> and \<open>LOG_INFO\<close> look at the global level first; the others do not.\<close>

definition LOG_enabled :: "log_level \<Rightarrow> log_level \<Rightarrow> bool" where
  "LOG_enabled g_logLevel l \<longleftrightarrow> (if l \<in> {TRACE, DEBUG, INFO} then g_logLevel \<le> l else True)"

section \<open>Texts without zero bytes\<close>

definition no_nul :: "string \<Rightarrow> bool" where
  "no_nul s \<longleftrightarrow> CHR 0x00 \<notin> set s"

lemma no_nul_simps [simp]: "no_nul []" "no_nul (c # s) \<longleftrightarrow> c \<noteq> CHR 0x00 \<and> no_nul s" "no_nul (s @ t) \<longleftrightarrow> no_nul s \<and> no_nul t"
  "no_nul (replicate n c) \<longleftrightarrow> n = 0 \<or> c \<noteq> CHR 0x00"
  by (auto simp: no_nul_def)

lemma no_nul_take [simp]: "no_nul s \<Longrightarrow> no_nul (take n s)"
  by (auto simp: no_nul_def dest: in_set_takeD)

lemma no_nul_show_nat [simp]: "no_nul (show_nat n)"
proof -
  have "digit_char d \<noteq> CHR 0x00" if "d < 10" for d
    using that by (auto simp: digit_char_def char_of_eq_iff take_bit_eq_mod)
  then show ?thesis using show_nat_digits [of "CHR 0x00" n] unfolding no_nul_def by metis
qed

lemma no_nul_show_int [simp]: "no_nul (show_int i)" "no_nul (pad_blank n s) \<longleftrightarrow> no_nul s" "no_nul (fmt_0d n i)"
  by (simp_all add: show_int_def pad_blank_def fmt_0d_def)

lemma no_nul_fmt_time [simp]: "no_nul (fmt_time u)"
  by (simp add: fmt_time_def)

lemma no_nul_tid [simp]: "no_nul (CurrentThread_tidString tid)"
  by (simp add: CurrentThread_tidString_def snprintf_cut_def)

lemma strlen_no_nul: "no_nul s \<Longrightarrow> strlen (s @ CHR 0x00 # t) = length s" "no_nul s \<Longrightarrow> strlen s = length s"
proof -
  assume s: "no_nul s"
  have "takeWhile (\<lambda>c. c \<noteq> CHR 0x00) (s @ CHR 0x00 # t) = s" using s by (subst takeWhile_append2) (auto simp: no_nul_def)
  moreover have "takeWhile (\<lambda>c. c \<noteq> CHR 0x00) s = s" using s by (auto simp: no_nul_def takeWhile_eq_all_conv)
  ultimately show "strlen (s @ CHR 0x00 # t) = length s" "strlen s = length s" by (simp_all only: strlen_def)
qed

section \<open>Lines\<close>

lemma append_fits: "holds_text acc b \<Longrightarrow> length acc + length s < kSmallBuffer \<Longrightarrow> rspec (FixedBuffer_append s b) (holds_text (acc @ s))"
  using append_holds [of acc b s] by simp

lemma puts_fit:
  assumes "holds_text acc b" "list_all item_ok xs" "length acc + length (concat (map item_text xs)) + kMaxNumericSize \<le> kSmallBuffer"
  shows "rspec (rfold LogStream_put xs b) (holds_text (acc @ concat (map item_text xs)))"
  using puts_hold [OF assms(1,2)] specs_all_fit [OF assms(3)] by simp

text \<open>The cache is the text of its second, unless it was never used.\<close>

definition cache_ok :: "tz_data option \<Rightarrow> log_cache \<Rightarrow> bool" where
  "cache_ok zone c \<longleftrightarrow> t_lastSecond c = 0 \<or>
     rspec (log_tm zone (t_lastSecond c)) (\<lambda>u. length (fmt_time u) = 17 \<and> t_time c = fmt_time u @ [CHR 0x00])"

lemma refresh_ok:
  assumes "refresh_time zone seconds c = Inr c'" "cache_ok zone c"
  shows "cache_ok zone c'"
  using assms by (auto simp: refresh_time_def rbind_eq_Inr_iff cache_ok_def snprintf_cut_def split: if_splits)

lemma refresh_text:
  assumes "cache_ok zone c" "seconds \<noteq> 0" "log_tm zone seconds = Inr u" "length (fmt_time u) = 17"
  shows "rspec (refresh_time zone seconds c) (\<lambda>c'. cache_ok zone c' \<and> t_time c' = fmt_time u @ [CHR 0x00])"
  using assms by (cases "seconds = t_lastSecond c") (auto simp: refresh_time_def cache_ok_def snprintf_cut_def)

text \<open>The fraction of the second, with its mark for UTC.\<close>

definition micros_text :: "tz_data option \<Rightarrow> int \<Rightarrow> string" where
  "micros_text zone micros = ''.'' @ fmt_0d 6 (micros smod kMicrosPerSecond) @ (if TimeZone_valid zone then '' '' else ''Z '')"

lemma length_fmt_0d: "0 \<le> i \<Longrightarrow> i < 10 ^ n \<Longrightarrow> 0 < n \<Longrightarrow> length (fmt_0d n i) = n"
  using length_show_nat [of "nat i" n] by (simp add: fmt_0d_def nat_less_iff)

lemma smod_range: "0 \<le> m \<Longrightarrow> 0 \<le> m smod kMicrosPerSecond \<and> m smod kMicrosPerSecond < 10 ^ 6"
  by (cases "m = 0") (simp_all add: signed_modulo_int_def kMicrosPerSecond_def)

lemma micros_text_length: "0 \<le> micros \<Longrightarrow> length (micros_text zone micros) = (if TimeZone_valid zone then 8 else 9)"
  using length_fmt_0d [of "micros smod kMicrosPerSecond" 6] smod_range [of micros] by (simp add: micros_text_def)

lemma no_nul_micros [simp]: "no_nul (micros_text zone micros)"
  by (simp add: micros_text_def)

lemma T_ctor_ok: "no_nul s \<Longrightarrow> length s = n \<Longrightarrow> T_ctor s n = Inr s" "no_nul s \<Longrightarrow> length s = n \<Longrightarrow> T_ctor (s @ [CHR 0x00]) n = Inr s"
  by (simp_all add: T_ctor_def strlen_no_nul)

lemma formatTime_text:
  assumes "cache_ok zone c" "kMicrosPerSecond \<le> micros" "log_tm zone (micros sdiv kMicrosPerSecond) = Inr u" "length (fmt_time u) = 17"
    "holds_text [] b"
  shows "rspec (Impl_formatTime zone micros c b) (\<lambda>(c', b'). cache_ok zone c' \<and> holds_text (fmt_time u @ micros_text zone micros) b')"
proof -
  have m: "0 \<le> micros" "1 \<le> micros div kMicrosPerSecond" using assms(2) by (simp_all add: kMicrosPerSecond_def)
  then have "micros sdiv kMicrosPerSecond \<noteq> 0" by (simp add: kMicrosPerSecond_def)
  from refresh_text [OF assms(1) this assms(3,4)] obtain c' where c': "refresh_time zone (micros sdiv kMicrosPerSecond) c = Inr c'"
    "cache_ok zone c'" "t_time c' = fmt_time u @ [CHR 0x00]" by (auto simp: rspec_iff)
  define n where "n = (if TimeZone_valid zone then 8 else 9 :: nat)"
  have n: "length (micros_text zone micros) = n" using micros_text_length [OF m(1)] by (simp add: n_def)
  have f: "Fmt_ctor (micros_text zone micros) = Inr (micros_text zone micros)" using n by (simp add: Fmt_ctor_def n_def split: if_splits)
  obtain b1 where b1: "FixedBuffer_append (fmt_time u) b = Inr b1" "holds_text (fmt_time u) b1"
    using append_fits [OF assms(5), of "fmt_time u"] assms(4) by (auto simp: rspec_iff kSmallBuffer_def)
  obtain b2 where b2: "FixedBuffer_append (micros_text zone micros) b1 = Inr b2" "holds_text (fmt_time u @ micros_text zone micros) b2"
    using append_fits [OF b1(2), of "micros_text zone micros"] assms(4) n by (auto simp: rspec_iff kSmallBuffer_def n_def split: if_splits)
  have e: "''.'' @ fmt_0d 6 (micros smod kMicrosPerSecond) @ (if TimeZone_valid zone then '' '' else ''Z '') = micros_text zone micros"
    by (simp add: micros_text_def)
  have p: "(if TimeZone_valid zone then ('' '', 8 :: nat) else (''Z '', 9)) = ((if TimeZone_valid zone then '' '' else ''Z ''), n)"
    by (simp add: n_def)
  show ?thesis
    unfolding Impl_formatTime_def Let_def c'(1) rbind_Inr p prod.case e f
    using n c'(2) b1(1) b2 T_ctor_ok [OF no_nul_fmt_time assms(4)] T_ctor_ok(1) [OF no_nul_micros n] by (simp add: c'(3))
qed


lemma length_tid: "- (2 ^ 31) \<le> tid \<Longrightarrow> tid < 2 ^ 31 \<Longrightarrow> length (CurrentThread_tidString tid) \<le> 12"
  using length_show_nat [of "nat tid" 10] length_show_nat [of "nat (- tid)" 10]
  by (auto simp: CurrentThread_tidString_def snprintf_cut_def pad_blank_def show_int_def nat_less_iff)

lemma LogLevelName_text: "no_nul (LogLevelName l)" "length (LogLevelName l) = 6"
  by (cases l; simp)+

text \<open>The text of a statement, without the cache.\<close>

definition statement_items :: "(int \<Rightarrow> string) \<Rightarrow> logger_ctor \<Rightarrow> log_item list \<Rightarrow> string \<Rightarrow> int \<Rightarrow> log_item list" where
  "statement_items strerr ctor items file line =
     errno_items strerr (logger_errno ctor) @ logger_prefix ctor @ items @ finish_items (SourceFile_ctor file) line"

definition line_head :: "tz_data option \<Rightarrow> tm \<Rightarrow> int \<Rightarrow> int \<Rightarrow> logger_ctor \<Rightarrow> string" where
  "line_head zone u micros tid ctor =
     fmt_time u @ micros_text zone micros @ CurrentThread_tidString tid @ LogLevelName (logger_level ctor)"

lemma Impl_ctor_text:
  assumes "cache_ok zone c" "kMicrosPerSecond \<le> micros" "log_tm zone (micros sdiv kMicrosPerSecond) = Inr u" "length (fmt_time u) = 17"
    and "length array = kSmallBuffer" "- (2 ^ 31) \<le> tid" "tid < 2 ^ 31" "list_all item_ok (errno_items strerr (logger_errno ctor))"
    and "length (concat (map item_text (errno_items strerr (logger_errno ctor)))) \<le> 3900"
  shows "rspec (Impl_ctor zone micros tid strerr (logger_level ctor) (logger_errno ctor) c array) (\<lambda>(c', b). cache_ok zone c' \<and>
     holds_text (line_head zone u micros tid ctor @ concat (map item_text (errno_items strerr (logger_errno ctor)))) b)"
proof -
  let ?t = "CurrentThread_tidString tid" and ?l = "LogLevelName (logger_level ctor)" and ?m = "micros_text zone micros"
  have m: "0 \<le> micros" using assms(2) by (simp add: kMicrosPerSecond_def)
  have len: "length ?m \<le> 9" "length ?t \<le> 12" "length ?l = 6"
    using micros_text_length [OF m] length_tid [OF assms(6,7)] LogLevelName_text by simp_all
  obtain c' b where c': "Impl_formatTime zone micros c (FixedBuffer_ctor array) = Inr (c', b)" "cache_ok zone c'"
    and b: "holds_text (fmt_time u @ ?m) b"
    using formatTime_text [OF assms(1-4) holds_fresh [OF assms(5)]] by (auto simp: rspec_iff)
  obtain b1 where b1: "FixedBuffer_append ?t b = Inr b1" "holds_text ((fmt_time u @ ?m) @ ?t) b1"
    using append_fits [OF b, of ?t] len assms(4) by (auto simp: rspec_iff kSmallBuffer_def)
  obtain b2 where b2: "FixedBuffer_append ?l b1 = Inr b2" "holds_text (((fmt_time u @ ?m) @ ?t) @ ?l) b2"
    using append_fits [OF b1(2), of ?l] len assms(4) by (auto simp: rspec_iff kSmallBuffer_def)
  have "rspec (rfold LogStream_put (errno_items strerr (logger_errno ctor)) b2)
      (holds_text ((((fmt_time u @ ?m) @ ?t) @ ?l) @ concat (map item_text (errno_items strerr (logger_errno ctor)))))"
    by (rule puts_fit [OF b2(2) assms(8)]) (use len assms(4,9) in \<open>simp add: kSmallBuffer_def kMaxNumericSize_def\<close>)
  then show ?thesis
    using c' b1(1) b2(1) T_ctor_ok(1) [OF no_nul_tid refl, of tid] T_ctor_ok(1) [OF LogLevelName_text, of "logger_level ctor"]
    by (auto simp: Impl_ctor_def rspec_iff line_head_def)
qed

lemma statement_text:
  assumes "cache_ok zone c" "kMicrosPerSecond \<le> micros" "log_tm zone (micros sdiv kMicrosPerSecond) = Inr u" "length (fmt_time u) = 17"
    and "length array = kSmallBuffer" "- (2 ^ 31) \<le> tid" "tid < 2 ^ 31" "list_all item_ok (statement_items strerr ctor items file line)"
    and "length (concat (map item_text (statement_items strerr ctor items file line))) \<le> 3900"
  shows "rspec (Logger_statement zone strerr tid micros array ctor file line items c) (\<lambda>(c', out, aborts). cache_ok zone c' \<and>
     out = line_head zone u micros tid ctor @ concat (map item_text (statement_items strerr ctor items file line)) \<and>
     (aborts \<longleftrightarrow> logger_level ctor = FATAL))"
proof -
  let ?e = "errno_items strerr (logger_errno ctor)" and ?p = "logger_prefix ctor @ items" and ?f = "finish_items (SourceFile_ctor file) line"
  let ?h = "line_head zone u micros tid ctor"
  have m: "0 \<le> micros" using assms(2) by (simp add: kMicrosPerSecond_def)
  have h: "length ?h \<le> 44"
    using micros_text_length [OF m] length_tid [OF assms(6,7)] LogLevelName_text assms(4) by (simp add: line_head_def)
  have ok: "list_all item_ok ?e" "list_all item_ok ?p" "list_all item_ok ?f" using assms(8) by (simp_all add: statement_items_def)
  have sz: "length (concat (map item_text ?e)) + length (concat (map item_text ?p)) + length (concat (map item_text ?f)) \<le> 3900"
    using assms(9) by (simp add: statement_items_def)
  obtain c' b where c': "Impl_ctor zone micros tid strerr (logger_level ctor) (logger_errno ctor) c array = Inr (c', b)" "cache_ok zone c'"
    and b: "holds_text (?h @ concat (map item_text ?e)) b"
    using Impl_ctor_text [OF assms(1-7) ok(1)] sz by (auto simp: rspec_iff)
  have "rspec (rfold LogStream_put ?p b) (holds_text ((?h @ concat (map item_text ?e)) @ concat (map item_text ?p)))"
    by (rule puts_fit [OF b ok(2)]) (use h sz in \<open>simp add: kSmallBuffer_def kMaxNumericSize_def\<close>)
  then obtain b1 where b1: "rfold LogStream_put ?p b = Inr b1" "holds_text ((?h @ concat (map item_text ?e)) @ concat (map item_text ?p)) b1"
    by (auto simp: rspec_iff)
  have "rspec (rfold LogStream_put ?f b1) (holds_text (((?h @ concat (map item_text ?e)) @ concat (map item_text ?p)) @ concat (map item_text ?f)))"
    by (rule puts_fit [OF b1(2) ok(3)]) (use h sz in \<open>simp add: kSmallBuffer_def kMaxNumericSize_def\<close>)
  then show ?thesis
    using c' b1(1) holds_text_toString by (fastforce simp: Logger_statement_def Impl_finish_def statement_items_def rspec_iff)
qed

section \<open>The years that print\<close>

lemma day_number_mono_year:
  assumes "valid_date (y, mon, d)" "10000 \<le> y"
  shows "day_number (10000, 1, 1) \<le> day_number (y, mon, d)"
proof -
  have step: "year_day x \<le> year_day (x + 1)" for x
    using year_day_Suc [of "x - 4799"] by (simp add: algebra_simps split: if_splits)
  have mono: "year_day x \<le> year_day (x + int n)" for x n
  proof (induction n)
    case (Suc n)
    then show ?case using step [of "x + int n"] by (simp add: algebra_simps)
  qed simp
  have ym: "year_day x \<le> year_day z" if "x \<le> z" for x z using mono [of x "nat (z - x)"] that by simp
  define a where "a = (if mon \<le> 2 then 1 else 0 :: int)"
  define m where "m = mon + 12 * a - 3"
  note sh = march_shift [OF assms(1), folded a_def, folded m_def]
  have n: "day_number (y, mon, d) = d + march_day m + year_day (y + (4800 - a)) - 32045"
    by (simp add: day_number_def Let_def a_def m_def)
  have d: "1 \<le> d" "0 \<le> march_day m" using assms(1) sh(1) by (simp_all add: valid_date_def march_day_def)
  have j: "day_number (10000, 1, 1) = 307 + year_day 14799 - 32045" by (simp add: day_number_def march_day_def)
  show ?thesis
  proof (cases "mon \<le> 2")
    case True
    have "1 \<le> mon" using assms(1) by (simp add: valid_date_def)
    then have "mon = 1 \<or> mon = 2" using True by presburger
    then have "306 \<le> march_day m" by (auto simp: m_def a_def march_day_def)
    then show ?thesis using n j d ym [of 14799 "y + 4799"] assms(2) True by (simp add: a_def)
  next
    case False
    have "year_day 14800 = year_day 14799 + 366" by (simp add: year_day_def)
    then show ?thesis using n j d ym [of 14800 "y + 4800"] assms(2) False by (simp add: a_def)
  qed
qed

text \<open>From 1970 to the end of the year 9999 the broken-down time prints in seventeen characters.\<close>

lemma utc_prints:
  assumes "0 \<le> t" "t < 253402300800"
  shows "rspec (libc_gmtime t) (\<lambda>u. length (fmt_time u) = 17)"
proof -
  have "0 \<le> t div kSecondsPerDay" "t div kSecondsPerDay \<le> 2932896"
    using assms zdiv_mono1 [of t 253402300799 86400] pos_imp_zdiv_nonneg_iff [of 86400 t] by (simp_all add: kSecondsPerDay_def)
  then have j: "2440588 \<le> t div kSecondsPerDay + kJulianDayOf1970_01_01" "t div kSecondsPerDay + kJulianDayOf1970_01_01 \<le> 5373484"
    by (simp_all add: kJulianDayOf1970_01_01_def)
  then have r: "time_range t" by (simp add: time_range_def day_range_def)
  show ?thesis unfolding libc_gmtime_def using toUtcTime_fields [OF r, of True]
  proof (rule rspec_mono, elim conjE)
    fix u assume u: "utc_fields t (t div kSecondsPerDay + kJulianDayOf1970_01_01) u" "- 4799 \<le> tm_year u + 1900"
    then have v: "valid_date (tm_year u + 1900, tm_mon u + 1, tm_mday u)" by (simp add: utc_fields_def)
    have "day_number (tm_year u + 1900, tm_mon u + 1, tm_mday u) \<le> 5373484" using u(1) j(2) by (simp add: utc_fields_def)
    moreover have "day_number (10000, 1, 1) = 5373485" by (simp add: day_number_def march_day_def year_day_def)
    ultimately have y: "tm_year u + 1900 < 10000" using day_number_mono_year [OF v] by force
    have "0 \<le> tm_year u + 1900"
    proof (rule ccontr)
      assume neg: "\<not> 0 \<le> tm_year u + 1900"
      have "day_number (tm_year u + 1900, tm_mon u + 1, tm_mday u) \<le> 2440587"
        using day_upper [OF v u(2)] neg by simp
      then show False using u(1) j(1) by (simp add: utc_fields_def)
    qed
    then have "length (show_int (tm_year u + 1900)) \<le> 4" using y length_show_nat [of "nat (tm_year u + 1900)" 4] by (simp add: show_int_def nat_less_iff)
    moreover have "1 \<le> tm_mday u" "tm_mday u \<le> 31" "1 \<le> tm_mon u + 1" "tm_mon u + 1 \<le> 12"
      using v by (auto simp: valid_date_def days_in_month_def split: if_splits)
    ultimately show "length (fmt_time u) = 17"
      using u(1) by (simp add: fmt_time_def pad_blank_def utc_fields_def length_fmt_0d)
  qed
qed


section \<open>A thread that logs\<close>

inductive log_step :: "tz_data option \<Rightarrow> (int \<Rightarrow> string) \<Rightarrow> int \<Rightarrow> log_cache \<Rightarrow> log_cache \<Rightarrow> bool"
  for zone :: "tz_data option" and strerr :: "int \<Rightarrow> string" and tid :: int where
  log_one: "Logger_statement zone strerr tid micros array ctor file line items c = Inr (c', out, aborts) \<Longrightarrow> log_step zone strerr tid c c'"

definition log_init :: "log_cache \<Rightarrow> bool" where
  "log_init c \<longleftrightarrow> c = log_cache_init"

lemma formatTime_cache:
  assumes "Impl_formatTime zone micros c b = Inr (c', b')" "cache_ok zone c"
  shows "cache_ok zone c'"
proof -
  have "refresh_time zone (micros sdiv kMicrosPerSecond) c = Inr c'"
    using assms(1) by (auto simp: Impl_formatTime_def Let_def rbind_eq_Inr_iff split: if_splits)
  then show ?thesis by (rule refresh_ok [OF _ assms(2)])
qed

lemma log_step_cache: "log_step zone strerr tid c c' \<Longrightarrow> cache_ok zone c \<Longrightarrow> cache_ok zone c'"
proof (induction rule: log_step.induct)
  case (log_one micros array ctor path line items c c' out aborts)
  then obtain b where "Impl_ctor zone micros tid strerr (logger_level ctor) (logger_errno ctor) c array = Inr (c', b)"
    by (auto simp: Logger_statement_def rbind_eq_Inr_iff)
  then show ?case using formatTime_cache log_one.prems by (auto simp: Impl_ctor_def rbind_eq_Inr_iff)
qed

interpretation log_run: inductive_invariant log_init "log_step zone strerr tid" "cache_ok zone"
proof
  show "log_init c \<Longrightarrow> cache_ok zone c" for c by (simp add: log_init_def log_cache_init_def cache_ok_def)
qed (rule log_step_cache)

text \<open>
  A cached second outlives a change of the time zone: \<open>setTimeZone\<close> does not touch the cache. And a first line at second
  0 of the epoch finds the cache empty.
\<close>

lemma zone_change_keeps_text: "seconds = t_lastSecond c \<Longrightarrow> refresh_time zone' seconds c = Inr c"
  by (simp add: refresh_time_def)

lemma first_second_aborts:
  assumes "0 \<le> micros" "micros < kMicrosPerSecond"
  shows "Impl_formatTime zone micros log_cache_init b = Inl (AssertFail ''strlen(str) == len_'')"
proof -
  have s: "micros sdiv kMicrosPerSecond = 0" using assms by (simp add: kMicrosPerSecond_def)
  have "Fmt_ctor (micros_text zone micros) = Inr (micros_text zone micros)" "length (micros_text zone micros) = (if TimeZone_valid zone then 8 else 9)"
    using micros_text_length [OF assms(1), of zone] by (simp_all add: Fmt_ctor_def)
  moreover have "T_ctor (t_time log_cache_init) 17 = Inl (AssertFail ''strlen(str) == len_'')"
    by (simp add: T_ctor_def strlen_def log_cache_init_def takeWhile_replicate)
  ultimately show ?thesis
    by (cases "TimeZone_valid zone")
       (simp_all add: Impl_formatTime_def Let_def s refresh_time_def log_cache_init_def micros_text_def)
qed

section \<open>Properties\<close>


definition demo_array :: string where "demo_array = replicate kSmallBuffer (CHR ''?'')"

definition demo_statement :: "log_cache \<Rightarrow> (log_cache \<times> string \<times> bool) result" where
  "demo_statement c = Logger_statement None (\<lambda>_. ''No such file'') 42 1000000000000042 demo_array (Logger_sys False 2) ''src/main.cc'' 7
     [LString ''open'', LInteger (-1)] c"

lemma demo_gmtime:
  "rspec (log_tm None 1000000000) (\<lambda>u. fmt_time u = ''20010909 01:46:40'')"
proof -
  have "getYearMonthDay 2452162 = Inr \<lparr>year = 2001, month = 9, day = 9\<rparr>" "getJulianDayNumber 2001 1 1 = Inr 2451911" by code_simp+
  then show ?thesis
    by (simp add: log_tm_def TimeZone_valid_def libc_gmtime_def TimeZone_toUtcTime_def Let_def kSecondsPerDay_def
        kJulianDayOf1970_01_01_def fillHMS_def signed_modulo_int_def fmt_time_def) code_simp
qed


end
