(* ===== verification/WinTimers.thy ===== *)
theory WinTimers
  imports Prelude "HOL-Library.Multiset"
begin

text \<open>
  The timers of the Windows copy of muduo (\<open>third/muduo-win/src/net/TimeMinHeap.h\<close>, \<open>Timer.h\<close>, \<open>TimerQueue.cc\<close>): a binary
  heap in an array of pointers in which every timer knows its own position. Pointers are numbers, and
  \<open>hp_timer\<close> is what they point to; timers are freed only with the queue. A position outside the array is
  \<open>Undefined\<close>. A slot that \<open>realloc\<close> has added holds \<open>junk\<close>.
\<close>

type_synonym timer_ptr = nat

record wtimer =
  w_expiration :: int
  w_delta :: int
  w_repeat :: bool
  w_idx :: int

record min_heap =
  hp_event :: "timer_ptr list"
  hp_size :: nat
  hp_timer :: "timer_ptr \<Rightarrow> wtimer"

definition GET_PARENT :: "nat \<Rightarrow> nat" where "GET_PARENT i = (i - 1) div 2"
definition GET_RIGHT_CHILD :: "nat \<Rightarrow> nat" where "GET_RIGHT_CHILD i = (i + 1) * 2"

definition compare_int_keys :: "int \<Rightarrow> int \<Rightarrow> int" where
  "compare_int_keys key1 key2 = (if key1 < key2 then -1 else if key1 = key2 then 0 else 1)"

definition min_heap_elem_greater :: "min_heap \<Rightarrow> timer_ptr \<Rightarrow> timer_ptr \<Rightarrow> bool" where
  "min_heap_elem_greater s lhs rhs \<longleftrightarrow>
     compare_int_keys (w_expiration (hp_timer s lhs)) (w_expiration (hp_timer s rhs)) = 1"

definition min_heap_ctor :: "(timer_ptr \<Rightarrow> wtimer) \<Rightarrow> min_heap" where
  "min_heap_ctor timers = \<lparr>hp_event = [], hp_size = 0, hp_timer = timers\<rparr>"

text \<open>\<open>(s->event[hole_index] = e)->min_heap_idx = hole_index\<close>\<close>

definition put_at :: "nat \<Rightarrow> timer_ptr \<Rightarrow> min_heap \<Rightarrow> min_heap" where
  "put_at hole e s = s\<lparr>hp_event := (hp_event s)[hole := e], hp_timer := (hp_timer s)(e := (hp_timer s e)\<lparr>w_idx := int hole\<rparr>)\<rparr>"

function shift_up :: "nat \<Rightarrow> timer_ptr \<Rightarrow> min_heap \<Rightarrow> min_heap" where
  "shift_up hole e s =
     (let parent = GET_PARENT hole
      in if hole \<noteq> 0 \<and> min_heap_elem_greater s (hp_event s ! parent) e
         then shift_up parent e (put_at hole (hp_event s ! parent) s)
         else put_at hole e s)"
  by pat_completeness auto

termination
  by (relation "measure (\<lambda>(hole, e, s). hole)") (auto simp: GET_PARENT_def)

function shift_down :: "nat \<Rightarrow> timer_ptr \<Rightarrow> min_heap \<Rightarrow> min_heap" where
  "shift_down hole e s =
     (let right = GET_RIGHT_CHILD hole
      in if right \<le> hp_size s
         then let min_child = (if right = hp_size s \<or> min_heap_elem_greater s (hp_event s ! right) (hp_event s ! (right - 1))
                               then right - 1 else right)
              in if \<not> min_heap_elem_greater s e (hp_event s ! min_child) then put_at hole e s
                 else shift_down min_child e (put_at hole (hp_event s ! min_child) s)
         else put_at hole e s)"
  by pat_completeness auto

termination
  by (relation "measure (\<lambda>(hole, e, s). hp_size s - hole)") (auto simp: GET_RIGHT_CHILD_def put_at_def)

declare shift_up.simps [simp del] shift_down.simps [simp del]

definition min_heap_shift_up :: "nat \<Rightarrow> timer_ptr \<Rightarrow> min_heap \<Rightarrow> min_heap result" where
  "min_heap_shift_up hole e s =
     (if hole < length (hp_event s) then Inr (shift_up hole e s) else Inl (Undefined ''index of event''))"

definition min_heap_shift_down :: "nat \<Rightarrow> timer_ptr \<Rightarrow> min_heap \<Rightarrow> min_heap result" where
  "min_heap_shift_down hole e s =
     (if hole < length (hp_event s) \<and> hp_size s \<le> length (hp_event s) then Inr (shift_down hole e s)
      else Inl (Undefined ''index of event''))"

text \<open>The capacity is the length of the array; \<open>ok\<close> is whether \<open>realloc\<close> succeeds.\<close>

definition min_heap_reserve :: "bool \<Rightarrow> timer_ptr \<Rightarrow> nat \<Rightarrow> min_heap \<Rightarrow> min_heap option" where
  "min_heap_reserve ok junk n s =
     (let capacity0 = length (hp_event s)
      in if capacity0 < n
         then let c1 = (if capacity0 \<noteq> 0 then capacity0 * 2 mod 2 ^ 32 else 8); c2 = (if c1 < n then n else c1)
              in if ok then Some (s\<lparr>hp_event := hp_event s @ replicate (c2 - capacity0) junk\<rparr>) else None
         else Some s)"

definition min_heap_push :: "bool \<Rightarrow> timer_ptr \<Rightarrow> timer_ptr \<Rightarrow> min_heap \<Rightarrow> (int \<times> min_heap) result" where
  "min_heap_push ok junk e s =
     (case min_heap_reserve ok junk ((hp_size s + 1) mod 2 ^ 32) s of
        None \<Rightarrow> Inr (-1, s)
      | Some s1 \<Rightarrow>
          rbind (min_heap_shift_up (hp_size s1) e (s1\<lparr>hp_size := (hp_size s1 + 1) mod 2 ^ 32\<rparr>)) (\<lambda>s2. Inr (0, s2)))"

definition min_heap_top :: "min_heap \<Rightarrow> timer_ptr option" where
  "min_heap_top s = (if hp_size s \<noteq> 0 then Some (hp_event s ! 0) else None)"

definition min_heap_pop :: "min_heap \<Rightarrow> (timer_ptr option \<times> min_heap) result" where
  "min_heap_pop s =
     (if hp_size s \<noteq> 0
      then let n = hp_size s - 1
           in rbind (min_heap_shift_down 0 (hp_event s ! n) (s\<lparr>hp_size := n\<rparr>)) (\<lambda>s'. Inr (Some (hp_event s ! 0), s'))
      else Inr (None, s))"

text \<open>\<open>--size\<close> of an empty heap wraps around and reads the last of four billion slots.\<close>

definition min_heap_erase :: "timer_ptr \<Rightarrow> min_heap \<Rightarrow> (int \<times> min_heap) result" where
  "min_heap_erase e s =
     (let idx = w_idx (hp_timer s e)
      in if idx \<noteq> -1
         then if hp_size s = 0 \<or> idx < 0 then Inl (Undefined ''index of event'')
              else let n = hp_size s - 1; final = hp_event s ! n; s1 = s\<lparr>hp_size := n\<rparr>; i = nat idx; parent = GET_PARENT i
                   in rbind (if i > 0 \<and> min_heap_elem_greater s1 (hp_event s ! parent) final
                             then min_heap_shift_up i final s1 else min_heap_shift_down i final s1) (\<lambda>s2.
                      Inr (0, s2\<lparr>hp_timer := (hp_timer s2)(e := (hp_timer s2 e)\<lparr>w_idx := -1\<rparr>)\<rparr>))
         else Inr (-1, s))"

section \<open>Heaps with a hole\<close>

abbreviation key :: "min_heap \<Rightarrow> timer_ptr \<Rightarrow> int" where
  "key s t \<equiv> w_expiration (hp_timer s t)"

lemma greater_iff [simp]: "min_heap_elem_greater s a b \<longleftrightarrow> key s b < key s a"
  by (auto simp: min_heap_elem_greater_def compare_int_keys_def)

lemma put_at_simps [simp]:
  "hp_event (put_at k e s) = (hp_event s)[k := e]" "hp_size (put_at k e s) = hp_size s" "key (put_at k e s) t = key s t"
  "w_idx (hp_timer (put_at k e s) t) = (if t = e then int k else w_idx (hp_timer s t))"
  "w_repeat (hp_timer (put_at k e s) t) = w_repeat (hp_timer s t)" "w_delta (hp_timer (put_at k e s) t) = w_delta (hp_timer s t)"
  by (simp_all add: put_at_def)

definition contents :: "min_heap \<Rightarrow> timer_ptr list" where
  "contents s = take (hp_size s) (hp_event s)"

definition heap_ordered :: "min_heap \<Rightarrow> bool" where
  "heap_ordered s \<longleftrightarrow> (\<forall>i < hp_size s. 0 < i \<longrightarrow> key s (hp_event s ! GET_PARENT i) \<le> key s (hp_event s ! i))"

definition indexed :: "min_heap \<Rightarrow> bool" where
  "indexed s \<longleftrightarrow> (\<forall>i < hp_size s. w_idx (hp_timer s (hp_event s ! i)) = int i)"

definition heap_inv :: "min_heap \<Rightarrow> bool" where
  "heap_inv s \<longleftrightarrow> hp_size s \<le> length (hp_event s) \<and> distinct (contents s) \<and> heap_ordered s \<and> indexed s"

text \<open>
  The state of both loops: the slot \<open>k\<close> is free for \<open>e\<close>. Everywhere else the heap is in order, the
  children of the hole are not smaller than its parent, and the other timers know their positions.
\<close>

definition hole_ok :: "nat \<Rightarrow> timer_ptr \<Rightarrow> min_heap \<Rightarrow> bool" where
  "hole_ok k e s \<longleftrightarrow> k < hp_size s \<and> hp_size s \<le> length (hp_event s) \<and>
     distinct (take (hp_size s) ((hp_event s)[k := e])) \<and>
     (\<forall>i < hp_size s. 0 < i \<and> i \<noteq> k \<and> GET_PARENT i \<noteq> k \<longrightarrow> key s (hp_event s ! GET_PARENT i) \<le> key s (hp_event s ! i)) \<and>
     (\<forall>i < hp_size s. 0 < i \<and> GET_PARENT i = k \<and> 0 < k \<longrightarrow> key s (hp_event s ! GET_PARENT k) \<le> key s (hp_event s ! i)) \<and>
     (\<forall>i < hp_size s. i \<noteq> k \<longrightarrow> w_idx (hp_timer s (hp_event s ! i)) = int i)"

text \<open>What a loop leaves alone.\<close>

definition same_but :: "timer_ptr set \<Rightarrow> min_heap \<Rightarrow> min_heap \<Rightarrow> bool" where
  "same_but A s s' \<longleftrightarrow> hp_size s' = hp_size s \<and> length (hp_event s') = length (hp_event s) \<and>
     (\<forall>t. key s' t = key s t \<and> w_repeat (hp_timer s' t) = w_repeat (hp_timer s t) \<and> w_delta (hp_timer s' t) = w_delta (hp_timer s t)) \<and>
     (\<forall>t. t \<notin> A \<longrightarrow> w_idx (hp_timer s' t) = w_idx (hp_timer s t))"

lemma parent_less: "0 < i \<Longrightarrow> GET_PARENT i < i"
  by (simp add: GET_PARENT_def)

lemma children: "GET_PARENT i = k \<and> 0 < i \<longleftrightarrow> i = GET_RIGHT_CHILD k - 1 \<or> i = GET_RIGHT_CHILD k"
  by (auto simp: GET_PARENT_def GET_RIGHT_CHILD_def)

text \<open>Moving the element of slot \<open>j\<close> into the hole \<open>k\<close> and the hole to \<open>j\<close> keeps the contents.\<close>

lemma mset_move_hole:
  assumes "k < n" "j < n" "n \<le> length xs" "j \<noteq> k"
  shows "mset (take n ((xs[k := xs ! j])[j := e])) = mset (take n (xs[k := e]))"
proof -
  let ?ys = "xs[k := e]"
  have "(xs[k := xs ! j])[j := e] = ?ys[k := ?ys ! j, j := ?ys ! k]" using assms by (simp add: list_update_swap)
  moreover have "mset (take n (?ys[k := ?ys ! j, j := ?ys ! k])) = mset ((take n ?ys)[k := take n ?ys ! j, j := take n ?ys ! k])"
    using assms by (simp add: take_update_swap)
  ultimately show ?thesis using assms mset_swap [of j "take n ?ys" k] by simp
qed

lemma distinct_move_hole:
  assumes "k < n" "j < n" "n \<le> length xs" "j \<noteq> k" "distinct (take n (xs[k := e]))"
  shows "distinct (take n ((xs[k := xs ! j])[j := e]))"
  using mset_move_hole [OF assms(1-4), of e] assms(5) by (metis mset_eq_imp_distinct_iff)

lemma hole_elements:
  assumes "hole_ok k e s" "i < hp_size s" "i \<noteq> k"
  shows "hp_event s ! i \<noteq> e" "j < hp_size s \<Longrightarrow> j \<noteq> k \<Longrightarrow> j \<noteq> i \<Longrightarrow> hp_event s ! j \<noteq> hp_event s ! i"
proof -
  let ?ys = "take (hp_size s) ((hp_event s)[k := e])"
  have d: "distinct ?ys" "k < hp_size s" "hp_size s \<le> length (hp_event s)" using assms(1) by (auto simp: hole_ok_def)
  have n: "?ys ! k = e" "?ys ! i = hp_event s ! i" using d assms(2,3) by simp_all
  then show "hp_event s ! i \<noteq> e" using d assms(2,3) nth_eq_iff_index_eq [OF d(1), of k i] by simp
  assume "j < hp_size s" "j \<noteq> k" "j \<noteq> i"
  then show "hp_event s ! j \<noteq> hp_event s ! i" using d assms(2,3) n(2) nth_eq_iff_index_eq [OF d(1), of j i] by simp
qed

text \<open>Filling the hole.\<close>

lemma put_fills:
  assumes "hole_ok k e s" "0 < k \<Longrightarrow> key s (hp_event s ! GET_PARENT k) \<le> key s e"
    and "\<And>i. i < hp_size s \<Longrightarrow> 0 < i \<Longrightarrow> GET_PARENT i = k \<Longrightarrow> key s e \<le> key s (hp_event s ! i)"
  shows "heap_inv (put_at k e s)" "mset (contents (put_at k e s)) = mset (take (hp_size s) ((hp_event s)[k := e]))"
    "same_but (set (take (hp_size s) ((hp_event s)[k := e]))) s (put_at k e s)"
proof -
  have k: "k < hp_size s" "hp_size s \<le> length (hp_event s)" "distinct (take (hp_size s) ((hp_event s)[k := e]))"
    using assms(1) by (auto simp: hole_ok_def)
  have "e \<in> set (take (hp_size s) ((hp_event s)[k := e]))" using k by (auto simp: in_set_conv_nth intro!: exI [of _ k])
  then show "same_but (set (take (hp_size s) ((hp_event s)[k := e]))) s (put_at k e s)" by (auto simp: same_but_def)
  show "mset (contents (put_at k e s)) = mset (take (hp_size s) ((hp_event s)[k := e]))" by (simp add: contents_def)
  have "heap_ordered (put_at k e s)"
    using assms k parent_less unfolding heap_ordered_def hole_ok_def
    by (auto simp: nth_list_update dest: less_trans [OF parent_less])
  moreover have "indexed (put_at k e s)"
    using assms(1) k hole_elements(1) [OF assms(1)] by (auto simp: indexed_def hole_ok_def nth_list_update)
  ultimately show "heap_inv (put_at k e s)" using k by (simp add: heap_inv_def contents_def)
qed


text \<open>The element of slot \<open>j\<close>, a neighbour of the hole, moves into it; \<open>j\<close> is the new hole.\<close>

lemma hole_moves:
  assumes "hole_ok k e s" "j < hp_size s" "j \<noteq> k"
  defines "s' \<equiv> put_at k (hp_event s ! j) s"
  shows "mset (take (hp_size s') ((hp_event s')[j := e])) = mset (take (hp_size s) ((hp_event s)[k := e]))"
    "distinct (take (hp_size s') ((hp_event s')[j := e]))"
    "\<forall>i < hp_size s'. i \<noteq> j \<longrightarrow> w_idx (hp_timer s' (hp_event s' ! i)) = int i"
    "same_but (set (take (hp_size s) ((hp_event s)[k := e]))) s s'"
proof -
  have k: "k < hp_size s" "hp_size s \<le> length (hp_event s)" "distinct (take (hp_size s) ((hp_event s)[k := e]))"
    "\<And>i. i < hp_size s \<Longrightarrow> i \<noteq> k \<Longrightarrow> w_idx (hp_timer s (hp_event s ! i)) = int i" using assms(1) by (auto simp: hole_ok_def)
  show "mset (take (hp_size s') ((hp_event s')[j := e])) = mset (take (hp_size s) ((hp_event s)[k := e]))"
    using mset_move_hole [OF k(1) assms(2) k(2) assms(3)] by (simp add: s'_def)
  show "distinct (take (hp_size s') ((hp_event s')[j := e]))"
    using distinct_move_hole [OF k(1) assms(2) k(2) assms(3) k(3)] by (simp add: s'_def)
  show "\<forall>i < hp_size s'. i \<noteq> j \<longrightarrow> w_idx (hp_timer s' (hp_event s' ! i)) = int i"
    using k hole_elements(2) [OF assms(1,2,3)] assms(2,3) by (auto simp: s'_def nth_list_update)
  have "hp_event s ! j \<in> set (take (hp_size s) ((hp_event s)[k := e]))"
    using k assms(2,3) by (auto simp: in_set_conv_nth intro!: exI [of _ j])
  then show "same_but (set (take (hp_size s) ((hp_event s)[k := e]))) s s'" by (auto simp: same_but_def s'_def)
qed

lemma same_but_trans:
  assumes "same_but A s s'" "same_but B s' s''" "B = A"
  shows "same_but A s s''"
  using assms by (auto simp: same_but_def)

lemma hole_up:
  assumes "hole_ok k e s" "0 < k" "key s e < key s (hp_event s ! GET_PARENT k)"
  defines "s' \<equiv> put_at k (hp_event s ! GET_PARENT k) s"
  shows "hole_ok (GET_PARENT k) e s'"
    "\<And>i. i < hp_size s' \<Longrightarrow> 0 < i \<Longrightarrow> GET_PARENT i = GET_PARENT k \<Longrightarrow> key s' e \<le> key s' (hp_event s' ! i)"
proof -
  let ?p = "GET_PARENT k"
  have k: "k < hp_size s" "hp_size s \<le> length (hp_event s)"
    and ord: "\<And>i. i < hp_size s \<Longrightarrow> 0 < i \<Longrightarrow> i \<noteq> k \<Longrightarrow> GET_PARENT i \<noteq> k \<Longrightarrow> key s (hp_event s ! GET_PARENT i) \<le> key s (hp_event s ! i)"
    and ch: "\<And>i. i < hp_size s \<Longrightarrow> 0 < i \<Longrightarrow> GET_PARENT i = k \<Longrightarrow> key s (hp_event s ! ?p) \<le> key s (hp_event s ! i)"
    using assms(1,2) by (auto simp: hole_ok_def)
  have p: "?p < k" by (rule parent_less [OF assms(2)])
  have pp: "GET_PARENT i < i" if "0 < i" for i using that by (rule parent_less)
  note mv = hole_moves [OF assms(1), of ?p, folded s'_def]
  have lo: "key s (hp_event s ! ?p) \<le> key s (hp_event s ! i)" if "i < hp_size s" "0 < i" "GET_PARENT i = ?p" "i \<noteq> k" for i
    using ord [of i] that p by auto
  show "key s' e \<le> key s' (hp_event s' ! i)" if "i < hp_size s'" "0 < i" "GET_PARENT i = ?p" for i
    using that lo [of i] assms(3) k by (cases "i = k") (auto simp: s'_def)
  have "key s' (hp_event s' ! GET_PARENT i) \<le> key s' (hp_event s' ! i)" if i: "i < hp_size s'" "0 < i" "i \<noteq> ?p" "GET_PARENT i \<noteq> ?p" for i
  proof -
    have "i \<noteq> k" using i(4) by auto
    then show ?thesis
      using ord [of i] ch [of i] i(1,2) k by (cases "GET_PARENT i = k") (auto simp: s'_def)
  qed
  moreover have "key s' (hp_event s' ! GET_PARENT ?p) \<le> key s' (hp_event s' ! i)" if i: "i < hp_size s'" "0 < i" "GET_PARENT i = ?p" "0 < ?p" for i
  proof -
    have "key s (hp_event s ! GET_PARENT ?p) \<le> key s (hp_event s ! ?p)" using ord [of ?p] i(4) p k pp [OF i(4)] by auto
    moreover have "GET_PARENT ?p \<noteq> k" using pp [OF i(4)] p by simp
    ultimately show ?thesis using lo [of i] i k by (cases "i = k") (auto simp: s'_def)
  qed
  ultimately show "hole_ok ?p e s'" using mv(2,3) p k unfolding hole_ok_def by (auto simp: s'_def)
qed

lemma hole_down:
  assumes "hole_ok k e s" "m < hp_size s" "0 < m" "GET_PARENT m = k" "key s (hp_event s ! m) < key s e"
    and "\<And>i. i < hp_size s \<Longrightarrow> 0 < i \<Longrightarrow> GET_PARENT i = k \<Longrightarrow> key s (hp_event s ! m) \<le> key s (hp_event s ! i)"
  defines "s' \<equiv> put_at k (hp_event s ! m) s"
  shows "hole_ok m e s'" "key s' (hp_event s' ! GET_PARENT m) \<le> key s' e"
proof -
  have k: "k < hp_size s" "hp_size s \<le> length (hp_event s)"
    and ord: "\<And>i. i < hp_size s \<Longrightarrow> 0 < i \<Longrightarrow> i \<noteq> k \<Longrightarrow> GET_PARENT i \<noteq> k \<Longrightarrow> key s (hp_event s ! GET_PARENT i) \<le> key s (hp_event s ! i)"
    and ch: "\<And>i. i < hp_size s \<Longrightarrow> 0 < i \<Longrightarrow> GET_PARENT i = k \<Longrightarrow> 0 < k \<Longrightarrow> key s (hp_event s ! GET_PARENT k) \<le> key s (hp_event s ! i)"
    using assms(1) by (auto simp: hole_ok_def)
  have m: "k < m" using parent_less [OF assms(3)] assms(4) by simp
  note mv = hole_moves [OF assms(1,2), folded s'_def]
  show "key s' (hp_event s' ! GET_PARENT m) \<le> key s' e" using assms(4,5) k by (simp add: s'_def)
  have "key s' (hp_event s' ! GET_PARENT i) \<le> key s' (hp_event s' ! i)" if i: "i < hp_size s'" "0 < i" "i \<noteq> m" "GET_PARENT i \<noteq> m" for i
  proof (cases "i = k")
    case True
    then have "GET_PARENT k \<noteq> k" using parent_less [of k] i(2) by simp
    then show ?thesis using True ch [of m] assms(2,3,4) i(2) k by (simp add: s'_def)
  next
    case False
    then show ?thesis using ord [of i] assms(6) [of i] i(1,2) k by (cases "GET_PARENT i = k") (auto simp: s'_def)
  qed
  moreover have "key s' (hp_event s' ! GET_PARENT m) \<le> key s' (hp_event s' ! i)" if i: "i < hp_size s'" "0 < i" "GET_PARENT i = m" for i
  proof -
    have "i \<noteq> k" using parent_less [OF i(2)] i(3) m by simp
    then show ?thesis using ord [of i] i m assms(4) k by (auto simp: s'_def)
  qed
  ultimately show "hole_ok m e s'" using mv(2,3) m k assms(2) unfolding hole_ok_def by (auto simp: s'_def)
qed

lemma shift_up_spec:
  assumes "hole_ok k e s" "\<And>i. i < hp_size s \<Longrightarrow> 0 < i \<Longrightarrow> GET_PARENT i = k \<Longrightarrow> key s e \<le> key s (hp_event s ! i)"
  shows "heap_inv (shift_up k e s) \<and> mset (contents (shift_up k e s)) = mset (take (hp_size s) ((hp_event s)[k := e])) \<and>
     same_but (set (take (hp_size s) ((hp_event s)[k := e]))) s (shift_up k e s)"
  using assms
proof (induction k e s rule: shift_up.induct)
  case (1 k e s)
  let ?A = "take (hp_size s) ((hp_event s)[k := e])" and ?p = "GET_PARENT k"
  show ?case
  proof (cases "0 < k \<and> key s e < key s (hp_event s ! ?p)")
    case True
    let ?s = "put_at k (hp_event s ! ?p) s"
    have "?p < hp_size s" "?p \<noteq> k" using parent_less [of k] True "1.prems"(1) by (auto simp: hole_ok_def)
    note mv = hole_moves [OF "1.prems"(1) this]
    have IH: "heap_inv (shift_up ?p e ?s) \<and> mset (contents (shift_up ?p e ?s)) = mset (take (hp_size ?s) ((hp_event ?s)[?p := e])) \<and>
        same_but (set (take (hp_size ?s) ((hp_event ?s)[?p := e]))) ?s (shift_up ?p e ?s)"
      using True hole_up [OF "1.prems"(1)] by (intro "1.IH") auto
    have "shift_up k e s = shift_up ?p e ?s" using True by (simp add: shift_up.simps [of k] Let_def)
    then show ?thesis using IH mv(1) same_but_trans [OF mv(4)] mset_eq_setD [OF mv(1)] by simp
  next
    case False
    then have "shift_up k e s = put_at k e s" by (auto simp: shift_up.simps [of k] Let_def)
    then show ?thesis using put_fills [OF "1.prems"(1)] "1.prems"(2) False by auto
  qed
qed

text \<open>The child that is chosen is the smaller one.\<close>

lemma min_child:
  assumes "GET_RIGHT_CHILD k \<le> hp_size s"
  defines "r \<equiv> GET_RIGHT_CHILD k"
  defines "m \<equiv> (if r = hp_size s \<or> key s (hp_event s ! (r - 1)) < key s (hp_event s ! r) then r - 1 else r)"
  shows "m < hp_size s" "0 < m" "GET_PARENT m = k"
    "\<And>i. i < hp_size s \<Longrightarrow> 0 < i \<Longrightarrow> GET_PARENT i = k \<Longrightarrow> key s (hp_event s ! m) \<le> key s (hp_event s ! i)"
proof -
  have r: "2 \<le> r" by (simp add: r_def GET_RIGHT_CHILD_def)
  then show "m < hp_size s" "0 < m" using assms(1) by (auto simp: m_def r_def [symmetric])
  show "GET_PARENT m = k" using children [of m k] by (auto simp: m_def r_def)
  show "key s (hp_event s ! m) \<le> key s (hp_event s ! i)" if "i < hp_size s" "0 < i" "GET_PARENT i = k" for i
    using children [of i k] that by (auto simp: m_def r_def)
qed

lemma shift_down_spec:
  assumes "hole_ok k e s" "0 < k \<Longrightarrow> key s (hp_event s ! GET_PARENT k) \<le> key s e"
  shows "heap_inv (shift_down k e s) \<and> mset (contents (shift_down k e s)) = mset (take (hp_size s) ((hp_event s)[k := e])) \<and>
     same_but (set (take (hp_size s) ((hp_event s)[k := e]))) s (shift_down k e s)"
  using assms
proof (induction k e s rule: shift_down.induct)
  case (1 k e s)
  let ?r = "GET_RIGHT_CHILD k"
  define m where "m = (if ?r = hp_size s \<or> key s (hp_event s ! (?r - 1)) < key s (hp_event s ! ?r) then ?r - 1 else ?r)"
  have fill: ?case if "shift_down k e s = put_at k e s"
    "\<And>i. i < hp_size s \<Longrightarrow> 0 < i \<Longrightarrow> GET_PARENT i = k \<Longrightarrow> key s e \<le> key s (hp_event s ! i)"
    using put_fills [OF "1.prems"] that by simp
  show ?case
  proof (cases "?r \<le> hp_size s")
    case False
    have "\<not> (i < hp_size s \<and> 0 < i \<and> GET_PARENT i = k)" for i using False children [of i k] by (auto simp: GET_RIGHT_CHILD_def)
    then show ?thesis using fill False by (auto simp: shift_down.simps [of k])
  next
    case le: True
    note mc = min_child [OF le, folded m_def]
    show ?thesis
    proof (cases "key s (hp_event s ! m) < key s e")
      case False
      have "shift_down k e s = put_at k e s" using le False by (simp add: shift_down.simps [of k] Let_def m_def)
      moreover have "key s e \<le> key s (hp_event s ! i)" if "i < hp_size s" "0 < i" "GET_PARENT i = k" for i
        using mc(4) [OF that] False by simp
      ultimately show ?thesis by (rule fill)
    next
      case True
      let ?s = "put_at k (hp_event s ! m) s"
      have "m \<noteq> k" using parent_less [OF mc(2)] mc(3) by simp
      note mv = hole_moves [OF "1.prems"(1) mc(1) this]
      have h1: "hole_ok m e ?s" and h2: "key ?s (hp_event ?s ! GET_PARENT m) \<le> key ?s e"
        using hole_down [OF "1.prems"(1) mc(1-3) True] mc(4) by blast+
      have gt: "\<not> \<not> min_heap_elem_greater s e (hp_event s ! m)" using True by simp
      have eq: "m = (if ?r = hp_size s \<or> min_heap_elem_greater s (hp_event s ! ?r) (hp_event s ! (?r - 1)) then ?r - 1 else ?r)"
        by (simp add: m_def)
      have IH: "heap_inv (shift_down m e ?s) \<and> mset (contents (shift_down m e ?s)) = mset (take (hp_size ?s) ((hp_event ?s)[m := e])) \<and>
          same_but (set (take (hp_size ?s) ((hp_event ?s)[m := e]))) ?s (shift_down m e ?s)"
        by (rule "1.IH" [OF refl le eq gt h1]) (rule h2)
      have "shift_down k e s = shift_down m e ?s" using le True by (simp add: shift_down.simps [of k] Let_def m_def)
      then show ?thesis using IH mv(1) same_but_trans [OF mv(4)] mset_eq_setD [OF mv(1)] by simp
    qed
  qed
qed

section \<open>The operations of the heap\<close>

definition members :: "min_heap \<Rightarrow> timer_ptr set" where
  "members s = set (contents s)"

text \<open>What every operation keeps of the timers: everything but their positions, and the positions of those outside.\<close>

definition timers_kept :: "timer_ptr set \<Rightarrow> min_heap \<Rightarrow> min_heap \<Rightarrow> bool" where
  "timers_kept A s s' \<longleftrightarrow>
     (\<forall>t. key s' t = key s t \<and> w_repeat (hp_timer s' t) = w_repeat (hp_timer s t) \<and> w_delta (hp_timer s' t) = w_delta (hp_timer s t)) \<and>
     (\<forall>t. t \<notin> A \<longrightarrow> w_idx (hp_timer s' t) = w_idx (hp_timer s t))"

lemma root_least:
  assumes "heap_ordered s" "i < hp_size s"
  shows "key s (hp_event s ! 0) \<le> key s (hp_event s ! i)"
  using assms(2)
proof (induction i rule: less_induct)
  case (less i)
  show ?case
  proof (cases "i = 0")
    case False
    then have "key s (hp_event s ! GET_PARENT i) \<le> key s (hp_event s ! i)" using assms(1) less.prems by (simp add: heap_ordered_def)
    then show ?thesis using less.IH [of "GET_PARENT i"] parent_less [of i] False less.prems by simp
  qed simp
qed

lemma members_nth: "heap_inv s \<Longrightarrow> t \<in> members s \<longleftrightarrow> (\<exists>i < hp_size s. hp_event s ! i = t)"
  by (auto simp: members_def contents_def heap_inv_def in_set_conv_nth)

lemma reserve_makes_room:
  assumes "n < 2 ^ 32" "hp_size s \<le> length (hp_event s)" "hp_size s < n"
  obtains s1 where "min_heap_reserve True junk n s = Some s1" "n \<le> length (hp_event s1)" "hp_size s1 = hp_size s"
    "hp_timer s1 = hp_timer s" "take (hp_size s) (hp_event s1) = take (hp_size s) (hp_event s)"
proof
  show "min_heap_reserve True junk n s = Some (the (min_heap_reserve True junk n s))" by (simp add: min_heap_reserve_def Let_def)
qed (use assms in \<open>auto simp: min_heap_reserve_def Let_def\<close>)

lemma push_spec:
  assumes "heap_inv s" "e \<notin> members s" "hp_size s + 1 < 2 ^ 32"
  shows "\<exists>s'. min_heap_push True junk e s = Inr (0, s') \<and> heap_inv s' \<and> members s' = insert e (members s) \<and>
     hp_size s' = hp_size s + 1 \<and> timers_kept (members s') s s'"
proof -
  let ?n = "hp_size s"
  obtain s1 where s1: "min_heap_reserve True junk (?n + 1) s = Some s1" "?n + 1 \<le> length (hp_event s1)" "hp_size s1 = ?n"
    "hp_timer s1 = hp_timer s" "take ?n (hp_event s1) = take ?n (hp_event s)"
    using reserve_makes_room [OF assms(3), of s junk] assms(1) by (auto simp: heap_inv_def)
  let ?s = "s1\<lparr>hp_size := ?n + 1\<rparr>"
  have nth: "hp_event s1 ! i = hp_event s ! i" if "i < ?n" for i using that s1(5) by (metis nth_take)
  have tk: "take (?n + 1) ((hp_event s1)[?n := e]) = contents s @ [e]"
    using s1(2,5) by (simp add: take_Suc_conv_app_nth contents_def)
  have no: "GET_PARENT i \<noteq> ?n" if "i < ?n + 1" "0 < i" for i using parent_less [OF that(2)] that(1) by simp
  have "hole_ok ?n e ?s"
    using assms(1,2) s1 tk no nth less_trans [OF parent_less]
    by (auto simp: hole_ok_def heap_inv_def members_def heap_ordered_def indexed_def)
  then have u: "heap_inv (shift_up ?n e ?s)" "mset (contents (shift_up ?n e ?s)) = mset (contents s @ [e])"
      "same_but (set (contents s @ [e])) ?s (shift_up ?n e ?s)"
    using shift_up_spec [of ?n e ?s] tk no by simp_all
  have m: "members (shift_up ?n e ?s) = insert e (members s)" using mset_eq_setD [OF u(2)] by (simp add: members_def)
  moreover have "timers_kept (insert e (members s)) s (shift_up ?n e ?s)" "hp_size (shift_up ?n e ?s) = ?n + 1"
    using u(3) s1(4) by (auto simp: same_but_def timers_kept_def members_def)
  moreover have "min_heap_push True junk e s = Inr (0, shift_up ?n e ?s)"
    using s1 assms(3) by (simp add: min_heap_push_def min_heap_shift_up_def)
  ultimately show ?thesis using u(1) by auto
qed

text \<open>The last timer takes the place of the one at \<open>i\<close>.\<close>

lemma mset_take_out:
  assumes "i < n" "n < length xs"
  shows "mset (take n (xs[i := xs ! n])) = mset (take (Suc n) xs) - {#xs ! i#}"
proof -
  have "take n (xs[i := xs ! n]) = (take n xs)[i := xs ! n]" using assms by (simp add: take_update_swap)
  moreover have "xs ! i \<in># mset (take n xs)" using assms by (auto simp: in_set_conv_nth)
  ultimately show ?thesis using assms by (simp add: mset_update take_Suc_conv_app_nth)
qed

lemma taken_out_hole:
  assumes "heap_inv s" "hp_size s = Suc n" "i < n"
  shows "hole_ok i (hp_event s ! n) (s\<lparr>hp_size := n\<rparr>)"
    "set (take n ((hp_event s)[i := hp_event s ! n])) = members s - {hp_event s ! i}"
proof -
  have l: "n < length (hp_event s)" "distinct (take (Suc n) (hp_event s))"
    and ord: "\<And>j. j < Suc n \<Longrightarrow> 0 < j \<Longrightarrow> key s (hp_event s ! GET_PARENT j) \<le> key s (hp_event s ! j)"
    using assms(1,2) by (auto simp: heap_inv_def contents_def heap_ordered_def)
  let ?ys = "take n ((hp_event s)[i := hp_event s ! n])"
  have "hp_event s ! i \<in> set (take (Suc n) (hp_event s))" using assms(3) l(1) by (auto simp: in_set_conv_nth intro!: exI [of _ i])
  then have m: "mset (hp_event s ! i # ?ys) = mset (take (Suc n) (hp_event s))" using mset_take_out [OF assms(3) l(1)] by simp
  have d: "distinct (hp_event s ! i # ?ys)" using mset_eq_imp_distinct_iff [OF m] l(2) by simp
  then show "set ?ys = members s - {hp_event s ! i}"
    using mset_eq_setD [OF m] assms(2) by (auto simp: members_def contents_def)
  have "distinct ?ys" using d by simp
  moreover have "key s (hp_event s ! GET_PARENT i) \<le> key s (hp_event s ! j)" if "j < n" "0 < j" "GET_PARENT j = i" "0 < i" for j
    using ord [of j] ord [of i] that assms(3) by auto
  ultimately show "hole_ok i (hp_event s ! n) (s\<lparr>hp_size := n\<rparr>)"
    using assms l ord by (auto simp: hole_ok_def heap_inv_def indexed_def)
qed


lemma last_taken_out:
  assumes "heap_inv s" "hp_size s = Suc n"
  defines "u \<equiv> put_at n (hp_event s ! n) (s\<lparr>hp_size := n\<rparr>)"
  shows "heap_inv u" "members u = members s - {hp_event s ! n}" "hp_size u = n" "timers_kept (members u) s u"
proof -
  have l: "n < length (hp_event s)" "distinct (take (Suc n) (hp_event s))" and ix: "\<And>j. j < Suc n \<Longrightarrow> w_idx (hp_timer s (hp_event s ! j)) = int j"
    and ord: "\<And>j. j < Suc n \<Longrightarrow> 0 < j \<Longrightarrow> key s (hp_event s ! GET_PARENT j) \<le> key s (hp_event s ! j)"
    using assms(1,2) by (auto simp: heap_inv_def contents_def heap_ordered_def indexed_def)
  have t: "take (Suc n) (hp_event s) = take n (hp_event s) @ [hp_event s ! n]" using l(1) by (rule take_Suc_conv_app_nth)
  have tm: "w_idx (hp_timer u t) = w_idx (hp_timer s t)" for t using ix [of n] by (simp add: u_def)
  have kt: "key u t = key s t" "hp_event u = hp_event s" for t by (simp_all add: u_def)
  show n: "hp_size u = n" by (simp add: u_def)
  show "members u = members s - {hp_event s ! n}" using l t assms(2) n kt(2) by (auto simp: members_def contents_def)
  show "heap_inv u"
    using l t ix ord n tm kt by (auto simp: heap_inv_def contents_def heap_ordered_def indexed_def)
  show "timers_kept (members u) s u" using tm kt by (simp add: timers_kept_def) (simp add: u_def)
qed

lemma taken_out:
  assumes "heap_inv s" "hp_size s = Suc n" "i < Suc n"
  defines "f \<equiv> hp_event s ! n"
  defines "s1 \<equiv> s\<lparr>hp_size := n\<rparr>"
  defines "u \<equiv> (if 0 < i \<and> key s f < key s (hp_event s ! GET_PARENT i) then shift_up i f s1 else shift_down i f s1)"
  shows "heap_inv u \<and> members u = members s - {hp_event s ! i} \<and> hp_size u = n \<and> timers_kept (members s - {hp_event s ! i}) s u"
proof (cases "i = n")
  case True
  have "0 < n \<Longrightarrow> key s (hp_event s ! GET_PARENT n) \<le> key s f" using assms(1,2) by (auto simp: heap_inv_def heap_ordered_def f_def)
  then have "u = shift_down n f s1" using True by (auto simp: u_def)
  also have "\<dots> = put_at n f s1" by (simp add: shift_down.simps [of n] GET_RIGHT_CHILD_def s1_def)
  finally show ?thesis using last_taken_out [OF assms(1,2)] True by (simp add: f_def s1_def)
next
  case False
  then have i: "i < n" using assms(3) by simp
  note h = taken_out_hole [OF assms(1,2) i, folded f_def s1_def]
  have ord: "\<And>j. j < n \<Longrightarrow> 0 < j \<Longrightarrow> key s (hp_event s ! GET_PARENT j) \<le> key s (hp_event s ! j)"
    using assms(1,2) by (auto simp: heap_inv_def heap_ordered_def)
  have "heap_inv u \<and> mset (contents u) = mset (take n ((hp_event s1)[i := f])) \<and> same_but (set (take n ((hp_event s1)[i := f]))) s1 u"
  proof (cases "0 < i \<and> key s f < key s (hp_event s ! GET_PARENT i)")
    case True
    have "key s1 f \<le> key s1 (hp_event s1 ! j)" if "j < n" "0 < j" "GET_PARENT j = i" for j
      using True ord [of j] ord [of i] that i by (simp add: s1_def)
    then have "heap_inv (shift_up i f s1) \<and> mset (contents (shift_up i f s1)) = mset (take (hp_size s1) ((hp_event s1)[i := f])) \<and>
        same_but (set (take (hp_size s1) ((hp_event s1)[i := f]))) s1 (shift_up i f s1)"
      by (intro shift_up_spec [OF h(1)]) (simp add: s1_def)
    then show ?thesis using True by (simp add: u_def s1_def)
  next
    case le: False
    then have "0 < i \<Longrightarrow> key s1 (hp_event s1 ! GET_PARENT i) \<le> key s1 f" by (auto simp: s1_def)
    then have "heap_inv (shift_down i f s1) \<and> mset (contents (shift_down i f s1)) = mset (take (hp_size s1) ((hp_event s1)[i := f])) \<and>
        same_but (set (take (hp_size s1) ((hp_event s1)[i := f]))) s1 (shift_down i f s1)"
      by (intro shift_down_spec [OF h(1)]) simp
    then show ?thesis using le by (auto simp: u_def s1_def)
  qed
  moreover from this have "members u = members s - {hp_event s ! i}"
    using mset_eq_setD [of "contents u"] h(2) by (simp add: members_def s1_def)
  moreover have "hp_size s1 = n" "hp_timer s1 = hp_timer s" "hp_event s1 = hp_event s" by (simp_all add: s1_def)
  ultimately show ?thesis using h(2) by (simp add: same_but_def timers_kept_def)
qed

lemma top_spec:
  assumes "heap_inv s"
  shows "min_heap_top s = None \<longleftrightarrow> members s = {}"
    "min_heap_top s = Some t \<Longrightarrow> t \<in> members s \<and> (\<forall>u \<in> members s. key s t \<le> key s u) \<and> w_idx (hp_timer s t) = 0"
proof -
  show "min_heap_top s = None \<longleftrightarrow> members s = {}"
    using assms by (auto simp: min_heap_top_def members_def contents_def heap_inv_def)
  show "t \<in> members s \<and> (\<forall>u \<in> members s. key s t \<le> key s u) \<and> w_idx (hp_timer s t) = 0" if "min_heap_top s = Some t"
    using that assms root_least [of s] members_nth [OF assms]
    by (auto simp: min_heap_top_def heap_inv_def indexed_def split: if_splits)
qed

text \<open>
  The timer that is popped is the one \<open>top\<close> gave. Its own position is not reset: it is still 0.
\<close>

lemma pop_spec:
  assumes "heap_inv s" "min_heap_top s = Some t"
  shows "\<exists>s'. min_heap_pop s = Inr (Some t, s') \<and> heap_inv s' \<and> members s' = members s - {t} \<and>
     hp_size s' = hp_size s - 1 \<and> timers_kept (members s') s s'"
proof -
  obtain n where n: "hp_size s = Suc n" "hp_event s ! 0 = t" using assms(2) by (cases "hp_size s") (auto simp: min_heap_top_def)
  have "n < length (hp_event s)" using assms(1) n(1) by (simp add: heap_inv_def)
  then have "min_heap_pop s = Inr (Some t, shift_down 0 (hp_event s ! n) (s\<lparr>hp_size := n\<rparr>))"
    using n by (auto simp: min_heap_pop_def min_heap_shift_down_def)
  then show ?thesis using n taken_out [OF assms(1) n(1), of 0] by simp
qed

text \<open>A timer whose position says \<open>i\<close> takes the timer at \<open>i\<close> out of the heap, itself or another.\<close>

lemma erase_at:
  assumes "heap_inv s" "w_idx (hp_timer s e) = int i" "i < hp_size s" "e \<notin> members s - {hp_event s ! i}"
  shows "\<exists>s'. min_heap_erase e s = Inr (0, s') \<and> heap_inv s' \<and> members s' = members s - {hp_event s ! i} \<and>
     hp_size s' = hp_size s - 1 \<and> timers_kept (insert e (members s)) s s' \<and> w_idx (hp_timer s' e) = -1"
proof -
  obtain n where n: "hp_size s = Suc n" using assms(3) by (cases "hp_size s") auto
  have l: "n < length (hp_event s)" using assms(1) n by (auto simp: heap_inv_def)
  define u where "u = (if 0 < i \<and> key s (hp_event s ! n) < key s (hp_event s ! GET_PARENT i)
     then shift_up i (hp_event s ! n) (s\<lparr>hp_size := n\<rparr>) else shift_down i (hp_event s ! n) (s\<lparr>hp_size := n\<rparr>))"
  have u: "heap_inv u" "members u = members s - {hp_event s ! i}" "hp_size u = n" "timers_kept (members u) s u"
    using taken_out [OF assms(1) n, of i, folded u_def] assms(3) n by auto
  let ?v = "u\<lparr>hp_timer := (hp_timer u)(e := (hp_timer u e)\<lparr>w_idx := -1\<rparr>)\<rparr>"
  have "min_heap_erase e s = Inr (0, ?v)"
    using assms(2,3) l n by (auto simp: min_heap_erase_def min_heap_shift_up_def min_heap_shift_down_def u_def Let_def)
  moreover have c: "contents ?v = contents u" "e \<notin> set (contents u)" using u(2) assms(4) by (auto simp: contents_def members_def)
  moreover from this have "heap_inv ?v"
    using u(1) members_nth [OF u(1), of e] by (auto simp: heap_inv_def heap_ordered_def indexed_def members_def)
  moreover have "members ?v = members s - {hp_event s ! i}" using c(1) u(2) by (simp add: members_def)
  moreover have "timers_kept (insert e (members s)) s ?v" using u(2,4) by (auto simp: timers_kept_def)
  ultimately show ?thesis using u(3) n by auto
qed

lemma erase_spec:
  assumes "heap_inv s" "e \<in> members s"
  shows "\<exists>s'. min_heap_erase e s = Inr (0, s') \<and> heap_inv s' \<and> members s' = members s - {e} \<and>
     hp_size s' = hp_size s - 1 \<and> timers_kept (members s) s s' \<and> w_idx (hp_timer s' e) = -1"
proof -
  obtain i where i: "i < hp_size s" "hp_event s ! i = e" using assms members_nth by blast
  moreover have "w_idx (hp_timer s e) = int i" using assms(1) i by (auto simp: heap_inv_def indexed_def)
  ultimately show ?thesis using erase_at [OF assms(1), of e i] assms(2) by (auto simp: insert_absorb)
qed

section \<open>The timer queue\<close>

text \<open>
  What the queue does with a heap, from the laws of a heap: the earliest timer is taken out and, when it
  repeats, put back for a later time. \<open>due\<close> is what is left to run at \<open>now\<close>.
\<close>

locale timer_heap =
  fixes inv :: "'h \<Rightarrow> bool" and elems :: "'h \<Rightarrow> 't set" and room :: "'h \<Rightarrow> bool"
    and time :: "'h \<Rightarrow> 't \<Rightarrow> int" and every :: "'h \<Rightarrow> 't \<Rightarrow> int option"
    and top :: "'h \<Rightarrow> 't option" and pop :: "'h \<Rightarrow> ('t option \<times> 'h) result" and push :: "'t \<Rightarrow> 'h \<Rightarrow> (int \<times> 'h) result"
    and restart :: "int \<Rightarrow> 't \<Rightarrow> 'h \<Rightarrow> 'h"
  assumes top_none: "inv h \<Longrightarrow> top h = None \<longleftrightarrow> elems h = {}"
    and top_least: "inv h \<Longrightarrow> top h = Some t \<Longrightarrow> t \<in> elems h \<and> (\<forall>u \<in> elems h. time h t \<le> time h u)"
    and pop: "inv h \<Longrightarrow> top h = Some t \<Longrightarrow>
      \<exists>h'. pop h = Inr (Some t, h') \<and> inv h' \<and> elems h' = elems h - {t} \<and> room h' \<and> time h' = time h \<and> every h' = every h"
    and restart: "inv h \<Longrightarrow> t \<notin> elems h \<Longrightarrow> every h t = Some d \<Longrightarrow>
      inv (restart now t h) \<and> elems (restart now t h) = elems h \<and> room (restart now t h) = room h \<and>
      time (restart now t h) = (time h)(t := now + d) \<and> every (restart now t h) = every h"
    and push: "inv h \<Longrightarrow> room h \<Longrightarrow> t \<notin> elems h \<Longrightarrow>
      \<exists>h'. push t h = Inr (0, h') \<and> inv h' \<and> elems h' = insert t (elems h) \<and> time h' = time h \<and> every h' = every h"
begin

definition due :: "int \<Rightarrow> 'h \<Rightarrow> 't set" where
  "due now h = {u \<in> elems h. time h u \<le> now}"

lemma due_empty:
  assumes "inv h" "case top h of None \<Rightarrow> True | Some t \<Rightarrow> now < time h t"
  shows "due now h = {}"
  using assms top_none [of h] top_least [of h] by (fastforce simp: due_def split: option.splits)

lemma turn:
  assumes "inv h" "top h = Some t" "time h t \<le> now"
  shows "\<exists>h'. rbind (pop h) (\<lambda>(_, h1). if every h1 t \<noteq> None then rbind (push t (restart now t h1)) (\<lambda>(_, h2). Inr h2) else Inr h1) = Inr h' \<and>
     inv h' \<and> elems h' = (if every h t = None then elems h - {t} else elems h) \<and>
     time h' = (case every h t of None \<Rightarrow> time h | Some d \<Rightarrow> (time h)(t := now + d)) \<and> every h' = every h"
proof -
  obtain h1 where h1: "pop h = Inr (Some t, h1)" "inv h1" "elems h1 = elems h - {t}" "room h1" "time h1 = time h" "every h1 = every h"
    using pop [OF assms(1,2)] by blast
  show ?thesis
  proof (cases "every h t")
    case None
    then show ?thesis using h1 by simp
  next
    case (Some d)
    then have r: "inv (restart now t h1) \<and> elems (restart now t h1) = elems h1 \<and> room (restart now t h1) = room h1 \<and>
        time (restart now t h1) = (time h1)(t := now + d) \<and> every (restart now t h1) = every h1"
      using h1 by (intro restart) auto
    then obtain h2 where "push t (restart now t h1) = Inr (0, h2)" "inv h2" "elems h2 = insert t (elems (restart now t h1))"
      "time h2 = time (restart now t h1)" "every h2 = every (restart now t h1)"
      using push [of "restart now t h1" t] h1 by auto
    then show ?thesis using Some h1 r top_least [OF assms(1,2)] by (auto simp: insert_absorb)
  qed
qed

lemma due_turn:
  assumes "inv h" "top h = Some t" "time h t \<le> now" "elems h' = (if every h t = None then elems h - {t} else elems h)"
    "time h' = (case every h t of None \<Rightarrow> time h | Some d \<Rightarrow> (time h)(t := now + d))" "\<And>d. every h t = Some d \<Longrightarrow> 0 < d"
  shows "due now h' = due now h - {t}" "t \<in> due now h" "\<And>u. u \<in> due now h \<Longrightarrow> time h t \<le> time h u"
  using assms top_least [OF assms(1,2)] by (auto simp: due_def split: option.splits if_splits)

end

text \<open>
  \<open>Timer\<close>: \<open>repeat_\<close> is \<open>interval > 0.0\<close> and \<open>w_delta\<close> what \<open>addTime\<close> makes of the interval, its whole microseconds (so
  0 for a repeating timer with an interval under a microsecond). The constructor leaves the position unset. The
  callback of a timer is the list of calls it makes on the queue; in the loop's thread \<open>runInLoop\<close> makes them at once.
\<close>

record win_queue =
  wq_heap :: min_heap
  timerSet :: "timer_ptr set"
  wq_ran :: "timer_ptr list"

datatype queue_op = AddTimer timer_ptr int int bool | CancelTimer timer_ptr

definition restart :: "int \<Rightarrow> timer_ptr \<Rightarrow> min_heap \<Rightarrow> min_heap" where
  "restart now t h = h\<lparr>hp_timer := (hp_timer h)(t := (hp_timer h t)\<lparr>w_expiration :=
     (if w_repeat (hp_timer h t) then now + w_delta (hp_timer h t) else 0)\<rparr>)\<rparr>"

definition addTimerInLoop :: "bool \<Rightarrow> timer_ptr \<Rightarrow> timer_ptr \<Rightarrow> win_queue \<Rightarrow> win_queue result" where
  "addTimerInLoop ok junk timer q =
     rbind (min_heap_push ok junk timer (wq_heap q)) (\<lambda>(_, h). Inr (q\<lparr>wq_heap := h, timerSet := insert timer (timerSet q)\<rparr>))"

definition addTimer :: "bool \<Rightarrow> timer_ptr \<Rightarrow> timer_ptr \<Rightarrow> int \<Rightarrow> int \<Rightarrow> bool \<Rightarrow> win_queue \<Rightarrow> win_queue result" where
  "addTimer ok junk timer when delta again q =
     (let h = wq_heap q; t = \<lparr>w_expiration = when, w_delta = delta, w_repeat = again, w_idx = w_idx (hp_timer h timer)\<rparr>
      in addTimerInLoop ok junk timer (q\<lparr>wq_heap := h\<lparr>hp_timer := (hp_timer h)(timer := t)\<rparr>\<rparr>))"

definition cancelInLoop :: "timer_ptr \<Rightarrow> win_queue \<Rightarrow> win_queue result" where
  "cancelInLoop timer q = rbind (min_heap_erase timer (wq_heap q)) (\<lambda>(_, h). Inr (q\<lparr>wq_heap := h\<rparr>))"

fun queue_call :: "bool \<Rightarrow> timer_ptr \<Rightarrow> queue_op \<Rightarrow> win_queue \<Rightarrow> win_queue result" where
  "queue_call ok junk (AddTimer t when delta again) q = addTimer ok junk t when delta again q"
| "queue_call ok junk (CancelTimer t) q = cancelInLoop t q"

text \<open>One turn of the loop of \<open>expiredProcess\<close>: the callback runs before its timer is taken out of the heap.\<close>

definition expired_turn ::
  "bool \<Rightarrow> timer_ptr \<Rightarrow> (timer_ptr \<Rightarrow> queue_op list) \<Rightarrow> int \<Rightarrow> timer_ptr \<Rightarrow> win_queue \<Rightarrow> win_queue result" where
  "expired_turn ok junk cb now t q =
     rbind (rfold (queue_call ok junk) (cb t) (q\<lparr>wq_ran := wq_ran q @ [t]\<rparr>)) (\<lambda>q1.
     rbind (min_heap_pop (wq_heap q1)) (\<lambda>(_, h).
     if w_repeat (hp_timer h t) then rbind (min_heap_push ok junk t (restart now t h)) (\<lambda>(_, h'). Inr (q1\<lparr>wq_heap := h'\<rparr>))
     else Inr (q1\<lparr>wq_heap := h\<rparr>)))"

partial_function (option) expiredProcess ::
  "bool \<Rightarrow> timer_ptr \<Rightarrow> (timer_ptr \<Rightarrow> queue_op list) \<Rightarrow> int \<Rightarrow> win_queue \<Rightarrow> win_queue result option" where
  "expiredProcess ok junk cb now q =
     (case min_heap_top (wq_heap q) of
        None \<Rightarrow> Some (Inr q)
      | Some t \<Rightarrow>
          if now < w_expiration (hp_timer (wq_heap q) t) then Some (Inr q)
          else (case expired_turn ok junk cb now t q of
                  Inl e \<Rightarrow> Some (Inl e)
                | Inr q' \<Rightarrow> expiredProcess ok junk cb now q'))"

definition timeDifferenceMs :: "int \<Rightarrow> int \<Rightarrow> int" where
  "timeDifferenceMs high low = sint (word_of_int ((high - low) div 1000) :: 32 word)"

definition earliestExpiredTime :: "int \<Rightarrow> win_queue \<Rightarrow> int" where
  "earliestExpiredTime now q =
     (case min_heap_top (wq_heap q) of
        None \<Rightarrow> 10000
      | Some t \<Rightarrow> if now < w_expiration (hp_timer (wq_heap q) t) then timeDifferenceMs (w_expiration (hp_timer (wq_heap q) t)) now
                  else 100)"

abbreviation win_inv :: "min_heap \<Rightarrow> bool" where
  "win_inv h \<equiv> heap_inv h \<and> hp_size h < 2 ^ 32"

definition period :: "min_heap \<Rightarrow> timer_ptr \<Rightarrow> int option" where
  "period h t = (if w_repeat (hp_timer h t) then Some (w_delta (hp_timer h t)) else None)"

lemma period_kept: "timers_kept A h h' \<Longrightarrow> period h' = period h \<and> key h' = key h"
  by (simp add: timers_kept_def period_def fun_eq_iff)

lemma restart_spec:
  assumes "win_inv h" "t \<notin> members h" "period h t = Some d"
  shows "win_inv (restart now t h) \<and> members (restart now t h) = members h \<and>
    (hp_size (restart now t h) + 1 < 2 ^ 32) = (hp_size h + 1 < 2 ^ 32) \<and>
    key (restart now t h) = (key h)(t := now + d) \<and> period (restart now t h) = period h"
proof -
  have "hp_event h ! i \<noteq> t" if "i < hp_size h" for i using that assms members_nth by blast
  then have "heap_inv (restart now t h)"
    using assms(1) less_trans [OF parent_less] by (auto simp: heap_inv_def heap_ordered_def indexed_def restart_def contents_def)
  then show ?thesis
    using assms by (auto simp: restart_def members_def contents_def period_def fun_eq_iff split: if_splits)
qed

interpretation wh: timer_heap win_inv members "\<lambda>h. hp_size h + 1 < 2 ^ 32" key period min_heap_top min_heap_pop
  "min_heap_push True junk" restart
proof
  show "win_inv h \<Longrightarrow> (min_heap_top h = None) = (members h = {})" for h using top_spec(1) by blast
  show "win_inv h \<Longrightarrow> min_heap_top h = Some t \<Longrightarrow> t \<in> members h \<and> (\<forall>u \<in> members h. key h t \<le> key h u)" for h t
    using top_spec(2) by blast
  show "\<exists>h'. min_heap_pop h = Inr (Some t, h') \<and> win_inv h' \<and> members h' = members h - {t} \<and> hp_size h' + 1 < 2 ^ 32 \<and>
      key h' = key h \<and> period h' = period h" if "win_inv h" "min_heap_top h = Some t" for h t
  proof -
    have "0 < hp_size h" using that(2) by (auto simp: min_heap_top_def split: if_splits)
    then show ?thesis using pop_spec [of h t] that period_kept by fastforce
  qed
  show "\<exists>h'. min_heap_push True junk t h = Inr (0, h') \<and> win_inv h' \<and> members h' = insert t (members h) \<and>
      key h' = key h \<and> period h' = period h" if "win_inv h" "hp_size h + 1 < 2 ^ 32" "t \<notin> members h" for h t
    using push_spec [of h t junk] that period_kept by fastforce
qed (rule restart_spec)

section \<open>What the timer queue does\<close>

lemma quiet_turn:
  assumes "win_inv (wq_heap q)" "min_heap_top (wq_heap q) = Some t" "key (wq_heap q) t \<le> now"
  shows "\<exists>h'. expired_turn True junk (\<lambda>_. []) now t q = Inr (q\<lparr>wq_ran := wq_ran q @ [t], wq_heap := h'\<rparr>) \<and> win_inv h' \<and>
     members h' = (if period (wq_heap q) t = None then members (wq_heap q) - {t} else members (wq_heap q)) \<and>
     key h' = (case period (wq_heap q) t of None \<Rightarrow> key (wq_heap q) | Some d \<Rightarrow> (key (wq_heap q))(t := now + d)) \<and>
     period h' = period (wq_heap q)"
proof -
  have p: "w_repeat (hp_timer h t) \<longleftrightarrow> period h t \<noteq> None" for h by (simp add: period_def)
  obtain h1 where h1: "min_heap_pop (wq_heap q) = Inr (Some t, h1)" using wh.pop [OF assms(1,2)] by blast
  obtain h' where "rbind (min_heap_pop (wq_heap q)) (\<lambda>(_, h1). if period h1 t \<noteq> None
      then rbind (min_heap_push True junk t (restart now t h1)) (\<lambda>(_, h2). Inr h2) else Inr h1) = Inr h'"
    and rest: "win_inv h'" "members h' = (if period (wq_heap q) t = None then members (wq_heap q) - {t} else members (wq_heap q))"
      "key h' = (case period (wq_heap q) t of None \<Rightarrow> key (wq_heap q) | Some d \<Rightarrow> (key (wq_heap q))(t := now + d))"
      "period h' = period (wq_heap q)"
    using wh.turn [OF assms, of junk] by blast
  then have "expired_turn True junk (\<lambda>_. []) now t q = Inr (q\<lparr>wq_ran := wq_ran q @ [t], wq_heap := h'\<rparr>)"
    using h1 by (auto simp: expired_turn_def p rbind_eq_Inr_iff split: if_splits)
  then show ?thesis using rest by blast
qed

lemma expiredProcess_step:
  assumes "min_heap_top (wq_heap q) = Some t" "key (wq_heap q) t \<le> now" "expired_turn ok junk cb now t q = Inr q'"
  shows "expiredProcess ok junk cb now q = expiredProcess ok junk cb now q'"
  using assms by (simp add: expiredProcess.simps [of ok junk cb now q])

lemma expiredProcess_done:
  assumes "win_inv (wq_heap q)" "wh.due now (wq_heap q) = {}"
  shows "expiredProcess ok junk cb now q = Some (Inr q)"
proof (cases "min_heap_top (wq_heap q)")
  case (Some t)
  then have "now < key (wq_heap q) t" using wh.top_least [OF assms(1)] assms(2) by (force simp: wh.due_def)
  then show ?thesis using Some by (simp add: expiredProcess.simps)
qed (simp add: expiredProcess.simps)

text \<open>What a run of the due timers \<open>runs\<close> makes of the queue.\<close>

definition ran_due :: "int \<Rightarrow> win_queue \<Rightarrow> timer_ptr list \<Rightarrow> win_queue \<Rightarrow> bool" where
  "ran_due now q runs q' \<longleftrightarrow> win_inv (wq_heap q') \<and> wq_ran q' = wq_ran q @ runs \<and>
     distinct runs \<and> set runs = {t \<in> members (wq_heap q). key (wq_heap q) t \<le> now} \<and> sorted (map (key (wq_heap q)) runs) \<and>
     members (wq_heap q') = members (wq_heap q) - {t \<in> set runs. period (wq_heap q) t = None} \<and>
     (\<forall>t. key (wq_heap q') t = (case period (wq_heap q) t of Some d \<Rightarrow> if t \<in> set runs then now + d else key (wq_heap q) t
                               | None \<Rightarrow> key (wq_heap q) t))"

lemma ran_due_Cons:
  assumes "win_inv (wq_heap q)" "min_heap_top (wq_heap q) = Some t" "key (wq_heap q) t \<le> now" "\<And>d. period (wq_heap q) t = Some d \<Longrightarrow> 0 < d"
    and h': "members h' = (if period (wq_heap q) t = None then members (wq_heap q) - {t} else members (wq_heap q))"
      "key h' = (case period (wq_heap q) t of None \<Rightarrow> key (wq_heap q) | Some d \<Rightarrow> (key (wq_heap q))(t := now + d))"
      "period h' = period (wq_heap q)"
    and r: "ran_due now (q\<lparr>wq_ran := wq_ran q @ [t], wq_heap := h'\<rparr>) runs q'"
  shows "ran_due now q (t # runs) q'"
proof -
  let ?h = "wq_heap q"
  note d = wh.due_turn [OF assms(1-3) h'(1,2) assms(4)]
  have sr: "set runs = wh.due now ?h - {t}" using r d(1) by (simp add: ran_due_def wh.due_def)
  have kk: "key h' u = (case period ?h t of None \<Rightarrow> key ?h u | Some d \<Rightarrow> if u = t then now + d else key ?h u)" for u
    using fun_cong [OF h'(2), of u] by (simp split: option.splits)
  have k: "key h' u = key ?h u" if "u \<in> set runs" for u using that sr kk [of u] by (cases "period ?h t") auto
  have "map (key h') runs = map (key ?h) runs" using k by simp
  moreover have "sorted (map (key h') runs)" using r by (simp add: ran_due_def)
  ultimately have "sorted (map (key ?h) runs)" by metis
  then have "sorted (map (key ?h) (t # runs))" using sr d by auto
  moreover have "distinct (t # runs)" "set (t # runs) = wh.due now ?h" using r sr d(2) by (auto simp: ran_due_def)
  moreover have "members (wq_heap q') = members h' - {u \<in> set runs. period ?h u = None}" using r h'(3) by (simp add: ran_due_def)
  then have "members (wq_heap q') = members ?h - {u \<in> set (t # runs). period ?h u = None}" using h'(1) sr by auto
  moreover have "key (wq_heap q') u = (case period ?h u of Some d \<Rightarrow> if u \<in> set (t # runs) then now + d else key ?h u
      | None \<Rightarrow> key ?h u)" for u
  proof -
    have e: "key (wq_heap q') u = (case period ?h u of Some d \<Rightarrow> if u \<in> set runs then now + d else key h' u | None \<Rightarrow> key h' u)"
      using r h'(3) by (simp add: ran_due_def cong: option.case_cong if_cong)
    show ?thesis using e kk [of u] sr by (cases "u = t") (simp_all split: option.splits)
  qed
  moreover have "win_inv (wq_heap q')" "wq_ran q' = wq_ran q @ t # runs" using r by (auto simp: ran_due_def)
  ultimately show ?thesis unfolding ran_due_def wh.due_def by blast
qed

lemma expired_ran_due:
  assumes "win_inv (wq_heap q)" "\<And>t d. period (wq_heap q) t = Some d \<Longrightarrow> 0 < d"
  shows "\<exists>q' runs. expiredProcess True junk (\<lambda>_. []) now q = Some (Inr q') \<and> ran_due now q runs q'"
  using assms
proof (induction "card (wh.due now (wq_heap q))" arbitrary: q rule: less_induct)
  case less
  let ?h = "wq_heap q"
  show ?case
  proof (cases "wh.due now ?h = {}")
    case True
    then show ?thesis using expiredProcess_done [OF less.prems(1) True] less.prems(1)
      by (intro exI [of _ q] exI [of _ "[]"]) (auto simp: wh.due_def ran_due_def split: option.splits)
  next
    case False
    then have "\<not> (case min_heap_top ?h of None \<Rightarrow> True | Some t \<Rightarrow> now < key ?h t)" using wh.due_empty [OF less.prems(1)] by blast
    then obtain t where t: "min_heap_top ?h = Some t" "key ?h t \<le> now" by (cases "min_heap_top ?h") auto
    obtain h' where h': "expired_turn True junk (\<lambda>_. []) now t q = Inr (q\<lparr>wq_ran := wq_ran q @ [t], wq_heap := h'\<rparr>)" "win_inv h'"
      "members h' = (if period ?h t = None then members ?h - {t} else members ?h)"
      "key h' = (case period ?h t of None \<Rightarrow> key ?h | Some d \<Rightarrow> (key ?h)(t := now + d))" "period h' = period ?h"
      using quiet_turn [OF less.prems(1) t] by blast
    let ?q = "q\<lparr>wq_ran := wq_ran q @ [t], wq_heap := h'\<rparr>"
    have fin: "finite (wh.due now ?h)" by (simp add: wh.due_def members_def)
    note d = wh.due_turn [OF less.prems(1) t h'(3,4) less.prems(2) [of t]]
    have "card (wh.due now (wq_heap ?q)) < card (wh.due now ?h)" using card_Diff1_less [OF fin d(2)] d(1) by simp
    then obtain q' runs where r: "expiredProcess True junk (\<lambda>_. []) now ?q = Some (Inr q')" "ran_due now ?q runs q'"
      using less.hyps [of ?q] h'(2,5) less.prems(2) by auto
    then have "ran_due now q (t # runs) q'" using ran_due_Cons [OF less.prems(1) t less.prems(2) [of t] h'(3-5)] by blast
    then show ?thesis using expiredProcess_step [OF t h'(1)] r(1) by auto
  qed
qed


definition two_timers :: win_queue where
  "two_timers = \<lparr>wq_heap = \<lparr>hp_event = [0, 1], hp_size = 2, hp_timer = (\<lambda>t. \<lparr>w_expiration = 10 + int t, w_delta = 0, w_repeat = False,
     w_idx = int t\<rparr>)\<rparr>, timerSet = {0, 1}, wq_ran = []\<rparr>"

lemma two_timers_ok:
  "win_inv (wq_heap two_timers)" "min_heap_top (wq_heap two_timers) = Some 0" "members (wq_heap two_timers) = {0, 1}"
  "key (wq_heap two_timers) t = 10 + int t" "period (wq_heap two_timers) t = None"
  by (auto simp: two_timers_def heap_inv_def heap_ordered_def indexed_def contents_def members_def min_heap_top_def period_def
      GET_PARENT_def less_2_cases_iff)


text \<open>
  A repeating timer with an interval under a microsecond is due again as soon as it has run: the loop does not end.
\<close>

lemma busy_loop:
  assumes "win_inv (wq_heap q)" "t \<in> members (wq_heap q)" "key (wq_heap q) t \<le> now" "period (wq_heap q) t = Some d" "d \<le> 0"
  shows "expiredProcess True junk (\<lambda>_. []) now q = None"
proof -
  have "ok \<and> cb = (\<lambda>_. []) \<longrightarrow>
      \<not> (win_inv (wq_heap q) \<and> t \<in> members (wq_heap q) \<and> key (wq_heap q) t \<le> nw \<and> period (wq_heap q) t = Some d)"
    if "expiredProcess ok jk cb nw q = Some r" for ok jk cb nw q r
  proof (rule expiredProcess.raw_induct [rotated, OF that])
    fix f :: "bool \<Rightarrow> timer_ptr \<Rightarrow> (timer_ptr \<Rightarrow> queue_op list) \<Rightarrow> int \<Rightarrow> win_queue \<Rightarrow> win_queue result option" and ok jk cb nw q r
    assume IH: "\<And>ok jk cb nw q r. f ok jk cb nw q = Some r \<Longrightarrow> ok \<and> cb = (\<lambda>_. []) \<longrightarrow>
        \<not> (win_inv (wq_heap q) \<and> t \<in> members (wq_heap q) \<and> key (wq_heap q) t \<le> nw \<and> period (wq_heap q) t = Some d)"
      and run: "(case min_heap_top (wq_heap q) of None \<Rightarrow> Some (Inr q)
        | Some u \<Rightarrow> if nw < key (wq_heap q) u then Some (Inr q)
            else (case expired_turn ok jk cb nw u q of Inl e \<Rightarrow> Some (Inl e) | Inr q' \<Rightarrow> f ok jk cb nw q')) = Some r"
    let ?h = "wq_heap q"
    show "ok \<and> cb = (\<lambda>_. []) \<longrightarrow> \<not> (win_inv ?h \<and> t \<in> members ?h \<and> key ?h t \<le> nw \<and> period ?h t = Some d)"
    proof (intro impI notI)
      assume cb: "ok \<and> cb = (\<lambda>_. [])" and I: "win_inv ?h \<and> t \<in> members ?h \<and> key ?h t \<le> nw \<and> period ?h t = Some d"
      obtain u where u: "min_heap_top ?h = Some u" using wh.top_none [of ?h] I by (cases "min_heap_top ?h") auto
      have ku: "key ?h u \<le> nw" using wh.top_least [of ?h u] I u by force
      obtain h' where h': "expired_turn True jk (\<lambda>_. []) nw u q = Inr (q\<lparr>wq_ran := wq_ran q @ [u], wq_heap := h'\<rparr>)" "win_inv h'"
        "members h' = (if period ?h u = None then members ?h - {u} else members ?h)"
        "key h' = (case period ?h u of None \<Rightarrow> key ?h | Some d \<Rightarrow> (key ?h)(u := nw + d))" "period h' = period ?h"
        using quiet_turn [OF conjunct1 [OF I] u ku] by blast
      have "f ok jk cb nw (q\<lparr>wq_ran := wq_ran q @ [u], wq_heap := h'\<rparr>) = Some r" using run u ku h'(1) cb by simp
      then have "\<not> (win_inv h' \<and> t \<in> members h' \<and> key h' t \<le> nw \<and> period h' t = Some d)" using IH cb by fastforce
      moreover have "key h' t \<le> nw" using fun_cong [OF h'(4), of t] I assms(5) by (cases "period ?h u"; cases "u = t") auto
      ultimately show False using h'(2,3,5) I by (auto split: if_splits)
    qed
  qed
  then show ?thesis using assms by (cases "expiredProcess True junk (\<lambda>_. []) now q") auto
qed

text \<open>
  A timer that has run and does not repeat still has position 0. Cancelling it (\<open>cancelInLoop\<close>) takes the
  earliest of the other timers out of the heap instead, or, when there is none, indexes the array with the size that
  has wrapped around.
\<close>

theorem cancel_after_run_hits_another:
  assumes "win_inv (wq_heap q)" "min_heap_top (wq_heap q) = Some t" "key (wq_heap q) t \<le> now" "period (wq_heap q) t = None"
  shows "\<exists>q1. expired_turn True junk (\<lambda>_. []) now t q = Inr q1 \<and> members (wq_heap q1) = members (wq_heap q) - {t} \<and>
     (case min_heap_top (wq_heap q1) of
        None \<Rightarrow> cancelInLoop t q1 = Inl (Undefined ''index of event'')
      | Some u \<Rightarrow> u \<in> members (wq_heap q) - {t} \<and> (\<exists>q2. cancelInLoop t q1 = Inr q2 \<and> win_inv (wq_heap q2) \<and> members (wq_heap q2) = members (wq_heap q) - {t, u}))"
proof -
  let ?h = "wq_heap q"
  obtain h where h: "min_heap_pop ?h = Inr (Some t, h)" "heap_inv h" "members h = members ?h - {t}" "hp_size h = hp_size ?h - 1"
    "timers_kept (members h) ?h h" using pop_spec [OF _ assms(2)] assms(1) by blast
  have turn: "expired_turn True junk (\<lambda>_. []) now t q = Inr (q\<lparr>wq_ran := wq_ran q @ [t], wq_heap := h\<rparr>)"
    using h(1,5) assms(4) by (simp add: expired_turn_def timers_kept_def period_def split: if_splits)
  have x: "w_idx (hp_timer h t) = int 0" using h(3,5) top_spec(2) [OF _ assms(2)] assms(1) by (simp add: timers_kept_def)
  show ?thesis
  proof (cases "min_heap_top h")
    case None
    then have "min_heap_erase t h = Inl (Undefined ''index of event'')" using x by (simp add: min_heap_erase_def min_heap_top_def split: if_splits)
    then show ?thesis using turn h(3) None by (simp add: cancelInLoop_def)
  next
    case (Some u)
    then have u: "hp_event h ! 0 = u" "0 < hp_size h" "u \<in> members h" using top_spec(2) [OF h(2) Some] by (auto simp: min_heap_top_def split: if_splits)
    obtain h2 where h2: "min_heap_erase t h = Inr (0, h2)" "heap_inv h2" "members h2 = members h - {u}" "hp_size h2 = hp_size h - 1"
      using erase_at [OF h(2) x u(2)] h(3) u(1) by auto
    then have "cancelInLoop t (q\<lparr>wq_ran := wq_ran q @ [t], wq_heap := h\<rparr>) = Inr (q\<lparr>wq_ran := wq_ran q @ [t], wq_heap := h2\<rparr>)"
      by (simp add: cancelInLoop_def)
    moreover have "win_inv h2" using h2(2,4) h(4) assms(1) by linarith
    moreover have "members h2 = members ?h - {t, u}" using h2(3) h(3) by auto
    ultimately show ?thesis using turn h(3) Some u(3) by auto
  qed
qed

theorem cancel_after_run_hits_another_witness:
  "\<exists>q1 q2. expired_turn True 0 (\<lambda>_. []) 10 0 two_timers = Inr q1 \<and> members (wq_heap q1) = {1} \<and>
     (cancelInLoop 0 q1 = Inl (Undefined ''index of event'') \<or> cancelInLoop 0 q1 = Inr q2 \<and> members (wq_heap q2) = {})"
proof -
  obtain q1 where q1: "expired_turn True 0 (\<lambda>_. []) 10 0 two_timers = Inr q1" "members (wq_heap q1) = members (wq_heap two_timers) - {0}"
    "case min_heap_top (wq_heap q1) of
        None \<Rightarrow> cancelInLoop 0 q1 = Inl (Undefined ''index of event'')
      | Some u \<Rightarrow> u \<in> members (wq_heap two_timers) - {0} \<and> (\<exists>q2. cancelInLoop 0 q1 = Inr q2 \<and> win_inv (wq_heap q2) \<and> members (wq_heap q2) = members (wq_heap two_timers) - {0, u})"
    using cancel_after_run_hits_another [OF two_timers_ok(1,2), of 10 0] two_timers_ok(4,5) by auto
  then show ?thesis
    using two_timers_ok(3) by (cases "min_heap_top (wq_heap q1)") auto
qed

text \<open>
  A callback that cancels its own timer: the cancellation takes the timer out, and the \<open>pop\<close> meant for it takes
  out the next one, \<open>u\<close>, which will not run. If the timer repeats it is then armed again, so it is not cancelled.
\<close>

theorem self_cancel_drops_next:
  assumes "win_inv (wq_heap q)" "min_heap_top (wq_heap q) = Some t" "cb t = [CancelTimer t]" "members (wq_heap q) \<noteq> {t}"
  shows "\<exists>u q'. u \<in> members (wq_heap q) - {t} \<and> expired_turn True junk cb now t q = Inr q' \<and> wq_ran q' = wq_ran q @ [t] \<and>
     win_inv (wq_heap q') \<and>
     members (wq_heap q') = (if period (wq_heap q) t = None then members (wq_heap q) - {t, u} else members (wq_heap q) - {u})"
proof -
  let ?h = "wq_heap q"
  have t: "t \<in> members ?h" "0 < hp_size ?h" using wh.top_least [OF assms(1,2)] assms(2) by (auto simp: min_heap_top_def split: if_splits)
  obtain h1 where h1: "min_heap_erase t ?h = Inr (0, h1)" "heap_inv h1" "members h1 = members ?h - {t}" "hp_size h1 = hp_size ?h - 1"
    "timers_kept (members ?h) ?h h1" using erase_spec [OF _ t(1)] assms(1) by blast
  have i1: "win_inv h1" using h1(2,4) assms(1) by linarith
  obtain u where u: "min_heap_top h1 = Some u"
    using wh.top_none [OF i1] h1(3) assms(4) t(1) by (cases "min_heap_top h1") auto
  then have um: "u \<in> members ?h - {t}" using wh.top_least [OF i1 u] h1(3) by auto
  obtain h2 where h2: "min_heap_pop h1 = Inr (Some u, h2)" "win_inv h2" "members h2 = members h1 - {u}" "hp_size h2 + 1 < 2 ^ 32"
    "key h2 = key h1" "period h2 = period h1" using wh.pop [OF i1 u] by blast
  have p: "w_repeat (hp_timer h2 t) \<longleftrightarrow> period ?h t \<noteq> None"
    using h2(6) period_kept [OF h1(5)] by (metis period_def option.distinct(1))
  have run: "rfold (queue_call True junk) (cb t) (q\<lparr>wq_ran := wq_ran q @ [t]\<rparr>) = Inr (q\<lparr>wq_ran := wq_ran q @ [t], wq_heap := h1\<rparr>)"
    using assms(3) h1(1) by (simp add: cancelInLoop_def)
  show ?thesis
  proof (cases "period ?h t")
    case None
    then have "expired_turn True junk cb now t q = Inr (q\<lparr>wq_ran := wq_ran q @ [t], wq_heap := h2\<rparr>)" using run h2(1) p by (simp add: expired_turn_def)
    then show ?thesis using None um h2(2,3) h1(3) by auto
  next
    case (Some d)
    have tn: "t \<notin> members h2" "period h2 t = Some d" using h1(3) h2(3,6) Some period_kept [OF h1(5)] by auto
    note r = restart_spec [OF h2(2) tn, of now]
    obtain h3 where h3: "min_heap_push True junk t (restart now t h2) = Inr (0, h3)" "win_inv h3" "members h3 = insert t (members h2)"
      using wh.push [of "restart now t h2" t junk] r h2(4) tn(1) by auto
    then have "expired_turn True junk cb now t q = Inr (q\<lparr>wq_ran := wq_ran q @ [t], wq_heap := h3\<rparr>)" using run h2(1) p Some by (simp add: expired_turn_def)
    then show ?thesis using Some um h3(2,3) h2(3) h1(3) t(1) by auto
  qed
qed

theorem self_cancel_drops_next_witness:
  "\<exists>q'. expired_turn True 0 (\<lambda>t. [CancelTimer t]) 10 0 two_timers = Inr q' \<and> members (wq_heap q') = {}"
proof -
  obtain u q' where "u \<in> members (wq_heap two_timers) - {0}" "expired_turn True 0 (\<lambda>t. [CancelTimer t]) 10 0 two_timers = Inr q'"
    "members (wq_heap q') = (if period (wq_heap two_timers) 0 = None then members (wq_heap two_timers) - {0, u} else members (wq_heap two_timers) - {u})"
    using self_cancel_drops_next [of two_timers 0 "\<lambda>t. [CancelTimer t]" 0 10] two_timers_ok by fastforce
  then show ?thesis using two_timers_ok(3,5) by auto
qed

text \<open>The time that the loop may sleep: up to 2 ^ 31 milliseconds it is not past the earliest timer.\<close>

lemma sleep_not_past:
  assumes "win_inv (wq_heap q)" "t \<in> members (wq_heap q)" "now < key (wq_heap q) u" "min_heap_top (wq_heap q) = Some u"
    "key (wq_heap q) t - now < 2 ^ 31 * 1000"
  shows "0 \<le> earliestExpiredTime now q \<and> now + 1000 * earliestExpiredTime now q \<le> key (wq_heap q) t"
proof -
  let ?d = "key (wq_heap q) u - now"
  have le: "key (wq_heap q) u \<le> key (wq_heap q) t" using wh.top_least [OF assms(1,4)] assms(2) by blast
  have b: "0 \<le> ?d div 1000" "?d div 1000 < 2 ^ 31" "1000 * (?d div 1000) \<le> ?d" using assms(3,5) le by auto
  have "sint (word_of_int (?d div 1000) :: 32 word) = ?d div 1000"
    using b by (simp add: sint_sbintrunc' signed_take_bit_int_eq_self)
  then show ?thesis using assms(3,4) b le by (simp add: earliestExpiredTime_def timeDifferenceMs_def)
qed

end
