(* ===== verification/AnyBox.thy ===== *)
theory AnyBox
  imports Prelude
begin

text \<open>
  The type-erased value \<open>any\<close> (\<open>core/any.h\<close>) that a connection keeps as its context. A value lives either in the
  union inside the \<open>any\<close> or in an object from the heap; the table of functions for its type knows which. The
  model has the objects that are alive, the pointer of each union and the \<open>vtable\<close> pointer of each \<open>any\<close>. Destroying or
  reading what is not alive, reading it with another type and constructing over a living object are
  \<open>Undefined\<close>. The two members of a union are kept apart: which one is used depends on the type alone.
  Types are numbers; \<open>dyn t\<close> is \<open>requires_allocation<T>\<close>, and \<open>throws t c\<close> says whether the copy constructor of \<open>T\<close>
  throws for \<open>c\<close>. Addresses of the heap are numbered in the order of allocation.
\<close>

section \<open>Objects, unions and tables of functions\<close>

type_synonym tyid = nat

datatype 'v any_content = Val 'v | MovedFrom

type_synonym 'v obj = "tyid \<times> 'v any_content"

datatype any_id = Var nat | SwapTmp | AssignTmp

datatype storage = Of any_id | Local

record 'v any_world =
  heap_objs :: "nat \<rightharpoonup> 'v obj"
  stack_objs :: "storage \<rightharpoonup> 'v obj"
  dynamic :: "storage \<Rightarrow> nat option"
  vtable :: "any_id \<rightharpoonup> tyid option"
  next_addr :: nat

definition the_object :: "tyid \<Rightarrow> 'v obj option \<Rightarrow> 'v any_content result" where
  "the_object t ob = (case ob of Some (t', c) \<Rightarrow> if t' = t then Inr c else Inl (Undefined ''type of object'')
     | None \<Rightarrow> Inl (Undefined ''object not alive''))"

definition pointee :: "storage \<Rightarrow> 'v any_world \<Rightarrow> 'v obj option" where
  "pointee s w = (case dynamic w s of Some a \<Rightarrow> heap_objs w a | None \<Rightarrow> None)"

definition new_object :: "storage \<Rightarrow> 'v obj \<Rightarrow> 'v any_world \<Rightarrow> 'v any_world" where
  "new_object d ob w = w\<lparr>heap_objs := (heap_objs w)(next_addr w \<mapsto> ob), dynamic := (dynamic w)(d := Some (next_addr w)),
     next_addr := next_addr w + 1\<rparr>"

definition place_object :: "storage \<Rightarrow> 'v obj \<Rightarrow> 'v any_world \<Rightarrow> 'v any_world result" where
  "place_object d ob w = (if stack_objs w d = None then Inr (w\<lparr>stack_objs := (stack_objs w)(d \<mapsto> ob)\<rparr>)
     else Inl (Undefined ''constructed over a living object''))"

text \<open>\<open>vtable_dynamic<T>\<close>. A copy also says whether it was completed.\<close>

definition dynamic_destroy :: "tyid \<Rightarrow> storage \<Rightarrow> 'v any_world \<Rightarrow> 'v any_world result" where
  "dynamic_destroy t s w = (case dynamic w s of
      None \<Rightarrow> Inr w
    | Some a \<Rightarrow> rbind (the_object t (heap_objs w a)) (\<lambda>_. Inr (w\<lparr>heap_objs := (heap_objs w)(a := None)\<rparr>)))"

definition dynamic_copy ::
  "(tyid \<Rightarrow> 'v any_content \<Rightarrow> bool) \<Rightarrow> tyid \<Rightarrow> storage \<Rightarrow> storage \<Rightarrow> 'v any_world \<Rightarrow> (bool \<times> 'v any_world) result" where
  "dynamic_copy throws t src dest w = rbind (the_object t (pointee src w)) (\<lambda>c.
     if throws t c then Inr (False, w) else Inr (True, new_object dest (t, c) w))"

definition dynamic_move :: "storage \<Rightarrow> storage \<Rightarrow> 'v any_world \<Rightarrow> 'v any_world result" where
  "dynamic_move src dest w = Inr (w\<lparr>dynamic := (dynamic w)(dest := dynamic w src, src := None)\<rparr>)"

definition dynamic_swap :: "storage \<Rightarrow> storage \<Rightarrow> 'v any_world \<Rightarrow> 'v any_world result" where
  "dynamic_swap lhs rhs w = Inr (w\<lparr>dynamic := (dynamic w)(lhs := dynamic w rhs, rhs := dynamic w lhs)\<rparr>)"

text \<open>\<open>vtable_stack<T>\<close>. What is left of an object that was moved from is destroyed.\<close>

definition stack_destroy :: "tyid \<Rightarrow> storage \<Rightarrow> 'v any_world \<Rightarrow> 'v any_world result" where
  "stack_destroy t s w = rbind (the_object t (stack_objs w s)) (\<lambda>_. Inr (w\<lparr>stack_objs := (stack_objs w)(s := None)\<rparr>))"

definition stack_copy ::
  "(tyid \<Rightarrow> 'v any_content \<Rightarrow> bool) \<Rightarrow> tyid \<Rightarrow> storage \<Rightarrow> storage \<Rightarrow> 'v any_world \<Rightarrow> (bool \<times> 'v any_world) result" where
  "stack_copy throws t src dest w = rbind (the_object t (stack_objs w src)) (\<lambda>c.
     if throws t c then Inr (False, w) else rbind (place_object dest (t, c) w) (\<lambda>w1. Inr (True, w1)))"

definition stack_move :: "tyid \<Rightarrow> storage \<Rightarrow> storage \<Rightarrow> 'v any_world \<Rightarrow> 'v any_world result" where
  "stack_move t src dest w = rbind (the_object t (stack_objs w src)) (\<lambda>c.
     rbind (place_object dest (t, c) w) (\<lambda>w1.
     stack_destroy t src (w1\<lparr>stack_objs := (stack_objs w1)(src \<mapsto> (t, MovedFrom))\<rparr>)))"

definition stack_swap :: "tyid \<Rightarrow> storage \<Rightarrow> storage \<Rightarrow> 'v any_world \<Rightarrow> 'v any_world result" where
  "stack_swap t lhs rhs w = rbind (stack_move t rhs Local w) (\<lambda>w1. rbind (stack_move t lhs rhs w1) (\<lambda>w2. stack_move t Local lhs w2))"

text \<open>\<open>vtable_for_type<T>\<close>\<close>

definition vt_destroy :: "(tyid \<Rightarrow> bool) \<Rightarrow> tyid \<Rightarrow> storage \<Rightarrow> 'v any_world \<Rightarrow> 'v any_world result" where
  "vt_destroy dyn t = (if dyn t then dynamic_destroy t else stack_destroy t)"

definition vt_copy :: "(tyid \<Rightarrow> bool) \<Rightarrow> (tyid \<Rightarrow> 'v any_content \<Rightarrow> bool) \<Rightarrow> tyid \<Rightarrow> storage \<Rightarrow> storage \<Rightarrow> 'v any_world \<Rightarrow>
    (bool \<times> 'v any_world) result" where
  "vt_copy dyn throws t = (if dyn t then dynamic_copy throws t else stack_copy throws t)"

definition vt_move :: "(tyid \<Rightarrow> bool) \<Rightarrow> tyid \<Rightarrow> storage \<Rightarrow> storage \<Rightarrow> 'v any_world \<Rightarrow> 'v any_world result" where
  "vt_move dyn t = (if dyn t then dynamic_move else stack_move t)"

definition vt_swap :: "(tyid \<Rightarrow> bool) \<Rightarrow> tyid \<Rightarrow> storage \<Rightarrow> storage \<Rightarrow> 'v any_world \<Rightarrow> 'v any_world result" where
  "vt_swap dyn t = (if dyn t then dynamic_swap else stack_swap t)"

section \<open>The operations of any\<close>

definition set_vtable :: "any_id \<Rightarrow> tyid option option \<Rightarrow> 'v any_world \<Rightarrow> 'v any_world" where
  "set_vtable x v w = w\<lparr>vtable := (vtable w)(x := v)\<rparr>"

definition vtable_of :: "any_id \<Rightarrow> 'v any_world \<Rightarrow> tyid option" where
  "vtable_of x w = (case vtable w x of Some v \<Rightarrow> v | None \<Rightarrow> None)"

definition any_empty :: "any_id \<Rightarrow> 'v any_world \<Rightarrow> bool" where
  "any_empty x w \<longleftrightarrow> vtable_of x w = None"

definition any_ctor :: "any_id \<Rightarrow> 'v any_world \<Rightarrow> 'v any_world" where
  "any_ctor x w = set_vtable x (Some None) w"

text \<open>A constructor that throws leaves no object; \<open>False\<close> is an exception.\<close>

definition any_copy_ctor :: "(tyid \<Rightarrow> bool) \<Rightarrow> (tyid \<Rightarrow> 'v any_content \<Rightarrow> bool) \<Rightarrow> any_id \<Rightarrow> any_id \<Rightarrow> 'v any_world \<Rightarrow>
    (bool \<times> 'v any_world) result" where
  "any_copy_ctor dyn throws x rhs w =
     (let w1 = set_vtable x (Some (vtable_of rhs w)) w
      in case vtable_of rhs w of
           None \<Rightarrow> Inr (True, w1)
         | Some t \<Rightarrow> rbind (vt_copy dyn throws t (Of rhs) (Of x) w1) (\<lambda>(fine, w2).
             Inr (fine, if fine then w2 else set_vtable x None w2)))"

definition any_move_ctor :: "(tyid \<Rightarrow> bool) \<Rightarrow> any_id \<Rightarrow> any_id \<Rightarrow> 'v any_world \<Rightarrow> 'v any_world result" where
  "any_move_ctor dyn x rhs w =
     (let w1 = set_vtable x (Some (vtable_of rhs w)) w
      in case vtable_of rhs w of
           None \<Rightarrow> Inr w1
         | Some t \<Rightarrow> rbind (vt_move dyn t (Of rhs) (Of x) w1) (\<lambda>w2. Inr (set_vtable rhs (Some None) w2)))"

definition any_clear :: "(tyid \<Rightarrow> bool) \<Rightarrow> any_id \<Rightarrow> 'v any_world \<Rightarrow> 'v any_world result" where
  "any_clear dyn x w = (case vtable_of x w of None \<Rightarrow> Inr w
     | Some t \<Rightarrow> rbind (vt_destroy dyn t (Of x) w) (\<lambda>w1. Inr (set_vtable x (Some None) w1)))"

definition any_dtor :: "(tyid \<Rightarrow> bool) \<Rightarrow> any_id \<Rightarrow> 'v any_world \<Rightarrow> 'v any_world result" where
  "any_dtor dyn x w = rbind (any_clear dyn x w) (\<lambda>w1. Inr (set_vtable x None w1))"

definition any_value_ctor :: "(tyid \<Rightarrow> bool) \<Rightarrow> (tyid \<Rightarrow> 'v any_content \<Rightarrow> bool) \<Rightarrow> any_id \<Rightarrow> tyid \<Rightarrow> 'v \<Rightarrow> 'v any_world \<Rightarrow>
    (bool \<times> 'v any_world) result" where
  "any_value_ctor dyn throws x t v w =
     (let w1 = set_vtable x (Some (Some t)) w
      in if throws t (Val v) then Inr (False, set_vtable x None w1)
         else if dyn t then Inr (True, new_object (Of x) (t, Val v) w1)
         else rbind (place_object (Of x) (t, Val v) w1) (\<lambda>w2. Inr (True, w2)))"

definition any_type :: "any_id \<Rightarrow> 'v any_world \<Rightarrow> tyid option" where
  "any_type x w = vtable_of x w"

definition any_swap :: "(tyid \<Rightarrow> bool) \<Rightarrow> any_id \<Rightarrow> any_id \<Rightarrow> 'v any_world \<Rightarrow> 'v any_world result" where
  "any_swap dyn x rhs w =
     (if vtable_of x w \<noteq> vtable_of rhs w
      then rbind (any_move_ctor dyn SwapTmp rhs w) (\<lambda>w1.
           let w2 = set_vtable rhs (Some (vtable_of x w1)) w1
           in rbind (case vtable_of x w2 of None \<Rightarrow> Inr w2 | Some t \<Rightarrow> vt_move dyn t (Of x) (Of rhs) w2) (\<lambda>w3.
           let w4 = set_vtable x (Some (vtable_of SwapTmp w3)) w3
           in rbind (case vtable_of SwapTmp w4 of None \<Rightarrow> Inr w4
                | Some t \<Rightarrow> rbind (vt_move dyn t (Of SwapTmp) (Of x) w4) (\<lambda>w5. Inr (set_vtable SwapTmp (Some None) w5)))
              (any_dtor dyn SwapTmp)))
      else case vtable_of x w of None \<Rightarrow> Inr w | Some t \<Rightarrow> vt_swap dyn t (Of x) (Of rhs) w)"

definition any_assign_copy :: "(tyid \<Rightarrow> bool) \<Rightarrow> (tyid \<Rightarrow> 'v any_content \<Rightarrow> bool) \<Rightarrow> any_id \<Rightarrow> any_id \<Rightarrow> 'v any_world \<Rightarrow>
    (bool \<times> 'v any_world) result" where
  "any_assign_copy dyn throws x rhs w = rbind (any_copy_ctor dyn throws AssignTmp rhs w) (\<lambda>(fine, w1).
     if fine then rbind (any_swap dyn AssignTmp x w1) (\<lambda>w2. rbind (any_dtor dyn AssignTmp w2) (\<lambda>w3. Inr (True, w3)))
     else Inr (False, w1))"

definition any_assign_move :: "(tyid \<Rightarrow> bool) \<Rightarrow> any_id \<Rightarrow> any_id \<Rightarrow> 'v any_world \<Rightarrow> 'v any_world result" where
  "any_assign_move dyn x rhs w = rbind (any_move_ctor dyn AssignTmp rhs w) (\<lambda>w1.
     rbind (any_swap dyn AssignTmp x w1) (any_dtor dyn AssignTmp))"

definition any_assign_value :: "(tyid \<Rightarrow> bool) \<Rightarrow> (tyid \<Rightarrow> 'v any_content \<Rightarrow> bool) \<Rightarrow> any_id \<Rightarrow> tyid \<Rightarrow> 'v \<Rightarrow> 'v any_world \<Rightarrow>
    (bool \<times> 'v any_world) result" where
  "any_assign_value dyn throws x t v w = rbind (any_value_ctor dyn throws AssignTmp t v w) (\<lambda>(fine, w1).
     if fine then rbind (any_swap dyn AssignTmp x w1) (\<lambda>w2. rbind (any_dtor dyn AssignTmp w2) (\<lambda>w3. Inr (True, w3)))
     else Inr (False, w1))"

text \<open>\<open>any_cast\<close>: to a pointer, which may be null; to a value; to a value moved out of an rvalue.\<close>

datatype place = InHeap nat | InUnion storage | NullPtr

definition any_cast_unchecked :: "(tyid \<Rightarrow> bool) \<Rightarrow> tyid \<Rightarrow> any_id \<Rightarrow> 'v any_world \<Rightarrow> place" where
  "any_cast_unchecked dyn t x w =
     (if dyn t then (case dynamic w (Of x) of Some a \<Rightarrow> InHeap a | None \<Rightarrow> NullPtr) else InUnion (Of x))"

definition any_cast_pointer :: "(tyid \<Rightarrow> bool) \<Rightarrow> tyid \<Rightarrow> any_id option \<Rightarrow> 'v any_world \<Rightarrow> place" where
  "any_cast_pointer dyn t operand w = (case operand of None \<Rightarrow> NullPtr
     | Some x \<Rightarrow> if any_type x w \<noteq> Some t then NullPtr else any_cast_unchecked dyn t x w)"

definition load :: "tyid \<Rightarrow> place \<Rightarrow> 'v any_world \<Rightarrow> 'v any_content result" where
  "load t p w = (case p of InHeap a \<Rightarrow> the_object t (heap_objs w a) | InUnion s \<Rightarrow> the_object t (stack_objs w s)
     | NullPtr \<Rightarrow> Inl BadAnyCast)"

definition any_cast :: "(tyid \<Rightarrow> bool) \<Rightarrow> tyid \<Rightarrow> any_id \<Rightarrow> 'v any_world \<Rightarrow> 'v any_content result" where
  "any_cast dyn t x w = load t (any_cast_pointer dyn t (Some x) w) w"

definition any_cast_rvalue :: "(tyid \<Rightarrow> bool) \<Rightarrow> bool \<Rightarrow> tyid \<Rightarrow> any_id \<Rightarrow> 'v any_world \<Rightarrow> ('v any_content \<times> 'v any_world) result" where
  "any_cast_rvalue dyn can_move t x w =
     (let p = any_cast_pointer dyn t (Some x) w
      in rbind (load t p w) (\<lambda>c. Inr (c, if \<not> can_move then w
           else case p of InHeap a \<Rightarrow> w\<lparr>heap_objs := (heap_objs w)(a \<mapsto> (t, MovedFrom))\<rparr>
             | InUnion s \<Rightarrow> w\<lparr>stack_objs := (stack_objs w)(s \<mapsto> (t, MovedFrom))\<rparr> | NullPtr \<Rightarrow> w)))"

section \<open>What the unions hold\<close>

text \<open>
  \<open>A\<close> says which object each union holds. Every object that is alive is held by exactly one union: nothing leaks,
  and no two unions own the same object.
\<close>

definition heap_part :: "(storage \<rightharpoonup> 'v obj) \<Rightarrow> (storage \<Rightarrow> nat option) \<Rightarrow> (nat \<rightharpoonup> 'v obj) \<Rightarrow> nat \<Rightarrow> bool" where
  "heap_part H p h n \<longleftrightarrow>
     (\<forall>s ob. H s = Some ob \<longrightarrow> (\<exists>a. p s = Some a \<and> h a = Some ob)) \<and>
     (\<forall>a ob. h a = Some ob \<longrightarrow> a < n \<and> (\<exists>s. H s = Some ob \<and> p s = Some a)) \<and>
     (\<forall>s s' ob ob'. H s = Some ob \<longrightarrow> H s' = Some ob' \<longrightarrow> p s = p s' \<longrightarrow> s = s')"

definition kept :: "(tyid \<Rightarrow> bool) \<Rightarrow> 'v obj option \<Rightarrow> 'v obj option" where
  "kept P ob = (case ob of Some (t, c) \<Rightarrow> if P t then ob else None | None \<Rightarrow> None)"

definition holds :: "(tyid \<Rightarrow> bool) \<Rightarrow> (storage \<rightharpoonup> 'v obj) \<Rightarrow> 'v any_world \<Rightarrow> bool" where
  "holds dyn A w \<longleftrightarrow> stack_objs w = (\<lambda>s. kept (\<lambda>t. \<not> dyn t) (A s)) \<and>
     heap_part (\<lambda>s. kept dyn (A s)) (dynamic w) (heap_objs w) (next_addr w)"

text \<open>The laws of a table of functions, and what three moves through a free union do.\<close>

locale storage_ops =
  fixes rep :: "(storage \<rightharpoonup> 'v obj) \<Rightarrow> 'w \<Rightarrow> bool" and tables :: "'w \<Rightarrow> 'k"
    and throws :: "tyid \<Rightarrow> 'v any_content \<Rightarrow> bool"
    and destroy :: "tyid \<Rightarrow> storage \<Rightarrow> 'w \<Rightarrow> 'w result"
    and copy :: "tyid \<Rightarrow> storage \<Rightarrow> storage \<Rightarrow> 'w \<Rightarrow> (bool \<times> 'w) result"
    and move :: "tyid \<Rightarrow> storage \<Rightarrow> storage \<Rightarrow> 'w \<Rightarrow> 'w result"
  assumes destroy: "rep A w \<Longrightarrow> A s = Some (t, c) \<Longrightarrow> \<exists>w'. destroy t s w = Inr w' \<and> rep (A(s := None)) w' \<and> tables w' = tables w"
    and copy_throws: "rep A w \<Longrightarrow> A s = Some (t, c) \<Longrightarrow> throws t c \<Longrightarrow> copy t s d w = Inr (False, w)"
    and copy: "rep A w \<Longrightarrow> A s = Some (t, c) \<Longrightarrow> A d = None \<Longrightarrow> \<not> throws t c \<Longrightarrow>
      \<exists>w'. copy t s d w = Inr (True, w') \<and> rep (A(d \<mapsto> (t, c))) w' \<and> tables w' = tables w"
    and move: "rep A w \<Longrightarrow> A s = Some (t, c) \<Longrightarrow> A d = None \<Longrightarrow>
      \<exists>w'. move t s d w = Inr w' \<and> rep (A(s := None, d \<mapsto> (t, c))) w' \<and> tables w' = tables w"
begin

lemma three_moves:
  assumes "rep A w" "A l = Some (t, c)" "A r = Some (t, c')" "A m = None" "l \<noteq> r"
  shows "\<exists>w'. rbind (move t r m w) (\<lambda>w1. rbind (move t l r w1) (\<lambda>w2. move t m l w2)) = Inr w' \<and>
     rep (A(l := A r, r := A l)) w' \<and> tables w' = tables w"
proof -
  let ?A1 = "A(r := None, m \<mapsto> (t, c'))" and ?A2 = "A(r \<mapsto> (t, c), l := None, m \<mapsto> (t, c'))"
  have n: "m \<noteq> l" "m \<noteq> r" using assms(2-4) by auto
  obtain w1 where w1: "move t r m w = Inr w1" "rep ?A1 w1" "tables w1 = tables w" using move [OF assms(1,3,4)] by blast
  have e: "?A1(l := None, r \<mapsto> (t, c)) = ?A2" using n assms(5) by auto
  obtain w2 where w2: "move t l r w1 = Inr w2" "rep ?A2 w2" "tables w2 = tables w1"
    using move [OF w1(2), of l t c r] assms(2,5) n unfolding e by auto
  have e2: "?A2(m := None, l \<mapsto> (t, c')) = A(l := A r, r := A l)" using n assms by auto
  obtain w3 where "move t m l w2 = Inr w3" "rep (A(l := A r, r := A l)) w3" "tables w3 = tables w2"
    using move [OF w2(2), of m t c' l] n unfolding e2 by auto
  then show ?thesis using w1 w2 by simp
qed

end

lemma the_object_Some [simp]: "the_object t (Some (t, c)) = Inr c"
  by (simp add: the_object_def)

lemma kept_simps [simp]:
  "kept P None = None" "P t \<Longrightarrow> kept P (Some (t, c)) = Some (t, c)" "\<not> P t \<Longrightarrow> kept P (Some (t, c)) = None"
  by (simp_all add: kept_def)

lemma kept_update: "(\<lambda>s. kept P ((A(x := v)) s)) = (\<lambda>s. kept P (A s))(x := kept P v)"
  by auto

lemma update_same: "f x = v \<Longrightarrow> f(x := v) = f"
  by auto

lemma heap_part_at:
  assumes "heap_part H p h n" "H s = Some ob"
  obtains a where "p s = Some a" "h a = Some ob" "a < n"
  using assms unfolding heap_part_def by blast

lemma heap_part_delete:
  assumes "heap_part H p h n" "H s = Some ob" "p s = Some a"
  shows "heap_part (H(s := None)) p (h(a := None)) n"
proof -
  have H: "\<exists>b. p s' = Some b \<and> h b = Some ob'" if "H s' = Some ob'" for s' ob' using assms(1) that unfolding heap_part_def by blast
  have h: "b < n \<and> (\<exists>s'. H s' = Some ob' \<and> p s' = Some b)" if "h b = Some ob'" for b ob' using assms(1) that unfolding heap_part_def by blast
  have i: "s1 = s2" if "H s1 = Some ob1" "H s2 = Some ob2" "p s1 = p s2" for s1 s2 ob1 ob2
    using assms(1) that unfolding heap_part_def by blast
  have "\<exists>b. p s' = Some b \<and> (h(a := None)) b = Some ob'" if s': "(H(s := None)) s' = Some ob'" for s' ob'
  proof -
    obtain b where b: "p s' = Some b" "h b = Some ob'" using H [of s' ob'] s' by (auto split: if_splits)
    then have "b \<noteq> a" using i [of s' ob' s ob] s' assms(2,3) by (auto split: if_splits)
    then show ?thesis using b by simp
  qed
  moreover have "b < n \<and> (\<exists>s'. (H(s := None)) s' = Some ob' \<and> p s' = Some b)" if "(h(a := None)) b = Some ob'" for b ob'
  proof -
    have b: "b \<noteq> a" "h b = Some ob'" using that by (auto split: if_splits)
    then obtain s' where "H s' = Some ob'" "p s' = Some b" "b < n" using h by blast
    moreover from this have "s' \<noteq> s" using b(1) assms(3) by auto
    ultimately show ?thesis by (intro conjI exI [of _ s']) simp_all
  qed
  moreover have "s1 = s2" if "(H(s := None)) s1 = Some ob1" "(H(s := None)) s2 = Some ob2" "p s1 = p s2" for s1 s2 ob1 ob2
    using i [of s1 ob1 s2 ob2] that by (auto split: if_splits)
  ultimately show ?thesis unfolding heap_part_def by blast
qed

lemma heap_part_new:
  assumes "heap_part H p h n" "H d = None"
  shows "heap_part (H(d \<mapsto> ob)) (p(d := Some n)) (h(n \<mapsto> ob)) (n + 1)"
proof -
  have n: "h n = None" using assms(1) unfolding heap_part_def by (metis less_irrefl option.exhaust)
  have "p s \<noteq> Some n" if "H s = Some ob'" for s ob' using assms(1) that n unfolding heap_part_def by (metis option.distinct(1) option.inject)
  then show ?thesis using assms n unfolding heap_part_def by (auto split: if_splits) (metis less_SucI option.distinct(1))+
qed

lemma heap_part_move:
  assumes "heap_part H p h n" "H s = Some ob" "H d = None"
  shows "heap_part (H(s := None, d \<mapsto> ob)) (p(d := p s, s := None)) h n"
  using assms unfolding heap_part_def by (auto split: if_splits) (metis option.distinct(1) option.inject)+

lemma heap_part_swap:
  assumes "heap_part H p h n" "H s = Some ob" "H d = Some ob'"
  shows "heap_part (H(s := H d, d := H s)) (p(s := p d, d := p s)) h n"
  using assms unfolding heap_part_def by (auto split: if_splits) (metis option.distinct(1) option.inject)+

lemma holds_obj:
  assumes "holds dyn A w" "A s = Some (t, c)"
  shows "\<not> dyn t \<Longrightarrow> stack_objs w s = Some (t, c)" "dyn t \<Longrightarrow> pointee s w = Some (t, c)"
proof -
  show "stack_objs w s = Some (t, c)" if "\<not> dyn t" using assms that by (simp add: holds_def)
  show "pointee s w = Some (t, c)" if "dyn t"
  proof -
    have "kept dyn (A s) = Some (t, c)" using assms(2) that by simp
    then obtain a where "dynamic w s = Some a" "heap_objs w a = Some (t, c)"
      using assms(1) heap_part_at [of "\<lambda>s. kept dyn (A s)"] unfolding holds_def by blast
    then show ?thesis by (simp add: pointee_def)
  qed
qed

lemma holds_destroy:
  assumes "holds dyn A w" "A s = Some (t, c)"
  shows "\<exists>w'. vt_destroy dyn t s w = Inr w' \<and> holds dyn (A(s := None)) w' \<and> vtable w' = vtable w"
proof (cases "dyn t")
  case True
  then obtain a where a: "dynamic w s = Some a" "heap_objs w a = Some (t, c)"
    using holds_obj(2) [OF assms] by (auto simp: pointee_def split: option.splits)
  have "holds dyn (A(s := None)) (w\<lparr>heap_objs := (heap_objs w)(a := None)\<rparr>)"
    using assms True heap_part_delete [of "\<lambda>s. kept dyn (A s)" _ _ _ s "(t, c)" a] a(1)
    by (simp add: holds_def kept_update update_same del: fun_upd_apply)
  then show ?thesis using True a by (simp add: vt_destroy_def dynamic_destroy_def)
next
  case False
  have "holds dyn (A(s := None)) (w\<lparr>stack_objs := (stack_objs w)(s := None)\<rparr>)"
    using assms False by (simp add: holds_def kept_update update_same del: fun_upd_apply)
  then show ?thesis using False holds_obj(1) [OF assms] by (simp add: vt_destroy_def stack_destroy_def)
qed

lemma holds_new_object:
  assumes "holds dyn A w" "A d = None" "dyn t"
  shows "holds dyn (A(d \<mapsto> (t, c))) (new_object d (t, c) w)"
  using assms heap_part_new [of "\<lambda>s. kept dyn (A s)" _ _ _ d "(t, c)"]
  by (simp add: holds_def kept_update update_same new_object_def del: fun_upd_apply)

lemma holds_place_object:
  assumes "holds dyn A w" "A d = None" "\<not> dyn t"
  shows "place_object d (t, c) w = Inr (w\<lparr>stack_objs := (stack_objs w)(d \<mapsto> (t, c))\<rparr>)"
    "holds dyn (A(d \<mapsto> (t, c))) (w\<lparr>stack_objs := (stack_objs w)(d \<mapsto> (t, c))\<rparr>)"
  using assms by (simp_all add: holds_def kept_update update_same place_object_def del: fun_upd_apply)

lemma holds_copy:
  assumes "holds dyn A w" "A s = Some (t, c)" "A d = None" "\<not> throws t c"
  shows "\<exists>w'. vt_copy dyn throws t s d w = Inr (True, w') \<and> holds dyn (A(d \<mapsto> (t, c))) w' \<and> vtable w' = vtable w"
proof (cases "dyn t")
  case True
  then show ?thesis using assms holds_obj(2) [OF assms(1,2)] holds_new_object [OF assms(1,3) True]
    by (simp add: vt_copy_def dynamic_copy_def) (simp add: new_object_def)
next
  case False
  then show ?thesis using assms holds_obj(1) [OF assms(1,2)] holds_place_object [OF assms(1,3) False]
    by (simp add: vt_copy_def stack_copy_def)
qed

lemma holds_move:
  assumes "holds dyn A w" "A s = Some (t, c)" "A d = None"
  shows "\<exists>w'. vt_move dyn t s d w = Inr w' \<and> holds dyn (A(s := None, d \<mapsto> (t, c))) w' \<and> vtable w' = vtable w"
proof (cases "dyn t")
  case True
  have "holds dyn (A(s := None, d \<mapsto> (t, c))) (w\<lparr>dynamic := (dynamic w)(d := dynamic w s, s := None)\<rparr>)"
    using assms True heap_part_move [of "\<lambda>s. kept dyn (A s)" _ _ _ s "(t, c)" d]
    by (simp add: holds_def kept_update update_same del: fun_upd_apply)
  then show ?thesis using True by (simp add: vt_move_def dynamic_move_def)
next
  case False
  have n: "s \<noteq> d" using assms by auto
  have p: "place_object d (t, c) w = Inr (w\<lparr>stack_objs := (stack_objs w)(d \<mapsto> (t, c))\<rparr>)"
    using holds_place_object(1) [OF assms(1,3) False] .
  have "holds dyn (A(s := None, d \<mapsto> (t, c))) (w\<lparr>stack_objs := (stack_objs w)(s := None, d \<mapsto> (t, c))\<rparr>)"
    using assms False by (simp add: holds_def kept_update update_same del: fun_upd_apply)
  then show ?thesis using False holds_obj(1) [OF assms(1,2)] p n
    by (simp add: vt_move_def stack_move_def stack_destroy_def fun_upd_twist)
qed

interpretation vt: storage_ops "holds dyn" vtable throws "vt_destroy dyn" "vt_copy dyn throws" "vt_move dyn"
proof
  show "vt_copy dyn throws t s d w = Inr (False, w)" if "holds dyn A w" "A s = Some (t, c)" "throws t c" for A w s t c d
    using holds_obj [OF that(1,2)] that(3) by (cases "dyn t") (simp_all add: vt_copy_def dynamic_copy_def stack_copy_def)
qed (rule holds_destroy holds_copy holds_move; assumption)+

lemma holds_swap:
  assumes "holds dyn A w" "A l = Some (t, c)" "A r = Some (t, c')" "A Local = None" "l \<noteq> r \<or> dyn t"
  shows "\<exists>w'. vt_swap dyn t l r w = Inr w' \<and> holds dyn (A(l := A r, r := A l)) w' \<and> vtable w' = vtable w"
proof (cases "dyn t")
  case True
  have "holds dyn (A(l := A r, r := A l)) (w\<lparr>dynamic := (dynamic w)(l := dynamic w r, r := dynamic w l)\<rparr>)"
    using assms True heap_part_swap [of "\<lambda>s. kept dyn (A s)" _ _ _ l "(t, c)" r "(t, c')"]
    by (simp add: holds_def kept_update update_same del: fun_upd_apply)
  then show ?thesis using True by (simp add: vt_swap_def dynamic_swap_def)
next
  case False
  then show ?thesis using vt.three_moves [OF assms(1-4)] assms(5) by (simp add: vt_swap_def stack_swap_def vt_move_def)
qed

section \<open>An any is an optional value\<close>

text \<open>
  \<open>V\<close> says which \<open>any\<close> objects exist and what each contains. The operations are described on it.
\<close>

type_synonym 'v view = "any_id \<rightharpoonup> 'v obj option"

definition flat :: "'a option option \<Rightarrow> 'a option" where
  "flat v = (case v of Some ob \<Rightarrow> ob | None \<Rightarrow> None)"

definition slots :: "'v view \<Rightarrow> storage \<rightharpoonup> 'v obj" where
  "slots V s = (case s of Of x \<Rightarrow> flat (V x) | Local \<Rightarrow> None)"

definition anys :: "(tyid \<Rightarrow> bool) \<Rightarrow> 'v view \<Rightarrow> 'v any_world \<Rightarrow> bool" where
  "anys dyn V w \<longleftrightarrow> vtable w = (\<lambda>x. map_option (map_option fst) (V x)) \<and> holds dyn (slots V) w"

lemma flat_simps [simp]: "flat (Some v) = v" "flat None = None"
  by (simp_all add: flat_def)

lemma slots_simps [simp]: "slots V Local = None" "slots V (Of x) = flat (V x)"
  by (simp_all add: slots_def)

lemma slots_update: "slots (V(x := v)) = (slots V)(Of x := flat v)"
  by (auto simp: slots_def fun_eq_iff split: storage.splits)

lemma view_update: "(\<lambda>y. map_option f ((V(x := v)) y)) = (\<lambda>y. map_option f (V y))(x := map_option f v)"
  by auto

lemma set_vtable_simps [simp]:
  "vtable (set_vtable x v w) = (vtable w)(x := v)" "holds dyn A (set_vtable x v w) = holds dyn A w"
  by (simp_all add: set_vtable_def holds_def)

lemma vtable_of_view: "vtable w = (\<lambda>x. map_option (map_option fst) (V x)) \<Longrightarrow> V x = Some v \<Longrightarrow> vtable_of x w = map_option fst v"
  by (simp add: vtable_of_def)

lemma anysI:
  "holds dyn A w \<Longrightarrow> slots V = A \<Longrightarrow> vtable w = (\<lambda>x. map_option (map_option fst) (V x)) \<Longrightarrow> anys dyn V w"
  by (simp add: anys_def)

lemma set_vtable_back: "vtable w x = None \<Longrightarrow> set_vtable x None (set_vtable x v w) = w"
  by (simp add: set_vtable_def update_same)

lemma move_ctor_spec:
  assumes "anys dyn V w" "V x = None" "V rhs = Some v"
  shows "\<exists>w'. any_move_ctor dyn x rhs w = Inr w' \<and> anys dyn (V(x \<mapsto> v, rhs \<mapsto> None)) w'"
proof (cases v)
  case None
  then show ?thesis using assms vtable_of_view [of w V rhs v]
    by (auto simp: any_move_ctor_def anys_def slots_update view_update update_same)
next
  case (Some ob)
  obtain t c where ob: "ob = (t, c)" by (cases ob)
  have vt: "vtable_of rhs w = Some t" using assms Some ob vtable_of_view [of w V rhs v] by (simp add: anys_def)
  obtain w1 where "vt_move dyn t (Of rhs) (Of x) (set_vtable x (Some (Some t)) w) = Inr w1"
    "holds dyn ((slots V)(Of rhs := None, Of x \<mapsto> (t, c))) w1" "vtable w1 = (vtable w)(x := Some (Some t))"
    using vt.move [of dyn "slots V" "set_vtable x (Some (Some t)) w" "Of rhs" t c "Of x"] assms Some ob by (auto simp: anys_def)
  moreover have "x \<noteq> rhs" using assms(2,3) by auto
  ultimately show ?thesis using vt assms(1) Some ob
    by (auto simp: any_move_ctor_def anys_def slots_update view_update fun_upd_twist)
qed

lemma copy_ctor_spec:
  assumes "anys dyn V w" "V x = None" "V rhs = Some v"
  shows "if (\<exists>t c. v = Some (t, c) \<and> throws t c) then any_copy_ctor dyn throws x rhs w = Inr (False, w)
    else \<exists>w'. any_copy_ctor dyn throws x rhs w = Inr (True, w') \<and> anys dyn (V(x \<mapsto> v)) w'"
proof (cases v)
  case None
  then show ?thesis using assms vtable_of_view [of w V rhs v]
    by (auto simp: any_copy_ctor_def anys_def slots_update view_update update_same)
next
  case (Some ob)
  obtain t c where ob: "ob = (t, c)" by (cases ob)
  let ?w = "set_vtable x (Some (Some t)) w"
  have vt: "vtable_of rhs w = Some t" using assms Some ob vtable_of_view [of w V rhs v] by (simp add: anys_def)
  have h: "holds dyn (slots V) ?w" "slots V (Of rhs) = Some (t, c)" "slots V (Of x) = None" using assms Some ob by (auto simp: anys_def)
  have x: "vtable w x = None" using assms(1,2) by (simp add: anys_def)
  show ?thesis
  proof (cases "throws t c")
    case True
    then show ?thesis using vt.copy_throws [of dyn "slots V" ?w "Of rhs" t c throws "Of x"] h(1,2) True vt Some ob set_vtable_back [of w x] x by (simp add: any_copy_ctor_def)
  next
    case False
    then obtain w1 where "vt_copy dyn throws t (Of rhs) (Of x) ?w = Inr (True, w1)" "holds dyn ((slots V)(Of x \<mapsto> (t, c))) w1"
      "vtable w1 = (vtable w)(x := Some (Some t))" using vt.copy [of dyn "slots V" ?w "Of rhs" t c "Of x" throws] h by auto
    then show ?thesis using vt assms(1) Some ob False
      by (auto simp: any_copy_ctor_def anys_def slots_update view_update)
  qed
qed

lemma value_ctor_spec:
  assumes "anys dyn V w" "V x = None"
  shows "if throws t (Val v) then any_value_ctor dyn throws x t v w = Inr (False, w)
    else \<exists>w'. any_value_ctor dyn throws x t v w = Inr (True, w') \<and> anys dyn (V(x \<mapsto> Some (t, Val v))) w'"
proof -
  let ?w = "set_vtable x (Some (Some t)) w"
  have h: "holds dyn (slots V) ?w" "slots V (Of x) = None" "vtable w x = None" using assms by (auto simp: anys_def)
  have u: "anys dyn (V(x \<mapsto> Some (t, Val v))) w'" if "holds dyn ((slots V)(Of x \<mapsto> (t, Val v))) w'" "vtable w' = vtable ?w" for w'
    using that assms(1) by (auto simp: anys_def slots_update)
  have "vtable (new_object (Of x) (t, Val v) ?w) = vtable ?w" by (simp add: new_object_def)
  then show ?thesis
    using h set_vtable_back [OF h(3)] u holds_new_object [OF h(1,2), of t] holds_place_object [OF h(1,2), of t]
    by (cases "dyn t") (auto simp: any_value_ctor_def Let_def)
qed

lemma clear_spec:
  assumes "anys dyn V w" "V x = Some v"
  shows "\<exists>w'. any_clear dyn x w = Inr w' \<and> anys dyn (V(x \<mapsto> None)) w'"
proof (cases v)
  case None
  then show ?thesis using assms vtable_of_view [of w V x v]
    by (auto simp: any_clear_def anys_def slots_update view_update update_same)
next
  case (Some ob)
  obtain t c where ob: "ob = (t, c)" by (cases ob)
  have vt: "vtable_of x w = Some t" using assms Some ob vtable_of_view [of w V x v] by (simp add: anys_def)
  obtain w1 where "vt_destroy dyn t (Of x) w = Inr w1" "holds dyn ((slots V)(Of x := None)) w1" "vtable w1 = vtable w"
    using vt.destroy [of dyn "slots V" w "Of x" t c] assms Some ob by (auto simp: anys_def)
  then show ?thesis using vt assms(1) by (auto simp: any_clear_def anys_def slots_update view_update)
qed

lemma dtor_spec:
  assumes "anys dyn V w" "V x = Some v"
  shows "\<exists>w'. any_dtor dyn x w = Inr w' \<and> anys dyn (V(x := None)) w'"
proof -
  obtain w1 where w1: "any_clear dyn x w = Inr w1" "anys dyn (V(x \<mapsto> None)) w1" using clear_spec [OF assms] by blast
  have "anys dyn (V(x := None)) (set_vtable x None w1)" using w1(2) by (auto simp: anys_def slots_update)
  then show ?thesis using w1(1) by (simp add: any_dtor_def)
qed

text \<open>The conditional moves inside \<open>swap\<close>.\<close>

lemma move_if_any:
  assumes "holds dyn A w" "A s = v" "A d = None"
  shows "\<exists>w'. (case map_option fst v of None \<Rightarrow> Inr w | Some t \<Rightarrow> vt_move dyn t s d w) = Inr w' \<and>
     holds dyn (A(s := None, d := v)) w' \<and> vtable w' = vtable w"
proof (cases v)
  case None
  then show ?thesis using assms by (simp add: update_same)
next
  case (Some ob)
  then show ?thesis using holds_move [OF assms(1), of s "fst ob" "snd ob" d] assms(2,3) by simp
qed

lemma swap_other_type:
  assumes "anys dyn V w" "V x = Some v" "V rhs = Some u" "V SwapTmp = None" "map_option fst v \<noteq> map_option fst u"
  shows "\<exists>w'. any_swap dyn x rhs w = Inr w' \<and> anys dyn (V(x \<mapsto> u, rhs \<mapsto> v)) w'"
proof -
  have n: "x \<noteq> rhs" "SwapTmp \<noteq> x" "SwapTmp \<noteq> rhs" using assms(2-5) by auto
  have ne: "vtable_of x w \<noteq> vtable_of rhs w" using assms(1-3,5) vtable_of_view [of w V] by (auto simp: anys_def)
  obtain w1 where w1: "any_move_ctor dyn SwapTmp rhs w = Inr w1" "anys dyn (V(SwapTmp \<mapsto> u, rhs \<mapsto> None)) w1"
    using move_ctor_spec [OF assms(1,4,3)] by blast
  let ?w2 = "set_vtable rhs (Some (map_option fst v)) w1"
  let ?A = "slots (V(SwapTmp \<mapsto> u, rhs \<mapsto> None))"
  have x1: "vtable_of x w1 = map_option fst v" "vtable_of x ?w2 = map_option fst v"
    using w1(2) n assms(2) by (auto simp: anys_def vtable_of_def)
  obtain w3 where w3: "(case map_option fst v of None \<Rightarrow> Inr ?w2 | Some t \<Rightarrow> vt_move dyn t (Of x) (Of rhs) ?w2) = Inr w3"
    "holds dyn (?A(Of x := None, Of rhs := v)) w3" "vtable w3 = vtable ?w2"
    using move_if_any [of dyn ?A ?w2 "Of x" v "Of rhs"] w1(2) n assms(2) by (auto simp: anys_def)
  let ?w4 = "set_vtable x (Some (map_option fst u)) w3"
  have x3: "vtable_of SwapTmp w3 = map_option fst u" "vtable_of SwapTmp ?w4 = map_option fst u"
    using w1(2) w3(3) n by (auto simp: anys_def vtable_of_def)
  obtain w5 where w5: "(case map_option fst u of None \<Rightarrow> Inr ?w4 | Some t \<Rightarrow> vt_move dyn t (Of SwapTmp) (Of x) ?w4) = Inr w5"
    "holds dyn (?A(Of x := None, Of rhs := v, Of SwapTmp := None, Of x := u)) w5" "vtable w5 = vtable ?w4"
    using move_if_any [of dyn "?A(Of x := None, Of rhs := v)" ?w4 "Of SwapTmp" u "Of x"] w3(2) n by auto
  let ?V = "V(x \<mapsto> u, rhs \<mapsto> v, SwapTmp \<mapsto> None)"
  have sl: "slots ?V = ?A(Of x := None, Of rhs := v, Of SwapTmp := None, Of x := u)"
    using n by (auto simp: slots_update fun_eq_iff)
  have vt5: "vtable (set_vtable SwapTmp (Some None) w5) = (\<lambda>y. map_option (map_option fst) (?V y))"
    using w5(3) w3(3) w1(2) n by (auto simp: anys_def)
  have a5: "anys dyn ?V (set_vtable SwapTmp (Some None) w5)" using w5(2) sl vt5 by (simp add: anys_def)
  have last: "(case map_option fst u of None \<Rightarrow> Inr ?w4 | Some t \<Rightarrow> rbind (vt_move dyn t (Of SwapTmp) (Of x) ?w4)
      (\<lambda>w. Inr (set_vtable SwapTmp (Some None) w))) = Inr (set_vtable SwapTmp (Some None) w5)"
  proof (cases u)
    case None
    then have "?w4 = w5" "vtable w5 SwapTmp = Some None" using w5(1,3) w3(3) w1(2) n by (auto simp: anys_def)
    then show ?thesis using None by (simp add: set_vtable_def update_same)
  qed (use w5(1) in simp)
  obtain w6 where w6: "any_dtor dyn SwapTmp (set_vtable SwapTmp (Some None) w5) = Inr w6" "anys dyn (?V(SwapTmp := None)) w6"
    using dtor_spec [OF a5, of SwapTmp None] by auto
  have "?V(SwapTmp := None) = V(x \<mapsto> u, rhs \<mapsto> v)" using n assms(4) by auto
  moreover have "any_swap dyn x rhs w = Inr w6"
    unfolding any_swap_def Let_def w1(1) rbind_Inr x1 w3(1) x3 last w6(1) using ne by simp
  ultimately show ?thesis using w6(2) by auto
qed

lemma swap_spec:
  assumes "anys dyn V w" "V x = Some v" "V rhs = Some u" "V SwapTmp = None" "x \<noteq> rhs \<or> (\<forall>t c. v = Some (t, c) \<longrightarrow> dyn t)"
  shows "\<exists>w'. any_swap dyn x rhs w = Inr w' \<and> anys dyn (V(x \<mapsto> u, rhs \<mapsto> v)) w'"
proof (cases "map_option fst v = map_option fst u")
  case False
  then show ?thesis using swap_other_type [OF assms(1-4)] by blast
next
  case True
  have eq: "vtable_of x w = map_option fst v" "vtable_of rhs w = map_option fst v"
    using assms(1-3) vtable_of_view [of w V] True by (auto simp: anys_def)
  show ?thesis
  proof (cases v)
    case None
    then have "V(x \<mapsto> u, rhs \<mapsto> v) = V" using assms(2,3) True by auto
    then show ?thesis using eq None assms(1) by (simp add: any_swap_def)
  next
    case (Some ob)
    obtain t c where ob: "ob = (t, c)" by (cases ob)
    obtain c' where u: "u = Some (t, c')" using True Some ob by (cases u) auto
    have "Of x \<noteq> Of rhs \<or> dyn t" using assms(5) Some ob by auto
    then obtain w' where w': "vt_swap dyn t (Of x) (Of rhs) w = Inr w'" "vtable w' = vtable w"
      "holds dyn ((slots V)(Of x := slots V (Of rhs), Of rhs := slots V (Of x))) w'"
      using holds_swap [of dyn "slots V" w "Of x" t c "Of rhs" c'] assms(1-3) Some ob u by (auto simp: anys_def)
    have "anys dyn (V(x \<mapsto> u, rhs \<mapsto> v)) w'"
      using w' assms(1-3) Some ob u by (auto simp: anys_def slots_update)
    then show ?thesis using eq Some ob w'(1) by (simp add: any_swap_def)
  qed
qed

text \<open>The second half of the assignments: the new value, in a temporary, is exchanged with the old one, which dies with it.\<close>

lemma replaced:
  assumes "anys dyn (V(AssignTmp \<mapsto> u)) w" "V x = Some v" "V SwapTmp = None" "V AssignTmp = None"
  shows "\<exists>w1 w2. any_swap dyn AssignTmp x w = Inr w1 \<and> any_dtor dyn AssignTmp w1 = Inr w2 \<and> anys dyn (V(x \<mapsto> u)) w2"
proof -
  have n: "AssignTmp \<noteq> x" using assms(2,4) by auto
  obtain w1 where w1: "any_swap dyn AssignTmp x w = Inr w1" "anys dyn (V(AssignTmp \<mapsto> v, x \<mapsto> u)) w1"
    using swap_spec [OF assms(1), of AssignTmp u x v] n assms(2,3) by auto
  obtain w2 where "any_dtor dyn AssignTmp w1 = Inr w2" "anys dyn (V(AssignTmp \<mapsto> v, x \<mapsto> u, AssignTmp := None)) w2"
    using dtor_spec [OF w1(2), of AssignTmp v] n by auto
  moreover have "V(AssignTmp \<mapsto> v, x \<mapsto> u, AssignTmp := None) = V(x \<mapsto> u)" using n assms(4) by auto
  ultimately show ?thesis using w1(1) by auto
qed

section \<open>Programs over any\<close>

text \<open>
  What user code does with its variables. An exception is caught by the caller: the program goes on with what the
  operation has left.
\<close>

datatype 'v any_op = Default nat | CopyCtor nat nat | MoveCtor nat nat | ValueCtor nat tyid 'v | AssignCopy nat nat
  | AssignMove nat nat | AssignValue nat tyid 'v | Clear nat | Swap nat nat | Dtor nat

fun any_step :: "(tyid \<Rightarrow> bool) \<Rightarrow> (tyid \<Rightarrow> 'v any_content \<Rightarrow> bool) \<Rightarrow> 'v any_op \<Rightarrow> 'v any_world \<Rightarrow> 'v any_world result" where
  "any_step dyn throws (Default n) w = Inr (any_ctor (Var n) w)"
| "any_step dyn throws (CopyCtor n m) w = rbind (any_copy_ctor dyn throws (Var n) (Var m) w) (\<lambda>(_, w1). Inr w1)"
| "any_step dyn throws (MoveCtor n m) w = any_move_ctor dyn (Var n) (Var m) w"
| "any_step dyn throws (ValueCtor n t v) w = rbind (any_value_ctor dyn throws (Var n) t v w) (\<lambda>(_, w1). Inr w1)"
| "any_step dyn throws (AssignCopy n m) w = rbind (any_assign_copy dyn throws (Var n) (Var m) w) (\<lambda>(_, w1). Inr w1)"
| "any_step dyn throws (AssignMove n m) w = any_assign_move dyn (Var n) (Var m) w"
| "any_step dyn throws (AssignValue n t v) w = rbind (any_assign_value dyn throws (Var n) t v w) (\<lambda>(_, w1). Inr w1)"
| "any_step dyn throws (Clear n) w = any_clear dyn (Var n) w"
| "any_step dyn throws (Swap n m) w = any_swap dyn (Var n) (Var m) w"
| "any_step dyn throws (Dtor n) w = any_dtor dyn (Var n) w"

definition copy_throws :: "(tyid \<Rightarrow> 'v any_content \<Rightarrow> bool) \<Rightarrow> 'v obj option \<Rightarrow> bool" where
  "copy_throws throws v = (case v of Some (t, c) \<Rightarrow> throws t c | None \<Rightarrow> False)"

text \<open>The same program on optional values.\<close>

fun view_step :: "(tyid \<Rightarrow> 'v any_content \<Rightarrow> bool) \<Rightarrow> 'v any_op \<Rightarrow> 'v view \<Rightarrow> 'v view" where
  "view_step throws (Default n) V = V(Var n \<mapsto> None)"
| "view_step throws (CopyCtor n m) V = (if copy_throws throws (flat (V (Var m))) then V else V(Var n := V (Var m)))"
| "view_step throws (MoveCtor n m) V = V(Var n := V (Var m), Var m \<mapsto> None)"
| "view_step throws (ValueCtor n t v) V = (if throws t (Val v) then V else V(Var n \<mapsto> Some (t, Val v)))"
| "view_step throws (AssignCopy n m) V = (if copy_throws throws (flat (V (Var m))) then V else V(Var n := V (Var m)))"
| "view_step throws (AssignMove n m) V = V(Var m \<mapsto> None, Var n := V (Var m))"
| "view_step throws (AssignValue n t v) V = (if throws t (Val v) then V else V(Var n \<mapsto> Some (t, Val v)))"
| "view_step throws (Clear n) V = V(Var n \<mapsto> None)"
| "view_step throws (Swap n m) V = V(Var n := V (Var m), Var m := V (Var n))"
| "view_step throws (Dtor n) V = V(Var n := None)"

text \<open>The program constructs what it uses, once; it does not swap a value held in its union with itself.\<close>

fun op_legal :: "(tyid \<Rightarrow> bool) \<Rightarrow> 'v any_op \<Rightarrow> 'v view \<Rightarrow> bool" where
  "op_legal dyn (Default n) V \<longleftrightarrow> V (Var n) = None"
| "op_legal dyn (CopyCtor n m) V \<longleftrightarrow> V (Var n) = None \<and> V (Var m) \<noteq> None"
| "op_legal dyn (MoveCtor n m) V \<longleftrightarrow> V (Var n) = None \<and> V (Var m) \<noteq> None"
| "op_legal dyn (ValueCtor n t v) V \<longleftrightarrow> V (Var n) = None"
| "op_legal dyn (AssignCopy n m) V \<longleftrightarrow> V (Var n) \<noteq> None \<and> V (Var m) \<noteq> None"
| "op_legal dyn (AssignMove n m) V \<longleftrightarrow> V (Var n) \<noteq> None \<and> V (Var m) \<noteq> None"
| "op_legal dyn (AssignValue n t v) V \<longleftrightarrow> V (Var n) \<noteq> None"
| "op_legal dyn (Clear n) V \<longleftrightarrow> V (Var n) \<noteq> None"
| "op_legal dyn (Swap n m) V \<longleftrightarrow> V (Var n) \<noteq> None \<and> V (Var m) \<noteq> None \<and>
     (n \<noteq> m \<or> (case flat (V (Var n)) of Some (t, c) \<Rightarrow> dyn t | None \<Rightarrow> True))"
| "op_legal dyn (Dtor n) V \<longleftrightarrow> V (Var n) \<noteq> None"

fun any_legal :: "(tyid \<Rightarrow> bool) \<Rightarrow> (tyid \<Rightarrow> 'v any_content \<Rightarrow> bool) \<Rightarrow> 'v any_op list \<Rightarrow> 'v view \<Rightarrow> bool" where
  "any_legal dyn throws [] V = True"
| "any_legal dyn throws (p # ps) V = (op_legal dyn p V \<and> any_legal dyn throws ps (view_step throws p V))"

fun view_run :: "(tyid \<Rightarrow> 'v any_content \<Rightarrow> bool) \<Rightarrow> 'v any_op list \<Rightarrow> 'v view \<Rightarrow> 'v view" where
  "view_run throws [] V = V"
| "view_run throws (p # ps) V = view_run throws ps (view_step throws p V)"

definition any_world0 :: "'v any_world" where
  "any_world0 = \<lparr>heap_objs = (\<lambda>_. None), stack_objs = (\<lambda>_. None), dynamic = (\<lambda>_. None), vtable = (\<lambda>_. None), next_addr = 0\<rparr>"

definition any_view :: "(tyid \<Rightarrow> bool) \<Rightarrow> any_id \<Rightarrow> 'v any_world \<Rightarrow> 'v obj option option" where
  "any_view dyn x w = (case vtable w x of None \<Rightarrow> None | Some None \<Rightarrow> Some None
     | Some (Some t) \<Rightarrow> Some (if dyn t then pointee (Of x) w else stack_objs w (Of x)))"

lemma anys_view: "anys dyn V w \<Longrightarrow> any_view dyn x w = V x"
  using holds_obj [of dyn "slots V" w "Of x"] by (auto simp: any_view_def anys_def split: option.splits)

lemma anys_world0: "anys dyn (\<lambda>_. None) any_world0"
  by (simp add: anys_def holds_def heap_part_def any_world0_def slots_def kept_def fun_eq_iff split: storage.splits)

abbreviation no_temps :: "'v view \<Rightarrow> bool" where
  "no_temps V \<equiv> V SwapTmp = None \<and> V AssignTmp = None"

lemma view_step_temps: "no_temps V \<Longrightarrow> no_temps (view_step throws p V)"
  by (cases p) auto

lemma copy_throws_iff: "copy_throws throws v \<longleftrightarrow> (\<exists>t c. v = Some (t, c) \<and> throws t c)"
  by (auto simp: copy_throws_def split: option.splits)

lemma assign_copy_spec:
  assumes "anys dyn V w" "V x = Some v" "V rhs = Some u" "no_temps V"
  shows "if copy_throws throws u then any_assign_copy dyn throws x rhs w = Inr (False, w)
    else \<exists>w'. any_assign_copy dyn throws x rhs w = Inr (True, w') \<and> anys dyn (V(x \<mapsto> u)) w'"
proof (cases "copy_throws throws u")
  case True
  then show ?thesis using copy_ctor_spec [OF assms(1), of AssignTmp rhs u throws] assms(3,4)
    by (simp add: any_assign_copy_def copy_throws_iff)
next
  case False
  then obtain w1 where w1: "any_copy_ctor dyn throws AssignTmp rhs w = Inr (True, w1)" "anys dyn (V(AssignTmp \<mapsto> u)) w1"
    using copy_ctor_spec [OF assms(1), of AssignTmp rhs u throws] assms(3,4) by (auto simp: copy_throws_iff split: if_splits)
  then show ?thesis using replaced [OF w1(2) assms(2)] assms(4) False by (auto simp: any_assign_copy_def)
qed

lemma assign_value_spec:
  assumes "anys dyn V w" "V x = Some v" "no_temps V"
  shows "if throws t (Val a) then any_assign_value dyn throws x t a w = Inr (False, w)
    else \<exists>w'. any_assign_value dyn throws x t a w = Inr (True, w') \<and> anys dyn (V(x \<mapsto> Some (t, Val a))) w'"
proof (cases "throws t (Val a)")
  case True
  then show ?thesis using value_ctor_spec [OF assms(1), of AssignTmp throws t a] assms(3) by (simp add: any_assign_value_def)
next
  case False
  then obtain w1 where w1: "any_value_ctor dyn throws AssignTmp t a w = Inr (True, w1)" "anys dyn (V(AssignTmp \<mapsto> Some (t, Val a))) w1"
    using value_ctor_spec [OF assms(1), of AssignTmp throws t a] assms(3) by auto
  then show ?thesis using replaced [OF w1(2) assms(2)] assms(3) False by (auto simp: any_assign_value_def)
qed

lemma assign_move_spec:
  assumes "anys dyn V w" "V x = Some v" "V rhs = Some u" "no_temps V"
  shows "\<exists>w'. any_assign_move dyn x rhs w = Inr w' \<and> anys dyn (V(rhs \<mapsto> None, x \<mapsto> u)) w'"
proof -
  have n: "AssignTmp \<noteq> rhs" using assms(3,4) by auto
  obtain w1 where w1: "any_move_ctor dyn AssignTmp rhs w = Inr w1" "anys dyn (V(AssignTmp \<mapsto> u, rhs \<mapsto> None)) w1"
    using move_ctor_spec [OF assms(1) _ assms(3)] assms(4) by blast
  have "anys dyn ((V(rhs \<mapsto> None))(AssignTmp \<mapsto> u)) w1" using w1(2) n by (simp add: fun_upd_twist)
  moreover have "\<exists>v'. (V(rhs \<mapsto> None)) x = Some v'" using assms(2) by auto
  moreover have "(V(rhs \<mapsto> None)) SwapTmp = None" "(V(rhs \<mapsto> None)) AssignTmp = None" using assms(3,4) by auto
  ultimately show ?thesis using replaced [of dyn "V(rhs \<mapsto> None)" u w1 x] w1(1) by (auto simp: any_assign_move_def)
qed

lemma view_run_temps: "no_temps V \<Longrightarrow> no_temps (view_run throws ps V)"
  by (induction ps arbitrary: V) (auto simp: view_step_temps)

lemma any_step_spec:
  assumes "anys dyn V w" "op_legal dyn p V" "no_temps V"
  shows "\<exists>w'. any_step dyn throws p w = Inr w' \<and> anys dyn (view_step throws p V) w'"
proof (cases p)
  case (Default n)
  then show ?thesis using assms by (auto simp: any_ctor_def anys_def slots_update update_same)
next
  case (CopyCtor n m)
  then show ?thesis using assms copy_ctor_spec [OF assms(1), of "Var n" "Var m" _ throws]
    by (auto simp: copy_throws_iff split: if_splits)
next
  case (MoveCtor n m)
  then show ?thesis using assms move_ctor_spec [OF assms(1), of "Var n" "Var m"] by auto
next
  case (ValueCtor n t v)
  then show ?thesis using assms value_ctor_spec [OF assms(1), of "Var n" throws t v] by (auto split: if_splits)
next
  case (AssignCopy n m)
  then show ?thesis using assms assign_copy_spec [OF assms(1), of "Var n" _ "Var m" _ throws]
    by (cases "copy_throws throws (flat (V (Var m)))") (auto, fastforce?)
next
  case (AssignMove n m)
  then show ?thesis using assms assign_move_spec [OF assms(1), of "Var n" _ "Var m"] by auto
next
  case (AssignValue n t v)
  then show ?thesis using assms assign_value_spec [OF assms(1), of "Var n" _ throws t v] by (auto split: if_splits)
next
  case (Clear n)
  then show ?thesis using assms clear_spec [OF assms(1), of "Var n"] by auto
next
  case (Swap n m)
  then show ?thesis using assms swap_spec [OF assms(1), of "Var n" _ "Var m"] by (fastforce split: option.splits)
next
  case (Dtor n)
  then show ?thesis using assms dtor_spec [OF assms(1), of "Var n"] by auto
qed

lemma any_run_spec:
  assumes "anys dyn V w" "any_legal dyn throws ps V" "no_temps V"
  shows "\<exists>w'. rfold (any_step dyn throws) ps w = Inr w' \<and> anys dyn (view_run throws ps V) w'"
  using assms
proof (induction ps arbitrary: V w)
  case (Cons p ps)
  obtain w1 where "any_step dyn throws p w = Inr w1" "anys dyn (view_step throws p V) w1"
    using any_step_spec [of dyn V w p throws] Cons.prems by auto
  then show ?case using Cons.IH [of "view_step throws p V" w1] Cons.prems view_step_temps by auto
qed simp

lemmas any_program = any_run_spec [OF anys_world0]

text \<open>
  C27. A program over \<open>any\<close>, for any types, sizes and copy constructors that throw: no operation reads or destroys an
  object that is not alive, and every variable holds exactly what the same program on optional values
  gives (in particular an assignment that throws changes nothing). When all variables are gone, so are
  all objects, in the unions and on the heap.
\<close>

theorem any_is_optional:
  assumes "any_legal dyn throws ps (\<lambda>_. None)"
  shows "\<exists>w. rfold (any_step dyn throws) ps any_world0 = Inr w \<and> (\<forall>n. any_view dyn (Var n) w = view_run throws ps (\<lambda>_. None) (Var n)) \<and>
     ((\<forall>n. view_run throws ps (\<lambda>_. None) (Var n) = None) \<longrightarrow> heap_objs w = (\<lambda>_. None) \<and> stack_objs w = (\<lambda>_. None))"
proof -
  let ?V = "view_run throws ps (\<lambda>_. None)"
  obtain w where w: "rfold (any_step dyn throws) ps any_world0 = Inr w" "anys dyn ?V w" using any_program [OF assms] by auto
  have t: "no_temps ?V" by (rule view_run_temps) simp
  have "heap_objs w = (\<lambda>_. None) \<and> stack_objs w = (\<lambda>_. None)" if "\<forall>n. ?V (Var n) = None"
  proof -
    have "?V x = None" for x using that t by (cases x) auto
    then have e: "slots ?V s = None" for s by (cases s) simp_all
    have h: "heap_part (\<lambda>s. kept dyn (slots ?V s)) (dynamic w) (heap_objs w) (next_addr w)" using w(2) unfolding anys_def holds_def by blast
    have "heap_objs w b = None" for b using h unfolding heap_part_def e kept_simps by (cases "heap_objs w b") auto
    moreover have "stack_objs w = (\<lambda>_. None)" using w(2) unfolding anys_def holds_def e kept_simps by blast
    ultimately show ?thesis by blast
  qed
  then show ?thesis using w anys_view by blast
qed

text \<open>
  C28. \<open>any_cast<T>\<close> of a variable: the value when the variable holds a \<open>T\<close>, and \<open>bad_any_cast\<close> when it holds another type
  or nothing.
\<close>

theorem any_cast_typed:
  assumes "any_legal dyn throws ps (\<lambda>_. None)" "rfold (any_step dyn throws) ps any_world0 = Inr w"
    "view_run throws ps (\<lambda>_. None) (Var n) = Some v"
  shows "any_cast dyn t (Var n) w = (case v of Some (t', c) \<Rightarrow> if t' = t then Inr c else Inl BadAnyCast | None \<Rightarrow> Inl BadAnyCast)"
proof -
  have a: "anys dyn (view_run throws ps (\<lambda>_. None)) w" using any_program [OF assms(1)] assms(2) by auto
  then have "vtable_of (Var n) w = map_option fst v" using vtable_of_view assms(3) by (auto simp: anys_def)
  moreover have "\<not> dyn t' \<Longrightarrow> stack_objs w (Of (Var n)) = Some (t', c)" "dyn t' \<Longrightarrow> pointee (Of (Var n)) w = Some (t', c)"
    if "v = Some (t', c)" for t' c using a assms(3) that holds_obj [of dyn "slots (view_run throws ps (\<lambda>_. None))" w "Of (Var n)" t' c]
    by (auto simp: anys_def)
  ultimately show ?thesis
    by (cases v) (auto simp: any_cast_def any_cast_pointer_def any_type_def any_cast_unchecked_def load_def pointee_def split: option.splits)
qed

text \<open>
  Swapping a variable with itself, when its value is kept in the union: the value is moved out and
  destroyed, and then read again.
\<close>

theorem self_swap_undefined:
  assumes "any_legal dyn throws ps (\<lambda>_. None)" "rfold (any_step dyn throws) ps any_world0 = Inr w"
    "view_run throws ps (\<lambda>_. None) (Var n) = Some (Some (t, c))" "\<not> dyn t"
  shows "any_step dyn throws (Swap n n) w = Inl (Undefined ''object not alive'')"
proof -
  let ?V = "view_run throws ps (\<lambda>_. None)"
  have a: "anys dyn ?V w" using any_program [OF assms(1)] assms(2) by auto
  then have vt: "vtable_of (Var n) w = Some t" using vtable_of_view [of w ?V "Var n"] assms(3) by (auto simp: anys_def)
  have st: "stack_objs w (Of (Var n)) = Some (t, c)" "stack_objs w Local = None"
    using a assms(3,4) holds_obj(1) [of dyn "slots ?V" w "Of (Var n)" t c] by (auto simp: anys_def holds_def)
  have "stack_move t (Of (Var n)) Local w = Inr (w\<lparr>stack_objs := (stack_objs w)(Local \<mapsto> (t, c), Of (Var n) := None)\<rparr>)"
    using st by (simp add: stack_move_def place_object_def stack_destroy_def)
  then show ?thesis using vt assms(4) by (simp add: any_swap_def vt_swap_def stack_swap_def stack_move_def the_object_def)
qed

section \<open>Examples\<close>

text \<open>Type 0 lives in the union and type 1 on the heap; copies of 9 throw.\<close>

definition demo_dyn :: "tyid \<Rightarrow> bool" where "demo_dyn t \<longleftrightarrow> t = 1"

definition demo_throws :: "tyid \<Rightarrow> int any_content \<Rightarrow> bool" where "demo_throws t c \<longleftrightarrow> c = Val 9"

definition demo_program :: "int any_op list" where
  "demo_program = [ValueCtor 0 0 5, ValueCtor 1 1 6, Swap 0 1, CopyCtor 2 0, AssignMove 1 1, AssignValue 2 0 9, AssignCopy 1 2]"

lemma demo_legal: "any_legal demo_dyn demo_throws demo_program (\<lambda>_. None)"
  by (simp add: demo_program_def demo_dyn_def demo_throws_def copy_throws_def)

lemma demo_view: "view_run demo_throws demo_program (\<lambda>_. None) (Var n) =
    (if n = 0 \<or> n = 1 \<or> n = 2 then Some (Some (1, Val 6)) else None)"
  by (simp add: demo_program_def demo_dyn_def demo_throws_def copy_throws_def)

theorem any_is_optional_witness:
  "\<exists>w. rfold (any_step demo_dyn demo_throws) demo_program any_world0 = Inr w \<and> any_view demo_dyn (Var 1) w = Some (Some (1, Val 6))"
  using any_is_optional [OF demo_legal] demo_view [of 1] by auto

theorem any_cast_typed_witness:
  "\<exists>w. rfold (any_step demo_dyn demo_throws) demo_program any_world0 = Inr w \<and> any_cast demo_dyn 1 (Var 0) w = Inr (Val 6) \<and>
     any_cast demo_dyn 0 (Var 0) w = Inl BadAnyCast"
proof -
  obtain w where w: "rfold (any_step demo_dyn demo_throws) demo_program any_world0 = Inr w" using any_program [OF demo_legal] by auto
  have "view_run demo_throws demo_program (\<lambda>_. None) (Var 0) = Some (Some (1, Val 6))" by (simp add: demo_view)
  from any_cast_typed [OF demo_legal w this, of 1] any_cast_typed [OF demo_legal w this, of 0] w show ?thesis by auto
qed

theorem self_swap_undefined_witness:
  "\<exists>w. rfold (any_step demo_dyn demo_throws) [ValueCtor 0 0 5] any_world0 = Inr w \<and>
     any_step demo_dyn demo_throws (Swap 0 0) w = Inl (Undefined ''object not alive'')"
proof -
  have l: "any_legal demo_dyn demo_throws [ValueCtor 0 0 5] (\<lambda>_. None)" by simp
  obtain w where w: "rfold (any_step demo_dyn demo_throws) [ValueCtor 0 0 5] any_world0 = Inr w" using any_program [OF l] by auto
  have "view_run demo_throws [ValueCtor 0 0 5] (\<lambda>_. None) (Var 0) = Some (Some (0, Val 5))" by (simp add: demo_throws_def)
  from self_swap_undefined [OF l w this] w show ?thesis by (simp add: demo_dyn_def)
qed

end
