(* ===== verification/ThreadPool.thy ===== *)
theory ThreadPool
  imports Prelude "HOL-Library.Multiset"
begin

text \<open>
  The pool of worker threads with a bounded queue (\<open>third/muduo/base/ThreadPool.cc\<close>) and the countdown latch
  (\<open>CountDownLatch.cc\<close>) as machines in which any number of threads take turns. A critical section is one turn; waiting
  on a condition gives the mutex up, and a thread that wakes up looks at its condition again. A signal wakes one of
  the threads that sleep; waking up without a signal is possible at any time. \<open>running_\<close> is also read outside the
  critical sections, by the loop of \<open>runInThread\<close>.
\<close>

section \<open>Conditions\<close>

text \<open>
  What makes signalling with \<open>notify\<close> sound: a thread sleeps only when there is nothing to get, and whoever
  puts something while threads sleep wakes one. Then there is never more to get than threads that are awake
  and about to get it, as long as one sleeps.
\<close>

locale signalling =
  fixes step :: "'s \<Rightarrow> 's \<Rightarrow> bool" and there asleep awake :: "'s \<Rightarrow> nat"
  assumes turn: "step s s' \<Longrightarrow>
    there s' = 0 \<or>
    (0 < asleep s' \<longrightarrow> 0 < asleep s) \<and>
    (there s' \<le> there s \<and> awake s \<le> awake s' \<or>
     there s' + 1 \<le> there s \<and> awake s \<le> awake s' + 1 \<or>
     there s' \<le> there s + 1 \<and> (0 < asleep s \<longrightarrow> awake s + 1 \<le> awake s'))"
begin

lemma no_lost_signal:
  assumes "step\<^sup>*\<^sup>* s s'" "0 < asleep s \<longrightarrow> there s \<le> awake s"
  shows "0 < asleep s' \<longrightarrow> there s' \<le> awake s'"
  using assms
proof (induction rule: rtranclp_induct)
  case (step s1 s2)
  then show ?case using turn [of s1 s2] by auto
qed

end

section \<open>The pool\<close>

type_synonym task = nat

datatype worker = AtLoop | Taking | WaitNotEmpty | Running task | Finished

datatype producer = Putting task | WaitNotFull task | Returned

record pool =
  pool_queue :: "task list"
  maxQueueSize :: nat
  running :: bool
  workers :: "worker list"
  producers :: "producer list"
  accepted :: "task list"
  taken_tasks :: "task list"
  executed :: "task list"

definition ThreadPool_start :: "nat \<Rightarrow> nat \<Rightarrow> pool" where
  "ThreadPool_start numThreads maxSize = \<lparr>pool_queue = [], maxQueueSize = maxSize, running = True,
     workers = replicate numThreads AtLoop, producers = [], accepted = [], taken_tasks = [], executed = []\<rparr>"

definition isFull :: "pool \<Rightarrow> bool" where
  "isFull p \<longleftrightarrow> 0 < maxQueueSize p \<and> maxQueueSize p \<le> length (pool_queue p)"

text \<open>\<open>notify\<close> of a condition: thread \<open>j\<close> is the one that wakes.\<close>

definition wake_worker :: "nat \<Rightarrow> pool \<Rightarrow> pool" where
  "wake_worker j p = (if j < length (workers p) \<and> workers p ! j = WaitNotEmpty then p\<lparr>workers := (workers p)[j := Taking]\<rparr> else p)"

fun waken :: "producer \<Rightarrow> producer" where
  "waken (WaitNotFull t) = Putting t"
| "waken x = x"

definition wake_producer :: "nat \<Rightarrow> pool \<Rightarrow> pool" where
  "wake_producer j p = (if j < length (producers p) then p\<lparr>producers := (producers p)[j := waken (producers p ! j)]\<rparr> else p)"

text \<open>\<open>run\<close>: called by a new producer; then one turn of its critical section, which puts the task or waits.\<close>

definition ThreadPool_run :: "task \<Rightarrow> pool \<Rightarrow> pool" where
  "ThreadPool_run task p = (if workers p = [] then p\<lparr>accepted := accepted p @ [task], taken_tasks := taken_tasks p @ [task], executed := executed p @ [task]\<rparr>
     else p\<lparr>producers := producers p @ [Putting task]\<rparr>)"

definition run_turn :: "nat \<Rightarrow> nat \<Rightarrow> task \<Rightarrow> pool \<Rightarrow> pool" where
  "run_turn k j task p =
     (if isFull p then p\<lparr>producers := (producers p)[k := WaitNotFull task]\<rparr>
      else wake_worker j (p\<lparr>pool_queue := pool_queue p @ [task], accepted := accepted p @ [task], producers := (producers p)[k := Returned]\<rparr>))"

text \<open>\<open>take\<close>, one turn of worker \<open>i\<close>; an empty task is not run.\<close>

definition take_turn :: "nat \<Rightarrow> nat \<Rightarrow> pool \<Rightarrow> pool" where
  "take_turn i j p =
     (case pool_queue p of
        [] \<Rightarrow> p\<lparr>workers := (workers p)[i := if running p then WaitNotEmpty else AtLoop]\<rparr>
      | task # rest \<Rightarrow>
          (if 0 < maxQueueSize p then wake_producer j else id)
            (p\<lparr>pool_queue := rest, workers := (workers p)[i := Running task], taken_tasks := taken_tasks p @ [task]\<rparr>))"

definition loop_turn :: "nat \<Rightarrow> pool \<Rightarrow> pool" where
  "loop_turn i p = p\<lparr>workers := (workers p)[i := if running p then Taking else Finished]\<rparr>"

definition execute_turn :: "nat \<Rightarrow> task \<Rightarrow> pool \<Rightarrow> pool" where
  "execute_turn i task p = p\<lparr>workers := (workers p)[i := AtLoop], executed := executed p @ [task]\<rparr>"

definition ThreadPool_stop :: "pool \<Rightarrow> pool" where
  "ThreadPool_stop p = p\<lparr>running := False, workers := map (\<lambda>w. if w = WaitNotEmpty then Taking else w) (workers p)\<rparr>"

definition sleeps :: "producer \<Rightarrow> bool" where
  "sleeps x = (case x of WaitNotFull _ \<Rightarrow> True | _ \<Rightarrow> False)"

definition puts :: "producer \<Rightarrow> bool" where
  "puts x = (case x of Putting _ \<Rightarrow> True | _ \<Rightarrow> False)"

definition signals_worker :: "nat \<Rightarrow> pool \<Rightarrow> bool" where
  "signals_worker j p \<longleftrightarrow> WaitNotEmpty \<in> set (workers p) \<longrightarrow> j < length (workers p) \<and> workers p ! j = WaitNotEmpty"

definition signals_producer :: "nat \<Rightarrow> pool \<Rightarrow> bool" where
  "signals_producer j p \<longleftrightarrow> (\<exists>x \<in> set (producers p). sleeps x) \<longrightarrow> j < length (producers p) \<and> sleeps (producers p ! j)"

inductive worker_step :: "pool \<Rightarrow> pool \<Rightarrow> bool" where
  loop: "i < length (workers p) \<Longrightarrow> workers p ! i = AtLoop \<Longrightarrow> worker_step p (loop_turn i p)"
| take: "i < length (workers p) \<Longrightarrow> workers p ! i = Taking \<Longrightarrow> signals_producer j p \<Longrightarrow> worker_step p (take_turn i j p)"
| execute: "i < length (workers p) \<Longrightarrow> workers p ! i = Running task \<Longrightarrow> worker_step p (execute_turn i task p)"

inductive pool_step :: "pool \<Rightarrow> pool \<Rightarrow> bool" where
  worker: "worker_step p p' \<Longrightarrow> pool_step p p'"
| call: "pool_step p (ThreadPool_run task p)"
| put: "k < length (producers p) \<Longrightarrow> producers p ! k = Putting task \<Longrightarrow> signals_worker j p \<Longrightarrow> pool_step p (run_turn k j task p)"
| stop: "pool_step p (ThreadPool_stop p)"
| spurious_worker: "pool_step p (wake_worker j p)"
| spurious_producer: "pool_step p (wake_producer j p)"

inductive_cases worker_stepE: "worker_step p p'"
inductive_cases pool_stepE: "pool_step p p'"

lemmas pool_defs = ThreadPool_run_def run_turn_def take_turn_def loop_turn_def execute_turn_def ThreadPool_stop_def
  wake_worker_def wake_producer_def

section \<open>No task and no wakeup is lost\<close>

lemma num_map_wake: "num (\<lambda>w. w = WaitNotEmpty) (map (\<lambda>w. if w = WaitNotEmpty then Taking else w) ws) = 0"
  by (induction ws) auto

definition free_slots :: "pool \<Rightarrow> nat" where
  "free_slots p = maxQueueSize p - length (pool_queue p)"

abbreviation idle_workers :: "pool \<Rightarrow> nat" where "idle_workers p \<equiv> num (\<lambda>w. w = WaitNotEmpty) (workers p)"
abbreviation taking_workers :: "pool \<Rightarrow> nat" where "taking_workers p \<equiv> num (\<lambda>w. w = Taking) (workers p)"
abbreviation stuck_producers :: "pool \<Rightarrow> nat" where "stuck_producers p \<equiv> num sleeps (producers p)"
abbreviation putting_producers :: "pool \<Rightarrow> nat" where "putting_producers p \<equiv> num puts (producers p)"

lemma wake_worker_counts:
  "pool_queue (wake_worker j p) = pool_queue p" "maxQueueSize (wake_worker j p) = maxQueueSize p" "producers (wake_worker j p) = producers p"
  "idle_workers (wake_worker j p) \<le> idle_workers p" "taking_workers p \<le> taking_workers (wake_worker j p)"
  "signals_worker j p \<Longrightarrow> 0 < idle_workers p \<Longrightarrow> taking_workers (wake_worker j p) = taking_workers p + 1"
  using num_update [of j "workers p" "\<lambda>w. w = Taking" Taking] num_update [of j "workers p" "\<lambda>w. w = WaitNotEmpty" Taking]
  by (auto simp: wake_worker_def signals_worker_def num_pos)

lemma waken_simps [simp]: "sleeps (waken x) = False" "puts (waken x) \<longleftrightarrow> puts x \<or> sleeps x"
  by (cases x; simp add: sleeps_def puts_def)+

lemma not_both: "sleeps x \<Longrightarrow> \<not> puts x"
  by (cases x) (auto simp: sleeps_def puts_def)

lemma wake_producer_counts:
  "pool_queue (wake_producer j p) = pool_queue p" "maxQueueSize (wake_producer j p) = maxQueueSize p" "workers (wake_producer j p) = workers p"
  "stuck_producers (wake_producer j p) \<le> stuck_producers p" "putting_producers p \<le> putting_producers (wake_producer j p)"
  "signals_producer j p \<Longrightarrow> 0 < stuck_producers p \<Longrightarrow> putting_producers (wake_producer j p) = putting_producers p + 1"
  using num_update [of j "producers p" sleeps "waken (producers p ! j)"] num_update [of j "producers p" puts "waken (producers p ! j)"]
    not_both [of "producers p ! j"]
  by (auto simp: wake_producer_def signals_producer_def num_pos split: if_splits)

lemma num_map_taking: "num (\<lambda>w. w = Taking) ws \<le> num (\<lambda>w. w = Taking) (map (\<lambda>w. if w = WaitNotEmpty then Taking else w) ws)"
  by (induction ws) auto

lemma take_turn_Cons:
  assumes "pool_queue p = t # rest"
  shows "pool_queue (take_turn i j p) = rest" "workers (take_turn i j p) = (workers p)[i := Running t]" "maxQueueSize (take_turn i j p) = maxQueueSize p"
  using assms by (simp_all add: take_turn_def wake_producer_def)

lemma run_turn_free:
  assumes "\<not> isFull p"
  shows "pool_queue (run_turn k j t p) = pool_queue p @ [t]" "workers (run_turn k j t p) = workers (wake_worker j p)"
    "producers (run_turn k j t p) = (producers p)[k := Returned]" "maxQueueSize (run_turn k j t p) = maxQueueSize p"
  using assms by (simp_all add: run_turn_def wake_worker_def)

text \<open>\<open>notEmpty_\<close>: the tasks are what is there, the workers get them.\<close>

lemma worker_step_idle:
  assumes "worker_step p p'"
  shows "pool_queue p' = [] \<or> idle_workers p' = idle_workers p \<and>
    (pool_queue p' = pool_queue p \<and> taking_workers p \<le> taking_workers p' \<or>
     length (pool_queue p') + 1 = length (pool_queue p) \<and> taking_workers p = taking_workers p' + 1)"
  using assms
proof (cases rule: worker_step.cases)
  case (loop i)
  then show ?thesis using num_update [of i "workers p" "\<lambda>w. w = WaitNotEmpty"] num_update [of i "workers p" "\<lambda>w. w = Taking"]
    by (auto simp: loop_turn_def)
next
  case (take i j)
  show ?thesis
  proof (cases "pool_queue p")
    case Nil
    then show ?thesis using take(1) by (simp add: take_turn_def)
  next
    case (Cons t rest)
    then show ?thesis using take num_update [OF take(2), of "\<lambda>w. w = WaitNotEmpty" "Running t"] num_update [OF take(2), of "\<lambda>w. w = Taking" "Running t"]
      by (simp add: take_turn_Cons)
  qed
next
  case (execute i task)
  then show ?thesis using num_update [of i "workers p" "\<lambda>w. w = WaitNotEmpty" AtLoop] num_update [of i "workers p" "\<lambda>w. w = Taking" AtLoop]
    by (auto simp: execute_turn_def)
qed

interpretation notEmpty: signalling pool_step "\<lambda>p. length (pool_queue p)" idle_workers taking_workers
proof
  fix p p'
  assume "pool_step p p'"
  then show "length (pool_queue p') = 0 \<or> (0 < idle_workers p' \<longrightarrow> 0 < idle_workers p) \<and>
     (length (pool_queue p') \<le> length (pool_queue p) \<and> taking_workers p \<le> taking_workers p' \<or>
      length (pool_queue p') + 1 \<le> length (pool_queue p) \<and> taking_workers p \<le> taking_workers p' + 1 \<or>
      length (pool_queue p') \<le> length (pool_queue p) + 1 \<and> (0 < idle_workers p \<longrightarrow> taking_workers p + 1 \<le> taking_workers p'))"
  proof (cases rule: pool_step.cases)
    case worker
    then show ?thesis using worker_step_idle [of p p'] by auto
  next
    case (call task)
    then show ?thesis by (auto simp: ThreadPool_run_def)
  next
    case (put k task j)
    then show ?thesis using wake_worker_counts [where j = j and p = p]
      by (cases "isFull p") (auto simp: run_turn_free, simp_all add: run_turn_def)
  next
    case stop
    then show ?thesis using num_map_taking [of "workers p"] by (simp add: ThreadPool_stop_def num_map_wake)
  next
    case (spurious_worker j)
    then show ?thesis using wake_worker_counts [where j = j and p = p] by auto
  next
    case (spurious_producer j)
    then show ?thesis using wake_producer_counts [where j = j and p = p] by auto
  qed
qed

text \<open>\<open>notFull_\<close>: the free places are what is there, the producers get them.\<close>

lemma take_turn_producers:
  assumes "pool_queue p = t # rest" "signals_producer j p"
  shows "stuck_producers (take_turn i j p) \<le> stuck_producers p" "putting_producers p \<le> putting_producers (take_turn i j p)"
    "0 < maxQueueSize p \<Longrightarrow> 0 < stuck_producers p \<Longrightarrow> putting_producers (take_turn i j p) = putting_producers p + 1"
proof -
  let ?p = "p\<lparr>pool_queue := rest, workers := (workers p)[i := Running t], taken_tasks := taken_tasks p @ [t]\<rparr>"
  have "signals_producer j ?p" using assms(2) by (simp add: signals_producer_def)
  note c = wake_producer_counts(4,5) [where j = j and p = ?p] wake_producer_counts(6) [OF this]
  show "stuck_producers (take_turn i j p) \<le> stuck_producers p" "putting_producers p \<le> putting_producers (take_turn i j p)"
    "0 < maxQueueSize p \<Longrightarrow> 0 < stuck_producers p \<Longrightarrow> putting_producers (take_turn i j p) = putting_producers p + 1"
    using c assms(1) by (auto simp: take_turn_def)
qed

interpretation notFull: signalling pool_step free_slots stuck_producers putting_producers
proof
  fix p p'
  assume "pool_step p p'"
  then show "free_slots p' = 0 \<or> (0 < stuck_producers p' \<longrightarrow> 0 < stuck_producers p) \<and>
     (free_slots p' \<le> free_slots p \<and> putting_producers p \<le> putting_producers p' \<or>
      free_slots p' + 1 \<le> free_slots p \<and> putting_producers p \<le> putting_producers p' + 1 \<or>
      free_slots p' \<le> free_slots p + 1 \<and> (0 < stuck_producers p \<longrightarrow> putting_producers p + 1 \<le> putting_producers p'))"
  proof (cases rule: pool_step.cases)
    case worker
    then show ?thesis
    proof (cases rule: worker_step.cases)
      case (take i j)
      show ?thesis
      proof (cases "pool_queue p")
        case (Cons t rest)
        note c = take_turn_producers [OF Cons take(4), of i]
        have "free_slots p' \<le> free_slots p + 1" "maxQueueSize p = 0 \<Longrightarrow> free_slots p' = 0"
          using take(1) Cons by (simp_all add: free_slots_def take_turn_Cons)
        then show ?thesis using c take(1) by (cases "maxQueueSize p = 0") auto
      qed (use take(1) in \<open>simp add: take_turn_def free_slots_def\<close>)
    qed (simp_all add: loop_turn_def execute_turn_def free_slots_def)
  next
    case (call task)
    then show ?thesis by (auto simp: ThreadPool_run_def free_slots_def sleeps_def puts_def)
  next
    case (put k task j)
    show ?thesis
    proof (cases "isFull p")
      case True
      then show ?thesis using put by (simp add: run_turn_def isFull_def free_slots_def)
    next
      case False
      have "num sleeps ((producers p)[k := Returned]) = num sleeps (producers p)"
        "num puts ((producers p)[k := Returned]) + 1 = num puts (producers p)"
        using num_update [OF put(2), of sleeps Returned] num_update [OF put(2), of puts Returned] put(3) by (simp_all add: sleeps_def puts_def)
      moreover have "free_slots p' + 1 = free_slots p \<or> free_slots p' = 0"
        using put(1) False by (auto simp: free_slots_def run_turn_free isFull_def)
      ultimately show ?thesis using put(1) False by (auto simp: run_turn_free)
    qed
  next
    case stop
    then show ?thesis by (simp add: ThreadPool_stop_def free_slots_def)
  next
    case (spurious_worker j)
    then show ?thesis using wake_worker_counts [where j = j and p = p] by (simp add: free_slots_def)
  next
    case (spurious_producer j)
    then show ?thesis using wake_producer_counts [where j = j and p = p] by (auto simp: free_slots_def)
  qed
qed

fun held_task :: "worker \<Rightarrow> task multiset" where
  "held_task (Running t) = {#t#}"
| "held_task _ = {#}"

definition in_progress :: "worker list \<Rightarrow> task multiset" where
  "in_progress ws = (\<Sum>w \<leftarrow> ws. held_task w)"

lemma in_progress_update: "i < length ws \<Longrightarrow> in_progress (ws[i := w]) + held_task (ws ! i) = in_progress ws + held_task w"
proof (induction ws arbitrary: i)
  case (Cons x xs)
  then show ?case by (cases i) (auto simp: in_progress_def ac_simps)
qed simp

lemma in_progress_wake: "in_progress (map (\<lambda>w. if w = WaitNotEmpty then Taking else w) ws) = in_progress ws"
  by (induction ws) (auto simp: in_progress_def)

definition pool_inv :: "nat \<Rightarrow> pool \<Rightarrow> bool" where
  "pool_inv m p \<longleftrightarrow> maxQueueSize p = m \<and> (0 < m \<longrightarrow> length (pool_queue p) \<le> m) \<and> accepted p = taken_tasks p @ pool_queue p \<and>
     mset (taken_tasks p) = mset (executed p) + in_progress (workers p) \<and> (WaitNotEmpty \<in> set (workers p) \<longrightarrow> running p) \<and>
     (workers p = [] \<longrightarrow> producers p = [] \<and> pool_queue p = [])"

lemma pool_inv_start: "pool_inv m (ThreadPool_start n m)"
proof -
  have "in_progress (replicate n AtLoop) = {#}" by (induction n) (simp_all add: in_progress_def)
  then show ?thesis by (simp add: pool_inv_def ThreadPool_start_def)
qed

lemma set_update_worker: "WaitNotEmpty \<in> set (ws[i := w]) \<Longrightarrow> w \<noteq> WaitNotEmpty \<Longrightarrow> WaitNotEmpty \<in> set ws"
  using set_update_subset_insert [of ws i w] by auto

lemma pool_inv_wake_worker: "pool_inv m p \<Longrightarrow> pool_inv m (wake_worker j p)"
  using in_progress_update [of j "workers p" Taking] set_update_worker [of "workers p" j Taking]
  by (auto simp: pool_inv_def wake_worker_def)

lemma pool_inv_wake_producer: "pool_inv m p \<Longrightarrow> pool_inv m (wake_producer j p)"
  by (auto simp: pool_inv_def wake_producer_def)

lemma pool_inv_worker_step:
  assumes "worker_step p p'" "pool_inv m p"
  shows "pool_inv m p'"
  using assms(1)
proof (cases rule: worker_step.cases)
  case (loop i)
  then show ?thesis using assms(2) in_progress_update [of i "workers p"] set_update_worker [of "workers p" i]
    by (auto simp: pool_inv_def loop_turn_def)
next
  case (take i j)
  show ?thesis
  proof (cases "pool_queue p")
    case Nil
    let ?w = "if running p then WaitNotEmpty else AtLoop"
    have "in_progress ((workers p)[i := ?w]) = in_progress (workers p)" using in_progress_update [OF take(2), of ?w] take(3) by simp
    moreover have "WaitNotEmpty \<in> set ((workers p)[i := ?w]) \<longrightarrow> running p"
      using assms(2) set_update_worker [of "workers p" i AtLoop] by (auto simp: pool_inv_def)
    ultimately show ?thesis using Nil take(1) assms(2) by (simp add: pool_inv_def take_turn_def)
  next
    case (Cons t rest)
    let ?p = "p\<lparr>pool_queue := rest, workers := (workers p)[i := Running t], taken_tasks := taken_tasks p @ [t]\<rparr>"
    have "in_progress ((workers p)[i := Running t]) = in_progress (workers p) + {#t#}"
      using in_progress_update [OF take(2), of "Running t"] take(3) by simp
    then have "pool_inv m ?p" using assms(2) Cons set_update_worker [of "workers p" i "Running t"] by (auto simp: pool_inv_def)
    then show ?thesis using take(1) Cons pool_inv_wake_producer by (simp add: take_turn_def)
  qed
next
  case (execute i task)
  then show ?thesis using assms(2) in_progress_update [of i "workers p" AtLoop] set_update_worker [of "workers p" i AtLoop]
    by (auto simp: pool_inv_def execute_turn_def)
qed

lemma pool_inv_step:
  assumes "pool_step p p'" "pool_inv m p"
  shows "pool_inv m p'"
  using assms(1)
proof (cases rule: pool_step.cases)
  case worker
  then show ?thesis using pool_inv_worker_step assms(2) by blast
next
  case (call task)
  then show ?thesis using assms(2) by (auto simp: pool_inv_def ThreadPool_run_def)
next
  case (put k task j)
  let ?p = "p\<lparr>pool_queue := pool_queue p @ [task], accepted := accepted p @ [task], producers := (producers p)[k := Returned]\<rparr>"
  have "pool_inv m ?p" if "\<not> isFull p" using that put(2) assms(2) by (auto simp: pool_inv_def isFull_def)
  then have "pool_inv m (run_turn k j task p)" if "\<not> isFull p" using that pool_inv_wake_worker by (simp add: run_turn_def)
  moreover have "pool_inv m (run_turn k j task p)" if "isFull p" using that assms(2) by (simp add: run_turn_def pool_inv_def)
  ultimately show ?thesis using put(1) by blast
next
  case stop
  then show ?thesis using assms(2) by (auto simp: pool_inv_def ThreadPool_stop_def in_progress_wake)
qed (use assms(2) pool_inv_wake_worker pool_inv_wake_producer in blast)+

lemma pool_reachable_inv: "pool_step\<^sup>*\<^sup>* (ThreadPool_start n m) p \<Longrightarrow> pool_inv m p"
  by (induction rule: rtranclp_induct) (auto simp: pool_inv_start pool_inv_step)

text \<open>
  C29. In every interleaving of producers, workers and \<open>stop\<close>: a bounded queue never holds more tasks than its bound;
  the tasks are taken in the order in which they were accepted, each once; what was taken has been executed
  once or is being executed; and no signal is lost: as long as a worker sleeps there are at least as many workers
  awake to take as tasks wait, and as long as a producer sleeps at least as many awake as there are free places.
\<close>

theorem pool_bounded_fifo:
  assumes "pool_step\<^sup>*\<^sup>* (ThreadPool_start n m) p"
  shows "(0 < m \<longrightarrow> length (pool_queue p) \<le> m) \<and> accepted p = taken_tasks p @ pool_queue p \<and>
     mset (taken_tasks p) = mset (executed p) + in_progress (workers p) \<and>
     (0 < idle_workers p \<longrightarrow> length (pool_queue p) \<le> taking_workers p) \<and>
     (0 < stuck_producers p \<longrightarrow> free_slots p \<le> putting_producers p)"
proof -
  have "0 < idle_workers p \<longrightarrow> length (pool_queue p) \<le> taking_workers p"
    using notEmpty.no_lost_signal [OF assms] by (simp add: ThreadPool_start_def)
  moreover have "0 < stuck_producers p \<longrightarrow> free_slots p \<le> putting_producers p"
    using notFull.no_lost_signal [OF assms] by (simp add: ThreadPool_start_def)
  ultimately show ?thesis using pool_reachable_inv [OF assms] by (auto simp: pool_inv_def)
qed

fun worker_rank :: "worker \<Rightarrow> nat" where
  "worker_rank WaitNotEmpty = 4"
| "worker_rank Taking = 3"
| "worker_rank (Running t) = 2"
| "worker_rank AtLoop = 1"
| "worker_rank Finished = 0"

definition pool_rank :: "pool \<Rightarrow> nat" where
  "pool_rank p = (\<Sum>w \<leftarrow> workers p. worker_rank w)"

lemma rank_update: "i < length ws \<Longrightarrow> (\<Sum>w \<leftarrow> ws[i := x]. worker_rank w) + worker_rank (ws ! i) = (\<Sum>w \<leftarrow> ws. worker_rank w) + worker_rank x"
proof (induction ws arbitrary: i)
  case (Cons y ws)
  then show ?case by (cases i) (auto simp: ac_simps)
qed simp

lemma rank_wake: "(\<Sum>w \<leftarrow> map (\<lambda>w. if w = WaitNotEmpty then Taking else w) ws. worker_rank w) \<le> (\<Sum>w \<leftarrow> ws. worker_rank w)"
  by (induction ws) auto

lemma rank_wake_worker: "pool_rank (wake_worker j p) \<le> pool_rank p"
  using rank_update [of j "workers p" Taking] by (auto simp: wake_worker_def pool_rank_def)

lemma some_signal: "\<exists>j. signals_producer j p"
  by (auto simp: signals_producer_def in_set_conv_nth)

lemma stopped_worker_step:
  assumes "worker_step p p'" "\<not> running p"
  shows "\<not> running p' \<and> pool_rank p' < pool_rank p"
  using assms(1)
proof (cases rule: worker_step.cases)
  case (loop i)
  then show ?thesis using rank_update [of i "workers p" Finished] assms(2) by (simp add: loop_turn_def pool_rank_def)
next
  case (take i j)
  have "\<exists>w. workers p' = (workers p)[i := w] \<and> worker_rank w < 3 \<and> running p' = running p"
  proof (cases "pool_queue p")
    case Nil
    then show ?thesis using take(1) assms(2) by (auto simp: take_turn_def intro!: exI [of _ AtLoop])
  next
    case (Cons t rest)
    then show ?thesis using take(1) by (auto simp: take_turn_def wake_producer_def intro!: exI [of _ "Running t"])
  qed
  then obtain w where "workers p' = (workers p)[i := w]" "worker_rank w < 3" "running p' = running p" by blast
  then show ?thesis using rank_update [OF take(2), of w] take(3) assms(2) by (simp add: pool_rank_def)
next
  case (execute i task)
  then show ?thesis using rank_update [of i "workers p" AtLoop] assms(2) by (simp add: execute_turn_def pool_rank_def)
qed

lemma stopped_pool_step:
  assumes "pool_step p p'" "\<not> running p"
  shows "\<not> running p' \<and> pool_rank p' \<le> pool_rank p"
  using assms(1)
proof (cases rule: pool_step.cases)
  case worker
  then show ?thesis using stopped_worker_step assms(2) by (auto intro: less_imp_le)
next
  case (call task)
  then show ?thesis using assms(2) by (simp add: ThreadPool_run_def pool_rank_def)
next
  case (put k task j)
  have "workers p' = workers p \<or> workers p' = workers (wake_worker j p)" "running p' = running p"
    using put(1) by (auto simp: run_turn_def wake_worker_def)
  then show ?thesis using rank_wake_worker [of j p] assms(2) by (auto simp: pool_rank_def)
next
  case stop
  then show ?thesis using rank_wake [of "workers p"] by (simp add: ThreadPool_stop_def pool_rank_def)
next
  case (spurious_worker j)
  then show ?thesis using rank_wake_worker [of j p] assms(2) by (simp add: wake_worker_def)
next
  case (spurious_producer j)
  then show ?thesis using assms(2) by (simp add: wake_producer_def pool_rank_def)
qed

lemma unfinished_worker_moves:
  assumes "w \<in> set (workers p)" "w \<noteq> Finished" "w \<noteq> WaitNotEmpty"
  shows "\<exists>p'. worker_step p p'"
proof -
  obtain i where i: "i < length (workers p)" "workers p ! i = w" using assms(1) by (auto simp: in_set_conv_nth)
  show ?thesis using i assms(2,3) some_signal [of p] by (cases w) (blast intro: worker_step.intros)+
qed

text \<open>
  After \<open>stop\<close> the workers finish, so its calls of \<open>join\<close> return: as long as one has not finished some worker can take
  a turn, and every turn brings them nearer to the end, whatever the producers do in between.
\<close>

theorem stopped_pool_finishes:
  assumes "pool_step\<^sup>*\<^sup>* (ThreadPool_start n m) p" "\<not> running p"
  shows "((\<forall>w \<in> set (workers p). w = Finished) \<or> (\<exists>p'. worker_step p p')) \<and>
     (\<forall>p'. worker_step p p' \<longrightarrow> pool_rank p' < pool_rank p) \<and> (\<forall>p'. pool_step p p' \<longrightarrow> \<not> running p' \<and> pool_rank p' \<le> pool_rank p)"
proof -
  have "w \<noteq> WaitNotEmpty" if "w \<in> set (workers p)" for w using pool_reachable_inv [OF assms(1)] assms(2) that by (auto simp: pool_inv_def)
  then show ?thesis using unfinished_worker_moves stopped_worker_step stopped_pool_step assms(2) by blast
qed

text \<open>
  A producer that waits for a free place when the pool is stopped is never woken: once the workers have finished and
  the queue is full, no call of \<open>run\<close> returns and no task of the queue is executed any more, whatever happens.
\<close>

theorem stop_strands_producer:
  assumes "workers p \<noteq> []" "\<forall>w \<in> set (workers p). w = Finished" "isFull p" "k < length (producers p)" "producers p ! k \<noteq> Returned"
    "pool_step\<^sup>*\<^sup>* p p'"
  shows "k < length (producers p') \<and> producers p' ! k \<noteq> Returned \<and> pool_queue p' = pool_queue p \<and> executed p' = executed p"
proof -
  let ?I = "\<lambda>q. workers q = workers p \<and> pool_queue q = pool_queue p \<and> maxQueueSize q = maxQueueSize p \<and> executed q = executed p \<and>
     k < length (producers q) \<and> producers q ! k \<noteq> Returned"
  have none: "workers q ! i = Finished" if "?I q" "i < length (workers q)" for q i using assms(2) that by auto
  have ret: "waken x \<noteq> Returned" if "x \<noteq> Returned" for x using that by (cases x) auto
  have keep: "?I q'" if "pool_step q q'" "?I q" for q q'
    using that(1)
  proof (cases rule: pool_step.cases)
    case worker
    then show ?thesis using none [OF that(2)] by (auto elim!: worker_stepE)
  next
    case (call task)
    then show ?thesis using that(2) assms(1) by (auto simp: ThreadPool_run_def nth_append)
  next
    case (put i task j)
    have "isFull q" using assms(3) that(2) by (simp add: isFull_def)
    then show ?thesis using put(1) that(2) by (cases "i = k") (auto simp: run_turn_def)
  next
    case stop
    have "map (\<lambda>w. if w = WaitNotEmpty then Taking else w) (workers q) = workers q" by (rule map_idI) (use assms(2) that(2) in auto)
    then show ?thesis using stop that(2) by (simp add: ThreadPool_stop_def)
  next
    case (spurious_worker j)
    then show ?thesis using none [OF that(2), of j] that(2) by (auto simp: wake_worker_def)
  next
    case (spurious_producer j)
    then show ?thesis using that(2) ret by (auto simp: wake_producer_def nth_list_update)
  qed
  from assms(6) have "?I p'" by (induction rule: rtranclp_induct) (use assms(4,5) in simp, rule keep)
  then show ?thesis by blast
qed

section \<open>The countdown latch\<close>

datatype latch_thread = Entering | Blocked | Through

record latch =
  count_ltch :: int
  latch_threads :: "latch_thread list"
  downs :: nat

definition CountDownLatch_ctor :: "int \<Rightarrow> latch" where
  "CountDownLatch_ctor n = \<lparr>count_ltch = n, latch_threads = [], downs = 0\<rparr>"

definition wait_turn :: "nat \<Rightarrow> latch \<Rightarrow> latch" where
  "wait_turn i l = l\<lparr>latch_threads := (latch_threads l)[i := if 0 < count_ltch l then Blocked else Through]\<rparr>"

definition CountDownLatch_countDown :: "latch \<Rightarrow> latch" where
  "CountDownLatch_countDown l =
     (let l' = l\<lparr>count_ltch := count_ltch l - 1, downs := downs l + 1\<rparr>
      in if count_ltch l' = 0 then l'\<lparr>latch_threads := map (\<lambda>x. if x = Blocked then Entering else x) (latch_threads l')\<rparr> else l')"

inductive latch_step :: "latch \<Rightarrow> latch \<Rightarrow> bool" where
  wait: "latch_step l (l\<lparr>latch_threads := latch_threads l @ [Entering]\<rparr>)"
| turn: "i < length (latch_threads l) \<Longrightarrow> latch_threads l ! i = Entering \<Longrightarrow> latch_step l (wait_turn i l)"
| spurious: "i < length (latch_threads l) \<Longrightarrow> latch_threads l ! i = Blocked \<Longrightarrow> latch_step l (l\<lparr>latch_threads := (latch_threads l)[i := Entering]\<rparr>)"
| down: "latch_step l (CountDownLatch_countDown l)"

text \<open>A thread sleeps at a latch only while something is left to count, and passes it only when nothing is.\<close>

lemma latch_inv:
  assumes "latch_step\<^sup>*\<^sup>* (CountDownLatch_ctor n) l"
  shows "count_ltch l = n - int (downs l) \<and> (Blocked \<in> set (latch_threads l) \<longrightarrow> 0 < count_ltch l) \<and>
    (Through \<in> set (latch_threads l) \<longrightarrow> count_ltch l \<le> 0)"
  using assms
proof (induction rule: rtranclp_induct)
  case base
  then show ?case by (simp add: CountDownLatch_ctor_def)
next
  case (step l l')
  from step(2) show ?case
  proof (cases rule: latch_step.cases)
    case (turn i)
    then show ?thesis using step(3) set_update_subset_insert [of "latch_threads l" i] by (auto simp: wait_turn_def split: if_splits)
  next
    case (spurious i)
    then show ?thesis using step(3) set_update_subset_insert [of "latch_threads l" i Entering] by auto
  next
    case down
    then show ?thesis using step(3) by (auto simp: CountDownLatch_countDown_def Let_def)
  qed (use step(3) in auto)
qed

section \<open>Examples\<close>

text \<open>One worker and one place: task 1 is in the queue, the producer of task 2 waits, and the pool is stopped.\<close>

definition demo_full :: pool where
  "demo_full = \<lparr>pool_queue = [1], maxQueueSize = 1, running = False, workers = [Finished],
     producers = [Returned, WaitNotFull 2], accepted = [1], taken_tasks = [], executed = []\<rparr>"

lemma demo_full_reachable: "pool_step\<^sup>*\<^sup>* (ThreadPool_start 1 1) demo_full"
proof -
  let ?p0 = "ThreadPool_start 1 1"
  define p1 where "p1 = ThreadPool_run 1 ?p0"
  define p2 where "p2 = run_turn 0 0 1 p1"
  define p3 where "p3 = ThreadPool_run 2 p2"
  define p4 where "p4 = run_turn 1 0 2 p3"
  define p5 where "p5 = ThreadPool_stop p4"
  note d = p1_def p2_def p3_def p4_def p5_def pool_defs isFull_def ThreadPool_start_def
  have "pool_step ?p0 p1" "pool_step p2 p3" "pool_step p4 p5" unfolding p1_def p3_def p5_def by (rule pool_step.intros)+
  moreover have "pool_step p1 p2" unfolding p2_def by (rule pool_step.put) (simp_all add: d signals_worker_def)
  moreover have "pool_step p3 p4" unfolding p4_def by (rule pool_step.put) (simp_all add: d signals_worker_def)
  moreover have "pool_step p5 (loop_turn 0 p5)" by (rule pool_step.worker, rule worker_step.loop) (simp_all add: d)
  moreover have "loop_turn 0 p5 = demo_full" by (simp add: d demo_full_def)
  ultimately show ?thesis by (metis (no_types) converse_rtranclp_into_rtranclp rtranclp.rtrancl_refl)
qed

theorem pool_bounded_fifo_witness:
  "pool_step\<^sup>*\<^sup>* (ThreadPool_start 1 1) demo_full \<and> accepted demo_full = taken_tasks demo_full @ pool_queue demo_full"
  using pool_bounded_fifo [OF demo_full_reachable] demo_full_reachable by simp

theorem stopped_pool_finishes_witness: "\<exists>p. pool_step\<^sup>*\<^sup>* (ThreadPool_start 1 1) p \<and> \<not> running p \<and> (\<exists>p'. worker_step p p')"
proof -
  have r: "pool_step\<^sup>*\<^sup>* (ThreadPool_start 1 1) (ThreadPool_stop (ThreadPool_start 1 1))" by (blast intro: pool_step.stop)
  have s: "\<not> running (ThreadPool_stop (ThreadPool_start 1 1))" by (simp add: ThreadPool_stop_def)
  from stopped_pool_finishes [OF r s] have "\<exists>p'. worker_step (ThreadPool_stop (ThreadPool_start 1 1)) p'"
    by (auto simp: ThreadPool_stop_def ThreadPool_start_def)
  then show ?thesis using r s by blast
qed

theorem stop_strands_producer_witness:
  "pool_step\<^sup>*\<^sup>* (ThreadPool_start 1 1) demo_full \<and> producers (ThreadPool_stop demo_full) ! 1 \<noteq> Returned"
proof -
  have "pool_step\<^sup>*\<^sup>* demo_full (ThreadPool_stop demo_full)" by (blast intro: pool_step.stop)
  from stop_strands_producer [OF _ _ _ _ _ this, of 1] show ?thesis
    using demo_full_reachable by (simp add: demo_full_def isFull_def)
qed

end
