(* ===== verification/LoopThread.thy ===== *)
theory LoopThread
  imports Prelude
begin

text \<open>
  A thread (\<open>third/muduo/base/Thread.cc\<close>) and the thread of an event loop (\<open>third/muduo/net/EventLoopThread.cc\<close>): the handshake of
  \<open>startLoop\<close> with \<open>threadFunc\<close>, and the destructor that stops the loop. Two threads take turns: the owner, which
  calls \<open>startLoop\<close> and later the destructor, and the new one, in whose \<open>threadFunc\<close> the loop lives. A turn is a
  statement or a critical section; where a thread is is its program counter. The destructor reads \<open>loop_\<close> outside the
  mutex. Using the loop after it is gone, or through a null pointer, is \<open>Undefined\<close>.
\<close>

section \<open>Thread\<close>

record mthread =
  started :: bool
  joined :: bool
  tid :: int

definition Thread_ctor :: mthread where
  "Thread_ctor = \<lparr>started = False, joined = False, tid = 0\<rparr>"

text \<open>\<open>created\<close> is whether \<open>pthread_create\<close> succeeds.\<close>

definition Thread_start :: "bool \<Rightarrow> mthread \<Rightarrow> mthread result" where
  "Thread_start created t = rbind (cassert (\<not> started t) ''!started_'') (\<lambda>_.
     if created then Inr (t\<lparr>started := True\<rparr>) else Inl (Fatal ''Failed in pthread_create''))"

definition Thread_started :: "mthread \<Rightarrow> mthread result" where
  "Thread_started t = rbind (cassert (0 < tid t) ''tid_ > 0'') (\<lambda>_. Inr t)"

definition Thread_join :: "mthread \<Rightarrow> mthread result" where
  "Thread_join t = rbind (cassert (started t) ''started_'') (\<lambda>_. rbind (cassert (\<not> joined t) ''!joined_'') (\<lambda>_. Inr (t\<lparr>joined := True\<rparr>)))"

section \<open>The thread of a loop\<close>

datatype loop_at = NotCreated | SettingTid | Constructing | Publishing | BeforeLoop | InLoop | AfterLoop | Destructing | Gone

datatype owner_at = BeforeStart | WaitLatch | TestLoop | SleepCond | HasLoop | CallQuit | CallWakeup | CallJoin | Joining | Destroyed

record loop_thread =
  elt_thread :: mthread
  latch_count :: int
  loop_set :: bool
  quit_flag :: bool
  at_loop :: loop_at
  at_owner :: owner_at
  asked_to_quit :: bool

definition EventLoopThread_ctor :: loop_thread where
  "EventLoopThread_ctor = \<lparr>elt_thread = Thread_ctor, latch_count = 1, loop_set = False, quit_flag = False,
     at_loop = NotCreated, at_owner = BeforeStart, asked_to_quit = False\<rparr>"

definition loop_alive :: "loop_thread \<Rightarrow> bool" where
  "loop_alive s \<longleftrightarrow> at_loop s \<in> {Publishing, BeforeLoop, InLoop, AfterLoop, Destructing}"

text \<open>\<open>ThreadData::runInThread\<close> and \<open>threadFunc\<close>. In \<open>InLoop\<close> the loop is between two tests of \<open>quit_\<close>.\<close>

definition thread_turn :: "int \<Rightarrow> loop_thread \<Rightarrow> loop_thread" where
  "thread_turn ntid s = (case at_loop s of
      NotCreated \<Rightarrow> s
    | SettingTid \<Rightarrow> s\<lparr>elt_thread := (elt_thread s)\<lparr>tid := ntid\<rparr>, latch_count := latch_count s - 1, at_loop := Constructing\<rparr>
    | Constructing \<Rightarrow> s\<lparr>at_loop := Publishing\<rparr>
    | Publishing \<Rightarrow> s\<lparr>loop_set := True, at_loop := BeforeLoop, at_owner := (if at_owner s = SleepCond then TestLoop else at_owner s)\<rparr>
    | BeforeLoop \<Rightarrow> s\<lparr>quit_flag := False, at_loop := InLoop\<rparr>
    | InLoop \<Rightarrow> if quit_flag s then s\<lparr>at_loop := AfterLoop\<rparr> else s
    | AfterLoop \<Rightarrow> s\<lparr>loop_set := False, at_loop := Destructing\<rparr>
    | Destructing \<Rightarrow> s\<lparr>at_loop := Gone\<rparr>
    | Gone \<Rightarrow> s)"

text \<open>
  The owner: \<open>startLoop\<close> up to \<open>HasLoop\<close>, the destructor from there. A turn that has to wait (for the latch, for the
  thread to end) leaves the state as it is.
\<close>

definition owner_turn :: "loop_thread \<Rightarrow> loop_thread result" where
  "owner_turn s = (case at_owner s of
      BeforeStart \<Rightarrow> rbind (cassert (\<not> started (elt_thread s)) ''!thread_.started()'') (\<lambda>_.
        rbind (Thread_start True (elt_thread s)) (\<lambda>t. Inr (s\<lparr>elt_thread := t, at_loop := SettingTid, at_owner := WaitLatch\<rparr>)))
    | WaitLatch \<Rightarrow> if 0 < latch_count s then Inr s
        else rbind (Thread_started (elt_thread s)) (\<lambda>t. Inr (s\<lparr>at_owner := TestLoop\<rparr>))
    | TestLoop \<Rightarrow> Inr (s\<lparr>at_owner := (if loop_set s then HasLoop else SleepCond)\<rparr>)
    | SleepCond \<Rightarrow> Inr s
    | HasLoop \<Rightarrow> Inr (s\<lparr>at_owner := (if loop_set s then CallQuit else Destroyed)\<rparr>)
    | CallQuit \<Rightarrow> if \<not> loop_set s then Inl (Undefined ''loop_ is null'')
        else Inr (s\<lparr>quit_flag := True, asked_to_quit := True, at_owner := CallWakeup\<rparr>)
    | CallWakeup \<Rightarrow> if \<not> loop_alive s then Inl (Undefined ''loop destructed'') else Inr (s\<lparr>at_owner := CallJoin\<rparr>)
    | CallJoin \<Rightarrow> rbind (Thread_join (elt_thread s)) (\<lambda>t. Inr (s\<lparr>elt_thread := t, at_owner := Joining\<rparr>))
    | Joining \<Rightarrow> Inr (if at_loop s = Gone then s\<lparr>at_owner := Destroyed\<rparr> else s)
    | Destroyed \<Rightarrow> Inr s)"

text \<open>\<open>user_quit\<close>: code that runs in the loop calls \<open>quit\<close>.\<close>

inductive elt_step :: "bool \<Rightarrow> loop_thread \<Rightarrow> loop_thread \<Rightarrow> bool" for users where
  thread: "0 < ntid \<Longrightarrow> elt_step users s (thread_turn ntid s)"
| owner: "owner_turn s = Inr s' \<Longrightarrow> elt_step users s s'"
| spurious: "at_owner s = SleepCond \<Longrightarrow> elt_step users s (s\<lparr>at_owner := TestLoop\<rparr>)"
| user_quit: "users \<Longrightarrow> at_loop s = InLoop \<Longrightarrow> elt_step users s (s\<lparr>quit_flag := True, asked_to_quit := True\<rparr>)"

definition starting :: "loop_thread \<Rightarrow> bool" where
  "starting s \<longleftrightarrow> at_owner s \<in> {BeforeStart, WaitLatch, TestLoop, SleepCond, HasLoop}"

section \<open>Starting\<close>

definition elt_inv :: "loop_thread \<Rightarrow> bool" where
  "elt_inv s \<longleftrightarrow>
     (started (elt_thread s) \<longleftrightarrow> at_loop s \<noteq> NotCreated) \<and> (at_owner s = BeforeStart \<longleftrightarrow> at_loop s = NotCreated) \<and>
     (latch_count s = (if at_loop s \<in> {NotCreated, SettingTid} then 1 else 0)) \<and>
     (at_loop s \<notin> {NotCreated, SettingTid} \<longrightarrow> 0 < tid (elt_thread s)) \<and>
     (at_loop s \<in> {NotCreated, SettingTid} \<longrightarrow> at_owner s \<in> {BeforeStart, WaitLatch}) \<and>
     (loop_set s \<longleftrightarrow> at_loop s \<in> {BeforeLoop, InLoop, AfterLoop}) \<and>
     (at_owner s \<notin> {Joining, Destroyed} \<longrightarrow> \<not> joined (elt_thread s)) \<and>
     (asked_to_quit s \<longrightarrow> at_owner s \<in> {CallWakeup, CallJoin, Joining, Destroyed}) \<and>
     (\<not> asked_to_quit s \<longrightarrow> \<not> quit_flag s \<and> at_loop s \<notin> {AfterLoop, Destructing, Gone} \<and>
        at_owner s \<notin> {CallWakeup, CallJoin, Joining, Destroyed} \<and> (at_owner s \<in> {HasLoop, CallQuit} \<longrightarrow> loop_set s)) \<and>
     (at_owner s = SleepCond \<longrightarrow> \<not> loop_set s)"

lemma elt_inv_ctor: "elt_inv EventLoopThread_ctor"
  by (simp add: elt_inv_def EventLoopThread_ctor_def Thread_ctor_def)

lemma elt_inv_thread: "elt_inv s \<Longrightarrow> 0 < ntid \<Longrightarrow> elt_inv (thread_turn ntid s)"
  by (cases "at_loop s"; cases "at_owner s"; auto simp: elt_inv_def thread_turn_def)

lemma elt_inv_owner:
  assumes "elt_inv s" "owner_turn s = Inr s'"
  shows "elt_inv s'"
proof (cases "at_owner s")
  case BeforeStart
  then have l: "at_loop s = NotCreated" "\<not> started (elt_thread s)" using assms(1) by (simp_all add: elt_inv_def)
  then have "s' = s\<lparr>elt_thread := (elt_thread s)\<lparr>started := True\<rparr>, at_loop := SettingTid, at_owner := WaitLatch\<rparr>"
    using assms(2) BeforeStart by (simp add: owner_turn_def Thread_start_def)
  then show ?thesis using assms(1) l BeforeStart by (simp add: elt_inv_def)
next
  case WaitLatch
  then show ?thesis using assms by (cases "at_loop s") (auto simp: elt_inv_def owner_turn_def Thread_started_def)
next
  case TestLoop
  then have "s' = s\<lparr>at_owner := (if loop_set s then HasLoop else SleepCond)\<rparr>" using assms(2) by (simp add: owner_turn_def)
  then show ?thesis using assms(1) TestLoop by (cases "at_loop s") (auto simp: elt_inv_def)
next
  case HasLoop
  then have "s' = s\<lparr>at_owner := (if loop_set s then CallQuit else Destroyed)\<rparr>" using assms(2) by (simp add: owner_turn_def)
  then show ?thesis using assms(1) HasLoop by (cases "at_loop s") (auto simp: elt_inv_def)
next
  case CallQuit
  then have "s' = s\<lparr>quit_flag := True, asked_to_quit := True, at_owner := CallWakeup\<rparr>" using assms(2) by (simp add: owner_turn_def split: if_splits)
  then show ?thesis using assms(1) CallQuit by (cases "at_loop s") (auto simp: elt_inv_def)
next
  case CallWakeup
  then have "s' = s\<lparr>at_owner := CallJoin\<rparr>" using assms(2) by (simp add: owner_turn_def split: if_splits)
  then show ?thesis using assms(1) CallWakeup by (cases "at_loop s") (auto simp: elt_inv_def)
next
  case CallJoin
  then have "s' = s\<lparr>elt_thread := (elt_thread s)\<lparr>joined := True\<rparr>, at_owner := Joining\<rparr>"
    using assms(2) by (auto simp: owner_turn_def Thread_join_def rbind_eq_Inr_iff)
  then show ?thesis using assms(1) CallJoin by (cases "at_loop s") (auto simp: elt_inv_def)
next
  case Joining
  then have "s' = s \<or> s' = s\<lparr>at_owner := Destroyed\<rparr>" using assms(2) by (auto simp: owner_turn_def split: if_splits)
  then show ?thesis using assms(1) Joining by (cases "at_loop s") (auto simp: elt_inv_def)
qed (use assms in \<open>simp_all add: owner_turn_def\<close>)

lemma elt_inv_step: "elt_step False s s' \<Longrightarrow> elt_inv s \<Longrightarrow> elt_inv s'"
proof (induction rule: elt_step.induct)
  case (thread ntid s)
  then show ?case using elt_inv_thread by blast
next
  case (owner s s')
  then show ?case using elt_inv_owner by blast
next
  case (spurious s)
  then show ?case by (auto simp: elt_inv_def)
qed simp

lemma elt_reachable_inv: "(elt_step False)\<^sup>*\<^sup>* EventLoopThread_ctor s \<Longrightarrow> elt_inv s"
  by (induction rule: rtranclp_induct) (auto simp: elt_inv_ctor elt_inv_step)

text \<open>
  The handshake of \<open>startLoop\<close>, in every interleaving, while nothing in the loop quits it: no assertion fails; the
  owner sleeps only while the new thread still has to set \<open>loop_\<close> and signal; and \<open>startLoop\<close> returns a loop that is
  alive, in a thread whose id is known.
\<close>

lemma start_loop_handshake:
  assumes "(elt_step False)\<^sup>*\<^sup>* EventLoopThread_ctor s" "starting s"
  shows "(\<exists>s'. owner_turn s = Inr s') \<and> (at_owner s = SleepCond \<longrightarrow> at_loop s \<in> {Constructing, Publishing}) \<and>
     (at_owner s = HasLoop \<longrightarrow> loop_set s \<and> loop_alive s \<and> 0 < tid (elt_thread s))"
proof -
  have i: "elt_inv s" by (rule elt_reachable_inv [OF assms(1)])
  have "\<exists>s'. owner_turn s = Inr s'" using i assms(2)
    by (cases "at_owner s"; cases "at_loop s"; auto simp: elt_inv_def starting_def owner_turn_def Thread_start_def Thread_started_def)
  moreover have "at_owner s = SleepCond \<longrightarrow> at_loop s \<in> {Constructing, Publishing}"
    using i by (cases "at_loop s"; cases "asked_to_quit s"; auto simp: elt_inv_def)
  moreover have "at_owner s = HasLoop \<longrightarrow> loop_set s \<and> loop_alive s \<and> 0 < tid (elt_thread s)"
    using i by (cases "at_loop s"; cases "asked_to_quit s"; auto simp: elt_inv_def loop_alive_def)
  ultimately show ?thesis by blast
qed

section \<open>Stopping\<close>

text \<open>A schedule: \<open>True\<close> is a turn of the owner, \<open>False\<close> one of the new thread, whose id is 7.\<close>

definition scheduled :: "bool \<Rightarrow> loop_thread \<Rightarrow> loop_thread result" where
  "scheduled owner s = (if owner then owner_turn s else Inr (thread_turn 7 s))"

lemma scheduled_steps: "rfold scheduled ts s = Inr s' \<Longrightarrow> (elt_step False)\<^sup>*\<^sup>* s s'"
proof (induction ts arbitrary: s)
  case (Cons t ts)
  then obtain s1 where s1: "scheduled t s = Inr s1" "rfold scheduled ts s1 = Inr s'" by (auto simp: rbind_eq_Inr_iff)
  have "elt_step False s s1" using s1(1) elt_step.owner elt_step.thread [of 7 False s] by (auto simp: scheduled_def split: if_splits)
  then show ?case using Cons.IH [OF s1(2)] by (rule converse_rtranclp_into_rtranclp)
qed simp

lemmas schedule_defs = scheduled_def owner_turn_def thread_turn_def EventLoopThread_ctor_def Thread_ctor_def Thread_start_def
  Thread_started_def Thread_join_def loop_alive_def

text \<open>\<open>loop()\<close> begins with \<open>quit_ = false\<close>, so a \<open>quit\<close> before it is forgotten, and then nothing changes any more.\<close>

lemma forgotten_quit:
  assumes "elt_step False s s'" "at_owner s = Joining" "at_loop s = InLoop" "\<not> quit_flag s"
  shows "at_owner s' = Joining \<and> at_loop s' = InLoop \<and> \<not> quit_flag s'"
  using assms by (cases rule: elt_step.cases) (auto simp: thread_turn_def owner_turn_def)

text \<open>
  C31. Two ways in which the destructor goes wrong although \<open>startLoop\<close> has returned. When it calls \<open>quit\<close> before
  the new thread has entered \<open>loop()\<close>, the request is forgotten: the loop runs on, and the destructor waits in \<open>join\<close> for ever. When
  the loop ends between the two statements of \<open>quit\<close>, the second one uses a loop that is gone.
\<close>

theorem destructor_hangs_or_races:
  "(\<exists>s. (elt_step False)\<^sup>*\<^sup>* EventLoopThread_ctor s \<and> asked_to_quit s \<and>
      {s'. (elt_step False)\<^sup>*\<^sup>* s s'} \<subseteq> {s'. at_owner s' = Joining \<and> at_loop s' = InLoop}) \<and>
   (\<exists>s. (elt_step False)\<^sup>*\<^sup>* EventLoopThread_ctor s \<and> owner_turn s = Inl (Undefined ''loop destructed''))"
proof
  obtain s where s: "rfold scheduled [True, False, True, False, False, True, True, True, True, True, False] EventLoopThread_ctor = Inr s"
    "at_owner s = Joining" "at_loop s = InLoop" "\<not> quit_flag s" "asked_to_quit s" by (simp add: schedule_defs)
  have "at_owner s' = Joining \<and> at_loop s' = InLoop \<and> \<not> quit_flag s'" if "(elt_step False)\<^sup>*\<^sup>* s s'" for s'
    using that by (induction rule: rtranclp_induct) (use s(2-4) forgotten_quit in blast)+
  then show "\<exists>s. (elt_step False)\<^sup>*\<^sup>* EventLoopThread_ctor s \<and> asked_to_quit s \<and>
      {s'. (elt_step False)\<^sup>*\<^sup>* s s'} \<subseteq> {s'. at_owner s' = Joining \<and> at_loop s' = InLoop}"
    using scheduled_steps [OF s(1)] s(5) by blast
  obtain s where r: "rfold scheduled [True, False, True, False, False, True, True, False, True, False, False, False] EventLoopThread_ctor = Inr s"
    "owner_turn s = Inl (Undefined ''loop destructed'')" by (simp add: schedule_defs)
  then show "\<exists>s. (elt_step False)\<^sup>*\<^sup>* EventLoopThread_ctor s \<and> owner_turn s = Inl (Undefined ''loop destructed'')"
    using scheduled_steps [OF r(1)] by blast
qed

end
