(* ===== verification/ChatServer.thy ===== *)
theory ChatServer
  imports Codec
begin

text \<open>
  The chat servers (\<open>test/udp_chat_server.cpp\<close>, \<open>test/tcp_chat_server.cpp\<close>; the same code over the two codecs). With several
  loops, \<open>onConnection\<close> and \<open>onStringMessage\<close> run in different threads. The list of connections is shared:
  a message is sent over the list object that was current when it arrived, while changes copy the list
  unless nobody else holds it. List objects are numbered, a \<open>std::set\<close> is its sorted list of elements, and an
  object lives as long as the server or a message in progress holds it. An iterator whose element has
  left the set and a list that is gone are \<open>Undefined\<close>.
\<close>

section \<open>The server\<close>

datatype position = Before | At nat | Finished

record chat_task =
  r_msg :: bytes
  r_list :: nat
  r_pos :: position
  r_snap :: "nat list"
  r_sent :: "(nat \<times> bytes) list"

record chat =
  conn_lists :: "nat \<rightharpoonup> nat list"
  connections :: nat
  next_list :: nat
  tasks :: "chat_task list"
  chat_events :: "(nat \<times> bool) list"

definition chat_ctor :: chat where
  "chat_ctor = \<lparr>conn_lists = [0 \<mapsto> []], connections = 0, next_list = 1, tasks = [], chat_events = []\<rparr>"

definition holds_list :: "nat \<Rightarrow> chat_task \<Rightarrow> bool" where
  "holds_list l r \<longleftrightarrow> r_pos r \<noteq> Finished \<and> r_list r = l"

text \<open>\<open>shared_ptr::use_count\<close>\<close>

definition use_count :: "nat \<Rightarrow> chat \<Rightarrow> nat" where
  "use_count l s = (if connections s = l then 1 else 0) + num (holds_list l) (tasks s)"

definition unshare :: "nat list \<Rightarrow> chat \<Rightarrow> chat" where
  "unshare xs s = (if use_count (connections s) s = 1 then s
     else s\<lparr>conn_lists := (conn_lists s)(next_list s \<mapsto> xs), connections := next_list s, next_list := next_list s + 1\<rparr>)"

definition onConnection :: "nat \<Rightarrow> bool \<Rightarrow> chat \<Rightarrow> chat result" where
  "onConnection conn connected s =
     (case conn_lists s (connections s) of
        None \<Rightarrow> Inl (Undefined ''connections_'')
      | Some xs \<Rightarrow>
          let s1 = unshare xs s
          in rbind (cassert (use_count (connections s1) s1 = 1) ''connections_.unique()'') (\<lambda>_.
             Inr (s1\<lparr>conn_lists := (conn_lists s1)(connections s1 \<mapsto> (if connected then oset_insert conn xs else oset_erase conn xs)),
                     chat_events := chat_events s1 @ [(conn, connected)]\<rparr>)))"

text \<open>\<open>getConnectionList\<close>, at the start of \<open>onStringMessage\<close>; \<open>r_snap\<close> keeps what the list holds at this moment.\<close>

definition getConnectionList :: "bytes \<Rightarrow> chat \<Rightarrow> chat result" where
  "getConnectionList m s =
     (case conn_lists s (connections s) of
        None \<Rightarrow> Inl (Undefined ''connections_'')
      | Some xs \<Rightarrow> Inr (s\<lparr>tasks := tasks s @ [\<lparr>r_msg = m, r_list = connections s, r_pos = Before, r_snap = xs, r_sent = []\<rparr>]\<rparr>))"

text \<open>The loop moves on to the next element, or ends and lets go of the list.\<close>

definition advance :: "nat \<Rightarrow> nat list \<Rightarrow> chat_task \<Rightarrow> chat \<Rightarrow> chat" where
  "advance i rest r s =
     (case rest of
        y # _ \<Rightarrow> s\<lparr>tasks := (tasks s)[i := r\<lparr>r_pos := At y\<rparr>]\<rparr>
      | [] \<Rightarrow> let s1 = s\<lparr>tasks := (tasks s)[i := r\<lparr>r_pos := Finished\<rparr>]\<rparr>
              in if use_count (r_list r) s1 = 0 then s1\<lparr>conn_lists := (conn_lists s1)(r_list r := None)\<rparr> else s1)"

definition message_turn :: "(bytes \<Rightarrow> buffer result) \<Rightarrow> nat \<Rightarrow> chat \<Rightarrow> chat result" where
  "message_turn send i s =
     (let r = tasks s ! i
      in case conn_lists s (r_list r) of
           None \<Rightarrow> Inl (Undefined ''list of connections'')
         | Some xs \<Rightarrow>
             (case r_pos r of
                Finished \<Rightarrow> Inr s
              | Before \<Rightarrow> Inr (advance i xs r s)
              | At x \<Rightarrow>
                  if x \<notin> set xs then Inl (Undefined ''iterator'')
                  else rbind (send (r_msg r)) (\<lambda>buf.
                    Inr (advance i (dropWhile (\<lambda>y. y \<le> x) xs) (r\<lparr>r_sent := r_sent r @ [(x, content buf)]\<rparr>) s))))"

datatype chat_op = Connection nat bool | Message bytes | Turn nat

fun chat_step :: "(bytes \<Rightarrow> buffer result) \<Rightarrow> chat_op \<Rightarrow> chat \<Rightarrow> chat result" where
  "chat_step send (Connection c up) s = onConnection c up s"
| "chat_step send (Message m) s = getConnectionList m s"
| "chat_step send (Turn i) s = (if i < length (tasks s) \<and> r_pos (tasks s ! i) \<noteq> Finished then message_turn send i s else Inr s)"

section \<open>Sharing\<close>

fun ups :: "(nat \<times> bool) list \<Rightarrow> nat set \<Rightarrow> nat set" where
  "ups [] U = U"
| "ups ((c, up) # es) U = ups es (if up then insert c U else U - {c})"

lemma ups_snoc [simp]: "ups (es @ [(c, up)]) U = (if up then insert c (ups es U) else ups es U - {c})"
  by (induction es arbitrary: U) (auto split: prod.splits)

text \<open>How far a message is: it has been sent to the elements before its position.\<close>

definition progress :: "chat_task \<Rightarrow> bool" where
  "progress r \<longleftrightarrow> sorted_wrt (<) (r_snap r) \<and> (\<exists>k \<le> length (r_snap r). r_sent r = map (\<lambda>c. (c, frame (r_msg r))) (take k (r_snap r)) \<and>
     (case r_pos r of Before \<Rightarrow> k = 0 | At x \<Rightarrow> k < length (r_snap r) \<and> r_snap r ! k = x | Finished \<Rightarrow> k = length (r_snap r)))"

definition chat_inv :: "chat \<Rightarrow> bool" where
  "chat_inv s \<longleftrightarrow>
     (\<exists>xs. conn_lists s (connections s) = Some xs \<and> sorted_wrt (<) xs \<and> set xs = ups (chat_events s) {}) \<and>
     (\<forall>l xs. conn_lists s l = Some xs \<longrightarrow> l < next_list s \<and> 0 < use_count l s) \<and>
     (\<forall>r \<in> set (tasks s). progress r \<and> (r_pos r \<noteq> Finished \<longrightarrow> conn_lists s (r_list r) = Some (r_snap r)))"

lemma chat_invI:
  assumes "conn_lists s (connections s) = Some xs" "sorted_wrt (<) xs" "set xs = ups (chat_events s) {}"
    "\<And>l ys. conn_lists s l = Some ys \<Longrightarrow> l < next_list s \<and> 0 < use_count l s"
    "\<And>r. r \<in> set (tasks s) \<Longrightarrow> progress r" "\<And>r. r \<in> set (tasks s) \<Longrightarrow> r_pos r \<noteq> Finished \<Longrightarrow> conn_lists s (r_list r) = Some (r_snap r)"
  shows "chat_inv s"
  using assms unfolding chat_inv_def by blast

lemma chat_invD:
  assumes "chat_inv s"
  shows "\<exists>xs. conn_lists s (connections s) = Some xs \<and> sorted_wrt (<) xs \<and> set xs = ups (chat_events s) {}"
    "conn_lists s l = Some ys \<Longrightarrow> l < next_list s \<and> 0 < use_count l s"
  using assms unfolding chat_inv_def by blast+

lemma chat_inv_ctor: "chat_inv chat_ctor"
  by (simp add: chat_inv_def chat_ctor_def use_count_def)

lemma use_count_pos: "0 < use_count l s \<longleftrightarrow> connections s = l \<or> (\<exists>r \<in> set (tasks s). holds_list l r)"
  by (simp add: use_count_def num_pos)

lemma unique_unshared: "use_count (connections s) s = 1 \<Longrightarrow> r \<in> set (tasks s) \<Longrightarrow> \<not> holds_list (connections s) r"
  using num_pos [of "holds_list (connections s)" "tasks s"] by (auto simp: use_count_def)

lemma chat_inv_tasks:
  assumes "chat_inv s" "r \<in> set (tasks s)"
  shows "progress r" "r_pos r \<noteq> Finished \<Longrightarrow> conn_lists s (r_list r) = Some (r_snap r) \<and> r_list r < next_list s"
  using assms by (auto simp: chat_inv_def)

lemma unshare_ok:
  assumes "chat_inv s" "conn_lists s (connections s) = Some xs"
  shows "chat_inv (unshare xs s)" "use_count (connections (unshare xs s)) (unshare xs s) = 1" "conn_lists (unshare xs s) (connections (unshare xs s)) = Some xs"
    "tasks (unshare xs s) = tasks s" "chat_events (unshare xs s) = chat_events s"
proof -
  let ?s = "s\<lparr>conn_lists := (conn_lists s)(next_list s \<mapsto> xs), connections := next_list s, next_list := next_list s + 1\<rparr>"
  have none: "\<not> holds_list (next_list s) r" if "r \<in> set (tasks s)" for r
    using chat_inv_tasks(2) [OF assms(1) that] by (auto simp: holds_list_def)
  then have e: "num (holds_list (next_list s)) (tasks s) = 0" using num_pos [of "holds_list (next_list s)" "tasks s"] by auto
  have "chat_inv ?s" if u: "use_count (connections s) s \<noteq> 1"
  proof (rule chat_invI)
    show "conn_lists ?s (connections ?s) = Some xs" by simp
    show "sorted_wrt (<) xs" "set xs = ups (chat_events ?s) {}" using chat_invD(1) [OF assms(1)] assms(2) by auto
    show "l < next_list ?s \<and> 0 < use_count l ?s" if l: "conn_lists ?s l = Some ys" for l ys
    proof (cases "l = next_list s")
      case False
      then have "l < next_list s" "0 < use_count l s" using chat_invD(2) [OF assms(1), of l ys] l by auto
      then show ?thesis using u False by (cases "l = connections s") (auto simp: use_count_def)
    qed (simp add: use_count_def)
    show "progress r" if "r \<in> set (tasks ?s)" for r using chat_inv_tasks(1) [OF assms(1)] that by simp
    show "conn_lists ?s (r_list r) = Some (r_snap r)" if "r \<in> set (tasks ?s)" "r_pos r \<noteq> Finished" for r
      using chat_inv_tasks(2) [OF assms(1), of r] that by auto
  qed
  then show "chat_inv (unshare xs s)" using assms(1) by (simp add: unshare_def)
  show "use_count (connections (unshare xs s)) (unshare xs s) = 1" using e by (simp add: unshare_def use_count_def)
  show "conn_lists (unshare xs s) (connections (unshare xs s)) = Some xs" using assms(2) by (simp add: unshare_def)
  show "tasks (unshare xs s) = tasks s" "chat_events (unshare xs s) = chat_events s" by (simp_all add: unshare_def)
qed

lemma onConnection_ok:
  assumes "chat_inv s"
  shows "\<exists>s'. onConnection c up s = Inr s' \<and> chat_inv s'"
proof -
  obtain xs where xs: "conn_lists s (connections s) = Some xs" using assms by (auto simp: chat_inv_def)
  note u = unshare_ok [OF assms xs]
  let ?s = "unshare xs s"
  let ?t = "?s\<lparr>conn_lists := (conn_lists ?s)(connections ?s \<mapsto> (if up then oset_insert c xs else oset_erase c xs)),
     chat_events := chat_events ?s @ [(c, up)]\<rparr>"
  have "r_list r \<noteq> connections ?s" if "r \<in> set (tasks ?s)" "r_pos r \<noteq> Finished" for r
    using unique_unshared [OF u(2) that(1)] that(2) by (auto simp: holds_list_def)
  moreover have "use_count l ?t = use_count l ?s" for l by (simp add: use_count_def)
  moreover have "sorted_wrt (<) xs \<and> set xs = ups (chat_events ?s) {}" using u(1,3) by (auto simp: chat_inv_def)
  ultimately have "chat_inv ?t" using u(1,2) unfolding chat_inv_def by (auto split: if_splits)
  moreover have "onConnection c up s = Inr ?t" using xs u(2) by (simp add: onConnection_def Let_def)
  ultimately show ?thesis by blast
qed

lemma getConnectionList_ok:
  assumes "chat_inv s"
  shows "\<exists>s'. getConnectionList m s = Inr s' \<and> chat_inv s'"
proof -
  obtain xs where xs: "conn_lists s (connections s) = Some xs" "sorted_wrt (<) xs" using assms by (auto simp: chat_inv_def)
  let ?r = "\<lparr>r_msg = m, r_list = connections s, r_pos = Before, r_snap = xs, r_sent = []\<rparr>"
  have "progress ?r" using xs(2) by (simp add: progress_def)
  moreover have "use_count l s \<le> use_count l (s\<lparr>tasks := tasks s @ [?r]\<rparr>)" for l by (simp add: use_count_def)
  ultimately have "chat_inv (s\<lparr>tasks := tasks s @ [?r]\<rparr>)"
    using chat_invD [OF assms] chat_inv_tasks [OF assms] xs(1) by (intro chat_invI [of _ xs]) (auto intro: less_le_trans)
  then show ?thesis using xs(1) by (simp add: getConnectionList_def)
qed

lemma set_updated: "x \<in> set (xs[i := y]) \<Longrightarrow> x = y \<or> x \<in> set xs"
  using set_update_subset_insert [of xs i y] by auto

text \<open>A task moves on to the element after the first \<open>k\<close> of its list, or ends.\<close>

lemma advance_ok:
  assumes "chat_inv s" "i < length (tasks s)" "r_pos (tasks s ! i) \<noteq> Finished" "r_list r = r_list (tasks s ! i)"
    "r_snap r = r_snap (tasks s ! i)" "r_sent r = map (\<lambda>c. (c, frame (r_msg r))) (take k (r_snap r))" "k \<le> length (r_snap r)"
  shows "chat_inv (advance i (drop k (r_snap r)) r s)"
proof -
  let ?o = "tasks s ! i"
  have o: "?o \<in> set (tasks s)" using assms(2) by simp
  have so: "sorted_wrt (<) (r_snap r)" using chat_inv_tasks(1) [OF assms(1) o] assms(5) by (simp add: progress_def)
  have lo: "conn_lists s (r_list r) = Some (r_snap r)" using chat_inv_tasks(2) [OF assms(1) o assms(3)] assms(4,5) by simp
  obtain xs where xs: "conn_lists s (connections s) = Some xs" "sorted_wrt (<) xs" "set xs = ups (chat_events s) {}"
    using chat_invD(1) [OF assms(1)] by blast
  show ?thesis
  proof (cases "drop k (r_snap r)")
    case (Cons y ys)
    let ?r = "r\<lparr>r_pos := At y\<rparr>" and ?s = "s\<lparr>tasks := (tasks s)[i := r\<lparr>r_pos := At y\<rparr>]\<rparr>"
    have k: "k < length (r_snap r)" using Cons by (cases "k < length (r_snap r)") auto
    have "r_snap r ! k = y" using Cons Cons_nth_drop_Suc [OF k] by simp
    then have "progress ?r" using k so assms(6) unfolding progress_def by (auto intro!: exI [of _ k])
    moreover have "use_count l ?s = use_count l s" for l
      using num_update [OF assms(2), of "holds_list l" ?r] assms(3,4) by (simp add: use_count_def holds_list_def)
    ultimately have "chat_inv ?s"
      using chat_invD(2) [OF assms(1)] chat_inv_tasks [OF assms(1)] xs lo
      by (intro chat_invI [of _ xs]) (auto dest!: set_updated)
    then show ?thesis using Cons by (simp add: advance_def)
  next
    case Nil
    let ?r = "r\<lparr>r_pos := Finished\<rparr>" and ?s = "s\<lparr>tasks := (tasks s)[i := r\<lparr>r_pos := Finished\<rparr>]\<rparr>"
    have "k = length (r_snap r)" using Nil assms(7) by simp
    then have pr: "progress ?r" using so assms(6) unfolding progress_def by auto
    have uc: "use_count l s = use_count l ?s + (if l = r_list r then 1 else 0)" for l
      using num_update [OF assms(2), of "holds_list l" ?r] assms(3,4) by (auto simp: use_count_def holds_list_def)
    have act: "conn_lists s (r_list q) = Some (r_snap q)" "0 < use_count (r_list q) ?s" if "q \<in> set (tasks ?s)" "r_pos q \<noteq> Finished" for q
    proof -
      have "q \<in> set (tasks s)" using set_updated [of q "tasks s" i ?r] that by auto
      then show "conn_lists s (r_list q) = Some (r_snap q)" using chat_inv_tasks(2) [OF assms(1)] that(2) by blast
      show "0 < use_count (r_list q) ?s" using that by (auto simp: use_count_pos holds_list_def)
    qed
    let ?t = "if use_count (r_list r) ?s = 0 then ?s\<lparr>conn_lists := (conn_lists s)(r_list r := None)\<rparr> else ?s"
    have cur: "use_count (connections s) ?s \<noteq> 0" by (simp add: use_count_def)
    have ut: "use_count l ?t = use_count l ?s" for l by (simp add: use_count_def)
    have "chat_inv ?t"
    proof (rule chat_invI)
      show "conn_lists ?t (connections ?t) = Some xs" using xs(1) cur by auto
      show "sorted_wrt (<) xs" "set xs = ups (chat_events ?t) {}" using xs by simp_all
      show "l < next_list ?t \<and> 0 < use_count l ?t" if "conn_lists ?t l = Some ys" for l ys
        using that chat_invD(2) [OF assms(1), of l ys] uc [of l] unfolding ut by (auto split: if_splits)
      show "progress q" if "q \<in> set (tasks ?t)" for q
        using that pr chat_inv_tasks(1) [OF assms(1), of q] set_updated [of q "tasks s" i ?r] by (auto split: if_splits)
      show "conn_lists ?t (r_list q) = Some (r_snap q)" if "q \<in> set (tasks ?t)" "r_pos q \<noteq> Finished" for q
        using act [of q] that by (auto split: if_splits)
    qed
    then show ?thesis using Nil by (auto simp: advance_def Let_def split: if_splits)
  qed
qed

text \<open>The element after position \<open>k\<close> of a sorted set.\<close>

lemma dropWhile_sorted_nth:
  assumes "sorted_wrt (<) (xs :: nat list)" "k < length xs"
  shows "dropWhile (\<lambda>y. y \<le> xs ! k) xs = drop (Suc k) xs"
proof -
  have lo: "y \<le> xs ! k" if "y \<in> set (take (Suc k) xs)" for y
    using that assms by (auto simp: in_set_conv_nth less_Suc_eq dest: sorted_wrt_nth_less)
  have "\<not> hd (drop (Suc k) xs) \<le> xs ! k" if "drop (Suc k) xs \<noteq> []"
    using that assms sorted_wrt_nth_less [OF assms(1), of k "Suc k"] by (simp add: hd_drop_conv_nth)
  then have "dropWhile (\<lambda>y. y \<le> xs ! k) (drop (Suc k) xs) = drop (Suc k) xs"
    by (cases "drop (Suc k) xs") auto
  then show ?thesis using dropWhile_append2 [of "take (Suc k) xs" "\<lambda>y. y \<le> xs ! k" "drop (Suc k) xs"] lo by simp
qed

text \<open>What the server needs of a codec: the buffer of a message holds its frame.\<close>

locale chat_codec =
  fixes send :: "bytes \<Rightarrow> buffer result"
  assumes send_frame: "rspec (send m) (\<lambda>b. buffer_inv b \<and> content b = frame m)"
begin

lemma message_turn_ok:
  assumes "chat_inv s" "i < length (tasks s)" "r_pos (tasks s ! i) \<noteq> Finished"
  shows "\<exists>s'. message_turn send i s = Inr s' \<and> chat_inv s'"
proof -
  let ?r = "tasks s ! i"
  have r: "?r \<in> set (tasks s)" using assms(2) by simp
  have l: "conn_lists s (r_list ?r) = Some (r_snap ?r)" using chat_inv_tasks(2) [OF assms(1) r assms(3)] by simp
  obtain k where k: "sorted_wrt (<) (r_snap ?r)" "k \<le> length (r_snap ?r)" "r_sent ?r = map (\<lambda>c. (c, frame (r_msg ?r))) (take k (r_snap ?r))"
    "case r_pos ?r of Before \<Rightarrow> k = 0 | At x \<Rightarrow> k < length (r_snap ?r) \<and> r_snap ?r ! k = x | Finished \<Rightarrow> k = length (r_snap ?r)"
    using chat_inv_tasks(1) [OF assms(1) r] unfolding progress_def by blast
  show ?thesis
  proof (cases "r_pos ?r")
    case Before
    then show ?thesis using advance_ok [OF assms, of ?r 0] k l by (simp add: message_turn_def Let_def)
  next
    case (At x)
    then have x: "k < length (r_snap ?r)" "r_snap ?r ! k = x" using k(4) by simp_all
    obtain b where b: "send (r_msg ?r) = Inr b" "content b = frame (r_msg ?r)" using send_frame [of "r_msg ?r"] by (auto simp: rspec_iff)
    let ?q = "?r\<lparr>r_sent := r_sent ?r @ [(x, content b)]\<rparr>"
    have "r_sent ?q = map (\<lambda>c. (c, frame (r_msg ?q))) (take (Suc k) (r_snap ?q))"
      using x k(3) b(2) by (simp add: take_Suc_conv_app_nth)
    then have "chat_inv (advance i (drop (Suc k) (r_snap ?q)) ?q s)" using x(1) by (intro advance_ok [OF assms]) simp_all
    moreover have "dropWhile (\<lambda>y. y \<le> x) (r_snap ?r) = drop (Suc k) (r_snap ?q)" using dropWhile_sorted_nth [OF k(1) x(1)] x(2) by simp
    moreover have "x \<in> set (r_snap ?r)" using x by auto
    ultimately show ?thesis using l At b(1) by (simp add: message_turn_def Let_def)
  qed (use assms(3) in simp)
qed

lemma chat_run_ok: "chat_inv s \<Longrightarrow> \<exists>s'. rfold (chat_step send) ops s = Inr s' \<and> chat_inv s'"
proof (induction ops arbitrary: s)
  case (Cons p ops)
  have "\<exists>s'. chat_step send p s = Inr s' \<and> chat_inv s'"
    using Cons.prems onConnection_ok getConnectionList_ok message_turn_ok by (cases p) auto
  then show ?case using Cons.IH by auto
qed simp

end

interpretation udp_chat: chat_codec UdpLengthHeaderCodec_send
  by unfold_locales (rule udp_codec.send_law)

interpretation tcp_chat: chat_codec TcpLengthHeaderCodec_send
  by unfold_locales (rule tcp_codec.send_law)

section \<open>Broadcast\<close>

text \<open>What is left to do for a message: every turn of its loop makes it less.\<close>

definition togo :: "chat_task \<Rightarrow> nat" where
  "togo r = (case r_pos r of Finished \<Rightarrow> 0 | Before \<Rightarrow> length (r_snap r) + 2 | At x \<Rightarrow> length (r_snap r) + 1 - length (r_sent r))"

lemma advance_task:
  assumes "i < length (tasks s)"
  shows "tasks (advance i rest r s) = (tasks s)[i := r\<lparr>r_pos := (case rest of [] \<Rightarrow> Finished | y # _ \<Rightarrow> At y)\<rparr>]"
  using assms by (cases rest) (auto simp: advance_def Let_def)

lemma turn_togo:
  assumes "chat_inv s" "i < length (tasks s)" "r_pos (tasks s ! i) \<noteq> Finished" "message_turn send i s = Inr s'"
  shows "length (tasks s') = length (tasks s) \<and> togo (tasks s' ! i) < togo (tasks s ! i) \<and> (\<forall>j. j \<noteq> i \<longrightarrow> tasks s' ! j = tasks s ! j)"
proof -
  let ?r = "tasks s ! i"
  have pr: "progress ?r" using chat_inv_tasks(1) [OF assms(1)] assms(2) by simp
  obtain rest q where q: "tasks s' = (tasks s)[i := q\<lparr>r_pos := (case rest of [] \<Rightarrow> Finished | y # _ \<Rightarrow> At y)\<rparr>]" "r_snap q = r_snap ?r"
    "r_pos ?r = Before \<and> q = ?r \<or> (\<exists>x b. r_pos ?r = At x \<and> r_sent q = r_sent ?r @ [(x, b)])"
    using assms(2-4) by (cases "r_pos ?r") (auto simp: message_turn_def Let_def advance_task rbind_eq_Inr_iff split: option.splits if_splits)
  have "togo (q\<lparr>r_pos := (case rest of [] \<Rightarrow> Finished | y # _ \<Rightarrow> At y)\<rparr>) < togo ?r"
    using q(2,3) pr by (cases rest) (auto simp: togo_def progress_def)
  then show ?thesis using q(1) assms(2) by simp
qed

text \<open>
  C30. The chat server with any codec of the library, and any interleaving of connections that come and go and messages that
  are being sent on, in any number of threads: no assertion fails and no iterator is invalidated. The
  current list holds exactly the connections that are up. Each message goes, framed, to the connections that
  were in the list when it arrived, to each once and in order; every turn of its loop brings it nearer to the end. A
  list lives exactly as long as someone holds it.
\<close>

theorem chat_broadcast:
  assumes "send = UdpLengthHeaderCodec_send \<or> send = TcpLengthHeaderCodec_send"
  shows "\<exists>s. rfold (chat_step send) ops chat_ctor = Inr s \<and>
     (\<exists>xs. conn_lists s (connections s) = Some xs \<and> set xs = ups (chat_events s) {}) \<and>
     (\<forall>r \<in> set (tasks s). distinct (r_snap r) \<and> (\<exists>k. r_sent r = map (\<lambda>c. (c, frame (r_msg r))) (take k (r_snap r)) \<and>
        (r_pos r = Finished \<longrightarrow> r_sent r = map (\<lambda>c. (c, frame (r_msg r))) (r_snap r)))) \<and>
     (\<forall>i < length (tasks s). r_pos (tasks s ! i) \<noteq> Finished \<longrightarrow>
        (\<exists>s'. chat_step send (Turn i) s = Inr s' \<and> togo (tasks s' ! i) < togo (tasks s ! i))) \<and>
     (\<forall>l. conn_lists s l \<noteq> None \<longrightarrow> 0 < use_count l s)"
proof -
  obtain s where s: "rfold (chat_step send) ops chat_ctor = Inr s" "chat_inv s"
    using assms udp_chat.chat_run_ok [OF chat_inv_ctor] tcp_chat.chat_run_ok [OF chat_inv_ctor] by blast
  have t: "\<exists>s'. chat_step send (Turn i) s = Inr s' \<and> togo (tasks s' ! i) < togo (tasks s ! i)"
    if "i < length (tasks s)" "r_pos (tasks s ! i) \<noteq> Finished" for i
    using assms udp_chat.message_turn_ok [OF s(2) that] tcp_chat.message_turn_ok [OF s(2) that] turn_togo [OF s(2) that] that by auto
  have "distinct (r_snap r) \<and> (\<exists>k. r_sent r = map (\<lambda>c. (c, frame (r_msg r))) (take k (r_snap r)) \<and>
        (r_pos r = Finished \<longrightarrow> r_sent r = map (\<lambda>c. (c, frame (r_msg r))) (r_snap r)))" if "r \<in> set (tasks s)" for r
    using chat_inv_tasks(1) [OF s(2) that] strict_sorted_distinct [of "r_snap r"] unfolding progress_def by auto
  then show ?thesis using s t chat_invD [OF s(2)] by (intro exI [of _ s]) blast
qed

theorem chat_broadcast_witness:
  "\<exists>s. rfold (chat_step UdpLengthHeaderCodec_send) [Connection 3 True, Connection 1 True, Message [7], Turn 0, Turn 0, Connection 3 False, Turn 0] chat_ctor = Inr s \<and>
     (\<exists>xs. conn_lists s (connections s) = Some xs \<and> set xs = ups (chat_events s) {})"
  using chat_broadcast [of UdpLengthHeaderCodec_send] by blast

end
