(* ===== verification/ChatClient.thy ===== *)
theory ChatClient
  imports ChatServer
begin

text \<open>
  The chat clients (\<open>test/udp_chat_client.cpp\<close>, \<open>test/tcp_chat_client.cpp\<close>). The loop's thread reports the connection, another thread
  writes; both hold \<open>mutex_\<close>, so each call is one step. The codec is the argument \<open>send\<close>, as in \<open>ChatServer\<close>; what is sent
  is recorded with its connection. \<open>main\<close> without arguments writes numbered lines for ever.
\<close>

section \<open>The code\<close>

record chat_client =
  connection :: "nat option"
  cc_sent :: "(nat \<times> bytes) list"

definition ChatClient_ctor :: chat_client where
  "ChatClient_ctor = \<lparr>connection = None, cc_sent = []\<rparr>"

definition ChatClient_onConnection :: "nat \<Rightarrow> bool \<Rightarrow> chat_client \<Rightarrow> chat_client" where
  "ChatClient_onConnection conn connected c = (if connected then c\<lparr>connection := Some conn\<rparr> else c\<lparr>connection := None\<rparr>)"

definition codec_send :: "(bytes \<Rightarrow> buffer result) \<Rightarrow> nat \<Rightarrow> bytes \<Rightarrow> chat_client \<Rightarrow> chat_client result" where
  "codec_send send conn message c = rbind (send message) (\<lambda>b. Inr (c\<lparr>cc_sent := cc_sent c @ [(conn, content b)]\<rparr>))"

definition UdpChatClient_write :: "(bytes \<Rightarrow> buffer result) \<Rightarrow> bool \<Rightarrow> bytes \<Rightarrow> chat_client \<Rightarrow> chat_client result" where
  "UdpChatClient_write send canSend message c = (case connection c of
       Some conn \<Rightarrow> if canSend then codec_send send conn message c else Inr c
     | None \<Rightarrow> Inr c)"

definition TcpChatClient_write :: "(bytes \<Rightarrow> buffer result) \<Rightarrow> bytes \<Rightarrow> chat_client \<Rightarrow> chat_client result" where
  "TcpChatClient_write send message c = (case connection c of
       Some conn \<Rightarrow> codec_send send conn message c
     | None \<Rightarrow> Inr c)"

text \<open>\<open>sprintf(c, "%05d", i)\<close> into eight characters, the terminating zero included, and the line made of it.\<close>

definition number_text :: "nat \<Rightarrow> string" where
  "number_text i = replicate (5 - length (show_nat i)) CHR ''0'' @ show_nat i"

definition crazy_line :: "nat \<Rightarrow> string result" where
  "crazy_line i = (let c = number_text i
     in if length c + 1 \<le> 8 then Inr (''i say '' @ '' '' @ c) else Inl (Undefined ''sprintf past the end of c''))"

datatype client_event = Connection nat bool | Write bool bytes

definition client_event_step :: "(bytes \<Rightarrow> buffer result) \<Rightarrow> client_event \<Rightarrow> chat_client \<Rightarrow> chat_client result" where
  "client_event_step send e c = (case e of
       Connection conn up \<Rightarrow> Inr (ChatClient_onConnection conn up c)
     | Write canSend m \<Rightarrow> UdpChatClient_write send canSend m c)"

section \<open>What is sent\<close>

text \<open>The frames of the lines written while a connection is up and takes them.\<close>

fun expected :: "nat option \<Rightarrow> client_event list \<Rightarrow> (nat \<times> bytes) list" where
  "expected conn [] = []"
| "expected conn (Connection c up # es) = expected (if up then Some c else None) es"
| "expected conn (Write can m # es) =
     (case conn of Some c \<Rightarrow> if can then (c, frame m) # expected conn es else expected conn es | None \<Rightarrow> expected conn es)"

context chat_codec
begin

lemma client_run:
  "\<exists>c'. rfold (client_event_step send) es c = Inr c' \<and> cc_sent c' = cc_sent c @ expected (connection c) es"
proof (induction es arbitrary: c)
  case (Cons e es)
  show ?case
  proof (cases e)
    case (Connection conn up)
    then show ?thesis using Cons [of "ChatClient_onConnection conn up c"] by (auto simp: client_event_step_def ChatClient_onConnection_def)
  next
    case (Write can m)
    obtain b where b: "send m = Inr b" "content b = frame m" using send_frame [of m] by (auto simp: rspec_iff)
    show ?thesis
    proof (cases "connection c")
      case None
      then show ?thesis using Write Cons [of c] by (simp add: client_event_step_def UdpChatClient_write_def)
    next
      case (Some conn)
      then show ?thesis using Write Cons [of c] Cons [of "c\<lparr>cc_sent := cc_sent c @ [(conn, frame m)]\<rparr>"] b
        by (cases can) (auto simp: client_event_step_def UdpChatClient_write_def codec_send_def)
    qed
  qed
qed simp

end

lemma udp_client_sends:
  "\<exists>c. rfold (client_event_step UdpLengthHeaderCodec_send) es ChatClient_ctor = Inr c \<and> cc_sent c = expected None es"
  using udp_chat.client_run [of es ChatClient_ctor] by (simp add: ChatClient_ctor_def)

text \<open>The TCP client is the UDP client on a connection that always takes what is sent.\<close>

lemma tcp_client_write: "TcpChatClient_write send m c = UdpChatClient_write send True m c"
  by (simp add: TcpChatClient_write_def UdpChatClient_write_def split: option.split)

lemma length_show_nat_ge: "10 ^ k \<le> n \<Longrightarrow> k < length (show_nat n)"
proof (induction k arbitrary: n)
  case 0
  then show ?case by (subst show_nat.simps) simp
next
  case (Suc k)
  then have "10 ^ k \<le> n div 10" by (simp add: less_eq_div_iff_mult_less_eq ac_simps)
  moreover have "\<not> n < 10" using Suc.prems one_le_power [of "10 :: nat" k] by (simp, linarith)
  ultimately show ?case using Suc.IH by (subst show_nat.simps) simp
qed

text \<open>The numbered lines of \<open>main\<close>: line \<open>10 ^ 7\<close>, after less than three hours of one line each millisecond, no longer fits.\<close>

lemma crazy_line_reach:
  "crazy_line i = (if i < 10 ^ 7 then Inr (''i say  '' @ number_text i) else Inl (Undefined ''sprintf past the end of c''))"
proof (cases "i < 10 ^ 7")
  case True
  then have "length (show_nat i) \<le> 7" by (intro length_show_nat) simp_all
  then show ?thesis using True by (simp add: crazy_line_def number_text_def Let_def)
next
  case False
  then have "7 < length (show_nat i)" by (intro length_show_nat_ge) simp
  then show ?thesis using False by (simp add: crazy_line_def number_text_def Let_def)
qed

end
