(* ===== verification/LoopPoller.thy ===== *)
theory LoopPoller
  imports Poller
begin

text \<open>
  The abstract class \<open>Poller\<close> (\<open>third/muduo/net/Poller.h\<close>) as the event loop calls it: the virtual methods are a
  record of functions, one record per subclass. The locale \<open>loop_poller\<close> says what the loop relies on; it is
  weaker than \<open>io_poller\<close> in what callers must do first (an operation may stop the process at an
  assertion) and adds \<open>poll\<close>. Both subclasses meet it; \<open>newDefaultPoller\<close> picks the one over \<open>poll(2)\<close>.
\<close>

section \<open>The virtual methods\<close>

record ('p, 'k) poller_ops =
  po_channels :: "'p \<Rightarrow> fd \<rightharpoonup> cptr"
  po_update :: "cptr \<Rightarrow> 'p \<Rightarrow> cstore \<Rightarrow> ('p \<times> cstore) result"
  po_remove :: "cptr \<Rightarrow> 'p \<Rightarrow> cstore \<Rightarrow> ('p \<times> cstore) result"
  po_poll :: "'k \<Rightarrow> 'p \<Rightarrow> cstore \<Rightarrow> (cptr list \<times> 'p \<times> cstore) result"

definition Poller_hasChannel :: "('p, 'k) poller_ops \<Rightarrow> cptr \<Rightarrow> 'p \<Rightarrow> cstore \<Rightarrow> bool" where
  "Poller_hasChannel P c p h \<longleftrightarrow> po_channels P p (ch_fd (h c)) = Some c"

text \<open>\<open>PollPoller::poll\<close>: the system call returns a number and fills in the \<open>revents\<close> of the array.\<close>

definition PollPoller_poll ::
  "int \<times> 16 word list \<Rightarrow> poll_poller \<Rightarrow> cstore \<Rightarrow> (cptr list \<times> poll_poller \<times> cstore) result" where
  "PollPoller_poll = (\<lambda>(numEvents, revs) p h.
     let p1 = p\<lparr>pollfds := map2 (\<lambda>pfd r. pfd\<lparr>pfd_revents := r\<rparr>) (pollfds p) revs\<rparr> in
     if numEvents > 0
     then rbind (PollPoller_fillActiveChannels numEvents (pollfds p1) (pp_channels p1) h []) (\<lambda>(active, h').
          Inr (active, p1, h'))
     else Inr ([], p1, h))"

definition PollPoller_ops :: "(poll_poller, int \<times> 16 word list) poller_ops" where
  "PollPoller_ops = \<lparr>po_channels = pp_channels, po_update = PollPoller_updateChannel,
     po_remove = PollPoller_removeChannel, po_poll = PollPoller_poll\<rparr>"

definition EPollPoller_ops :: "(epoll_poller, (cptr \<times> 32 word) list) poller_ops" where
  "EPollPoller_ops = \<lparr>po_channels = ep_channels, po_update = EPollPoller_updateChannel,
     po_remove = EPollPoller_removeChannel, po_poll = EPollPoller_poll\<rparr>"

definition newDefaultPoller :: "(poll_poller, int \<times> 16 word list) poller_ops \<times> poll_poller" where
  "newDefaultPoller = (PollPoller_ops, PollPoller_ctor)"

section \<open>What the loop relies on\<close>

text \<open>The result may be a failed assertion or a fatal error, but nothing undefined happened.\<close>

fun clean :: "'a result \<Rightarrow> bool" where
  "clean (Inr x) = True"
| "clean (Inl (AssertFail w)) = True"
| "clean (Inl (Fatal w)) = True"
| "clean (Inl (Undefined w)) = False"
| "clean (Inl BadAnyCast) = False"

text \<open>The index of a channel that is not registered: new, or left from when it was.\<close>

definition idle_index :: "int \<Rightarrow> bool" where
  "idle_index i \<longleftrightarrow> i = -1 \<or> 0 \<le> i"

text \<open>Indices of channels outside a table are left alone.\<close>

definition index_frame :: "cptr \<Rightarrow> (fd \<rightharpoonup> cptr) \<Rightarrow> cstore \<Rightarrow> cstore \<Rightarrow> bool" where
  "index_frame c m h h' \<longleftrightarrow> (\<forall>d. d \<noteq> c \<and> d \<notin> ran m \<longrightarrow> index (h' d) = index (h d))"

definition set_revents :: "(cptr \<Rightarrow> 32 word) \<Rightarrow> cstore \<Rightarrow> cstore" where
  "set_revents r h = (\<lambda>d. (h d)\<lparr>revents := r d\<rparr>)"

locale loop_poller =
  fixes P :: "('p, 'k) poller_ops" and p0 :: 'p and inv :: "'p \<Rightarrow> cstore \<Rightarrow> bool"
    and removable :: "'p \<Rightarrow> cstore \<Rightarrow> cptr \<Rightarrow> bool" and report :: "'k \<Rightarrow> 'p \<Rightarrow> cstore \<Rightarrow> bool"
  assumes start: "inv p0 h" "po_channels P p0 = Map.empty"
    and inv_fd: "inv p h \<Longrightarrow> po_channels P p f = Some c \<Longrightarrow> ch_fd (h c) = f"
    and inv_cong: "inv p h \<Longrightarrow> (\<And>f d. po_channels P p f = Some d \<Longrightarrow>
        ch_fd (h' d) = ch_fd (h d) \<and> events (h' d) = events (h d) \<and> index (h' d) = index (h d)) \<Longrightarrow> inv p h'"
    and upd_clean: "clean (po_update P c p h)"
    and upd_done: "inv p h \<Longrightarrow> po_update P c p (with_events c ev h) = Inr (p', h') \<Longrightarrow> 0 \<le> ch_fd (h c) \<Longrightarrow>
        po_channels P p (ch_fd (h c)) = Some c \<or> c \<notin> ran (po_channels P p) \<and> idle_index (index (h c)) \<Longrightarrow>
        inv p' h' \<and> same_but_index (with_events c ev h) h' \<and> index_frame c (po_channels P p) h h' \<and>
        po_channels P p (ch_fd (h c)) \<in> {None, Some c} \<and> po_channels P p' = (po_channels P p)(ch_fd (h c) \<mapsto> c)"
    and upd_runs: "inv p h \<Longrightarrow> po_channels P p (ch_fd (h c)) = Some c \<Longrightarrow>
        rspec (po_update P c p (with_events c ev h)) (\<lambda>(p', h'). ev = 0 \<longrightarrow> removable p' h' c)"
    and rem_clean: "inv p h \<Longrightarrow> clean (po_remove P c p h)"
    and rem_done: "inv p h \<Longrightarrow> po_remove P c p h = Inr (p', h') \<Longrightarrow>
        inv p' h' \<and> same_but_index h h' \<and> index_frame c (po_channels P p) h h' \<and> idle_index (index (h' c)) \<and>
        po_channels P p (ch_fd (h c)) = Some c \<and> po_channels P p' = (po_channels P p)(ch_fd (h c) := None)"
    and rem_runs: "inv p h \<Longrightarrow> po_channels P p (ch_fd (h c)) = Some c \<Longrightarrow> removable p h c \<Longrightarrow>
        \<exists>p' h'. po_remove P c p (h(c := (h c)\<lparr>addedToLoop := a\<rparr>)) = Inr (p', h')"
    and removable_none: "inv p h \<Longrightarrow> po_channels P p (ch_fd (h c)) = Some c \<Longrightarrow> removable p h c \<Longrightarrow> events (h c) = 0"
    and poll_runs: "inv p h \<Longrightarrow> report k p h \<Longrightarrow>
        \<exists>active p' r. po_poll P k p h = Inr (active, p', set_revents r h) \<and> inv p' (set_revents r h) \<and>
          po_channels P p' = po_channels P p \<and> distinct active \<and>
          (\<forall>c \<in> set active. po_channels P p (ch_fd (h c)) = Some c)"

section \<open>The epoll poller\<close>

text \<open>The epoll poller writes the index of the channel it is given and nothing else of any channel.\<close>

definition indexed :: "cptr \<Rightarrow> cstore \<Rightarrow> cstore \<Rightarrow> bool" where
  "indexed c h h' \<longleftrightarrow> h' = h(c := (h c)\<lparr>index := index (h' c)\<rparr>)"

lemma indexed_upd [simp]: "indexed c h (h(c := (h c)\<lparr>index := i\<rparr>))"
  by (simp add: indexed_def)

lemma indexed_refl [simp]: "indexed c h h"
  by (simp add: indexed_def)

lemma indexedD: "indexed c h h' \<Longrightarrow> d \<noteq> c \<Longrightarrow> h' d = h d"
  by (simp add: indexed_def) (metis fun_upd_other)

lemma indexed_frame: "indexed c (with_events c ev h) h' \<Longrightarrow> index_frame c m h h'"
  by (auto simp: index_frame_def with_events_def dest: indexedD)

lemma indexed_frame': "indexed c h h' \<Longrightarrow> index_frame c m h h'"
  by (auto simp: index_frame_def dest: indexedD)

lemma ep_upd_indexed: "EPollPoller_updateChannel c p h = Inr (p', h') \<Longrightarrow> indexed c h h'"
  by (auto simp: EPollPoller_updateChannel_def Let_def rbind_eq_Inr_iff split: if_splits)

lemma ep_rem_indexed: "EPollPoller_removeChannel c p h = Inr (p', h') \<Longrightarrow> indexed c h h'"
  by (auto simp: EPollPoller_removeChannel_def Let_def rbind_eq_Inr_iff)

text \<open>An update of a registered channel, whatever its mask was.\<close>

lemma ep_upd_any:
  assumes inv: "ep_inv p h" and r: "ep_channels p (ch_fd (h c)) = Some c"
  shows "rspec (EPollPoller_updateChannel c p (with_events c ev h)) (\<lambda>(p', h'). ep_inv p' h' \<and>
     same_but_index (with_events c ev h) h' \<and> ep_channels p' = ep_channels p)"
proof (cases "ep_muted p h c \<and> ev = 0")
  case True
  let ?f = "ch_fd (h c)"
  let ?ch = "(h c)\<lparr>events := ev, addedToLoop := True, index := kAdded\<rparr>"
  have e: "index (h c) = kDeleted" "ep_kernel p ?f = None"
    using True ep_invD [OF inv r] by (auto simp: ep_entry_def ep_muted_def)
  have same: "(ep_channels p)(?f \<mapsto> c) = ep_channels p" using r by (simp add: fun_upd_idem)
  have "EPollPoller_updateChannel c p (with_events c ev h) =
      Inr (p\<lparr>ep_kernel := (ep_kernel p)(?f := Some (ev, c))\<rparr>, h(c := ?ch))"
    using e r by (simp add: ep_ops)
  moreover have "ep_inv (p\<lparr>ep_channels := (ep_channels p)(?f \<mapsto> c), ep_kernel := (ep_kernel p)(?f := Some (ev, c))\<rparr>) (h(c := ?ch))"
    using ep_inv_other [OF inv r] by (intro ep_inv_set [OF inv]) (auto simp: ep_entry_def)
  moreover have "p\<lparr>ep_channels := ep_channels p, ep_kernel := k\<rparr> = p\<lparr>ep_kernel := k\<rparr>" for k by simp
  ultimately show ?thesis by (simp add: same same_but_index_def with_events_def)
next
  case False
  with ep_upd_old [OF inv r, of ev] show ?thesis by (auto elim!: rspec_mono)
qed


lemma clean_rbind: "clean m \<Longrightarrow> (\<And>x. m = Inr x \<Longrightarrow> clean (f x)) \<Longrightarrow> clean (rbind m f)"
  by (cases m rule: clean.cases) auto

lemma clean_cassert [simp]: "clean (cassert b w)"
  by (simp add: cassert_def)

lemma ep_update_clean [simp]: "clean (EPollPoller_update op c p h)"
  by (simp add: EPollPoller_update_def split: option.splits)

lemma ep_upd_clean: "clean (EPollPoller_updateChannel c p h)"
  unfolding EPollPoller_updateChannel_def Let_def by (auto intro!: clean_rbind)

lemma ep_rem_clean: "clean (EPollPoller_removeChannel c p h)"
  unfolding EPollPoller_removeChannel_def Let_def by (auto intro!: clean_rbind)

lemma ep_upd_done:
  assumes inv: "ep_inv p h" and u: "EPollPoller_updateChannel c p (with_events c ev h) = Inr (p', h')"
    and c: "ep_channels p (ch_fd (h c)) = Some c \<or> c \<notin> ran (ep_channels p) \<and> idle_index (index (h c))"
  shows "ep_inv p' h' \<and> same_but_index (with_events c ev h) h' \<and> index_frame c (ep_channels p) h h' \<and>
     ep_channels p (ch_fd (h c)) \<in> {None, Some c} \<and> ep_channels p' = (ep_channels p)(ch_fd (h c) \<mapsto> c)"
proof (cases "ep_channels p (ch_fd (h c)) = Some c")
  case True
  with ep_upd_any [OF inv True, of ev] u indexed_frame [OF ep_upd_indexed [OF u]] show ?thesis by (simp add: fun_upd_idem)
next
  case False
  have n: "index (h c) = -1" "ep_channels p (ch_fd (h c)) = None" "c \<notin> ran (ep_channels p)"
    using u False c by (auto simp: EPollPoller_updateChannel_def Let_def with_events_def kNew_def rbind_eq_Inr_iff split: if_splits)
  from ep_upd_new [OF inv n(2,1,3), of ev] u n indexed_frame [OF ep_upd_indexed [OF u]] show ?thesis by simp
qed

lemma ep_rem_done:
  assumes inv: "ep_inv p h" and r: "EPollPoller_removeChannel c p h = Inr (p', h')"
  shows "ep_inv p' h' \<and> same_but_index h h' \<and> index_frame c (ep_channels p) h h' \<and> idle_index (index (h' c)) \<and>
     ep_channels p (ch_fd (h c)) = Some c \<and> ep_channels p' = (ep_channels p)(ch_fd (h c) := None)"
proof -
  have c: "ep_channels p (ch_fd (h c)) = Some c" "events (h c) = 0"
    using r by (auto simp: EPollPoller_removeChannel_def Let_def isNoneEvent_def kNoneEvent_def rbind_eq_Inr_iff)
  from ep_rem [OF inv c] r indexed_frame' [OF ep_rem_indexed [OF r]] c(1) show ?thesis
    by (simp add: idle_index_def kNew_def)
qed

lemma ep_inv_cong:
  assumes inv: "ep_inv p h" and same: "\<And>f d. ep_channels p f = Some d \<Longrightarrow>
     ch_fd (h' d) = ch_fd (h d) \<and> events (h' d) = events (h d) \<and> index (h' d) = index (h d)"
  shows "ep_inv p h'"
  using inv same by (simp add: ep_inv_def ep_entry_def)

text \<open>What \<open>epoll_wait\<close> may report: watched descriptors, each once, no more than asked for.\<close>

definition ep_watched :: "epoll_poller \<Rightarrow> cstore \<Rightarrow> cptr \<Rightarrow> bool" where
  "ep_watched p h c = (case ep_kernel p (ch_fd (h c)) of None \<Rightarrow> False | Some (m, d) \<Rightarrow> d = c)"

definition epoll_report :: "(cptr \<times> 32 word) list \<Rightarrow> epoll_poller \<Rightarrow> cstore \<Rightarrow> bool" where
  "epoll_report ready p h \<longleftrightarrow> distinct (map fst ready) \<and> length ready \<le> ep_events_size p \<and>
     list_all (ep_watched p h) (map fst ready)"

lemma ep_entry_owner: "ep_entry (Some (m, c)) ch f d \<Longrightarrow> d = c"
  by (auto simp: ep_entry_def)

lemma ep_watched_registered:
  assumes inv: "ep_inv p h" and w: "ep_watched p h c"
  shows "ep_channels p (ch_fd (h c)) = Some c"
proof -
  obtain m where k: "ep_kernel p (ch_fd (h c)) = Some (m, c)" using w by (auto simp: ep_watched_def split: option.splits)
  then have "ch_fd (h c) \<in> dom (ep_kernel p)" by (rule domI)
  moreover have "dom (ep_kernel p) \<subseteq> dom (ep_channels p)" using inv by (simp add: ep_inv_def)
  ultimately have "ch_fd (h c) \<in> dom (ep_channels p)" by (rule subsetD [rotated])
  then obtain d where d: "ep_channels p (ch_fd (h c)) = Some d" by (auto simp: dom_def)
  have "d = c" by (rule ep_entry_owner [OF ep_invD [OF inv d, unfolded k]])
  with d show ?thesis by simp
qed

lemma ep_fill_store:
  "EPollPoller_fillActiveChannels ready p h acc = Inr (active, h') \<Longrightarrow> \<exists>r. h' = set_revents r h"
proof (induction ready arbitrary: h acc)
  case Nil
  then show ?case by (auto simp: set_revents_def intro!: exI [of _ "\<lambda>d. revents (h d)"])
next
  case (Cons a ready)
  obtain c ev where a: "a = (c, ev)" by (cases a)
  from Cons a obtain r where "h' = set_revents r (h(c := (h c)\<lparr>revents := ev\<rparr>))"
    by (fastforce simp: rbind_eq_Inr_iff)
  then show ?case by (auto simp: set_revents_def intro!: exI [of _ r])
qed

lemma ep_poll_runs:
  assumes inv: "ep_inv p h" and e: "epoll_report ready p h"
  shows "\<exists>active p' r. EPollPoller_poll ready p h = Inr (active, p', set_revents r h) \<and> ep_inv p' (set_revents r h) \<and>
     ep_channels p' = ep_channels p \<and> distinct active \<and> (\<forall>c \<in> set active. ep_channels p (ch_fd (h c)) = Some c)"
proof (cases "ready = []")
  case True
  have "set_revents (\<lambda>d. revents (h d)) h = h" by (auto simp: set_revents_def)
  with True inv show ?thesis by (auto simp: EPollPoller_poll_def intro!: exI [of _ "\<lambda>d. revents (h d)"])
next
  case False
  have reg: "ep_channels p (ch_fd (h c)) = Some c" if "c \<in> set (map fst ready)" for c
    using e that ep_watched_registered [OF inv] unfolding epoll_report_def list_all_iff by blast
  then have "\<forall>(c, ev) \<in> set ready. ep_channels p (ch_fd (h c)) = Some c" by force
  from ep_fill_ok [OF this, of "[]"] e obtain h' where
    h': "EPollPoller_fillActiveChannels ready p h [] = Inr (map fst ready, h')"
    by (auto simp: epoll_report_def rspec_iff)
  from ep_fill_store [OF h'] obtain r where r: "h' = set_revents r h" by blast
  let ?p = "if length ready = ep_events_size p then p\<lparr>ep_events_size := ep_events_size p * 2\<rparr> else p"
  have "ep_inv ?p (set_revents r h)" using inv by (simp add: ep_inv_def ep_entry_def set_revents_def)
  moreover have "EPollPoller_poll ready p h = Inr (map fst ready, ?p, set_revents r h)"
    using h' r e False by (simp add: EPollPoller_poll_def epoll_report_def)
  ultimately show ?thesis using reg e by (auto simp: epoll_report_def)
qed

interpretation ep: loop_poller EPollPoller_ops EPollPoller_ctor ep_inv "\<lambda>p h c. events (h c) = 0" epoll_report
proof
  fix p h f c
  show "ep_inv p h \<Longrightarrow> po_channels EPollPoller_ops p f = Some c \<Longrightarrow> ch_fd (h c) = f"
    using ep_invD [of p h f c] by (simp add: EPollPoller_ops_def ep_entry_def)
next
  fix p h c ev
  assume "ep_inv p h" "po_channels EPollPoller_ops p (ch_fd (h c)) = Some c"
  with ep_upd_any [of p h c ev] show "rspec (po_update EPollPoller_ops c p (with_events c ev h)) (\<lambda>(p', h'). ev = 0 \<longrightarrow> events (h' c) = 0)"
    by (auto simp: EPollPoller_ops_def with_events_def elim!: rspec_mono dest: same_but_indexD [where d = c])
next
  fix p h c a
  assume i: "ep_inv p h" "po_channels EPollPoller_ops p (ch_fd (h c)) = Some c" "events (h c) = 0"
  let ?h = "h(c := (h c)\<lparr>addedToLoop := a\<rparr>)"
  have "ep_inv p ?h" by (rule ep_inv_cong [OF i(1)]) auto
  from ep_rem [OF this, of c] i show "\<exists>p' h'. po_remove EPollPoller_ops c p ?h = Inr (p', h')"
    by (auto simp: EPollPoller_ops_def rspec_iff)
qed (auto simp: EPollPoller_ops_def ep_upd_clean ep_rem_clean dest: ep_upd_done ep_rem_done ep_poll_runs
     intro: ep_inv_cong, simp_all add: EPollPoller_ctor_def)

section \<open>The poll poller\<close>

lemma pp_upd_indexed: "PollPoller_updateChannel c p h = Inr (p', h') \<Longrightarrow> indexed c h h'"
  by (auto simp: PollPoller_updateChannel_def Let_def rbind_eq_Inr_iff split: if_splits)

lemma pp_upd_clean: "clean (PollPoller_updateChannel c p h)"
  unfolding PollPoller_updateChannel_def Let_def by (auto intro!: clean_rbind)

lemma pp_upd_done:
  assumes inv: "pp_inv p h" and u: "PollPoller_updateChannel c p (with_events c ev h) = Inr (p', h')" and f: "0 \<le> ch_fd (h c)"
    and c: "pp_channels p (ch_fd (h c)) = Some c \<or> c \<notin> ran (pp_channels p) \<and> idle_index (index (h c))"
  shows "pp_inv p' h' \<and> same_but_index (with_events c ev h) h' \<and> index_frame c (pp_channels p) h h' \<and>
     pp_channels p (ch_fd (h c)) \<in> {None, Some c} \<and> pp_channels p' = (pp_channels p)(ch_fd (h c) \<mapsto> c)"
proof (cases "pp_channels p (ch_fd (h c)) = Some c")
  case True
  with pp_upd_old [OF inv True, of ev] u indexed_frame [OF pp_upd_indexed [OF u]] show ?thesis by (simp add: fun_upd_idem)
next
  case False
  have n: "index (h c) = -1" "pp_channels p (ch_fd (h c)) = None" "c \<notin> ran (pp_channels p)"
    using u False c by (auto simp: PollPoller_updateChannel_def Let_def with_events_def idle_index_def rbind_eq_Inr_iff split: if_splits)
  from pp_upd_new [OF inv n(2,1) f n(3), of ev] u n indexed_frame [OF pp_upd_indexed [OF u]] show ?thesis by simp
qed

text \<open>\<open>removeChannel\<close> succeeds on muted channels and stops at an assertion on all others.\<close>

lemma pp_rem_cases:
  assumes inv: "pp_inv p h"
  obtains "pp_channels p (ch_fd (h c)) = Some c" "pp_muted p h c"
    | w where "PollPoller_removeChannel c p h = Inl (AssertFail w)"
proof (cases "pp_channels p (ch_fd (h c)) = Some c \<and> pp_muted p h c")
  case True
  then show thesis using that(1) by simp
next
  case False
  show thesis
  proof (cases "pp_channels p (ch_fd (h c)) = Some c")
    case True
    with pp_invD [OF inv True] False have "0 \<le> ch_fd (h c)" "0 \<le> index (h c)" "index (h c) < int (length (pollfds p))"
        "pfd_fd (pollfds p ! nat (index (h c))) \<noteq> - ch_fd (h c) - 1"
      by (auto simp: pp_entry_def pp_muted_def)
    with True have "\<exists>w. PollPoller_removeChannel c p h = Inl (AssertFail w)"
      by (cases "isNoneEvent (h c)") (simp_all add: PollPoller_removeChannel_def Let_def)
    then show thesis using that(2) by blast
  next
    case reg: False
    then have "\<exists>w. PollPoller_removeChannel c p h = Inl (AssertFail w)"
      by (cases "pp_channels p (ch_fd (h c))") (simp_all add: PollPoller_removeChannel_def Let_def)
    then show thesis using that(2) by blast
  qed
qed

text \<open>The one index it writes is that of the channel whose entry it moves, which is registered.\<close>

lemma pp_rem_frame:
  assumes inv: "pp_inv p h" and r: "PollPoller_removeChannel c p h = Inr (p', h')"
  shows "index_frame c (pp_channels p) h h' \<and> idle_index (index (h' c))"
proof -
  have i: "0 \<le> index (h c)"
    using r by (auto simp: PollPoller_removeChannel_def Let_def rbind_eq_Inr_iff)
  have "h' = h \<or> (\<exists>d g. pp_channels p g = Some d \<and> h' = h(d := (h d)\<lparr>index := index (h c)\<rparr>))"
    using r by (auto simp: PollPoller_removeChannel_def Let_def rbind_eq_Inr_iff split: if_splits option.splits)
  then show ?thesis using i by (auto simp: index_frame_def idle_index_def ran_def split: if_splits)
qed

lemma pp_rem_done:
  assumes inv: "pp_inv p h" and r: "PollPoller_removeChannel c p h = Inr (p', h')"
  shows "pp_inv p' h' \<and> same_but_index h h' \<and> index_frame c (pp_channels p) h h' \<and> idle_index (index (h' c)) \<and>
     pp_channels p (ch_fd (h c)) = Some c \<and> pp_channels p' = (pp_channels p)(ch_fd (h c) := None)"
proof (rule pp_rem_cases [OF inv])
  assume "pp_channels p (ch_fd (h c)) = Some c" "pp_muted p h c"
  with pp_rem [OF inv this] r pp_rem_frame [OF inv r] show ?thesis by simp
next
  fix w
  assume "PollPoller_removeChannel c p h = Inl (AssertFail w)"
  with r show ?thesis by simp
qed

lemma pp_rem_clean:
  assumes inv: "pp_inv p h"
  shows "clean (PollPoller_removeChannel c p h)"
proof (rule pp_rem_cases [OF inv])
  assume "pp_channels p (ch_fd (h c)) = Some c" "pp_muted p h c"
  from pp_rem [OF inv this] show ?thesis by (auto simp: rspec_iff)
qed simp

lemma pp_inv_cong:
  assumes inv: "pp_inv p h" and same: "\<And>f d. pp_channels p f = Some d \<Longrightarrow>
     ch_fd (h' d) = ch_fd (h d) \<and> events (h' d) = events (h d) \<and> index (h' d) = index (h d)"
  shows "pp_inv p h'"
proof -
  have "\<exists>c. pp_channels p (pfd_owner (pollfds p ! i)) = Some c \<and> index (h' c) = int i" if "i < length (pollfds p)" for i
    using pp_slot [OF inv that] same by metis
  then show ?thesis using inv same by (simp add: pp_inv_def pp_entry_def)
qed

text \<open>
  What \<open>poll(2)\<close> may report: events only for entries that are not muted, as flags of positive value, and
  their number; or a number that is not positive, when it timed out or was interrupted.
\<close>

definition poll_report :: "int \<times> 16 word list \<Rightarrow> poll_poller \<Rightarrow> cstore \<Rightarrow> bool" where
  "poll_report = (\<lambda>(n, revs) p h. length revs = length (pollfds p) \<and>
     list_all (\<lambda>(e, r). r \<noteq> 0 \<longrightarrow> 0 \<le> pfd_fd e \<and> 0 < sint r) (zip (pollfds p) revs) \<and>
     (n \<le> 0 \<or> n = int (length (filter (\<lambda>r. r \<noteq> 0) revs))))"

definition fired_entry :: "pollfd \<Rightarrow> bool" where
  "fired_entry e \<longleftrightarrow> 0 < sint (pfd_revents e)"

lemma pp_fill_ok:
  assumes "\<forall>e \<in> set fds. fired_entry e \<longrightarrow> (\<exists>c. chans (pfd_fd e) = Some c \<and> ch_fd (h c) = pfd_fd e)"
    and "int (length (filter fired_entry fds)) \<le> n"
  shows "\<exists>r. PollPoller_fillActiveChannels n fds chans h active =
     Inr (active @ map (\<lambda>e. the (chans (pfd_fd e))) (filter fired_entry fds), set_revents r h)"
  using assms
proof (induction fds arbitrary: n h active)
  case Nil
  show ?case by (auto simp: set_revents_def intro!: exI [of _ "\<lambda>d. revents (h d)"])
next
  case (Cons e fds)
  show ?case
  proof (cases "fired_entry e")
    case True
    then obtain c where c: "chans (pfd_fd e) = Some c" "ch_fd (h c) = pfd_fd e" using Cons.prems by auto
    let ?h = "h(c := (h c)\<lparr>revents := scast (pfd_revents e)\<rparr>)"
    have "\<exists>r. PollPoller_fillActiveChannels (n - 1) fds chans ?h (active @ [c]) =
       Inr ((active @ [c]) @ map (\<lambda>e. the (chans (pfd_fd e))) (filter fired_entry fds), set_revents r ?h)"
      using Cons.prems True by (intro Cons.IH) auto
    moreover have "set_revents r ?h = set_revents r h" for r by (auto simp: set_revents_def)
    moreover have "0 < n" using Cons.prems(2) True by simp
    ultimately show ?thesis using True c by (simp add: fired_entry_def [of e])
  next
    case False
    moreover have "set_revents (\<lambda>d. revents (h d)) h = h" by (auto simp: set_revents_def)
    moreover have "filter fired_entry fds = []" if "\<not> 0 < n"
    proof -
      have "int (length (filter fired_entry fds)) \<le> n" using Cons.prems(2) False by simp
      with that have "int (length (filter fired_entry fds)) \<le> 0" by linarith
      then show ?thesis by (simp only: of_nat_le_0_iff length_0_conv)
    qed
    ultimately show ?thesis using Cons.IH [of h n active] Cons.prems
      by (cases "0 < n") (auto simp: fired_entry_def [of e] intro!: exI [of _ "\<lambda>d. revents (h d)"])
  qed
qed

text \<open>Each entry of the array belongs to a channel of its own.\<close>

lemma pp_owners_distinct:
  assumes inv: "pp_inv p h"
  shows "distinct (map (\<lambda>e. the (pp_channels p (pfd_owner e))) (pollfds p))"
proof -
  have "index (h (the (pp_channels p (pfd_owner (pollfds p ! i))))) = int i" if "i < length (pollfds p)" for i
    using pp_slot [OF inv that] by auto
  then show ?thesis unfolding distinct_conv_nth by (auto dest: arg_cong [where f = "\<lambda>c. index (h c)"])
qed

definition with_revents :: "16 word list \<Rightarrow> pollfd list \<Rightarrow> pollfd list" where
  "with_revents revs fds = map2 (\<lambda>pfd r. pfd\<lparr>pfd_revents := r\<rparr>) fds revs"

lemma with_revents_nth:
  assumes "length revs = length fds" "i < length fds"
  shows "with_revents revs fds ! i = (fds ! i)\<lparr>pfd_revents := revs ! i\<rparr>"
  using assms by (simp add: with_revents_def)

lemma length_with_revents [simp]: "length revs = length fds \<Longrightarrow> length (with_revents revs fds) = length fds"
  by (simp add: with_revents_def)

lemma pp_inv_revents:
  assumes inv: "pp_inv p h" and len: "length revs = length (pollfds p)"
  shows "pp_inv (p\<lparr>pollfds := with_revents revs (pollfds p)\<rparr>) (set_revents r h)"
proof -
  have own: "pfd_owner (e\<lparr>pfd_revents := x\<rparr>) = pfd_owner e" for e x by (simp add: pfd_owner_def)
  have "pp_entry (with_revents revs (pollfds p)) (set_revents r h c) f" if "pp_channels p f = Some c" for f c
    using pp_invD [OF inv that] len by (simp add: pp_entry_def set_revents_def with_revents_nth own)
  moreover have "\<exists>c. pp_channels p (pfd_owner (with_revents revs (pollfds p) ! i)) = Some c \<and> index (set_revents r h c) = int i"
    if "i < length (pollfds p)" for i
    using pp_slot [OF inv that] that len by (simp add: set_revents_def with_revents_nth own)
  ultimately show ?thesis using len by (simp add: pp_inv_def)
qed

lemma fired_count:
  "length revs = length fds \<Longrightarrow> length (filter fired_entry (with_revents revs fds)) \<le> length (filter (\<lambda>r. r \<noteq> 0) revs)"
  by (induction revs fds rule: list_induct2) (auto simp: with_revents_def fired_entry_def)

text \<open>An entry that fired belongs to the registered channel of its descriptor.\<close>

lemma fired_registered:
  assumes inv: "pp_inv p h" and e: "poll_report (n, revs) p h" and x: "x \<in> set (with_revents revs (pollfds p))" "fired_entry x"
  shows "\<exists>c. pp_channels p (pfd_fd x) = Some c \<and> ch_fd (h c) = pfd_fd x" and "pfd_owner x = pfd_fd x"
proof -
  have len: "length revs = length (pollfds p)" using e by (simp add: poll_report_def)
  obtain i where i: "i < length (pollfds p)" "x = (pollfds p ! i)\<lparr>pfd_revents := revs ! i\<rparr>"
    using x(1) len by (auto simp: in_set_conv_nth with_revents_nth)
  have "(pollfds p ! i, revs ! i) \<in> set (zip (pollfds p) revs)" using i len by (auto simp: in_set_conv_nth)
  moreover have "revs ! i \<noteq> 0" using x(2) i(2) by (auto simp: fired_entry_def)
  ultimately have f: "0 \<le> pfd_fd (pollfds p ! i)" using e by (auto simp: poll_report_def list_all_iff)
  then show "pfd_owner x = pfd_fd x" using i(2) by (simp add: pfd_owner_def)
  from pp_slot [OF inv i(1)] f obtain c where "pp_channels p (pfd_fd (pollfds p ! i)) = Some c" by (auto simp: pfd_owner_def)
  with pp_invD [OF inv this] i(2) show "\<exists>c. pp_channels p (pfd_fd x) = Some c \<and> ch_fd (h c) = pfd_fd x" by (simp add: pp_entry_def)
qed

lemma pp_poll_runs:
  assumes inv: "pp_inv p h" and e: "poll_report k p h"
  shows "\<exists>active p' r. PollPoller_poll k p h = Inr (active, p', set_revents r h) \<and> pp_inv p' (set_revents r h) \<and>
     pp_channels p' = pp_channels p \<and> distinct active \<and> (\<forall>c \<in> set active. pp_channels p (ch_fd (h c)) = Some c)"
proof -
  obtain n revs where k: "k = (n, revs)" by (cases k)
  let ?fds = "with_revents revs (pollfds p)"
  let ?p = "p\<lparr>pollfds := ?fds\<rparr>"
  have len: "length revs = length (pollfds p)" using e k by (simp add: poll_report_def)
  have poll: "PollPoller_poll k p h = (if n > 0
      then rbind (PollPoller_fillActiveChannels n ?fds (pp_channels p) h []) (\<lambda>(active, h'). Inr (active, ?p, h')) else Inr ([], ?p, h))"
    by (simp add: PollPoller_poll_def k Let_def with_revents_def)
  note fired = fired_registered [OF inv e [unfolded k]]
  show ?thesis
  proof (cases "0 < n")
    case True
    have n: "int (length (filter fired_entry ?fds)) \<le> n" using fired_count [OF len] True e k by (simp add: poll_report_def)
    let ?act = "map (\<lambda>e. the (pp_channels p (pfd_fd e))) (filter fired_entry ?fds)"
    obtain r where "PollPoller_fillActiveChannels n ?fds (pp_channels p) h [] = Inr (?act, set_revents r h)"
      using pp_fill_ok [of ?fds "pp_channels p" h n "[]"] fired(1) n by auto
    then have "PollPoller_poll k p h = Inr (?act, ?p, set_revents r h)" using poll True by simp
    moreover have "?act = map (\<lambda>e. the (pp_channels ?p (pfd_owner e))) (filter fired_entry (pollfds ?p))"
      using fired(2) by simp
    then have "distinct ?act"
      using pp_owners_distinct [OF pp_inv_revents [OF inv len]] by (simp only: distinct_map_filter)
    moreover have "pp_channels p (ch_fd (h c)) = Some c" if "c \<in> set ?act" for c
      using that fired(1) by fastforce
    ultimately show ?thesis using pp_inv_revents [OF inv len] by auto
  next
    case False
    have "set_revents (\<lambda>d. revents (h d)) h = h" by (auto simp: set_revents_def)
    with False poll pp_inv_revents [OF inv len, of "\<lambda>d. revents (h d)"] show ?thesis
      by (auto intro!: exI [of _ "\<lambda>d. revents (h d)"])
  qed
qed

interpretation pp: loop_poller PollPoller_ops PollPoller_ctor pp_inv pp_muted poll_report
proof
  fix p h f c
  show "pp_inv p h \<Longrightarrow> po_channels PollPoller_ops p f = Some c \<Longrightarrow> ch_fd (h c) = f"
    using pp_invD [of p h f c] by (simp add: PollPoller_ops_def pp_entry_def)
next
  fix p h c ev
  assume "pp_inv p h" "po_channels PollPoller_ops p (ch_fd (h c)) = Some c"
  with pp_upd_old [of p h c ev] show "rspec (po_update PollPoller_ops c p (with_events c ev h)) (\<lambda>(p', h'). ev = 0 \<longrightarrow> pp_muted p' h' c)"
    by (auto simp: PollPoller_ops_def elim!: rspec_mono)
next
  fix p h c a
  assume i: "pp_inv p h" "po_channels PollPoller_ops p (ch_fd (h c)) = Some c" "pp_muted p h c"
  let ?h = "h(c := (h c)\<lparr>addedToLoop := a\<rparr>)"
  have "pp_inv p ?h" by (rule pp_inv_cong [OF i(1)]) auto
  from pp_rem [OF this, of c] i show "\<exists>p' h'. po_remove PollPoller_ops c p ?h = Inr (p', h')"
    by (auto simp: PollPoller_ops_def pp_muted_def rspec_iff)
next
  fix p h c
  assume "pp_inv p h" "po_channels PollPoller_ops p (ch_fd (h c)) = Some c" "pp_muted p h c"
  then show "events (h c) = 0" using pp_invD [of p h "ch_fd (h c)" c] by (simp add: PollPoller_ops_def pp_muted_def pp_entry_def)
qed (auto simp: PollPoller_ops_def pp_upd_clean pp_rem_clean dest: pp_upd_done pp_rem_done pp_poll_runs
     intro: pp_inv_cong, simp_all add: PollPoller_ctor_def)

end
