(* ===== verification/Reactor.thy ===== *)
theory Reactor
  imports EventLoop LoopPoller TimerQueue
begin

text \<open>
  The reactor: \<open>EventLoop\<close> (\<open>third/muduo/net/EventLoop.cc\<close>) put together with a poller and the channels,
  which neither owns. Channel objects live at addresses and die; the loop keeps bare pointers
  to them, in the poller's table and in \<open>activeChannels_\<close>. What user code does in a callback or in a
  queued functor is a list of operations on channels and on the loop; a read of a channel that is dead
  is undefined, and the model tells apart whether the loop or the callback did it. The poller is any that
  meets \<open>loop_poller\<close>; the properties are about the default one. All channels belong
  to this loop, and everything here runs in its thread.
\<close>

section \<open>Operations\<close>

record 'p reactor =
  r_loop :: event_loop
  r_poller :: 'p
  r_store :: cstore
  r_live :: "cptr set"

definition EventLoop_updateChannel :: "('p, 'k) poller_ops \<Rightarrow> bool \<Rightarrow> cptr \<Rightarrow> 'p reactor \<Rightarrow> 'p reactor result" where
  "EventLoop_updateChannel P inLoopThread c s =
     (if \<not> inLoopThread then Inl (Fatal ''EventLoop::abortNotInLoopThread'')
      else rbind (po_update P c (r_poller s) (r_store s)) (\<lambda>(p, h).
           Inr (s\<lparr>r_poller := p, r_store := h\<rparr>)))"

definition EventLoop_removeChannel :: "('p, 'k) poller_ops \<Rightarrow> bool \<Rightarrow> cptr \<Rightarrow> 'p reactor \<Rightarrow> 'p reactor result" where
  "EventLoop_removeChannel P inLoopThread c s =
     rbind (EventLoop_removeChannel_check inLoopThread c (r_loop s)) (\<lambda>_.
     rbind (po_remove P c (r_poller s) (r_store s)) (\<lambda>(p, h).
     Inr (s\<lparr>r_poller := p, r_store := h\<rparr>)))"

definition EventLoop_hasChannel :: "('p, 'k) poller_ops \<Rightarrow> bool \<Rightarrow> cptr \<Rightarrow> 'p reactor \<Rightarrow> bool result" where
  "EventLoop_hasChannel P inLoopThread c s =
     (if \<not> inLoopThread then Inl (Fatal ''EventLoop::abortNotInLoopThread'')
      else Inr (Poller_hasChannel P c (r_poller s) (r_store s)))"

datatype mask_op = EnableReading | DisableReading | EnableWriting | DisableWriting | DisableAll

fun apply_mask :: "mask_op \<Rightarrow> channel \<Rightarrow> channel" where
  "apply_mask EnableReading c = enableReading c"
| "apply_mask DisableReading c = disableReading c"
| "apply_mask EnableWriting c = enableWriting c"
| "apply_mask DisableWriting c = disableWriting c"
| "apply_mask DisableAll c = disableAll c"

text \<open>
  What callbacks and functors do. \<open>NewChannel\<close> constructs a channel at an address the allocator may
  return, for a descriptor; \<open>ReadWakeup\<close> is \<open>EventLoop::handleRead\<close>, the read callback of the eventfd's channel.
\<close>

datatype react =
    SetMask mask_op cptr
  | RemoveChannel cptr
  | NewChannel cptr fd
  | DeleteChannel cptr
  | QueueInLoop ftor
  | QuitLoop
  | ReadWakeup

definition user_fault :: "'a result" where
  "user_fault = Inl (Undefined ''callback'')"

fun run_react :: "('p, 'k) poller_ops \<Rightarrow> react \<Rightarrow> 'p reactor \<Rightarrow> 'p reactor result" where
  "run_react P (SetMask op c) s =
     (if c \<notin> r_live s then user_fault
      else EventLoop_updateChannel P True c (s\<lparr>r_store := (r_store s)(c := apply_mask op (r_store s c))\<rparr>))"
| "run_react P (RemoveChannel c) s =
     (if c \<notin> r_live s then user_fault
      else rbind (Channel_remove (r_store s c)) (\<lambda>ch.
           EventLoop_removeChannel P True c (s\<lparr>r_store := (r_store s)(c := ch)\<rparr>)))"
| "run_react P (NewChannel c f) s =
     (if c \<in> r_live s \<or> f < 0 then user_fault
      else Inr (s\<lparr>r_store := (r_store s)(c := Channel_ctor f), r_live := insert c (r_live s)\<rparr>))"
| "run_react P (DeleteChannel c) s =
     (if c \<notin> r_live s then user_fault
      else rbind (EventLoop_hasChannel P True c s) (\<lambda>registered.
           rbind (Channel_dtor True registered (r_store s c)) (\<lambda>_.
           Inr (s\<lparr>r_live := r_live s - {c}\<rparr>))))"
| "run_react P (QueueInLoop f) s = Inr (s\<lparr>r_loop := EventLoop_queueInLoop True f (r_loop s)\<rparr>)"
| "run_react P QuitLoop s = Inr (s\<lparr>r_loop := EventLoop_quit True (r_loop s)\<rparr>)"
| "run_react P ReadWakeup s = Inr (s\<lparr>r_loop := EventLoop_handleRead (r_loop s)\<rparr>)"

text \<open>
  The constructor makes the poller, then the timer queue with its channel (address 1), then the
  eventfd's channel (address 0), and ends the process when the thread has a loop already. The destructor
  unregisters the eventfd's channel; the members go in the opposite order, the timer queue's destructor
  unregistering its channel with the poller still there.
\<close>

definition reactor_blank :: "'p \<Rightarrow> 'p reactor" where
  "reactor_blank p0 = \<lparr>r_loop = EventLoop_ctor, r_poller = p0, r_store = (\<lambda>_. Channel_ctor 0), r_live = {}\<rparr>"

definition reactor_ctor :: "('p, 'k) poller_ops \<Rightarrow> 'p \<Rightarrow> bool \<Rightarrow> fd \<Rightarrow> fd \<Rightarrow> 'p reactor result" where
  "reactor_ctor P p0 anotherInThread timerfd wakeupfd =
     rbind (rfold (run_react P) [NewChannel 1 timerfd, SetMask EnableReading 1, NewChannel 0 wakeupfd] (reactor_blank p0)) (\<lambda>s.
     if anotherInThread then Inl (Fatal ''Another EventLoop exists in this thread'')
     else run_react P (SetMask EnableReading 0) s)"

definition EventLoop_dtor :: "('p, 'k) poller_ops \<Rightarrow> 'p reactor \<Rightarrow> 'p reactor result" where
  "EventLoop_dtor P =
     rfold (run_react P) [SetMask DisableAll 0, RemoveChannel 0, DeleteChannel 0,
                          SetMask DisableAll 1, RemoveChannel 1, DeleteChannel 1]"

section \<open>A round of the loop\<close>

record handlers =
  on_read :: "cptr \<Rightarrow> react list"
  on_write :: "cptr \<Rightarrow> react list"
  on_close :: "cptr \<Rightarrow> react list"
  on_error :: "cptr \<Rightarrow> react list"

definition deref_channel :: "cptr \<Rightarrow> 'p reactor \<Rightarrow> unit result" where
  "deref_channel c s = (if c \<in> r_live s then Inr () else Inl (Undefined ''handleEvent of a destroyed channel''))"

text \<open>Before each callback \<open>handleEventWithGuard\<close> reads the channel's own members again.\<close>

definition run_script :: "('p, 'k) poller_ops \<Rightarrow> cptr \<Rightarrow> react list \<Rightarrow> 'p reactor \<Rightarrow> 'p reactor result" where
  "run_script P c acts s = rbind (deref_channel c s) (\<lambda>_. rfold (run_react P) acts s)"

definition handler_callbacks :: "('p, 'k) poller_ops \<Rightarrow> handlers \<Rightarrow> cptr \<Rightarrow> 'p reactor callbacks" where
  "handler_callbacks P hs c =
     \<lparr>readCallback = Some (\<lambda>t. run_script P c (on_read hs c)), writeCallback = Some (run_script P c (on_write hs c)),
      closeCallback = Some (run_script P c (on_close hs c)), errorCallback = Some (run_script P c (on_error hs c))\<rparr>"

definition set_handling :: "cptr \<Rightarrow> bool \<Rightarrow> 'p reactor \<Rightarrow> 'p reactor" where
  "set_handling c b s = s\<lparr>r_store := (r_store s)(c := (r_store s c)\<lparr>channel.eventHandling := b\<rparr>)\<rparr>"

text \<open>\<open>alive\<close> tells whether the owner a channel is tied to still exists.\<close>

definition handle_active ::
  "('p, 'k) poller_ops \<Rightarrow> handlers \<Rightarrow> (cptr \<Rightarrow> bool) \<Rightarrow> int \<Rightarrow> cptr \<Rightarrow> 'p reactor \<Rightarrow> 'p reactor result" where
  "handle_active P hs alive receiveTime c s =
     rbind (deref_channel c s) (\<lambda>_.
     let s1 = s\<lparr>r_loop := (r_loop s)\<lparr>currentActiveChannel := Some c\<rparr>\<rparr> in
     if tied (r_store s c) \<and> \<not> alive c then Inr s1
     else rbind (handleEventWithGuard (handler_callbacks P hs c) receiveTime (revents (r_store s c))
                   (set_handling c True s1)) (\<lambda>s2.
          rbind (deref_channel c s2) (\<lambda>_. Inr (set_handling c False s2))))"

text \<open>\<open>body n\<close> is what functor number \<open>n\<close> does besides queueing more functors.\<close>

primrec ftor_no :: "ftor \<Rightarrow> nat" where
  "ftor_no (Ftor n qs) = n"

definition run_functor :: "('p, 'k) poller_ops \<Rightarrow> (nat \<Rightarrow> react list) \<Rightarrow> ftor \<Rightarrow> 'p reactor \<Rightarrow> 'p reactor result" where
  "run_functor P body f s =
     rbind (rfold (run_react P) (body (ftor_no f)) s) (\<lambda>s1. Inr (s1\<lparr>r_loop := run_one f (r_loop s1)\<rparr>))"

definition reactor_doPendingFunctors ::
  "('p, 'k) poller_ops \<Rightarrow> (nat \<Rightarrow> react list) \<Rightarrow> 'p reactor \<Rightarrow> 'p reactor result" where
  "reactor_doPendingFunctors P body s =
     (let s1 = s\<lparr>r_loop := swap_functors (r_loop s)\<rparr> in
      rbind (rfold (run_functor P body) (functors (r_loop s1)) s1) (\<lambda>s2.
      Inr (s2\<lparr>r_loop := (r_loop s2)\<lparr>callingPendingFunctors := False\<rparr>\<rparr>)))"

definition handle_events ::
  "('p, 'k) poller_ops \<Rightarrow> handlers \<Rightarrow> (cptr \<Rightarrow> bool) \<Rightarrow> int \<Rightarrow> cptr list \<Rightarrow> 'p reactor \<Rightarrow> 'p reactor result" where
  "handle_events P hs alive t active s =
     rbind (rfold (handle_active P hs alive t) active
              (s\<lparr>r_loop := (r_loop s)\<lparr>activeChannels := active, iteration := iteration (r_loop s) + 1,
                                     event_loop.eventHandling := True\<rparr>\<rparr>)) (\<lambda>s1.
     Inr (s1\<lparr>r_loop := (r_loop s1)\<lparr>currentActiveChannel := None, event_loop.eventHandling := False\<rparr>\<rparr>))"

definition reactor_round ::
  "('p, 'k) poller_ops \<Rightarrow> handlers \<Rightarrow> (cptr \<Rightarrow> bool) \<Rightarrow> (nat \<Rightarrow> react list) \<Rightarrow> int \<Rightarrow> 'k \<Rightarrow> 'p reactor \<Rightarrow> 'p reactor result" where
  "reactor_round P hs alive body t k s =
     rbind (po_poll P k (r_poller s) (r_store s)) (\<lambda>(active, p, h).
     rbind (handle_events P hs alive t active (s\<lparr>r_poller := p, r_store := h\<rparr>)) (\<lambda>s1.
     reactor_doPendingFunctors P body s1))"

section \<open>Timers of the loop\<close>

definition EventLoop_runAt :: "allocator \<Rightarrow> int \<Rightarrow> timer_act list \<Rightarrow> timer_queue \<Rightarrow> (timer_id \<times> timer_queue) result" where
  "EventLoop_runAt alloc time cb q = TimerQueue_addTimer alloc cb time 0 q"

definition EventLoop_runAfter ::
  "allocator \<Rightarrow> int \<Rightarrow> rat \<Rightarrow> timer_act list \<Rightarrow> timer_queue \<Rightarrow> (timer_id \<times> timer_queue) result" where
  "EventLoop_runAfter alloc now delay cb q = EventLoop_runAt alloc (addTime now delay) cb q"

definition EventLoop_runEvery ::
  "allocator \<Rightarrow> int \<Rightarrow> rat \<Rightarrow> timer_act list \<Rightarrow> timer_queue \<Rightarrow> (timer_id \<times> timer_queue) result" where
  "EventLoop_runEvery alloc now ival cb q = TimerQueue_addTimer alloc cb (addTime now ival) ival q"

definition EventLoop_cancel :: "timer_id \<Rightarrow> timer_queue \<Rightarrow> timer_queue result" where
  "EventLoop_cancel tid q = TimerQueue_cancelInLoop tid q"

section \<open>The invariant\<close>

definition registered :: "('p, 'k) poller_ops \<Rightarrow> 'p reactor \<Rightarrow> cptr \<Rightarrow> bool" where
  "registered P s c \<longleftrightarrow> po_channels P (r_poller s) (ch_fd (r_store s c)) = Some c"

text \<open>
  Every channel in the poller's table is alive; a live channel says \<open>addedToLoop_\<close> exactly when it is in
  the table, and has an index that fits otherwise. The poller's own invariant is a parameter.
\<close>

definition rx_inv :: "('p, 'k) poller_ops \<Rightarrow> ('p \<Rightarrow> cstore \<Rightarrow> bool) \<Rightarrow> 'p reactor \<Rightarrow> bool" where
  "rx_inv P I s \<longleftrightarrow> I (r_poller s) (r_store s) \<and> Map.ran (po_channels P (r_poller s)) \<subseteq> r_live s \<and>
     (\<forall>c \<in> r_live s. 0 \<le> ch_fd (r_store s c) \<and>
        (if addedToLoop (r_store s c) then registered P s c
         else idle_index (index (r_store s c)) \<and> c \<notin> Map.ran (po_channels P (r_poller s))))"

lemma rx_invD:
  assumes "rx_inv P I s"
  shows "I (r_poller s) (r_store s)"
    and "po_channels P (r_poller s) f = Some c \<Longrightarrow> c \<in> r_live s"
    and "c \<in> r_live s \<Longrightarrow> addedToLoop (r_store s c) \<Longrightarrow> registered P s c"
    and "c \<in> r_live s \<Longrightarrow> \<not> addedToLoop (r_store s c) \<Longrightarrow>
      idle_index (index (r_store s c)) \<and> c \<notin> Map.ran (po_channels P (r_poller s))"
    and "c \<in> r_live s \<Longrightarrow> 0 \<le> ch_fd (r_store s c)"
  using assms by (auto simp: rx_inv_def Map.ran_def)

lemma rx_inv_same:
  assumes "rx_inv P I s" "I (r_poller s') (r_store s')" "po_channels P (r_poller s') = po_channels P (r_poller s)" "r_live s' = r_live s"
    and "\<And>d. ch_fd (r_store s' d) = ch_fd (r_store s d)" "\<And>d. addedToLoop (r_store s' d) = addedToLoop (r_store s d)"
    and "\<And>d. index (r_store s' d) = index (r_store s d)"
  shows "rx_inv P I s'"
  using assms unfolding rx_inv_def registered_def by auto

lemma registered_ran: "registered P s c \<Longrightarrow> c \<in> Map.ran (po_channels P (r_poller s))"
  by (auto simp: registered_def Map.ran_def)

text \<open>The poller keeps everything of a channel but its index.\<close>

lemma same_but_index_fields:
  assumes "same_but_index h h'"
  shows "ch_fd (h' d) = ch_fd (h d)" "addedToLoop (h' d) = addedToLoop (h d)" "events (h' d) = events (h d)"
    "channel.eventHandling (h' d) = channel.eventHandling (h d)"
proof -
  have e: "h' d = (h d)\<lparr>index := index (h' d)\<rparr>" using assms by (simp add: same_but_index_def)
  show "ch_fd (h' d) = ch_fd (h d)" by (subst e) simp
  show "addedToLoop (h' d) = addedToLoop (h d)" by (subst e) simp
  show "events (h' d) = events (h d)" by (subst e) simp
  show "channel.eventHandling (h' d) = channel.eventHandling (h d)" by (subst e) simp
qed

fun mask_after :: "mask_op \<Rightarrow> 32 word \<Rightarrow> 32 word" where
  "mask_after EnableReading ev = ev OR kReadEvent"
| "mask_after DisableReading ev = ev AND NOT kReadEvent"
| "mask_after EnableWriting ev = ev OR kWriteEvent"
| "mask_after DisableWriting ev = ev AND NOT kWriteEvent"
| "mask_after DisableAll ev = kNoneEvent"

lemma apply_mask_store: "h(c := apply_mask op (h c)) = with_events c (mask_after op (events (h c))) h"
  by (cases op) (simp_all add: with_events_def Channel_defs)

lemma rx_inv_loop [simp]:
  "rx_inv P I (s\<lparr>r_loop := l\<rparr>) = rx_inv P I s"
  "rx_inv P I (s\<lparr>r_loop := l, r_live := A\<rparr>) = rx_inv P I (s\<lparr>r_live := A\<rparr>)"
  by (simp_all add: rx_inv_def registered_def)

text \<open>
  What every operation keeps, the assertions seeing to it: a channel whose event is being handled is
  not destroyed, and an active channel other than the current one stays registered and alive.
\<close>

definition react_frame :: "'p reactor \<Rightarrow> 'p reactor \<Rightarrow> bool" where
  "react_frame s s' \<longleftrightarrow>
     event_loop.eventHandling (r_loop s') = event_loop.eventHandling (r_loop s) \<and>
     currentActiveChannel (r_loop s') = currentActiveChannel (r_loop s) \<and>
     activeChannels (r_loop s') = activeChannels (r_loop s) \<and>
     (\<forall>d \<in> r_live s. channel.eventHandling (r_store s d) \<longrightarrow> d \<in> r_live s' \<and> channel.eventHandling (r_store s' d)) \<and>
     (\<forall>d \<in> r_live s. event_loop.eventHandling (r_loop s) \<and> d \<in> set (activeChannels (r_loop s)) \<and>
        currentActiveChannel (r_loop s) \<noteq> Some d \<and> addedToLoop (r_store s d) \<longrightarrow>
        d \<in> r_live s' \<and> addedToLoop (r_store s' d))"

lemma loop_ops_frame [simp]:
  "event_loop.eventHandling (EventLoop_queueInLoop b f l) = event_loop.eventHandling l"
  "currentActiveChannel (EventLoop_queueInLoop b f l) = currentActiveChannel l"
  "activeChannels (EventLoop_queueInLoop b f l) = activeChannels l"
  "event_loop.eventHandling (EventLoop_quit b l) = event_loop.eventHandling l"
  "currentActiveChannel (EventLoop_quit b l) = currentActiveChannel l"
  "activeChannels (EventLoop_quit b l) = activeChannels l"
  "event_loop.eventHandling (EventLoop_handleRead l) = event_loop.eventHandling l"
  "currentActiveChannel (EventLoop_handleRead l) = currentActiveChannel l"
  "activeChannels (EventLoop_handleRead l) = activeChannels l"
  by (simp_all add: EventLoop_queueInLoop_def EventLoop_quit_def EventLoop_handleRead_def EventLoop_wakeup_def
      push_functor_def Let_def)

section \<open>The operations keep the invariant\<close>

context loop_poller
begin

lemma set_mask_keeps:
  assumes inv: "rx_inv P inv s" and c: "c \<in> r_live s" and r: "run_react P (SetMask op c) s = Inr s'"
  shows "rx_inv P inv s' \<and> r_live s' = r_live s \<and> r_loop s' = r_loop s \<and>
     (\<forall>d. (addedToLoop (r_store s' d) \<longleftrightarrow> d = c \<or> addedToLoop (r_store s d)) \<and> ch_fd (r_store s' d) = ch_fd (r_store s d) \<and>
          channel.eventHandling (r_store s' d) = channel.eventHandling (r_store s d))"
proof -
  let ?p = "r_poller s" and ?h = "r_store s"
  let ?f = "ch_fd (?h c)" and ?h1 = "with_events c (mask_after op (events (?h c))) ?h"
  obtain p h where u: "po_update P c ?p ?h1 = Inr (p, h)" "s' = s\<lparr>r_poller := p, r_store := h\<rparr>"
    using r c by (auto simp: apply_mask_store EventLoop_updateChannel_def rbind_eq_Inr_iff)
  have s': "r_poller s' = p" "r_store s' = h" "r_live s' = r_live s" "r_loop s' = r_loop s" using u(2) by simp_all
  have old: "po_channels P ?p ?f = Some c \<or> c \<notin> Map.ran (po_channels P ?p) \<and> idle_index (index (?h c))"
    using rx_invD(3,4) [OF inv c] unfolding registered_def by blast
  from upd_done [OF rx_invD(1) [OF inv] u(1) rx_invD(5) [OF inv c] old]
  have k: "inv p h" "same_but_index ?h1 h" "index_frame c (po_channels P ?p) ?h h"
      "po_channels P ?p ?f \<in> {None, Some c}" "po_channels P p = (po_channels P ?p)(?f \<mapsto> c)" by blast+
  note fields = same_but_index_fields [OF k(2)]
  have fd: "ch_fd (h d) = ch_fd (?h d)" for d by (simp add: fields with_events_def)
  have added: "addedToLoop (h d) \<longleftrightarrow> d = c \<or> addedToLoop (?h d)" for d by (simp add: fields with_events_def)
  have ran: "Map.ran (po_channels P p) \<subseteq> insert c (Map.ran (po_channels P ?p))"
    using k(5) by (auto simp: Map.ran_def split: if_splits)
  have "0 \<le> ch_fd (h d) \<and> (if addedToLoop (h d) then registered P s' d
      else idle_index (index (h d)) \<and> d \<notin> Map.ran (po_channels P p))" if d: "d \<in> r_live s" for d
  proof (cases "d = c")
    case True
    then show ?thesis using k(5) rx_invD(5) [OF inv d] by (simp add: added registered_def fd s')
  next
    case False
    have "registered P s' d" if "addedToLoop (?h d)"
      using rx_invD(3) [OF inv d that] k(4,5) False by (auto simp: registered_def fd s')
    moreover have "index (h d) = index (?h d)" if "d \<notin> Map.ran (po_channels P ?p)"
      using k(3) False that by (simp add: index_frame_def)
    ultimately show ?thesis using rx_invD(4,5) [OF inv d] ran False by (auto simp: added fd)
  qed
  moreover have "Map.ran (po_channels P p) \<subseteq> r_live s"
    using ran c rx_invD(2) [OF inv] by (auto simp: Map.ran_def)
  ultimately have "rx_inv P inv s'" using k(1) unfolding rx_inv_def s' by blast
  then show ?thesis by (simp add: s' added fd) (simp add: fields with_events_def)
qed

lemma remove_keeps:
  assumes inv: "rx_inv P inv s" and c: "c \<in> r_live s" and r: "run_react P (RemoveChannel c) s = Inr s'"
  shows "rx_inv P inv s' \<and> r_live s' = r_live s \<and> r_loop s' = r_loop s \<and>
     (\<forall>d. addedToLoop (r_store s' d) = (d \<noteq> c \<and> addedToLoop (r_store s d)) \<and>
          channel.eventHandling (r_store s' d) = channel.eventHandling (r_store s d)) \<and>
     (event_loop.eventHandling (r_loop s) \<longrightarrow>
        currentActiveChannel (r_loop s) = Some c \<or> c \<notin> set (activeChannels (r_loop s)))"
proof -
  let ?p = "r_poller s" and ?h = "r_store s"
  let ?f = "ch_fd (?h c)" and ?h1 = "(r_store s)(c := (r_store s c)\<lparr>addedToLoop := False\<rparr>)"
  obtain p h where u: "po_remove P c ?p ?h1 = Inr (p, h)" "s' = s\<lparr>r_poller := p, r_store := h\<rparr>"
      "EventLoop_removeChannel_check True c (r_loop s) = Inr ()"
    using r c by (auto simp: EventLoop_removeChannel_def Channel_remove_def rbind_eq_Inr_iff)
  have s': "r_poller s' = p" "r_store s' = h" "r_live s' = r_live s" "r_loop s' = r_loop s" using u(2) by simp_all
  have "inv ?p ?h1" by (rule inv_cong [OF rx_invD(1) [OF inv]]) auto
  from rem_done [OF this u(1)]
  have k: "inv p h" "same_but_index ?h1 h" "index_frame c (po_channels P ?p) ?h1 h" "idle_index (index (h c))"
      "po_channels P ?p ?f = Some c" "po_channels P p = (po_channels P ?p)(?f := None)" by auto
  note fields = same_but_index_fields [OF k(2)]
  have fd: "ch_fd (h d) = ch_fd (?h d)" for d by (simp add: fields)
  have added: "addedToLoop (h d) = (d \<noteq> c \<and> addedToLoop (?h d))" for d by (simp add: fields)
  have uniq: "f = ?f" if "po_channels P ?p f = Some c" for f using inv_fd [OF rx_invD(1) [OF inv] that] by simp
  have ran: "Map.ran (po_channels P p) \<subseteq> Map.ran (po_channels P ?p) - {c}"
    using k(6) uniq by (auto simp: Map.ran_def split: if_splits)
  have "0 \<le> ch_fd (h d) \<and> (if addedToLoop (h d) then registered P s' d
      else idle_index (index (h d)) \<and> d \<notin> Map.ran (po_channels P p))" if d: "d \<in> r_live s" for d
  proof (cases "d = c")
    case True
    then show ?thesis using k(4) ran rx_invD(5) [OF inv d] by (auto simp: added fd)
  next
    case False
    have "registered P s' d" if "addedToLoop (?h d)"
      using rx_invD(3) [OF inv d that] k(5,6) False by (auto simp: registered_def fd s')
    moreover have "index (h d) = index (?h d)" if "d \<notin> Map.ran (po_channels P ?p)"
      using k(3) False that by (simp add: index_frame_def)
    ultimately show ?thesis using rx_invD(4,5) [OF inv d] ran False by (auto simp: added fd)
  qed
  moreover have "Map.ran (po_channels P p) \<subseteq> r_live s"
    using ran rx_invD(2) [OF inv] by (auto simp: Map.ran_def)
  ultimately have "rx_inv P inv s'" using k(1) unfolding rx_inv_def s' by blast
  then show ?thesis using u(3) by (simp add: s' added fields EventLoop_removeChannel_check_def split: if_splits)
qed

lemma new_keeps:
  assumes inv: "rx_inv P inv s" and c: "c \<notin> r_live s" "0 \<le> f"
  shows "rx_inv P inv (s\<lparr>r_store := (r_store s)(c := Channel_ctor f), r_live := insert c (r_live s)\<rparr>)"
proof -
  have nr: "c \<notin> Map.ran (po_channels P (r_poller s))" using rx_invD(2) [OF inv] c by (auto simp: Map.ran_def)
  have "inv (r_poller s) ((r_store s)(c := Channel_ctor f))"
    by (rule inv_cong [OF rx_invD(1) [OF inv]]) (use nr in \<open>auto simp: Map.ran_def\<close>)
  moreover have "ch_fd (Channel_ctor f) = f" "index (Channel_ctor f) = -1" "\<not> addedToLoop (Channel_ctor f)"
    by (simp_all add: Channel_ctor_def)
  ultimately show ?thesis using inv nr c by (auto simp: rx_inv_def registered_def idle_index_def)
qed

lemma delete_keeps:
  assumes inv: "rx_inv P inv s" and c: "c \<in> r_live s" and r: "run_react P (DeleteChannel c) s = Inr s'"
  shows "rx_inv P inv s'" and "s' = s\<lparr>r_live := r_live s - {c}\<rparr>" and "\<not> addedToLoop (r_store s c)"
    and "\<not> channel.eventHandling (r_store s c)"
proof -
  show u: "s' = s\<lparr>r_live := r_live s - {c}\<rparr>" "\<not> addedToLoop (r_store s c)" "\<not> channel.eventHandling (r_store s c)"
    using r c by (auto simp: EventLoop_hasChannel_def Channel_dtor_def rbind_eq_Inr_iff)
  from rx_invD(4) [OF inv c u(2)] inv u show "rx_inv P inv s'" by (auto simp: rx_inv_def registered_def)
qed

lemma run_react_keeps:
  assumes inv: "rx_inv P inv s" and r: "run_react P a s = Inr s'"
  shows "rx_inv P inv s' \<and> react_frame s s'"
proof (cases a)
  case (SetMask op c)
  have "c \<in> r_live s" using r SetMask by (simp add: user_fault_def split: if_splits)
  from set_mask_keeps [OF inv this r [unfolded SetMask]] show ?thesis unfolding react_frame_def by auto
next
  case (RemoveChannel c)
  have "c \<in> r_live s" using r RemoveChannel by (simp add: user_fault_def split: if_splits)
  from remove_keeps [OF inv this r [unfolded RemoveChannel]] show ?thesis unfolding react_frame_def by auto
next
  case (NewChannel c f)
  then have n: "c \<notin> r_live s" "0 \<le> f"
      "s' = s\<lparr>r_store := (r_store s)(c := Channel_ctor f), r_live := insert c (r_live s)\<rparr>"
    using r by (auto simp: user_fault_def split: if_splits)
  show ?thesis using new_keeps [OF inv n(1,2)] n(1) unfolding react_frame_def n(3) by auto
next
  case (DeleteChannel c)
  have "c \<in> r_live s" using r DeleteChannel by (simp add: user_fault_def split: if_splits)
  note d = delete_keeps [OF inv this r [unfolded DeleteChannel]]
  show ?thesis using d(1,3,4) unfolding react_frame_def d(2) by auto
qed (use r inv in \<open>auto simp: react_frame_def\<close>)

end

section \<open>Handlers cannot pull channels from under the loop\<close>

text \<open>The result is fine, or the process stopped at an assertion or a fatal error, or user code used a dead channel.\<close>

fun unless_user :: "'a result \<Rightarrow> ('a \<Rightarrow> bool) \<Rightarrow> bool" where
  "unless_user (Inr x) P = P x"
| "unless_user (Inl (Undefined w)) P = (w = ''callback'')"
| "unless_user (Inl (AssertFail w)) P = True"
| "unless_user (Inl (Fatal w)) P = True"
| "unless_user (Inl BadAnyCast) P = False"

lemma unless_user_rbind: "unless_user m Q \<Longrightarrow> (\<And>x. Q x \<Longrightarrow> unless_user (f x) P) \<Longrightarrow> unless_user (rbind m f) P"
  by (cases m; simp; cases "projl m") auto

lemma unless_user_mono: "unless_user m P \<Longrightarrow> (\<And>x. P x \<Longrightarrow> Q x) \<Longrightarrow> unless_user m Q"
  by (cases "(m, P)" rule: unless_user.cases) auto

lemma unless_user_cassert [simp]: "unless_user (cassert b w) P \<longleftrightarrow> (b \<longrightarrow> P ())"
  by (simp add: cassert_def)

lemma unless_user_rfold:
  assumes "\<And>x s. I s \<Longrightarrow> unless_user (f x s) I" "I s"
  shows "unless_user (rfold f xs s) I"
  using assms(2)
proof (induction xs arbitrary: s)
  case (Cons x xs)
  then show ?case using assms(1) by (auto intro: unless_user_rbind)
qed simp

lemma clean_unless_user: "clean m \<Longrightarrow> unless_user m (\<lambda>_. True)"
  by (cases m rule: clean.cases) auto

lemma unless_user_Inr: "unless_user m (\<lambda>_. True) \<Longrightarrow> (\<And>x. m = Inr x \<Longrightarrow> Q x) \<Longrightarrow> unless_user m Q"
  by (cases "(m, Q)" rule: unless_user.cases) auto

text \<open>
  What the loop relies on while it goes through the active channels: \<open>busy c rest\<close> is the condition
  during the callbacks of channel \<open>c\<close>, with \<open>rest\<close> still to come. An operation keeps it, and it says
  that \<open>c\<close> is alive.
\<close>

locale active_handlers =
  fixes Q :: "('p, 'k) poller_ops" and busy :: "cptr \<Rightarrow> cptr list \<Rightarrow> 'p reactor \<Rightarrow> bool"
  assumes busy_react: "busy c rest s \<Longrightarrow> unless_user (run_react Q a s) (busy c rest)"
    and busy_live: "busy c rest s \<Longrightarrow> c \<in> r_live s"
begin

lemma busy_script: "busy c rest s \<Longrightarrow> unless_user (run_script Q c acts s) (busy c rest)"
  by (simp add: run_script_def deref_channel_def busy_live unless_user_rfold busy_react)

lemma busy_callbacks: "busy c rest s \<Longrightarrow> unless_user (handleEventWithGuard (handler_callbacks Q hs c) t ev s) (busy c rest)"
  unfolding handleEventWithGuard_def handler_callbacks_def call_opt_def
  by (intro unless_user_rbind [where Q = "busy c rest"]) (auto intro: busy_script)

end

definition handling :: "('p, 'k) poller_ops \<Rightarrow> ('p \<Rightarrow> cstore \<Rightarrow> bool) \<Rightarrow> cptr \<Rightarrow> cptr list \<Rightarrow> 'p reactor \<Rightarrow> bool" where
  "handling P I c rest s \<longleftrightarrow> rx_inv P I s \<and> c \<in> r_live s \<and> channel.eventHandling (r_store s c) \<and>
     event_loop.eventHandling (r_loop s) \<and> currentActiveChannel (r_loop s) = Some c \<and> c \<notin> set rest \<and>
     set rest \<subseteq> set (activeChannels (r_loop s)) \<and> (\<forall>d \<in> set rest. d \<in> r_live s \<and> addedToLoop (r_store s d))"

lemma handling_frame: "handling P I c rest s \<Longrightarrow> rx_inv P I s' \<Longrightarrow> react_frame s s' \<Longrightarrow> handling P I c rest s'"
  unfolding handling_def react_frame_def by (auto simp: subset_iff)

context loop_poller
begin

text \<open>No operation is undefined by itself.\<close>

lemma run_react_stops:
  assumes inv: "rx_inv P inv s"
  shows "unless_user (run_react P a s) (\<lambda>_. True)"
proof (cases a)
  case (SetMask op c)
  then show ?thesis
    by (auto simp: user_fault_def EventLoop_updateChannel_def clean_unless_user upd_clean intro!: unless_user_rbind [where Q = "\<lambda>_. True"])
next
  case (RemoveChannel c)
  have "inv (r_poller s) ((r_store s)(c := (r_store s c)\<lparr>addedToLoop := False\<rparr>))"
    by (rule inv_cong [OF rx_invD(1) [OF inv]]) auto
  from clean_unless_user [OF rem_clean [OF this, of c]]
  have "unless_user (EventLoop_removeChannel P True c (s\<lparr>r_store := (r_store s)(c := (r_store s c)\<lparr>addedToLoop := False\<rparr>)\<rparr>)) (\<lambda>_. True)"
    by (auto simp: EventLoop_removeChannel_def EventLoop_removeChannel_check_def intro!: unless_user_rbind [where Q = "\<lambda>_. True"])
  then show ?thesis using RemoveChannel
    by (cases "isNoneEvent (r_store s c)") (simp_all add: user_fault_def Channel_remove_def)
next
  case (DeleteChannel c)
  then show ?thesis
    by (auto simp: user_fault_def EventLoop_hasChannel_def Channel_dtor_def intro!: unless_user_rbind [where Q = "\<lambda>_. True"])
qed (simp_all add: user_fault_def)

end

sublocale loop_poller < handlers: active_handlers P "handling P inv"
proof
  fix c rest s a
  assume h: "handling P inv c rest s"
  then have i: "rx_inv P inv s" by (simp add: handling_def)
  show "unless_user (run_react P a s) (handling P inv c rest)"
    using run_react_keeps [OF i] handling_frame [OF h] by (blast intro: unless_user_Inr run_react_stops [OF i])
qed (simp add: handling_def)

section \<open>A round keeps the active channels alive\<close>

text \<open>Between the callbacks of one active channel and the next.\<close>

definition between :: "('p, 'k) poller_ops \<Rightarrow> ('p \<Rightarrow> cstore \<Rightarrow> bool) \<Rightarrow> cptr list \<Rightarrow> 'p reactor \<Rightarrow> bool" where
  "between P I rest s \<longleftrightarrow> rx_inv P I s \<and> event_loop.eventHandling (r_loop s) \<and> distinct rest \<and>
     set rest \<subseteq> set (activeChannels (r_loop s)) \<and> (\<forall>d \<in> set rest. d \<in> r_live s \<and> addedToLoop (r_store s d))"

text \<open>Between rounds.\<close>

definition idle :: "('p, 'k) poller_ops \<Rightarrow> ('p \<Rightarrow> cstore \<Rightarrow> bool) \<Rightarrow> 'p reactor \<Rightarrow> bool" where
  "idle P I s \<longleftrightarrow> rx_inv P I s \<and> \<not> event_loop.eventHandling (r_loop s) \<and> currentActiveChannel (r_loop s) = None"

lemma set_handling_fields [simp]:
  "r_live (set_handling c b s) = r_live s" "r_loop (set_handling c b s) = r_loop s"
  "r_poller (set_handling c b s) = r_poller s"
  "addedToLoop (r_store (set_handling c b s) d) = addedToLoop (r_store s d)"
  "ch_fd (r_store (set_handling c b s) d) = ch_fd (r_store s d)"
  "index (r_store (set_handling c b s) d) = index (r_store s d)"
  "events (r_store (set_handling c b s) d) = events (r_store s d)"
  "channel.eventHandling (r_store (set_handling c b s) d) = (if d = c then b else channel.eventHandling (r_store s d))"
  by (simp_all add: set_handling_def)

lemma run_one_frame [simp]:
  "event_loop.eventHandling (run_one f l) = event_loop.eventHandling l"
  "currentActiveChannel (run_one f l) = currentActiveChannel l"
  by (simp_all add: run_one_eq)

context loop_poller
begin

lemma rx_inv_set_handling:
  assumes inv: "rx_inv P inv s"
  shows "rx_inv P inv (set_handling c b s)"
proof -
  have "inv (r_poller s) (r_store (set_handling c b s))"
    by (rule inv_cong [OF rx_invD(1) [OF inv]]) simp
  then show ?thesis by (intro rx_inv_same [OF inv]) simp_all
qed

lemma handle_active_between:
  assumes b: "between P inv (c # rest) s"
  shows "unless_user (handle_active P hs alive t c s) (between P inv rest)"
proof -
  let ?s1 = "s\<lparr>r_loop := (r_loop s)\<lparr>currentActiveChannel := Some c\<rparr>\<rparr>"
  have live: "c \<in> r_live s" using b by (simp add: between_def)
  have h: "handling P inv c rest (set_handling c True ?s1)"
    using b by (auto simp: between_def handling_def intro: rx_inv_set_handling)
  have "unless_user (rbind (deref_channel c s2) (\<lambda>_. Inr (set_handling c False s2))) (between P inv rest)"
    if "handling P inv c rest s2" for s2
    using that b by (auto simp: handling_def between_def deref_channel_def intro: rx_inv_set_handling)
  then have "unless_user (rbind (handleEventWithGuard (handler_callbacks P hs c) t (revents (r_store s c))
      (set_handling c True ?s1)) (\<lambda>s2. rbind (deref_channel c s2) (\<lambda>_. Inr (set_handling c False s2)))) (between P inv rest)"
    by (rule unless_user_rbind [OF handlers.busy_callbacks [OF h]])
  moreover have "between P inv rest ?s1" using b by (simp add: between_def)
  moreover have "deref_channel c s = Inr ()" using live by (simp add: deref_channel_def)
  ultimately show ?thesis by (simp add: handle_active_def Let_def)
qed

lemma handle_all_between:
  "between P inv cs s \<Longrightarrow> unless_user (rfold (handle_active P hs alive t) cs s) (between P inv [])"
proof (induction cs arbitrary: s)
  case (Cons c cs)
  then show ?case by (auto intro: unless_user_rbind handle_active_between)
qed simp

lemma idle_react:
  assumes i: "idle P inv s"
  shows "unless_user (run_react P a s) (idle P inv)"
proof -
  have inv: "rx_inv P inv s" using i by (simp add: idle_def)
  show ?thesis
    by (rule unless_user_Inr [OF run_react_stops [OF inv]])
      (use i run_react_keeps [OF inv] in \<open>auto simp: idle_def react_frame_def\<close>)
qed

lemma idle_functors:
  assumes i: "idle P inv s"
  shows "unless_user (reactor_doPendingFunctors P body s) (idle P inv)"
proof -
  have one: "unless_user (run_functor P body f s1) (idle P inv)" if "idle P inv s1" for f s1
    unfolding run_functor_def
    by (rule unless_user_rbind [OF unless_user_rfold [where I = "idle P inv", OF idle_react that]]) (simp_all add: idle_def)
  have "idle P inv (s\<lparr>r_loop := swap_functors (r_loop s)\<rparr>)" using i by (simp add: idle_def swap_functors_def)
  from unless_user_rfold [where I = "idle P inv", OF one this] show ?thesis
    unfolding reactor_doPendingFunctors_def Let_def
    by (rule unless_user_rbind) (auto simp: idle_def)
qed

lemma handle_events_idle:
  assumes "rx_inv P inv s" "distinct active" "\<forall>d \<in> set active. d \<in> r_live s \<and> addedToLoop (r_store s d)"
  shows "unless_user (handle_events P hs alive t active s) (idle P inv)"
proof -
  have "between P inv active (s\<lparr>r_loop := (r_loop s)\<lparr>activeChannels := active, iteration := iteration (r_loop s) + 1,
      event_loop.eventHandling := True\<rparr>\<rparr>)"
    using assms by (simp add: between_def)
  from handle_all_between [OF this] show ?thesis
    unfolding handle_events_def by (rule unless_user_rbind) (simp add: between_def idle_def)
qed

lemma registered_live:
  assumes inv: "rx_inv P inv s" and r: "registered P s c"
  shows "c \<in> r_live s \<and> addedToLoop (r_store s c)"
proof -
  have "c \<in> r_live s" using rx_invD(2) [OF inv] r by (simp add: registered_def)
  with rx_invD(4) [OF inv this] registered_ran [OF r] show ?thesis by auto
qed

text \<open>What \<open>poll\<close> hands to the loop.\<close>

lemma poll_ok:
  assumes inv: "rx_inv P inv s" and e: "report k (r_poller s) (r_store s)"
  obtains active p r where "po_poll P k (r_poller s) (r_store s) = Inr (active, p, set_revents r (r_store s))"
    "rx_inv P inv (s\<lparr>r_poller := p, r_store := set_revents r (r_store s)\<rparr>)" "distinct active"
    "\<And>d. d \<in> set active \<Longrightarrow> d \<in> r_live s \<and> addedToLoop (r_store s d)"
proof -
  obtain active p r where p: "po_poll P k (r_poller s) (r_store s) = Inr (active, p, set_revents r (r_store s))"
      "inv p (set_revents r (r_store s))" "po_channels P p = po_channels P (r_poller s)" "distinct active"
      "\<And>c. c \<in> set active \<Longrightarrow> registered P s c"
    using poll_runs [OF rx_invD(1) [OF inv] e] unfolding registered_def by blast
  have "rx_inv P inv (s\<lparr>r_poller := p, r_store := set_revents r (r_store s)\<rparr>)"
    by (rule rx_inv_same [OF inv]) (use p(2,3) in \<open>simp_all add: set_revents_def\<close>)
  with p registered_live [OF inv] show thesis by (intro that) auto
qed

lemma round_idle:
  assumes i: "idle P inv s" and e: "report k (r_poller s) (r_store s)"
  shows "unless_user (reactor_round P hs alive body t k s) (idle P inv)"
proof -
  have inv: "rx_inv P inv s" using i by (simp add: idle_def)
  obtain active p r where p: "po_poll P k (r_poller s) (r_store s) = Inr (active, p, set_revents r (r_store s))"
    "rx_inv P inv (s\<lparr>r_poller := p, r_store := set_revents r (r_store s)\<rparr>)" "distinct active"
    "\<And>d. d \<in> set active \<Longrightarrow> d \<in> r_live s \<and> addedToLoop (r_store s d)"
    using poll_ok [OF inv e] by blast
  have "unless_user (handle_events P hs alive t active (s\<lparr>r_poller := p, r_store := set_revents r (r_store s)\<rparr>)) (idle P inv)"
    using p by (intro handle_events_idle) (simp_all add: set_revents_def)
  then show ?thesis unfolding reactor_round_def p(1) by (auto intro: unless_user_rbind idle_functors)
qed

lemma idle_blank: "idle P inv (reactor_blank p0)"
  using start by (simp add: idle_def reactor_blank_def rx_inv_def EventLoop_ctor_def)

lemma idle_ctor: "unless_user (reactor_ctor P p0 b tfd wfd) (idle P inv)"
  unfolding reactor_ctor_def
  by (rule unless_user_rbind [OF unless_user_rfold [where I = "idle P inv", OF idle_react idle_blank]])
    (auto intro: idle_react simp del: run_react.simps)

end

text \<open>The loop's life: set up, operations before \<open>loop()\<close>, and rounds.\<close>

inductive reactor_step :: "('p, 'k) poller_ops \<Rightarrow> ('k \<Rightarrow> 'p \<Rightarrow> cstore \<Rightarrow> bool) \<Rightarrow> 'p reactor \<Rightarrow> 'p reactor \<Rightarrow> bool"
  for P :: "('p, 'k) poller_ops" and rep :: "'k \<Rightarrow> 'p \<Rightarrow> cstore \<Rightarrow> bool" where
  rx_setup: "run_react P a s = Inr s' \<Longrightarrow> reactor_step P rep s s'"
| rx_round: "rep k (r_poller s) (r_store s) \<Longrightarrow> reactor_round P hs alive body t k s = Inr s' \<Longrightarrow> reactor_step P rep s s'"

definition reactor_init :: "('p, 'k) poller_ops \<Rightarrow> 'p \<Rightarrow> 'p reactor \<Rightarrow> bool" where
  "reactor_init P p0 s \<longleftrightarrow> (\<exists>timerfd wakeupfd. reactor_ctor P p0 False timerfd wakeupfd = Inr s)"

sublocale loop_poller < run: inductive_invariant "reactor_init P p0" "reactor_step P report" "idle P inv"
proof
  fix s
  assume "reactor_init P p0 s"
  then show "idle P inv s" using idle_ctor unfolding reactor_init_def by (metis unless_user.simps(1))
next
  fix s s'
  assume i: "idle P inv s" and "reactor_step P report s s'"
  from this(2) show "idle P inv s'"
  proof cases
    case (rx_setup a)
    with idle_react [OF i, of a] show ?thesis by simp
  next
    case (rx_round k hs alive body t)
    with round_idle [OF i, of k hs alive body t] show ?thesis by simp
  qed
qed

section \<open>Operations that succeed\<close>

lemma rfold_single: "rfold f [x] s = f x s"
  by (cases "f x s") simp_all

lemma rbind_Inr_right [simp]: "rbind m Inr = m"
  by (cases m) simp_all

text \<open>The part of a round after the callbacks of its first active channel.\<close>

definition round_rest ::
  "('p, 'k) poller_ops \<Rightarrow> handlers \<Rightarrow> (cptr \<Rightarrow> bool) \<Rightarrow> (nat \<Rightarrow> react list) \<Rightarrow> int \<Rightarrow> cptr \<Rightarrow> cptr list \<Rightarrow> 'p reactor \<Rightarrow> 'p reactor result" where
  "round_rest P hs alive body t c rest s =
     rbind (deref_channel c s) (\<lambda>_.
     rbind (rfold (handle_active P hs alive t) rest (set_handling c False s)) (\<lambda>s1.
     reactor_doPendingFunctors P body
       (s1\<lparr>r_loop := (r_loop s1)\<lparr>currentActiveChannel := None, event_loop.eventHandling := False\<rparr>\<rparr>)))"

context loop_poller
begin

text \<open>The mask of a registered channel can always be changed; after \<open>disableAll\<close> the poller can remove it.\<close>

lemma set_mask_ok:
  assumes inv: "rx_inv P inv s" and c: "c \<in> r_live s" "addedToLoop (r_store s c)"
  shows "\<exists>s'. run_react P (SetMask op c) s = Inr s' \<and> (op = DisableAll \<longrightarrow> removable (r_poller s') (r_store s') c)"
proof -
  have "po_channels P (r_poller s) (ch_fd (r_store s c)) = Some c"
    using rx_invD(3) [OF inv c] by (simp add: registered_def)
  from upd_runs [OF rx_invD(1) [OF inv] this, of "mask_after op (events (r_store s c))"] obtain p h where
    u: "po_update P c (r_poller s) (with_events c (mask_after op (events (r_store s c))) (r_store s)) = Inr (p, h)"
    "mask_after op (events (r_store s c)) = 0 \<longrightarrow> removable p h c"
    by (auto simp: rspec_iff)
  then show ?thesis using c by (auto simp: apply_mask_store EventLoop_updateChannel_def kNoneEvent_def)
qed

lemma delete_ok:
  assumes inv: "rx_inv P inv s" and c: "c \<in> r_live s" "\<not> addedToLoop (r_store s c)" "\<not> channel.eventHandling (r_store s c)"
  shows "run_react P (DeleteChannel c) s = Inr (s\<lparr>r_live := r_live s - {c}\<rparr>)"
proof -
  have "\<not> Poller_hasChannel P c (r_poller s) (r_store s)"
    using rx_invD(4) [OF inv c(1,2)] by (auto simp: Map.ran_def Poller_hasChannel_def)
  with c show ?thesis by (simp add: EventLoop_hasChannel_def Channel_dtor_def)
qed

text \<open>Taking a channel out of the loop: \<open>disableAll\<close> and \<open>remove\<close>.\<close>

lemma detach_ok:
  assumes inv: "rx_inv P inv s" and c: "c \<in> r_live s" "addedToLoop (r_store s c)"
    and a: "event_loop.eventHandling (r_loop s) \<longrightarrow> currentActiveChannel (r_loop s) = Some c \<or> c \<notin> set (activeChannels (r_loop s))"
  shows "\<exists>s'. rfold (run_react P) [SetMask DisableAll c, RemoveChannel c] s = Inr s' \<and> rx_inv P inv s' \<and> r_live s' = r_live s \<and>
     r_loop s' = r_loop s \<and> \<not> registered P s' c \<and>
     (\<forall>d. addedToLoop (r_store s' d) = (d \<noteq> c \<and> addedToLoop (r_store s d)) \<and>
          channel.eventHandling (r_store s' d) = channel.eventHandling (r_store s d))"
proof -
  obtain s1 where s1: "run_react P (SetMask DisableAll c) s = Inr s1" "removable (r_poller s1) (r_store s1) c"
    using set_mask_ok [OF inv c, of DisableAll] by auto
  have k1: "rx_inv P inv s1" "r_live s1 = r_live s" "r_loop s1 = r_loop s"
    "\<And>d. addedToLoop (r_store s1 d) \<longleftrightarrow> d = c \<or> addedToLoop (r_store s d)"
    "\<And>d. channel.eventHandling (r_store s1 d) = channel.eventHandling (r_store s d)"
    using set_mask_keeps [OF inv c(1) s1(1)] by blast+
  have reg: "po_channels P (r_poller s1) (ch_fd (r_store s1 c)) = Some c"
    using rx_invD(3) [OF k1(1), of c] k1(2,4) c by (simp add: registered_def)
  have none: "events (r_store s1 c) = 0" using removable_none [OF rx_invD(1) [OF k1(1)] reg s1(2)] .
  obtain s2 where s2: "run_react P (RemoveChannel c) s1 = Inr s2"
    using rem_runs [OF rx_invD(1) [OF k1(1)] reg s1(2), of False] none k1(2,3) c(1) a
    by (auto simp: EventLoop_removeChannel_def Channel_remove_def isNoneEvent_def kNoneEvent_def EventLoop_removeChannel_check_def)
  have "c \<in> r_live s1" using k1(2) c(1) by simp
  from remove_keeps [OF k1(1) this s2] have k: "rx_inv P inv s2" "r_live s2 = r_live s" "r_loop s2 = r_loop s"
    "\<And>d. addedToLoop (r_store s2 d) = (d \<noteq> c \<and> addedToLoop (r_store s d))"
    "\<And>d. channel.eventHandling (r_store s2 d) = channel.eventHandling (r_store s d)"
    using k1 by auto
  have "\<not> registered P s2 c"
    using rx_invD(4) [OF k(1), of c] k(2,4) c(1) registered_ran [of P s2 c] by auto
  with k s1(1) s2 show ?thesis by (simp del: run_react.simps)
qed

text \<open>The destructor of a loop whose two own channels are in place.\<close>

lemma dtor_ok:
  assumes i: "idle P inv s" and own: "{0, 1} \<subseteq> r_live s" "addedToLoop (r_store s 0)" "addedToLoop (r_store s 1)"
    "\<not> channel.eventHandling (r_store s 0)" "\<not> channel.eventHandling (r_store s 1)"
  shows "\<exists>s'. EventLoop_dtor P s = Inr s' \<and> r_live s' = r_live s - {0, 1}"
proof -
  have inv: "rx_inv P inv s" "\<not> event_loop.eventHandling (r_loop s)" using i by (simp_all add: idle_def)
  obtain s1 where s1: "rfold (run_react P) [SetMask DisableAll 0, RemoveChannel 0] s = Inr s1" "rx_inv P inv s1" "r_live s1 = r_live s"
      "r_loop s1 = r_loop s" "\<And>d. addedToLoop (r_store s1 d) = (d \<noteq> 0 \<and> addedToLoop (r_store s d))"
      "\<And>d. channel.eventHandling (r_store s1 d) = channel.eventHandling (r_store s d)"
    using detach_ok [of s 0] inv own by auto
  let ?s2 = "s1\<lparr>r_live := r_live s1 - {0}\<rparr>"
  have l: "0 \<in> r_live s1" using s1(3) own by auto
  have s2: "run_react P (DeleteChannel 0) s1 = Inr ?s2" using s1 l own by (intro delete_ok) auto
  have "rx_inv P inv ?s2" by (rule delete_keeps(1) [OF s1(2) l s2])
  then obtain s3 where s3: "rfold (run_react P) [SetMask DisableAll 1, RemoveChannel 1] ?s2 = Inr s3" "rx_inv P inv s3"
      "r_live s3 = r_live ?s2" "\<not> addedToLoop (r_store s3 1)" "\<not> channel.eventHandling (r_store s3 1)"
    using detach_ok [of ?s2 1] inv own s1 by auto
  have s4: "run_react P (DeleteChannel 1) s3 = Inr (s3\<lparr>r_live := r_live s3 - {1}\<rparr>)"
    using s1 s3 own by (intro delete_ok) auto
  have "EventLoop_dtor P s = rfold (run_react P) ([SetMask DisableAll 0, RemoveChannel 0] @ [DeleteChannel 0] @
      [SetMask DisableAll 1, RemoveChannel 1] @ [DeleteChannel 1]) s"
    by (simp add: EventLoop_dtor_def del: run_react.simps)
  then have "EventLoop_dtor P s = Inr (s3\<lparr>r_live := r_live s3 - {1}\<rparr>)"
    by (simp only: rfold_append rfold_single s1(1) s2 s3(1) s4 rbind_Inr)
  then show ?thesis using s3(3) s1(3) by auto
qed

section \<open>Removing and destroying from a callback\<close>

text \<open>A round up to the callbacks of its first active channel.\<close>

lemma round_first:
  assumes i: "idle P inv s" and e: "report k (r_poller s) (r_store s)"
    and po: "po_poll P k (r_poller s) (r_store s) = Inr (c # others, p, h)" and a: "tied (h c) \<longrightarrow> alive c"
  obtains s1 where "handling P inv c others s1" "addedToLoop (r_store s1 c)"
    "pendingFunctors (r_loop s1) = pendingFunctors (r_loop s)" "r_live s1 = r_live s"
    "reactor_round P hs alive body t k s =
       rbind (handleEventWithGuard (handler_callbacks P hs c) t (revents (h c)) s1) (round_rest P hs alive body t c others)"
proof -
  have inv: "rx_inv P inv s" using i by (simp add: idle_def)
  let ?u = "s\<lparr>r_poller := p, r_store := h\<rparr>"
  obtain r where h: "h = set_revents r (r_store s)" "rx_inv P inv ?u" "distinct (c # others)"
      "\<And>d. d \<in> set (c # others) \<Longrightarrow> d \<in> r_live s \<and> addedToLoop (r_store s d)"
  proof (rule poll_ok [OF inv e])
    fix active q r
    assume q: "po_poll P k (r_poller s) (r_store s) = Inr (active, q, set_revents r (r_store s))"
      "rx_inv P inv (s\<lparr>r_poller := q, r_store := set_revents r (r_store s)\<rparr>)" "distinct active"
      "\<And>d. d \<in> set active \<Longrightarrow> d \<in> r_live s \<and> addedToLoop (r_store s d)"
    with po have "active = c # others" "q = p" "h = set_revents r (r_store s)" by simp_all
    with q that show thesis by blast
  qed
  let ?v = "?u\<lparr>r_loop := (r_loop s)\<lparr>activeChannels := c # others, iteration := iteration (r_loop s) + 1,
      event_loop.eventHandling := True\<rparr>\<rparr>"
  let ?s1 = "set_handling c True (?v\<lparr>r_loop := (r_loop ?v)\<lparr>currentActiveChannel := Some c\<rparr>\<rparr>)"
  have ad: "addedToLoop (h d) = addedToLoop (r_store s d)" for d by (simp add: h(1) set_revents_def)
  have "handling P inv c others ?s1"
    using h(2-4) by (auto simp: handling_def ad intro: rx_inv_set_handling)
  moreover have "reactor_round P hs alive body t k s =
       rbind (handleEventWithGuard (handler_callbacks P hs c) t (revents (h c)) ?s1) (round_rest P hs alive body t c others)"
    using h(4) [of c] a po
    by (auto simp: reactor_round_def handle_events_def handle_active_def deref_channel_def rbind_assoc Let_def
        round_rest_def [abs_def])
  ultimately show thesis using h(4) [of c] by (intro that) (simp_all add: ad)
qed

text \<open>With \<open>POLLIN\<close> alone only the read callback is called.\<close>

lemma only_read:
  assumes "handling P inv c rest s"
  shows "handleEventWithGuard (handler_callbacks P hs c) t POLLIN s = rfold (run_react P) (on_read hs c) s"
  using assms
  by (simp add: handleEventWithGuard_def handler_callbacks_def call_opt_def run_script_def deref_channel_def handling_def poll_flags)

text \<open>The way the connectors leave the loop: detach in the callback, destroy in a functor.\<close>

lemma leave_ok:
  assumes h: "handling P inv c [] s" and added: "addedToLoop (r_store s c)" and p: "pendingFunctors (r_loop s) = []"
    and body: "body n = [DeleteChannel c]"
  shows "rspec (rbind (rfold (run_react P) [SetMask DisableAll c, RemoveChannel c, QueueInLoop (Ftor n [])] s)
      (round_rest P hs alive body t c [])) (\<lambda>s'. idle P inv s' \<and> r_live s' = r_live s - {c})"
proof -
  have s: "rx_inv P inv s" "c \<in> r_live s" "currentActiveChannel (r_loop s) = Some c" using h by (simp_all add: handling_def)
  obtain s1 where s1: "rfold (run_react P) [SetMask DisableAll c, RemoveChannel c] s = Inr s1" "rx_inv P inv s1" "r_live s1 = r_live s"
      "r_loop s1 = r_loop s" "\<not> addedToLoop (r_store s1 c)"
    using detach_ok [OF s(1,2) added] s(3) by auto
  let ?s2 = "s1\<lparr>r_loop := EventLoop_queueInLoop True (Ftor n []) (r_loop s1)\<rparr>"
  have "rfold (run_react P) ([SetMask DisableAll c, RemoveChannel c] @ [QueueInLoop (Ftor n [])]) s = Inr ?s2"
    unfolding rfold_append s1(1) by simp
  then have s2: "rfold (run_react P) [SetMask DisableAll c, RemoveChannel c, QueueInLoop (Ftor n [])] s = Inr ?s2" by simp
  let ?s3 = "set_handling c False ?s2\<lparr>r_loop := swap_functors ((r_loop ?s2)\<lparr>currentActiveChannel := None,
      event_loop.eventHandling := False\<rparr>)\<rparr>"
  have f: "functors (r_loop ?s3) = [Ftor n []]"
    using p s1(4) by (simp add: swap_functors_def queueInLoop_true)
  have i3: "idle P inv ?s3" using s1(2) by (simp add: idle_def swap_functors_def rx_inv_set_handling)
  have d: "run_react P (DeleteChannel c) ?s3 = Inr (?s3\<lparr>r_live := r_live ?s3 - {c}\<rparr>)"
    using i3 s1 s(2) by (intro delete_ok) (simp_all add: idle_def)
  then have "idle P inv (?s3\<lparr>r_live := r_live ?s3 - {c}\<rparr>)"
    using idle_react [OF i3, of "DeleteChannel c"] by (simp del: run_react.simps)
  then show ?thesis unfolding s2 rbind_Inr round_rest_def
    using s1(3) s(2) d f body
    by (simp add: deref_channel_def reactor_doPendingFunctors_def Let_def run_functor_def rfold_single idle_def
        del: run_react.simps)
qed

text \<open>Destroying the channel in its own callback, and detaching one that is still to be handled.\<close>

lemma delete_in_callback:
  assumes h: "handling P inv c rest s" and added: "addedToLoop (r_store s c)"
  shows "rfold (run_react P) [SetMask DisableAll c, RemoveChannel c, DeleteChannel c] s = Inl (AssertFail ''!eventHandling_'')"
proof -
  have s: "rx_inv P inv s" "c \<in> r_live s" "currentActiveChannel (r_loop s) = Some c" "channel.eventHandling (r_store s c)"
    using h by (simp_all add: handling_def)
  obtain s1 where s1: "rfold (run_react P) [SetMask DisableAll c, RemoveChannel c] s = Inr s1" "r_live s1 = r_live s"
      "channel.eventHandling (r_store s1 c)"
    using detach_ok [OF s(1,2) added] s(3,4) by auto
  have "rfold (run_react P) ([SetMask DisableAll c, RemoveChannel c] @ [DeleteChannel c]) s = Inl (AssertFail ''!eventHandling_'')"
    unfolding rfold_append s1(1) using s1 s(2) by (simp add: EventLoop_hasChannel_def Channel_dtor_def)
  then show ?thesis by simp
qed

lemma detach_other_active:
  assumes h: "handling P inv c rest s" and d: "d \<in> set rest"
  shows "rfold (run_react P) [SetMask DisableAll d, RemoveChannel d] s = Inl (AssertFail ''currentActiveChannel_ == channel'')"
proof -
  have s: "rx_inv P inv s" "d \<in> r_live s" "addedToLoop (r_store s d)" "currentActiveChannel (r_loop s) = Some c" "d \<noteq> c"
      "event_loop.eventHandling (r_loop s)" "d \<in> set (activeChannels (r_loop s))"
    using h d by (auto simp: handling_def)
  obtain s1 where s1: "run_react P (SetMask DisableAll d) s = Inr s1" "removable (r_poller s1) (r_store s1) d"
    using set_mask_ok [OF s(1-3), of DisableAll] by auto
  note k = set_mask_keeps [OF s(1,2) s1(1)]
  have "registered P s1 d" using rx_invD(3) [of P inv s1 d] k s(2) by auto
  then have "events (r_store s1 d) = 0" using removable_none s1(2) rx_invD(1) k unfolding registered_def by blast
  then have "run_react P (RemoveChannel d) s1 = Inl (AssertFail ''currentActiveChannel_ == channel'')"
    using k s
    by (simp add: Channel_remove_def isNoneEvent_def kNoneEvent_def EventLoop_removeChannel_def EventLoop_removeChannel_check_def)
  with s1(1) show ?thesis by (simp del: run_react.simps)
qed

end

section \<open>Timers set and cancelled through the loop\<close>

lemma addTime_not_before: "0 \<le> delay \<Longrightarrow> now \<le> addTime now delay"
  by (simp add: addTime_def trunc_rat_def kMicroSecondsPerSecond_def)

text \<open>A timer set with \<open>runAfter\<close> is filed for its time, and cancelling it before then takes it out unfired.\<close>

lemma runAfter_cancel:
  assumes inv: "tq_inv E q" and al: "alloc_ok alloc" and now: "0 < now" "0 \<le> delay" and cb: "list_all act_ok cb"
  shows "unless_oom (EventLoop_runAfter alloc now delay cb q) (\<lambda>(tid, q'). tq_inv E q' \<and>
     (addTime now delay, fst tid) \<in> set (timers q') \<and>
     rspec (EventLoop_cancel tid q') (\<lambda>q''. tq_inv E q'' \<and> tid \<notin> set (activeTimers q'') \<and> fired q'' = fired q))"
proof -
  have w: "0 < addTime now delay" using addTime_not_before [OF now(2), of now] now(1) by linarith
  show ?thesis unfolding EventLoop_runAfter_def EventLoop_runAt_def
  proof (rule unless_oom_mono [OF addTimer_spec [OF inv al w cb]], clarsimp)
    fix p q'
    assume q': "tq_inv E q'" "fired q' = fired q"
    from cancel_spec [OF q'(1), of "(p, s_numCreated q + 1)"]
    show "rspec (EventLoop_cancel (p, s_numCreated q + 1) q')
        (\<lambda>q''. tq_inv E q'' \<and> (p, s_numCreated q + 1) \<notin> set (activeTimers q'') \<and> fired q'' = fired q)"
      unfolding EventLoop_cancel_def by (rule rspec_mono) (use q'(2) in auto)
  qed
qed


section \<open>Properties\<close>

text \<open>
  C11. The loop never touches a destroyed channel. Whatever callbacks and functors do with channels,
  themselves included, in every round of every run over the default poller: the round ends, or the process
  stops at one of the assertions, or a callback itself used a channel that it or another had destroyed. It is
  never the loop that does: the assertions in \<open>removeChannel\<close> and in the channel's destructor are enough to keep
  every pointer in \<open>activeChannels_\<close> valid. After a round every entry of the array given to \<open>poll\<close> belongs to a
  channel that is alive.
\<close>

theorem loop_never_uses_dead_channels:
  assumes "reaches (reactor_init PollPoller_ops PollPoller_ctor) (reactor_step PollPoller_ops poll_report) s"
    and "poll_report k (r_poller s) (r_store s)"
  shows "unless_user (reactor_round PollPoller_ops hs alive body t k s) (\<lambda>s'. idle PollPoller_ops pp_inv s' \<and>
     (\<forall>e \<in> set (pollfds (r_poller s')). \<exists>c \<in> r_live s'. ch_fd (r_store s' c) = pfd_owner e))"
proof (rule unless_user_mono [OF pp.round_idle [OF pp.run.inv_reaches [OF assms(1)] assms(2)]])
  fix s'
  assume i: "idle PollPoller_ops pp_inv s'"
  then have inv: "rx_inv PollPoller_ops pp_inv s'" by (simp add: idle_def)
  have "\<exists>c \<in> r_live s'. ch_fd (r_store s' c) = pfd_owner e" if e: "e \<in> set (pollfds (r_poller s'))" for e
  proof -
    obtain j where j: "j < length (pollfds (r_poller s'))" "e = pollfds (r_poller s') ! j" using e by (auto simp: in_set_conv_nth)
    from pp_slot [OF rx_invD(1) [OF inv] j(1)] obtain c where c: "pp_channels (r_poller s') (pfd_owner e) = Some c"
      using j(2) by blast
    then have "po_channels PollPoller_ops (r_poller s') (pfd_owner e) = Some c" by (simp add: PollPoller_ops_def)
    with rx_invD(2) [OF inv this] pp.inv_fd [OF rx_invD(1) [OF inv] this] show ?thesis by blast
  qed
  with i show "idle PollPoller_ops pp_inv s' \<and> (\<forall>e \<in> set (pollfds (r_poller s')). \<exists>c \<in> r_live s'. ch_fd (r_store s' c) = pfd_owner e)"
    by blast
qed

text \<open>A loop just constructed, with descriptors 3 and 4.\<close>

definition demo_reactor :: "poll_poller reactor" where
  "demo_reactor = (case reactor_ctor PollPoller_ops PollPoller_ctor False 3 4 of Inr s \<Rightarrow> s | Inl e \<Rightarrow> reactor_blank PollPoller_ctor)"

lemmas reactor_evals = reactor_ctor_def reactor_blank_def EventLoop_updateChannel_def PollPoller_ops_def PollPoller_updateChannel_def
  PollPoller_ctor_def Channel_ctor_def EventLoop_ctor_def Channel_defs poll_flags Let_def

lemma demo_reactor_made: "reactor_ctor PollPoller_ops PollPoller_ctor False 3 4 = Inr demo_reactor"
  unfolding demo_reactor_def by (simp add: reactor_evals)

lemma demo_reactor_reached:
  "reaches (reactor_init PollPoller_ops PollPoller_ctor) (reactor_step PollPoller_ops poll_report) demo_reactor"
  by (rule reaches_init) (use demo_reactor_made in \<open>auto simp: reactor_init_def\<close>)

lemma demo_reactor_state: "pendingFunctors (r_loop demo_reactor) = []" "r_live demo_reactor = {0, 1}"
    "poll_report (1, [0, 1]) (r_poller demo_reactor) (r_store demo_reactor)"
  unfolding demo_reactor_def by (simp_all add: reactor_evals poll_report_def)

lemma demo_reactor_polled:
  "\<exists>p h. po_poll PollPoller_ops (1, [0, 1]) (r_poller demo_reactor) (r_store demo_reactor) = Inr (0 # [], p, h) \<and>
     revents (h 0) = POLLIN \<and> \<not> tied (h 0)"
  unfolding demo_reactor_def by (simp add: reactor_evals PollPoller_poll_def)

text \<open>In the example the eventfd's callback also creates and registers a channel.\<close>

definition demo_handlers :: handlers where
  "demo_handlers = \<lparr>on_read = (\<lambda>c. if c = 0 then [ReadWakeup, NewChannel 7 9, SetMask EnableReading 7] else []),
     on_write = (\<lambda>_. []), on_close = (\<lambda>_. []), on_error = (\<lambda>_. [])\<rparr>"

theorem loop_never_uses_dead_channels_witness:
  "unless_user (reactor_round PollPoller_ops demo_handlers (\<lambda>_. True) (\<lambda>_. []) 0 (1, [0, 1]) demo_reactor)
     (\<lambda>s'. idle PollPoller_ops pp_inv s' \<and>
       (\<forall>e \<in> set (pollfds (r_poller s')). \<exists>c \<in> r_live s'. ch_fd (r_store s' c) = pfd_owner e))"
  by (rule loop_never_uses_dead_channels [OF demo_reactor_reached demo_reactor_state(3)])

text \<open>
  How a channel leaves the loop from its own callback. Detached in the callback and destroyed in a
  functor queued there, as the connectors do it, the round completes and the channel is gone;
  destroyed at once in the callback, the process stops in the channel's destructor; and a callback
  that detaches another channel whose event is still to be handled in this round stops the process in
  \<open>EventLoop::removeChannel\<close>.
\<close>

theorem leaving_the_loop:
  assumes s: "reaches (reactor_init PollPoller_ops PollPoller_ctor) (reactor_step PollPoller_ops poll_report) s"
    and e: "poll_report k (r_poller s) (r_store s)"
    and po: "po_poll PollPoller_ops k (r_poller s) (r_store s) = Inr (c # others, p, h)"
    and a: "revents (h c) = POLLIN" "tied (h c) \<longrightarrow> alive c"
  shows "(others = [] \<and> pendingFunctors (r_loop s) = [] \<and> body n = [DeleteChannel c] \<and>
      on_read hs c = [SetMask DisableAll c, RemoveChannel c, QueueInLoop (Ftor n [])] \<longrightarrow>
      rspec (reactor_round PollPoller_ops hs alive body t k s)
        (\<lambda>s'. idle PollPoller_ops pp_inv s' \<and> r_live s' = r_live s - {c})) \<and>
    (on_read hs c = [SetMask DisableAll c, RemoveChannel c, DeleteChannel c] \<longrightarrow>
      reactor_round PollPoller_ops hs alive body t k s = Inl (AssertFail ''!eventHandling_'')) \<and>
    (d \<in> set others \<and> on_read hs c = [SetMask DisableAll d, RemoveChannel d] \<longrightarrow>
      reactor_round PollPoller_ops hs alive body t k s = Inl (AssertFail ''currentActiveChannel_ == channel''))"
proof -
  obtain s1 where h: "handling PollPoller_ops pp_inv c others s1" "addedToLoop (r_store s1 c)" "r_live s1 = r_live s"
      "pendingFunctors (r_loop s1) = pendingFunctors (r_loop s)"
    and r: "reactor_round PollPoller_ops hs alive body t k s =
       rbind (rfold (run_react PollPoller_ops) (on_read hs c) s1) (round_rest PollPoller_ops hs alive body t c others)"
    using pp.round_first [where hs = hs and body = body and t = t and alive = alive and c = c, OF pp.run.inv_reaches [OF s] e po a(2)]
      pp.only_read a(1) by metis
  show ?thesis
  proof (intro conjI impI; (elim conjE)?)
    assume "others = []" "pendingFunctors (r_loop s) = []" "body n = [DeleteChannel c]"
      and "on_read hs c = [SetMask DisableAll c, RemoveChannel c, QueueInLoop (Ftor n [])]"
    with pp.leave_ok [of c s1 body n hs alive t] h r
    show "rspec (reactor_round PollPoller_ops hs alive body t k s)
        (\<lambda>s'. idle PollPoller_ops pp_inv s' \<and> r_live s' = r_live s - {c})"
      by (simp del: rfold.simps)
  next
    assume "on_read hs c = [SetMask DisableAll c, RemoveChannel c, DeleteChannel c]"
    with r pp.delete_in_callback [OF h(1,2)]
    show "reactor_round PollPoller_ops hs alive body t k s = Inl (AssertFail ''!eventHandling_'')"
      by (simp only: rbind_Inl)
  next
    assume "d \<in> set others" "on_read hs c = [SetMask DisableAll d, RemoveChannel d]"
    with r pp.detach_other_active [OF h(1), of d]
    show "reactor_round PollPoller_ops hs alive body t k s = Inl (AssertFail ''currentActiveChannel_ == channel'')"
      by (simp only: rbind_Inl)
  qed
qed

text \<open>In the example the channel is the eventfd's.\<close>

definition leaving_handlers :: handlers where
  "leaving_handlers = \<lparr>on_read = (\<lambda>c. if c = 0 then [SetMask DisableAll 0, RemoveChannel 0, QueueInLoop (Ftor 5 [])] else []),
     on_write = (\<lambda>_. []), on_close = (\<lambda>_. []), on_error = (\<lambda>_. [])\<rparr>"

theorem leaving_the_loop_witness:
  "rspec (reactor_round PollPoller_ops leaving_handlers (\<lambda>_. True) (\<lambda>n. [DeleteChannel 0]) 0 (1, [0, 1]) demo_reactor)
     (\<lambda>s'. idle PollPoller_ops pp_inv s' \<and> r_live s' = {1})"
proof -
  have one: "{0, 1} - {0} = {1 :: nat}" by auto
  obtain p h where ph: "po_poll PollPoller_ops (1, [0, 1]) (r_poller demo_reactor) (r_store demo_reactor) = Inr (0 # [], p, h)"
      "revents (h 0) = POLLIN" "\<not> tied (h 0)"
    using demo_reactor_polled by blast
  then have a: "tied (h 0) \<longrightarrow> (\<lambda>_. True) 0" by simp
  show ?thesis
    using leaving_the_loop [OF demo_reactor_reached demo_reactor_state(3) ph(1,2) a, of "\<lambda>n. [DeleteChannel 0]" 5
        leaving_handlers 0 0] demo_reactor_state one
    by (simp add: leaving_handlers_def del: One_nat_def)
qed

end
