(* ===== verification/SelectPoller.thy ===== *)
theory SelectPoller
  imports LoopPoller
begin

text \<open>
  \<open>SelectPoller\<close> (\<open>third/muduo-win/src/net/Poller/SelectPoller.cc\<close>), the poller of the Windows build. It keeps the
  array of \<open>PollPoller\<close> and copies it into three descriptor sets before each \<open>select\<close>. \<open>removeChannel\<close> is the same
  code as in \<open>PollPoller\<close>; \<open>updateChannel\<close> is not. The capacity of a descriptor set (\<open>FD_SETSIZE\<close>, 64 unless
  defined otherwise) and the answer of \<open>select\<close> are arguments.
\<close>

record select_poller =
  sp_table :: poll_poller
  rfds :: "fd list"
  wfds :: "fd list"
  efds :: "fd list"

definition SelectPoller_ctor :: select_poller where
  "SelectPoller_ctor = \<lparr>sp_table = PollPoller_ctor, rfds = [], wfds = [], efds = []\<rparr>"

text \<open>Winsock's \<open>FD_SET\<close>: nothing happens when the descriptor is there or the set is full.\<close>

definition FD_SET :: "nat \<Rightarrow> fd \<Rightarrow> fd list \<Rightarrow> fd list" where
  "FD_SET cap f fds = (if f \<in> set fds \<or> cap \<le> length fds then fds else fds @ [f])"

fun fill_sets :: "nat \<Rightarrow> pollfd list \<Rightarrow> select_poller \<Rightarrow> select_poller" where
  "fill_sets cap [] p = p"
| "fill_sets cap (e # es) p =
     (let p1 = (if pfd_events e AND ucast (POLLIN OR POLLPRI) \<noteq> 0 then p\<lparr>rfds := FD_SET cap (pfd_fd e) (rfds p)\<rparr> else p);
          p2 = (if pfd_events e AND ucast POLLOUT \<noteq> 0 then p1\<lparr>wfds := FD_SET cap (pfd_fd e) (wfds p1)\<rparr> else p1)
      in fill_sets cap es (p2\<lparr>efds := FD_SET cap (pfd_fd e) (efds p2)\<rparr>))"

definition select_revents :: "fd \<Rightarrow> select_poller \<Rightarrow> 32 word" where
  "select_revents f p =
     (let r0 = 0;
          r1 = (if f \<in> set (rfds p) then r0 OR POLLIN else r0);
          r2 = (if f \<in> set (wfds p) then r1 OR POLLOUT else r1)
      in if f \<in> set (efds p) then r2 OR POLLERR else r2)"

fun SelectPoller_fillActiveChannels ::
  "int \<Rightarrow> pollfd list \<Rightarrow> select_poller \<Rightarrow> cstore \<Rightarrow> cptr list \<Rightarrow> (cptr list \<times> cstore) result" where
  "SelectPoller_fillActiveChannels numEvents [] p h active = Inr (active, h)"
| "SelectPoller_fillActiveChannels numEvents (e # es) p h active =
     (if numEvents > 0
      then let ev = select_revents (pfd_fd e) p in
           if 0 < sint ev
           then (case pp_channels (sp_table p) (pfd_fd e) of
                   None \<Rightarrow> Inl (AssertFail ''ch != channels_.end()'')
                 | Some c \<Rightarrow>
                     rbind (cassert (ch_fd (h c) = pfd_fd e) ''channel->fd() == pfd->fd'') (\<lambda>_.
                     SelectPoller_fillActiveChannels (numEvents - 1) es p (h(c := (h c)\<lparr>revents := ev\<rparr>)) (active @ [c])))
           else SelectPoller_fillActiveChannels numEvents es p h active
      else Inr (active, h))"

text \<open>An answer of \<open>select\<close>: the number it returns and what it leaves in the three sets.\<close>

type_synonym select_answer = "int \<times> fd list \<times> fd list \<times> fd list"

definition sets_to_select :: "nat \<Rightarrow> select_poller \<Rightarrow> select_poller" where
  "sets_to_select cap p = fill_sets cap (pollfds (sp_table p)) (p\<lparr>rfds := [], wfds := [], efds := []\<rparr>)"

definition SelectPoller_poll ::
  "nat \<Rightarrow> (select_poller \<Rightarrow> select_answer) \<Rightarrow> select_poller \<Rightarrow> cstore \<Rightarrow> (cptr list \<times> select_poller \<times> cstore) result" where
  "SelectPoller_poll cap sel p h =
     (let p1 = sets_to_select cap p in
      case sel p1 of (numEvents, r, w, e) \<Rightarrow>
        let p2 = p1\<lparr>rfds := r, wfds := w, efds := e\<rparr> in
        if numEvents > 0
        then rbind (SelectPoller_fillActiveChannels numEvents (pollfds (sp_table p2)) p2 h []) (\<lambda>(active, h').
             Inr (active, p2, h'))
        else Inr ([], p2, h))"

definition SelectPoller_updateChannel ::
  "cptr \<Rightarrow> select_poller \<Rightarrow> cstore \<Rightarrow> (select_poller \<times> cstore) result" where
  "SelectPoller_updateChannel c p h =
     (let ch = h c; f = ch_fd ch; t = sp_table p in
      if index ch < 0
      then
        rbind (cassert (pp_channels t f = None) ''channels_.find(fd) == end'') (\<lambda>_.
        let pfds = pollfds t @ [\<lparr>pfd_fd = f, pfd_events = ucast (events ch), pfd_revents = 0\<rparr>]
        in Inr (p\<lparr>sp_table := t\<lparr>pollfds := pfds, pp_channels := (pp_channels t)(f \<mapsto> c)\<rparr>\<rparr>,
                h(c := ch\<lparr>index := int (length pfds) - 1\<rparr>)))
      else
        rbind (cassert (pp_channels t f \<noteq> None) ''channels_.find(fd) != end'') (\<lambda>_.
        rbind (cassert (pp_channels t f = Some c) ''channels_[fd] == channel'') (\<lambda>_.
        let idx = nat (index ch) in
        rbind (cassert (idx < length (pollfds t)) ''0 <= idx && idx < pollfds_.size()'') (\<lambda>_.
        let pfd = pollfds t ! idx in
        rbind (cassert (pfd_fd pfd = f \<or> pfd_fd pfd = - f - 1) ''pfd.fd == fd || pfd.fd == -fd-1'') (\<lambda>_.
        let pfd' = pfd\<lparr>pfd_events := ucast (events ch), pfd_revents := 0\<rparr>;
            pfd'' = (if isNoneEvent ch then pfd'\<lparr>pfd_fd := - f - 1\<rparr> else pfd')
        in Inr (p\<lparr>sp_table := t\<lparr>pollfds := (pollfds t)[idx := pfd'']\<rparr>\<rparr>, h))))))"

definition SelectPoller_removeChannel ::
  "cptr \<Rightarrow> select_poller \<Rightarrow> cstore \<Rightarrow> (select_poller \<times> cstore) result" where
  "SelectPoller_removeChannel c p h =
     rbind (PollPoller_removeChannel c (sp_table p) h) (\<lambda>(t, h'). Inr (p\<lparr>sp_table := t\<rparr>, h'))"

section \<open>What the sets hold\<close>

lemma set_FD_SET: "set (FD_SET cap f fds) \<subseteq> insert f (set fds)"
  by (auto simp: FD_SET_def)

lemma FD_SET_mono: "set fds \<subseteq> set (FD_SET cap f fds)"
  by (auto simp: FD_SET_def)

lemma FD_SET_in: "length fds < cap \<Longrightarrow> f \<in> set (FD_SET cap f fds)"
  by (auto simp: FD_SET_def)

lemma length_FD_SET: "length (FD_SET cap f fds) \<le> Suc (length fds)"
  by (simp add: FD_SET_def)

text \<open>Only descriptors written in the array come into the sets.\<close>

lemma fill_sets_only:
  "set (rfds (fill_sets cap es p)) \<subseteq> set (rfds p) \<union> pfd_fd ` set es"
  "set (wfds (fill_sets cap es p)) \<subseteq> set (wfds p) \<union> pfd_fd ` set es"
  "set (efds (fill_sets cap es p)) \<subseteq> set (efds p) \<union> pfd_fd ` set es"
  "sp_table (fill_sets cap es p) = sp_table p"
proof (induction es arbitrary: p)
  case (Cons e es)
  {
    case 1
    from Cons.IH(1) show ?case using set_FD_SET [of cap "pfd_fd e"] by (simp add: Let_def) fastforce
  next
    case 2
    from Cons.IH(2) show ?case using set_FD_SET [of cap "pfd_fd e"] by (simp add: Let_def) fastforce
  next
    case 3
    from Cons.IH(3) show ?case using set_FD_SET [of cap "pfd_fd e"] by (simp add: Let_def) fastforce
  next
    case 4
    from Cons.IH(4) show ?case by (simp add: Let_def)
  }
qed simp_all

text \<open>With room in the sets, the descriptor of every entry is watched for errors.\<close>

lemma fill_sets_errors:
  assumes "length (efds p) + length es \<le> cap"
  shows "set (efds p) \<union> pfd_fd ` set es \<subseteq> set (efds (fill_sets cap es p))"
  using assms
proof (induction es arbitrary: p)
  case (Cons e es)
  let ?p1 = "if pfd_events e AND ucast (POLLIN OR POLLPRI) \<noteq> 0 then p\<lparr>rfds := FD_SET cap (pfd_fd e) (rfds p)\<rparr> else p"
  let ?p2 = "if pfd_events e AND ucast POLLOUT \<noteq> 0 then ?p1\<lparr>wfds := FD_SET cap (pfd_fd e) (wfds ?p1)\<rparr> else ?p1"
  let ?q = "?p2\<lparr>efds := FD_SET cap (pfd_fd e) (efds ?p2)\<rparr>"
  have q: "efds ?q = FD_SET cap (pfd_fd e) (efds p)" by simp
  have "length (efds ?q) + length es \<le> cap" using Cons.prems length_FD_SET [of cap "pfd_fd e" "efds p"] unfolding q by simp
  note IH = Cons.IH [OF this]
  have "pfd_fd e \<in> set (efds ?q)" "set (efds p) \<subseteq> set (efds ?q)"
    using Cons.prems unfolding q by (auto simp: FD_SET_in intro: subsetD [OF FD_SET_mono])
  then have "set (efds p) \<union> pfd_fd ` set (e # es) \<subseteq> set (efds ?q) \<union> pfd_fd ` set es" by auto
  also note IH
  finally show ?case by (simp add: Let_def)
qed simp

section \<open>Muting and unmuting\<close>

text \<open>A registered channel and its entry in the array, not muted.\<close>

definition sp_entry :: "select_poller \<Rightarrow> cstore \<Rightarrow> cptr \<Rightarrow> bool" where
  "sp_entry p h c \<longleftrightarrow> pp_channels (sp_table p) (ch_fd (h c)) = Some c \<and> 0 \<le> ch_fd (h c) \<and> 0 \<le> index (h c) \<and>
     nat (index (h c)) < length (pollfds (sp_table p)) \<and> pfd_fd (pollfds (sp_table p) ! nat (index (h c))) = ch_fd (h c)"

text \<open>What \<open>select\<close> is documented to do with a value in a set that is no socket: it fails.\<close>

definition select_rejects :: "(select_poller \<Rightarrow> select_answer) \<Rightarrow> bool" where
  "select_rejects sel \<longleftrightarrow> (\<forall>p. (\<exists>f \<in> set (rfds p) \<union> set (wfds p) \<union> set (efds p). f < 0) \<longrightarrow> fst (sel p) < 0)"

text \<open>With a muted entry in the array \<open>poll\<close> finds nothing, for any channel.\<close>

lemma muted_entry_blinds:
  assumes m: "e \<in> set (pollfds (sp_table p))" "pfd_fd e < 0"
    and cap: "length (pollfds (sp_table p)) \<le> cap" and sel: "select_rejects sel"
  shows "\<exists>p'. SelectPoller_poll cap sel p h = Inr ([], p', h)"
proof -
  let ?q = "sets_to_select cap p"
  have "pfd_fd e \<in> set (efds ?q)"
    using fill_sets_errors [of "p\<lparr>rfds := [], wfds := [], efds := []\<rparr>" "pollfds (sp_table p)" cap] cap m(1)
    by (auto simp: sets_to_select_def)
  then have "fst (sel ?q) < 0" using sel m(2) unfolding select_rejects_def by blast
  then show ?thesis by (auto simp: SelectPoller_poll_def Let_def split: prod.splits)
qed

lemma pollfd_written: "e\<lparr>pfd_events := x, pfd_revents := y\<rparr> = \<lparr>pfd_fd = pfd_fd e, pfd_events = x, pfd_revents = y\<rparr>"
  by (cases e) simp

lemma sp_update_registered:
  assumes "pp_channels (sp_table p) (ch_fd (h c)) = Some c" "0 \<le> index (h c)"
    "nat (index (h c)) < length (pollfds (sp_table p))"
    "pfd_fd (pollfds (sp_table p) ! nat (index (h c))) \<in> {ch_fd (h c), - ch_fd (h c) - 1}"
  shows "SelectPoller_updateChannel c p (with_events c ev h) = Inr (p\<lparr>sp_table := (sp_table p)\<lparr>pollfds := (pollfds (sp_table p))
     [nat (index (h c)) :=
        \<lparr>pfd_fd = (if ev = 0 then - ch_fd (h c) - 1 else pfd_fd (pollfds (sp_table p) ! nat (index (h c)))),
         pfd_events = ucast ev, pfd_revents = 0\<rparr>]\<rparr>\<rparr>, with_events c ev h)"
  using assms
  by (auto simp: SelectPoller_updateChannel_def with_events_def Let_def isNoneEvent_def kNoneEvent_def pollfd_written)

section \<open>Properties\<close>

text \<open>
  C32. A channel that was muted and then enabled again stays deaf with the poller of the Windows build, and makes
  every other channel deaf: \<open>updateChannel\<close> does not write the descriptor back into the array as the \<open>poll\<close> poller does,
  \<open>poll\<close> puts the value that marks the entry as muted into a descriptor set, and \<open>select\<close>, which fails on a value that is no
  socket, then reports no event of any channel.
\<close>

theorem select_poller_unmute:
  assumes e: "sp_entry p h c" and ev: "ev \<noteq> 0" and cap: "length (pollfds (sp_table p)) \<le> cap" and sel: "select_rejects sel"
  shows "rspec (rbind (SelectPoller_updateChannel c p (with_events c 0 h))
          (\<lambda>(p1, h1). SelectPoller_updateChannel c p1 (with_events c ev h1)))
      (\<lambda>(p2, h2). pfd_fd (pollfds (sp_table p2) ! nat (index (h c))) = - ch_fd (h c) - 1 \<and>
         (\<exists>p3. SelectPoller_poll cap sel p2 h2 = Inr ([], p3, h2))) \<and>
    rspec (rbind (PollPoller_updateChannel c (sp_table p) (with_events c 0 h))
          (\<lambda>(t1, h1). PollPoller_updateChannel c t1 (with_events c ev h1)))
      (\<lambda>(t2, h2). pfd_fd (pollfds t2 ! nat (index (h c))) = ch_fd (h c))"
proof -
  let ?t = "sp_table p" and ?f = "ch_fd (h c)" and ?i = "nat (index (h c))"
  have s: "pp_channels ?t ?f = Some c" "0 \<le> ?f" "0 \<le> index (h c)" "?i < length (pollfds ?t)" "pfd_fd (pollfds ?t ! ?i) = ?f"
    using e by (simp_all add: sp_entry_def)
  let ?e1 = "\<lparr>pfd_fd = - ?f - 1, pfd_events = 0, pfd_revents = 0\<rparr>"
  let ?p1 = "p\<lparr>sp_table := ?t\<lparr>pollfds := (pollfds ?t)[?i := ?e1]\<rparr>\<rparr>" and ?h1 = "with_events c 0 h"
  have u1: "SelectPoller_updateChannel c p ?h1 = Inr (?p1, ?h1)"
    using sp_update_registered [of p h c 0] s by simp
  have h1: "ch_fd (?h1 c) = ?f" "index (?h1 c) = index (h c)" by (simp_all add: with_events_def)
  let ?e2 = "\<lparr>pfd_fd = - ?f - 1, pfd_events = ucast ev, pfd_revents = 0\<rparr>"
  let ?p2 = "p\<lparr>sp_table := ?t\<lparr>pollfds := (pollfds ?t)[?i := ?e2]\<rparr>\<rparr>" and ?h2 = "with_events c ev ?h1"
  have u2: "SelectPoller_updateChannel c ?p1 ?h2 = Inr (?p2, ?h2)"
    using sp_update_registered [of ?p1 ?h1 c ev] s h1 ev by simp
  have "?e2 \<in> set (pollfds (sp_table ?p2))" using s(4) set_update_memI [of ?i "pollfds ?t" ?e2] by simp
  then obtain p3 where "SelectPoller_poll cap sel ?p2 ?h2 = Inr ([], p3, ?h2)"
    using muted_entry_blinds [of ?e2 ?p2 cap sel ?h2] s(2) cap sel by auto
  then have one: "rspec (rbind (SelectPoller_updateChannel c p ?h1)
          (\<lambda>(p1, h1). SelectPoller_updateChannel c p1 (with_events c ev h1)))
      (\<lambda>(p2, h2). pfd_fd (pollfds (sp_table p2) ! ?i) = - ?f - 1 \<and> (\<exists>p3. SelectPoller_poll cap sel p2 h2 = Inr ([], p3, h2)))"
    using u1 u2 s(4) by simp
  have "rspec (rbind (PollPoller_updateChannel c ?t ?h1)
          (\<lambda>(t1, h1). PollPoller_updateChannel c t1 (with_events c ev h1)))
      (\<lambda>(t2, h2). pfd_fd (pollfds t2 ! ?i) = ?f)"
    using s ev by (simp add: PollPoller_updateChannel_def with_events_def Let_def isNoneEvent_def kNoneEvent_def)
  with one show ?thesis by blast
qed

text \<open>In the example \<open>select\<close> finds nothing on sockets, and the channel is the only one.\<close>

definition quiet_select :: "select_poller \<Rightarrow> select_answer" where
  "quiet_select p = (if list_all (\<lambda>f. 0 \<le> f) (rfds p @ wfds p @ efds p) then (0, [], [], []) else (-1, rfds p, wfds p, efds p))"

definition demo_select :: select_poller where
  "demo_select = SelectPoller_ctor\<lparr>sp_table := \<lparr>pp_channels = [5 \<mapsto> 0], pollfds = [\<lparr>pfd_fd = 5, pfd_events = 3, pfd_revents = 0\<rparr>]\<rparr>\<rparr>"

lemma demo_select_made:
  "SelectPoller_updateChannel 0 SelectPoller_ctor (with_events 0 3 (\<lambda>_. Channel_ctor 5)) =
     Inr (demo_select, (with_events 0 3 (\<lambda>_. Channel_ctor 5))(0 := (with_events 0 3 (\<lambda>_. Channel_ctor 5) 0)\<lparr>index := 0\<rparr>))"
  by (simp add: SelectPoller_updateChannel_def SelectPoller_ctor_def PollPoller_ctor_def with_events_def Channel_ctor_def demo_select_def)

theorem select_poller_unmute_witness:
  "let h = (\<lambda>_. (Channel_ctor 5)\<lparr>index := 0\<rparr>) in
   rspec (rbind (SelectPoller_updateChannel 0 demo_select (with_events 0 0 h))
          (\<lambda>(p1, h1). SelectPoller_updateChannel 0 p1 (with_events 0 3 h1)))
      (\<lambda>(p2, h2). \<exists>p3. SelectPoller_poll 64 quiet_select p2 h2 = Inr ([], p3, h2))"
proof -
  let ?h = "\<lambda>_ :: nat. (Channel_ctor 5)\<lparr>index := 0\<rparr>"
  have "sp_entry demo_select ?h 0" by (simp add: sp_entry_def demo_select_def Channel_ctor_def)
  moreover have "select_rejects quiet_select"
    unfolding select_rejects_def quiet_select_def by (auto simp: list_all_iff dest!: bspec)
  moreover have "length (pollfds (sp_table demo_select)) \<le> 64" by (simp add: demo_select_def)
  ultimately show ?thesis
    using select_poller_unmute [of demo_select ?h 0 3 64 quiet_select] by (simp add: Let_def) (auto elim: rspec_mono)
qed

end
