(* ===== verification/Base64.thy ===== *)
theory Base64
  imports Prelude
begin

unbundle bit_operations_syntax

text \<open>
  \<open>base64_encode\<close> and \<open>base64_decode\<close> (\<open>third/muduo-win/src/base/security/base64.cpp\<close>). A \<open>string\<close> is its bytes; a \<open>char\<close> is signed, so a
  byte of 128 or more becomes a negative \<open>int\<close>, for which \<open>isspace\<close> is undefined (except for \<open>EOF\<close>). Sizes are 64-bit;
  the two assertions at the end of \<open>base64_encode\<close> subtract in that type. A store outside the result is undefined.
\<close>

section \<open>The tables\<close>

definition b64_table :: bytes where
  "b64_table = map of_char ''ABCDEFGHIJKLMNOPQRSTUVWXYZabcdefghijklmnopqrstuvwxyz0123456789+/''"

definition reverse_table :: "nat list" where
  "reverse_table =
    [64, 64, 64, 64, 64, 64, 64, 64, 64, 64, 64, 64, 64, 64, 64, 64,
     64, 64, 64, 64, 64, 64, 64, 64, 64, 64, 64, 64, 64, 64, 64, 64,
     64, 64, 64, 64, 64, 64, 64, 64, 64, 64, 64, 62, 64, 64, 64, 63,
     52, 53, 54, 55, 56, 57, 58, 59, 60, 61, 64, 64, 64, 64, 64, 64,
     64,  0,  1,  2,  3,  4,  5,  6,  7,  8,  9, 10, 11, 12, 13, 14,
     15, 16, 17, 18, 19, 20, 21, 22, 23, 24, 25, 64, 64, 64, 64, 64,
     64, 26, 27, 28, 29, 30, 31, 32, 33, 34, 35, 36, 37, 38, 39, 40,
     41, 42, 43, 44, 45, 46, 47, 48, 49, 50, 51, 64, 64, 64, 64, 64]"

section \<open>Encoding\<close>

definition SIZE_MAX :: int where "SIZE_MAX = 2 ^ 64 - 1"

definition size_sub :: "int \<Rightarrow> int \<Rightarrow> int" where
  "size_sub a b = (a - b) mod (SIZE_MAX + 1)"

definition b64_put :: "32 word \<Rightarrow> nat \<Rightarrow> bytes \<Rightarrow> (nat \<times> bytes) result" where
  "b64_put w outpos retval =
     (if outpos < length retval then Inr (outpos + 1, retval[outpos := b64_table ! unat (w AND 0x3f)])
      else Inl (Undefined ''retval[outpos++]''))"

text \<open>The inner loop: as long as six bits have been collected.\<close>

fun b64_emit :: "32 word \<Rightarrow> nat \<Rightarrow> nat \<Rightarrow> bytes \<Rightarrow> (nat \<times> nat \<times> bytes) result" where
  "b64_emit acc bits outpos retval =
     (if bits \<ge> 6
      then rbind (b64_put (drop_bit (bits - 6) acc) outpos retval) (\<lambda>(outpos', retval'). b64_emit acc (bits - 6) outpos' retval')
      else Inr (bits, outpos, retval))"

declare b64_emit.simps [simp del]

fun b64_encode_loop :: "bytes \<Rightarrow> 32 word \<Rightarrow> nat \<Rightarrow> nat \<Rightarrow> bytes \<Rightarrow> (32 word \<times> nat \<times> nat \<times> bytes) result" where
  "b64_encode_loop [] acc bits outpos retval = Inr (acc, bits, outpos, retval)"
| "b64_encode_loop (b # bs) acc bits outpos retval =
     (let acc' = push_bit 8 acc OR ucast b in
      rbind (b64_emit acc' (bits + 8) outpos retval) (\<lambda>(bits', outpos', retval').
      b64_encode_loop bs acc' bits' outpos' retval'))"

definition base64_encode :: "bytes \<Rightarrow> bytes result" where
  "base64_encode bindata =
     (if int (length bindata) > (SIZE_MAX div 4) * 3 then Inr []
      else let retval = replicate (((length bindata + 2) div 3) * 4) (of_char CHR ''='') in
           rbind (b64_encode_loop bindata 0 0 0 retval) (\<lambda>(acc, bits, outpos, retval).
           rbind (if bits > 0
                  then rbind (cassert (bits < 6) ''bits_collected < 6'') (\<lambda>_.
                       b64_put (push_bit (6 - bits) acc) outpos retval)
                  else Inr (outpos, retval)) (\<lambda>(outpos, retval).
           rbind (cassert (int outpos \<ge> size_sub (int (length retval)) 2) ''outpos >= (retval.size() - 2)'') (\<lambda>_.
           rbind (cassert (outpos \<le> length retval) ''outpos <= retval.size()'') (\<lambda>_.
           Inr retval)))))"

section \<open>Decoding\<close>

definition isspace :: "int \<Rightarrow> bool" where
  "isspace c \<longleftrightarrow> c \<in> {9, 10, 11, 12, 13, 32}"

fun b64_decode_loop :: "bytes \<Rightarrow> 32 word \<Rightarrow> nat \<Rightarrow> bytes \<Rightarrow> bytes result" where
  "b64_decode_loop [] acc bits retval = Inr retval"
| "b64_decode_loop (b # bs) acc bits retval =
     (let c = sint b in
      if c < -1 then Inl (Undefined ''isspace of a negative char'')
      else if isspace c \<or> c = 61 then b64_decode_loop bs acc bits retval
      else if c > 127 \<or> c < 0 \<or> reverse_table ! nat c > 63 then Inr []
      else let acc' = push_bit 6 acc OR of_nat (reverse_table ! nat c) in
           if bits + 6 \<ge> 8
           then b64_decode_loop bs acc' (bits + 6 - 8) (retval @ [ucast (drop_bit (bits + 6 - 8) acc' AND 0xff)])
           else b64_decode_loop bs acc' (bits + 6) retval)"

definition base64_decode :: "bytes \<Rightarrow> bytes result" where
  "base64_decode ascdata = b64_decode_loop ascdata 0 0 []"

section \<open>Bits\<close>

text \<open>The lowest \<open>n\<close> bits of a word, highest first.\<close>

definition to_bits :: "nat \<Rightarrow> 'a::len word \<Rightarrow> bool list" where
  "to_bits n w = map (bit w) (rev [0 ..< n])"

lemma length_to_bits [simp]: "length (to_bits n w) = n"
  by (simp add: to_bits_def)

lemma to_bits_0 [simp]: "to_bits 0 w = []"
  by (simp add: to_bits_def)

lemma to_bits_cong: "(\<And>i. i < n \<Longrightarrow> bit v i = bit w i) \<Longrightarrow> to_bits n v = to_bits n w"
  by (simp add: to_bits_def)

lemma to_bits_split: "to_bits (m + n) w = to_bits m (drop_bit n w) @ to_bits n w"
proof -
  have "[0 ..< m + n] = [0 ..< n] @ map (\<lambda>i. i + n) [0 ..< m]"
    using upt_add_eq_append [of 0 n m] by (simp add: map_add_upt add.commute)
  then show ?thesis by (simp add: to_bits_def rev_map bit_drop_bit_eq add.commute)
qed

text \<open>Shifting new bits in at the low end.\<close>

lemma to_bits_push:
  fixes acc x :: "32 word"
  assumes "m + k \<le> 32" "\<And>i. k \<le> i \<Longrightarrow> \<not> bit x i"
  shows "to_bits (m + k) (push_bit k acc OR x) = to_bits m acc @ to_bits k x"
proof -
  have "to_bits m (drop_bit k (push_bit k acc OR x)) = to_bits m acc"
    using assms by (intro to_bits_cong) (auto simp: bit_simps)
  moreover have "to_bits k (push_bit k acc OR x) = to_bits k x"
    by (intro to_bits_cong) (auto simp: bit_simps)
  ultimately show ?thesis by (simp add: to_bits_split)
qed

lemma to_bits_inj8: "to_bits 8 a = to_bits 8 b \<longleftrightarrow> a = (b :: byte)"
proof
  assume "to_bits 8 a = to_bits 8 b"
  then have "bit a i = bit b i" if "i < 8" for i using that by (auto simp: to_bits_def)
  then show "a = b" by (intro bit_word_eqI) simp
qed simp

definition six :: "nat \<Rightarrow> bool list" where
  "six v = to_bits 6 (of_nat v :: 32 word)"

definition bits_of :: "bytes \<Rightarrow> bool list" where
  "bits_of bs = concat (map (to_bits 8) bs)"

definition sextets :: "nat list \<Rightarrow> bool list" where
  "sextets vs = concat (map six vs)"

lemma length_bits [simp]: "length (bits_of bs) = 8 * length bs" "length (sextets vs) = 6 * length vs"
  by (induction bs) (simp_all add: bits_of_def, induction vs, simp_all add: sextets_def six_def)

lemma bits_append [simp]: "bits_of (a @ b) = bits_of a @ bits_of b" "sextets (u @ v) = sextets u @ sextets v"
    "bits_of [] = []" "sextets [] = []" "bits_of (x # a) = to_bits 8 x @ bits_of a" "sextets (y # u) = six y @ sextets u"
  by (simp_all add: bits_of_def sextets_def)

lemma bits_of_inj: "bits_of a = bits_of b \<Longrightarrow> a = b"
proof (induction a arbitrary: b)
  case Nil
  then have "length (bits_of b) = 0" by simp
  then show ?case by simp
next
  case (Cons x a)
  then have "length (bits_of b) > 0" by (metis length_bits(1) length_greater_0_conv list.distinct(1) nat_0_less_mult_iff zero_less_numeral)
  then obtain y c where b: "b = y # c" by (cases b) auto
  with Cons show ?case by (simp add: to_bits_inj8)
qed

lemma six_low: "six (unat (w AND 0x3f)) = to_bits 6 (w :: 32 word)"
proof -
  have m: "(0x3f :: 32 word) = mask 6" by (simp add: mask_eq_exp_minus_1)
  show ?thesis unfolding six_def m by (intro to_bits_cong) (simp add: bit_simps)
qed

lemma low6_bound: "unat (w AND 0x3f :: 32 word) < 64"
proof -
  have "w AND 0x3f \<le> 0x3f" by (rule word_and_le1)
  then have "unat (w AND 0x3f) \<le> unat (0x3f :: 32 word)" by (rule word_le_nat_alt [THEN iffD1])
  then show ?thesis by simp
qed

section \<open>The encoder emits the bits of the bytes\<close>

definition enc_out :: "nat \<Rightarrow> nat list \<Rightarrow> bytes" where
  "enc_out N vs = map (\<lambda>v. b64_table ! v) vs @ replicate (N - length vs) (of_char CHR ''='')"

lemma put_ok:
  assumes "length vs < N"
  shows "b64_put w (length vs) (enc_out N vs) = Inr (length (vs @ [unat (w AND 0x3f)]), enc_out N (vs @ [unat (w AND 0x3f)]))"
proof -
  have "N - length vs = Suc (N - Suc (length vs))" using assms by simp
  then show ?thesis using assms by (simp add: b64_put_def enc_out_def list_update_append)
qed

lemma emit_ok:
  assumes "length vs + bits div 6 \<le> N"
  shows "\<exists>ws. b64_emit acc bits (length vs) (enc_out N vs) = Inr (bits mod 6, length (vs @ ws), enc_out N (vs @ ws)) \<and>
     sextets ws @ to_bits (bits mod 6) acc = to_bits bits acc \<and> length ws = bits div 6 \<and> list_all (\<lambda>v. v < 64) ws"
  using assms
proof (induction bits arbitrary: vs rule: less_induct)
  case (less bits)
  show ?case
  proof (cases "6 \<le> bits")
    case False
    then show ?thesis by (simp add: b64_emit.simps)
  next
    case True
    let ?v = "unat (drop_bit (bits - 6) acc AND 0x3f)"
    have d: "bits div 6 = Suc ((bits - 6) div 6)" "bits mod 6 = (bits - 6) mod 6"
      using True by (simp_all add: le_div_geq le_mod_geq)
    have "bits - 6 < bits" "length (vs @ [?v]) + (bits - 6) div 6 \<le> N" using True less.prems d(1) by simp_all
    from less.IH [OF this] obtain ws where
      ws: "b64_emit acc (bits - 6) (length (vs @ [?v])) (enc_out N (vs @ [?v])) =
          Inr ((bits - 6) mod 6, length ((vs @ [?v]) @ ws), enc_out N ((vs @ [?v]) @ ws))"
        "sextets ws @ to_bits ((bits - 6) mod 6) acc = to_bits (bits - 6) acc" "length ws = (bits - 6) div 6"
        "list_all (\<lambda>v. v < 64) ws" by blast
    have "b64_emit acc bits (length vs) (enc_out N vs) = b64_emit acc (bits - 6) (length (vs @ [?v])) (enc_out N (vs @ [?v]))"
      using True less.prems d(1) put_ok [of vs N "drop_bit (bits - 6) acc"] by (subst b64_emit.simps) simp
    moreover have "to_bits bits acc = six ?v @ to_bits (bits - 6) acc"
      using to_bits_split [of 6 "bits - 6" acc] True by (simp add: six_low)
    ultimately show ?thesis using ws d low6_bound by (intro exI [of _ "?v # ws"]) simp
  qed
qed

lemma encode_loop_ok:
  assumes "bits < 6" "length vs + (bits + 8 * length bs) div 6 \<le> N"
  shows "\<exists>acc' ws. b64_encode_loop bs acc bits (length vs) (enc_out N vs) =
       Inr (acc', (bits + 8 * length bs) mod 6, length (vs @ ws), enc_out N (vs @ ws)) \<and>
     sextets ws @ to_bits ((bits + 8 * length bs) mod 6) acc' = to_bits bits acc @ bits_of bs \<and>
     length ws = (bits + 8 * length bs) div 6 \<and> list_all (\<lambda>v. v < 64) ws"
  using assms
proof (induction bs arbitrary: acc bits vs)
  case Nil
  then show ?case by simp
next
  case (Cons b bs)
  let ?acc = "push_bit 8 acc OR ucast b :: 32 word"
  have le: "(bits + 8) div 6 \<le> (bits + 8 * length (b # bs)) div 6" by (rule div_le_mono) simp
  then have "length vs + (bits + 8) div 6 \<le> N" using Cons.prems(2) by linarith
  from emit_ok [OF this, of ?acc] obtain ws where
    ws: "b64_emit ?acc (bits + 8) (length vs) (enc_out N vs) = Inr ((bits + 8) mod 6, length (vs @ ws), enc_out N (vs @ ws))"
      "sextets ws @ to_bits ((bits + 8) mod 6) ?acc = to_bits (bits + 8) ?acc" "length ws = (bits + 8) div 6"
      "list_all (\<lambda>v. v < 64) ws" by blast
  let ?r = "(bits + 8) mod 6"
  have split: "bits + 8 * length (b # bs) = 6 * ((bits + 8) div 6) + (?r + 8 * length bs)" by simp
  have dm: "(bits + 8 * length (b # bs)) div 6 = (bits + 8) div 6 + (?r + 8 * length bs) div 6"
    "(bits + 8 * length (b # bs)) mod 6 = (?r + 8 * length bs) mod 6"
    unfolding split by (rule div_mult_self4, simp) (rule mod_mult_self4)
  have "length (vs @ ws) + (?r + 8 * length bs) div 6 \<le> N" using Cons.prems(2) ws(3) dm(1) by simp
  from Cons.IH [OF _ this, of ?acc] obtain acc' us where
    us: "b64_encode_loop bs ?acc ?r (length (vs @ ws)) (enc_out N (vs @ ws)) =
         Inr (acc', (?r + 8 * length bs) mod 6, length ((vs @ ws) @ us), enc_out N ((vs @ ws) @ us))"
      "sextets us @ to_bits ((?r + 8 * length bs) mod 6) acc' = to_bits ?r ?acc @ bits_of bs"
      "length us = (?r + 8 * length bs) div 6" "list_all (\<lambda>v. v < 64) us" by auto
  have "to_bits (bits + 8) ?acc = to_bits bits acc @ to_bits 8 (ucast b :: 32 word)"
    using Cons.prems(1) by (intro to_bits_push) (auto simp: bit_simps dest: bit_imp_le_length)
  moreover have "to_bits 8 (ucast b :: 32 word) = to_bits 8 b" by (intro to_bits_cong) (simp add: bit_simps)
  ultimately have "sextets (ws @ us) @ to_bits ((?r + 8 * length bs) mod 6) acc' = to_bits bits acc @ bits_of (b # bs)"
    using us(2) ws(2) by (metis append.assoc bits_append(2,5))
  moreover have "b64_encode_loop (b # bs) acc bits (length vs) (enc_out N vs) =
      Inr (acc', (?r + 8 * length bs) mod 6, length (vs @ ws @ us), enc_out N (vs @ ws @ us))"
    using ws(1) us(1) by (simp add: Let_def)
  ultimately show ?case using ws(3,4) us(3,4) dm by (intro exI [of _ acc'] exI [of _ "ws @ us"]) simp
qed

section \<open>The decoder collects them again\<close>

lemma table_chars:
  "list_all (\<lambda>v. let c = sint (b64_table ! v) in 0 \<le> c \<and> c \<le> 127 \<and> \<not> isspace c \<and> c \<noteq> 61 \<and> reverse_table ! nat c = v) [0 ..< 64]"
  by code_simp

lemma table_char:
  "v < 64 \<Longrightarrow> 0 \<le> sint (b64_table ! v) \<and> sint (b64_table ! v) \<le> 127 \<and> \<not> isspace (sint (b64_table ! v)) \<and>
     sint (b64_table ! v) \<noteq> 61 \<and> reverse_table ! nat (sint (b64_table ! v)) = v"
  using table_chars by (simp add: list_all_iff Let_def)

lemma six_high: "v < 64 \<Longrightarrow> 6 \<le> i \<Longrightarrow> \<not> bit (of_nat v :: 32 word) i"
proof -
  assume v: "v < 64" and i: "6 \<le> i"
  have "of_nat v = take_bit 6 (of_nat v :: 32 word)" using v take_bit_nat_eq_self [of v 6] by (simp add: take_bit_of_nat)
  then have "bit (of_nat v :: 32 word) i = bit (take_bit 6 (of_nat v :: 32 word)) i" by (rule arg_cong)
  with i show ?thesis by (simp add: bit_take_bit_iff)
qed

lemma low8: "to_bits 8 (ucast (w AND 0xff) :: byte) = to_bits 8 (w :: 32 word)"
proof -
  have m: "(0xff :: 32 word) = mask 8" by (simp add: mask_eq_exp_minus_1)
  show ?thesis unfolding m by (intro to_bits_cong) (simp add: bit_simps)
qed

lemma decode_table_ok:
  assumes "bits < 8" "list_all (\<lambda>v. v < 64) vs"
  shows "\<exists>acc' bits' bs. b64_decode_loop (map (\<lambda>v. b64_table ! v) vs @ rest) acc bits out = b64_decode_loop rest acc' bits' (out @ bs) \<and>
     bits' < 8 \<and> bits_of bs @ to_bits bits' acc' = to_bits bits acc @ sextets vs"
  using assms
proof (induction vs arbitrary: acc bits out)
  case Nil
  then show ?case by (intro exI [of _ acc] exI [of _ bits] exI [of _ "[]"]) simp
next
  case (Cons v vs)
  let ?acc = "push_bit 6 acc OR of_nat v :: 32 word"
  have c: "v < 64" "list_all (\<lambda>v. v < 64) vs" using Cons.prems by simp_all
  note tc = table_char [OF c(1)]
  have six: "to_bits (bits + 6) ?acc = to_bits bits acc @ six v"
    unfolding six_def using Cons.prems(1) six_high [OF c(1)] by (intro to_bits_push) auto
  show ?case
  proof (cases "8 \<le> bits + 6")
    case True
    let ?b = "ucast (drop_bit (bits + 6 - 8) ?acc AND 0xff) :: byte"
    have "bits + 6 - 8 < 8" using Cons.prems(1) by simp
    from Cons.IH [OF this c(2), of ?acc "out @ [?b]"] obtain acc' bits' bs where
      IH: "b64_decode_loop (map (\<lambda>v. b64_table ! v) vs @ rest) ?acc (bits + 6 - 8) (out @ [?b]) = b64_decode_loop rest acc' bits' ((out @ [?b]) @ bs)"
        "bits' < 8" "bits_of bs @ to_bits bits' acc' = to_bits (bits + 6 - 8) ?acc @ sextets vs" by blast
    have "to_bits (bits + 6) ?acc = to_bits 8 ?b @ to_bits (bits + 6 - 8) ?acc"
      using to_bits_split [of 8 "bits + 6 - 8" ?acc] True unfolding low8 by (simp add: add.commute)
    then have "bits_of (?b # bs) @ to_bits bits' acc' = to_bits bits acc @ sextets (v # vs)"
      using IH(3) six by (metis append.assoc bits_append(5,6))
    moreover have "b64_decode_loop (map (\<lambda>v. b64_table ! v) (v # vs) @ rest) acc bits out = b64_decode_loop rest acc' bits' (out @ ?b # bs)"
      using IH(1) tc c(1) True by (simp add: Let_def)
    ultimately show ?thesis using IH(2) by blast
  next
    case False
    have "bits + 6 < 8" using False by simp
    from Cons.IH [OF this c(2), of ?acc out] obtain acc' bits' bs where
      IH: "b64_decode_loop (map (\<lambda>v. b64_table ! v) vs @ rest) ?acc (bits + 6) out = b64_decode_loop rest acc' bits' (out @ bs)"
        "bits' < 8" "bits_of bs @ to_bits bits' acc' = to_bits (bits + 6) ?acc @ sextets vs" by blast
    have "b64_decode_loop (map (\<lambda>v. b64_table ! v) (v # vs) @ rest) acc bits out = b64_decode_loop rest acc' bits' (out @ bs)"
      using IH(1) tc c(1) False by (simp add: Let_def)
    then show ?thesis using IH six by (metis append.assoc bits_append(6))
  qed
qed

lemma decode_padding: "b64_decode_loop (replicate j (of_char CHR ''='')) acc bits out = Inr out"
  by (induction j) (simp_all add: Let_def)

lemma decode_ok:
  assumes vs: "list_all (\<lambda>v. v < 64) vs" and s: "sextets vs = bits_of xs @ replicate k False" and k: "k < 8"
  shows "base64_decode (enc_out N vs) = Inr xs"
proof -
  obtain acc' bits' bs where d: "base64_decode (enc_out N vs) = b64_decode_loop (replicate (N - length vs) (of_char CHR ''='')) acc' bits' bs"
      "bits' < 8" "bits_of bs @ to_bits bits' acc' = sextets vs"
    using decode_table_ok [of 0 vs "replicate (N - length vs) (of_char CHR ''='')" 0 "[]"] vs
    unfolding base64_decode_def enc_out_def by auto
  have e: "bits_of bs @ to_bits bits' acc' = bits_of xs @ replicate k False" using d(3) s by simp
  then have "length (bits_of bs @ to_bits bits' acc') = length (bits_of xs @ replicate k False)" by simp
  then have "8 * length bs + bits' = 8 * length xs + k" by simp
  then have "length bs = length xs" using d(2) k by presburger
  then have "bits_of bs = bits_of xs" using e by (simp add: append_eq_append_conv)
  then have "bs = xs" by (rule bits_of_inj)
  then show ?thesis unfolding d(1) decode_padding by simp
qed

section \<open>The whole encoding\<close>

lemma to_bits_pad:
  fixes acc :: "32 word"
  assumes "b \<le> 6"
  shows "to_bits 6 (push_bit (6 - b) acc) = to_bits b acc @ replicate (6 - b) False"
proof -
  have "to_bits (b + (6 - b)) (push_bit (6 - b) acc OR 0) = to_bits b acc @ to_bits (6 - b) (0 :: 32 word)"
    using assms by (intro to_bits_push) auto
  moreover have "to_bits n (0 :: 32 word) = replicate n False" for n by (intro nth_equalityI) (simp_all add: to_bits_def)
  ultimately show ?thesis using assms by simp
qed

text \<open>The number of characters, and that the two assertions on it hold unless there are none.\<close>

lemma sextet_count:
  fixes n :: nat
  assumes "0 < n"
  defines "K \<equiv> 8 * n div 6 + (if 8 * n mod 6 > 0 then 1 else 0)"
  shows "8 * n div 6 \<le> ((n + 2) div 3) * 4" "8 * n mod 6 > 0 \<Longrightarrow> 8 * n div 6 < ((n + 2) div 3) * 4"
    "K \<le> ((n + 2) div 3) * 4" "((n + 2) div 3) * 4 \<le> K + 2" "2 \<le> ((n + 2) div 3) * 4"
proof -
  obtain q r where n: "n = 3 * q + r" "r < 3" using div_mult_mod_eq [of n 3] by (metis mod_less_divisor mult.commute zero_less_numeral)
  have "r = 0 \<or> r = 1 \<or> r = 2" using n(2) by linarith
  then show "8 * n div 6 \<le> ((n + 2) div 3) * 4" "8 * n mod 6 > 0 \<Longrightarrow> 8 * n div 6 < ((n + 2) div 3) * 4"
    "K \<le> ((n + 2) div 3) * 4" "((n + 2) div 3) * 4 \<le> K + 2" "2 \<le> ((n + 2) div 3) * 4"
    using assms n(1) unfolding K_def by (elim disjE; simp; presburger)+
qed

lemma encode_ok:
  assumes ne: "xs \<noteq> []" and size: "int (length xs) \<le> 2 ^ 63"
  shows "\<exists>vs N. base64_encode xs = Inr (enc_out N vs) \<and> length (enc_out N vs) = 4 * ((length xs + 2) div 3) \<and>
     list_all (\<lambda>v. v < 64) vs \<and> (\<exists>k < 6. sextets vs = bits_of xs @ replicate k False)"
proof -
  let ?n = "length xs" and ?N = "((length xs + 2) div 3) * 4"
  let ?b = "8 * ?n mod 6"
  note cnt = sextet_count [of ?n]
  have pos: "0 < ?n" using ne by simp
  obtain acc ws where w: "b64_encode_loop xs 0 0 0 (enc_out ?N []) = Inr (acc, ?b, length ws, enc_out ?N ws)"
      "sextets ws @ to_bits ?b acc = bits_of xs" "length ws = 8 * ?n div 6" "list_all (\<lambda>v. v < 64) ws"
    using encode_loop_ok [of 0 "[]" xs ?N 0] cnt(1) [OF pos] by auto
  have blank: "enc_out ?N [] = replicate ?N (of_char CHR ''='')" by (simp add: enc_out_def)
  have big: "\<not> int ?n > (SIZE_MAX div 4) * 3" using size by (simp add: SIZE_MAX_def)
  have len: "length (enc_out ?N us) = ?N" if "length us \<le> ?N" for us using that by (simp add: enc_out_def)
  define vs where "vs = (if ?b > 0 then ws @ [unat (push_bit (6 - ?b) acc AND 0x3f)] else ws)"
  have vlen: "length vs = 8 * ?n div 6 + (if ?b > 0 then 1 else 0)" using w(3) by (simp add: vs_def)
  have tail: "(if ?b > 0 then rbind (cassert (?b < 6) ''bits_collected < 6'') (\<lambda>_. b64_put (push_bit (6 - ?b) acc) (length ws) (enc_out ?N ws))
      else Inr (length ws, enc_out ?N ws)) = Inr (length vs, enc_out ?N vs)"
    using put_ok [of ws ?N "push_bit (6 - ?b) acc"] w(3) cnt(2) [OF pos] by (simp add: vs_def)
  have l: "length vs \<le> ?N" "?N \<le> length vs + 2" using vlen cnt(3,4) [OF pos] by simp_all
  have "size_sub (int ?N) 2 = int ?N - 2"
    using cnt(5) [OF pos] size by (simp add: size_sub_def SIZE_MAX_def)
  then have "cassert (int (length vs) \<ge> size_sub (int (length (enc_out ?N vs))) 2) w = Inr ()"
      "cassert (length vs \<le> length (enc_out ?N vs)) w = Inr ()" for w
    unfolding len [OF l(1)] using l by simp_all
  then have "base64_encode xs = Inr (enc_out ?N vs)"
    by (simp only: base64_encode_def big if_False Let_def blank [symmetric] w(1) rbind_Inr prod.case tail)
  moreover have "list_all (\<lambda>v. v < 64) vs" using w(4) low6_bound by (simp add: vs_def)
  moreover have "\<exists>k < 6. sextets vs = bits_of xs @ replicate k False"
  proof (cases "?b > 0")
    case True
    have "sextets vs = bits_of xs @ replicate (6 - ?b) False"
      using True w(2) to_bits_pad [of ?b acc] by (simp add: vs_def six_low)
    with True show ?thesis by (intro exI [of _ "6 - ?b"]) simp
  next
    case False
    then show ?thesis using w(2) by (intro exI [of _ 0]) (simp add: vs_def)
  qed
  ultimately show ?thesis using len [OF l(1)] by (intro exI [of _ vs] exI [of _ ?N]) simp
qed

section \<open>Properties\<close>

text \<open>
  C33. Base64 round trip: every byte string that is not empty (and fits in memory) is encoded without a failed assertion or a
  store outside the result, into four characters for every three bytes begun, and decoding gives it back. The empty
  string ends the process: the assertion on the position subtracts two from size zero.
\<close>

theorem base64_roundtrip:
  assumes ne: "xs \<noteq> []" and size: "int (length xs) \<le> 2 ^ 63"
  shows "rspec (base64_encode xs) (\<lambda>asc. length asc = 4 * ((length xs + 2) div 3) \<and> base64_decode asc = Inr xs) \<and>
    base64_encode [] = Inl (AssertFail ''outpos >= (retval.size() - 2)'')"
proof (rule conjI)
  obtain vs N where v: "base64_encode xs = Inr (enc_out N vs)" "length (enc_out N vs) = 4 * ((length xs + 2) div 3)"
      "list_all (\<lambda>v. v < 64) vs" "\<exists>k < 6. sextets vs = bits_of xs @ replicate k False"
    using encode_ok [OF ne size] by blast
  from v(4) obtain k where "k < 8" "sextets vs = bits_of xs @ replicate k False" by auto
  with decode_ok [OF v(3)] v(1,2) show "rspec (base64_encode xs) (\<lambda>asc. length asc = 4 * ((length xs + 2) div 3) \<and> base64_decode asc = Inr xs)"
    by simp
  show "base64_encode [] = Inl (AssertFail ''outpos >= (retval.size() - 2)'')" by code_simp
qed

theorem base64_roundtrip_witness:
  "rspec (base64_encode [77, 97, 110, 1]) (\<lambda>asc. length asc = 8 \<and> base64_decode asc = Inr [77, 97, 110, 1])"
  using base64_roundtrip [of "[77, 97, 110, 1]"] by simp

end
