(* ===== verification/Md5.thy ===== *)
theory Md5
  imports Prelude
begin

unbundle bit_operations_syntax

text \<open>
  The MD5 digest (\<open>third/muduo-win/src/base/security/md5.cpp\<close>). Words are 32 bits and wrap. The 64 steps of \<open>MD5_Transform\<close> are a
  table; the source writes each step with the four variables turned by one place, which is a step on the
  quadruple that turns it. An access outside a buffer is undefined; so is what \<open>sprintf\<close> would write with too
  small a result. The length is an \<open>unsigned int\<close>, and so is the index of the loop in \<open>MD5_Update\<close>.
\<close>

section \<open>One block\<close>

type_synonym w32 = "32 word"

definition F :: "w32 \<Rightarrow> w32 \<Rightarrow> w32 \<Rightarrow> w32" where "F x y z = (x AND y) OR (NOT x AND z)"
definition G :: "w32 \<Rightarrow> w32 \<Rightarrow> w32 \<Rightarrow> w32" where "G x y z = (x AND z) OR (y AND NOT z)"
definition H :: "w32 \<Rightarrow> w32 \<Rightarrow> w32 \<Rightarrow> w32" where "H x y z = x XOR y XOR z"
definition I :: "w32 \<Rightarrow> w32 \<Rightarrow> w32 \<Rightarrow> w32" where "I x y z = y XOR (x OR NOT z)"

definition ROTATE_LEFT :: "w32 \<Rightarrow> nat \<Rightarrow> w32" where
  "ROTATE_LEFT x n = push_bit n x OR drop_bit (32 - n) x"

datatype md5_round = FF | GG | HH | II

fun round_fun :: "md5_round \<Rightarrow> w32 \<Rightarrow> w32 \<Rightarrow> w32 \<Rightarrow> w32" where
  "round_fun FF = F"
| "round_fun GG = G"
| "round_fun HH = H"
| "round_fun II = I"

definition S11 :: nat where "S11 = 7"
definition S12 :: nat where "S12 = 12"
definition S13 :: nat where "S13 = 17"
definition S14 :: nat where "S14 = 22"
definition S21 :: nat where "S21 = 5"
definition S22 :: nat where "S22 = 9"
definition S23 :: nat where "S23 = 14"
definition S24 :: nat where "S24 = 20"
definition S31 :: nat where "S31 = 4"
definition S32 :: nat where "S32 = 11"
definition S33 :: nat where "S33 = 16"
definition S34 :: nat where "S34 = 23"
definition S41 :: nat where "S41 = 6"
definition S42 :: nat where "S42 = 10"
definition S43 :: nat where "S43 = 15"
definition S44 :: nat where "S44 = 21"

text \<open>The function, the word of the block, the shift and the constant of each step.\<close>

definition md5_steps :: "(md5_round \<times> nat \<times> nat \<times> w32) list" where
  "md5_steps = [
     (FF, 0, S11, 0xd76aa478), (FF, 1, S12, 0xe8c7b756), (FF, 2, S13, 0x242070db), (FF, 3, S14, 0xc1bdceee),
     (FF, 4, S11, 0xf57c0faf), (FF, 5, S12, 0x4787c62a), (FF, 6, S13, 0xa8304613), (FF, 7, S14, 0xfd469501),
     (FF, 8, S11, 0x698098d8), (FF, 9, S12, 0x8b44f7af), (FF, 10, S13, 0xffff5bb1), (FF, 11, S14, 0x895cd7be),
     (FF, 12, S11, 0x6b901122), (FF, 13, S12, 0xfd987193), (FF, 14, S13, 0xa679438e), (FF, 15, S14, 0x49b40821),
     (GG, 1, S21, 0xf61e2562), (GG, 6, S22, 0xc040b340), (GG, 11, S23, 0x265e5a51), (GG, 0, S24, 0xe9b6c7aa),
     (GG, 5, S21, 0xd62f105d), (GG, 10, S22, 0x2441453), (GG, 15, S23, 0xd8a1e681), (GG, 4, S24, 0xe7d3fbc8),
     (GG, 9, S21, 0x21e1cde6), (GG, 14, S22, 0xc33707d6), (GG, 3, S23, 0xf4d50d87), (GG, 8, S24, 0x455a14ed),
     (GG, 13, S21, 0xa9e3e905), (GG, 2, S22, 0xfcefa3f8), (GG, 7, S23, 0x676f02d9), (GG, 12, S24, 0x8d2a4c8a),
     (HH, 5, S31, 0xfffa3942), (HH, 8, S32, 0x8771f681), (HH, 11, S33, 0x6d9d6122), (HH, 14, S34, 0xfde5380c),
     (HH, 1, S31, 0xa4beea44), (HH, 4, S32, 0x4bdecfa9), (HH, 7, S33, 0xf6bb4b60), (HH, 10, S34, 0xbebfbc70),
     (HH, 13, S31, 0x289b7ec6), (HH, 0, S32, 0xeaa127fa), (HH, 3, S33, 0xd4ef3085), (HH, 6, S34, 0x4881d05),
     (HH, 9, S31, 0xd9d4d039), (HH, 12, S32, 0xe6db99e5), (HH, 15, S33, 0x1fa27cf8), (HH, 2, S34, 0xc4ac5665),
     (II, 0, S41, 0xf4292244), (II, 7, S42, 0x432aff97), (II, 14, S43, 0xab9423a7), (II, 5, S44, 0xfc93a039),
     (II, 12, S41, 0x655b59c3), (II, 3, S42, 0x8f0ccc92), (II, 10, S43, 0xffeff47d), (II, 1, S44, 0x85845dd1),
     (II, 8, S41, 0x6fa87e4f), (II, 15, S42, 0xfe2ce6e0), (II, 6, S43, 0xa3014314), (II, 13, S44, 0x4e0811a1),
     (II, 4, S41, 0xf7537e82), (II, 11, S42, 0xbd3af235), (II, 2, S43, 0x2ad7d2bb), (II, 9, S44, 0xeb86d391)]"

fun md5_step :: "w32 list \<Rightarrow> md5_round \<times> nat \<times> nat \<times> w32 \<Rightarrow> w32 \<times> w32 \<times> w32 \<times> w32 \<Rightarrow> w32 \<times> w32 \<times> w32 \<times> w32" where
  "md5_step x (r, i, s, ac) (a, b, c, d) =
     (let a1 = a + (round_fun r b c d + x ! i + ac);
          a2 = ROTATE_LEFT a1 s
      in (d, a2 + b, b, c))"

text \<open>Four bytes, the lowest first, and back.\<close>

fun MD5_Decode :: "bytes \<Rightarrow> w32 list" where
  "MD5_Decode (b0 # b1 # b2 # b3 # bs) =
     (ucast b0 OR push_bit 8 (ucast b1) OR push_bit 16 (ucast b2) OR push_bit 24 (ucast b3)) # MD5_Decode bs"
| "MD5_Decode _ = []"

fun MD5_Encode :: "w32 list \<Rightarrow> bytes" where
  "MD5_Encode [] = []"
| "MD5_Encode (w # ws) =
     ucast (w AND 0xff) # ucast (drop_bit 8 w AND 0xff) # ucast (drop_bit 16 w AND 0xff) # ucast (drop_bit 24 w AND 0xff) # MD5_Encode ws"

type_synonym md5_state = "w32 \<times> w32 \<times> w32 \<times> w32"

definition MD5_Transform :: "bytes \<Rightarrow> md5_state \<Rightarrow> md5_state" where
  "MD5_Transform block = (\<lambda>(s0, s1, s2, s3).
     case fold (md5_step (MD5_Decode block)) md5_steps (s0, s1, s2, s3) of
       (a, b, c, d) \<Rightarrow> (s0 + a, s1 + b, s2 + c, s3 + d))"

section \<open>The context\<close>

record md5_context =
  md5_state :: md5_state
  md5_count :: "w32 \<times> w32"
  md5_buffer :: bytes

text \<open>\<open>junk\<close> is what the 64 bytes of the buffer hold before anything is written to them.\<close>

definition MD5_Init :: "bytes \<Rightarrow> md5_context" where
  "MD5_Init junk = \<lparr>md5_state = (0x67452301, 0xefcdab89, 0x98badcfe, 0x10325476), md5_count = (0, 0), md5_buffer = junk\<rparr>"

text \<open>\<open>memcpy\<close> of \<open>buf[i ..< i + n]\<close> to position \<open>at\<close> of the context's buffer.\<close>

definition md5_copy :: "nat \<Rightarrow> bytes \<Rightarrow> nat \<Rightarrow> nat \<Rightarrow> md5_context \<Rightarrow> md5_context result" where
  "md5_copy at buf i n ctx =
     (if i + n \<le> length buf \<and> at + n \<le> length (md5_buffer ctx)
      then Inr (ctx\<lparr>md5_buffer := blit at (take n (drop i buf)) (md5_buffer ctx)\<rparr>)
      else Inl (Undefined ''memcpy out of bounds''))"

text \<open>The loop of \<open>MD5_Update\<close>: \<open>i + 63\<close> wraps at 32 bits; a block past the end of the input is undefined.\<close>

function md5_blocks :: "bytes \<Rightarrow> nat \<Rightarrow> md5_context \<Rightarrow> (nat \<times> md5_context) result" where
  "md5_blocks buf i ctx =
     (if (of_nat i + 63 :: w32) < of_nat (length buf)
      then if i + 64 \<le> length buf
           then md5_blocks buf (i + 64) (ctx\<lparr>md5_state := MD5_Transform (take 64 (drop i buf)) (md5_state ctx)\<rparr>)
           else Inl (Undefined ''MD5_Transform reads past the input'')
      else Inr (i, ctx))"
  by pat_completeness auto
termination by (relation "measure (\<lambda>(buf, i, ctx). length buf - i)") auto

declare md5_blocks.simps [simp del]

definition MD5_Update :: "bytes \<Rightarrow> md5_context \<Rightarrow> md5_context result" where
  "MD5_Update buf ctx =
     (let len = length buf;
          index = unat (drop_bit 3 (fst (md5_count ctx)) AND 0x3f);
          add = push_bit 3 (of_nat len :: w32);
          c0 = fst (md5_count ctx) + add;
          c1 = (if c0 < add then snd (md5_count ctx) + 1 else snd (md5_count ctx)) + drop_bit 29 (of_nat len);
          ctx1 = ctx\<lparr>md5_count := (c0, c1)\<rparr>;
          partLen = 64 - index
      in if len \<ge> partLen
         then rbind (md5_copy index buf 0 partLen ctx1) (\<lambda>ctx2.
              rbind (md5_blocks buf partLen (ctx2\<lparr>md5_state := MD5_Transform (md5_buffer ctx2) (md5_state ctx2)\<rparr>)) (\<lambda>(i, ctx3).
              md5_copy 0 buf i (len - i) ctx3))
         else md5_copy index buf 0 len ctx1)"

definition PADDING :: bytes where
  "PADDING = 0x80 # replicate 63 0"

definition MD5_Final :: "md5_context \<Rightarrow> (bytes \<times> md5_context) result" where
  "MD5_Final ctx =
     (let bits = MD5_Encode [fst (md5_count ctx), snd (md5_count ctx)];
          index = unat (drop_bit 3 (fst (md5_count ctx)) AND 0x3f);
          padLen = (if index < 56 then 56 - index else 120 - index)
      in rbind (MD5_Update (take padLen PADDING) ctx) (\<lambda>ctx1.
         rbind (MD5_Update bits ctx1) (\<lambda>ctx2.
         case md5_state ctx2 of (a, b, c, d) \<Rightarrow>
           Inr (MD5_Encode [a, b, c, d], \<lparr>md5_state = (0, 0, 0, 0), md5_count = (0, 0), md5_buffer = replicate 64 0\<rparr>))))"

definition hex_digit :: "nat \<Rightarrow> char" where
  "hex_digit n = ''0123456789abcdef'' ! n"

text \<open>The text: two hexadecimal digits for each byte, and the terminating zero of the last \<open>sprintf\<close>.\<close>

definition hex_text :: "bytes \<Rightarrow> string" where
  "hex_text bs = concat (map (\<lambda>b. [hex_digit (unat (drop_bit 4 (b AND 0xF0))), hex_digit (unat (b AND 0x0F))]) bs)"

definition MD5_Calculate :: "bytes \<Rightarrow> bytes \<Rightarrow> string result" where
  "MD5_Calculate junk content =
     rbind (MD5_Update content (MD5_Init junk)) (\<lambda>ctx.
     rbind (MD5_Final ctx) (\<lambda>(digest, _).
     Inr (hex_text digest)))"

section \<open>What is computed\<close>

text \<open>The state after the full blocks of a message, and the bytes after them.\<close>

function absorb :: "md5_state \<Rightarrow> bytes \<Rightarrow> md5_state" where
  "absorb s m = (if 64 \<le> length m then absorb (MD5_Transform (take 64 m) s) (drop 64 m) else s)"
  by pat_completeness auto
termination by (relation "measure (\<lambda>(s, m). length m)") auto

declare absorb.simps [simp del]

definition leftover :: "bytes \<Rightarrow> bytes" where
  "leftover m = drop (64 * (length m div 64)) m"

definition md5_start :: md5_state where
  "md5_start = (0x67452301, 0xefcdab89, 0x98badcfe, 0x10325476)"

text \<open>A number as eight bytes, the lowest first.\<close>

definition le64 :: "nat \<Rightarrow> bytes" where
  "le64 n = map (\<lambda>i. of_nat (n div 256 ^ i)) [0 ..< 8]"

text \<open>The padded message: a one bit, zeros up to eight bytes before the end of a block, and the length in bits.\<close>

definition padded :: "bytes \<Rightarrow> bytes" where
  "padded m = m @ 0x80 # replicate ((119 - length m mod 64) mod 64) 0 @ le64 (8 * length m)"

definition md5 :: "bytes \<Rightarrow> bytes" where
  "md5 m = (case absorb md5_start (padded m) of (a, b, c, d) \<Rightarrow> MD5_Encode [a, b, c, d])"

lemma absorb_short: "length m < 64 \<Longrightarrow> absorb s m = s"
  by (simp add: absorb.simps)

lemma absorb_block: "length b = 64 \<Longrightarrow> absorb s (b @ m) = absorb (MD5_Transform b s) m"
  by (subst absorb.simps) simp

lemma absorb_next: "64 \<le> length m \<Longrightarrow> absorb (MD5_Transform (take 64 m) s) (drop 64 m) = absorb s m"
  by (simp add: absorb.simps [of s m])

lemma leftover_short: "length m < 64 \<Longrightarrow> leftover m = m"
  by (simp add: leftover_def)

lemma leftover_block: "length b = 64 \<Longrightarrow> leftover (b @ m) = leftover m"
  by (simp add: leftover_def div_add_self1)

lemma length_leftover [simp]: "length (leftover m) = length m mod 64"
  by (simp add: leftover_def minus_mult_div_eq_mod)

lemma block_induct [case_names short block]:
  assumes "\<And>m. length m < 64 \<Longrightarrow> Q m" "\<And>b m. length b = 64 \<Longrightarrow> Q m \<Longrightarrow> Q (b @ m)"
  shows "Q (m :: bytes)"
proof (induction m rule: measure_induct_rule [where f = length])
  case (less m)
  show ?case
  proof (cases "length m < 64")
    case False
    then have "Q (take 64 m @ drop 64 m)" using less by (intro assms(2)) auto
    then show ?thesis by simp
  qed (rule assms(1))
qed

lemma absorb_append: "absorb s (m @ n) = absorb (absorb s m) (leftover m @ n)"
proof (induction m arbitrary: s rule: block_induct)
  case (short m)
  then show ?case by (simp add: absorb_short leftover_short)
next
  case (block b m)
  then show ?case by (simp add: absorb_block leftover_block)
qed

lemma leftover_append: "leftover (m @ n) = leftover (leftover m @ n)"
proof (induction m rule: block_induct)
  case (short m)
  then show ?case by (simp add: leftover_short)
next
  case (block b m)
  then show ?case by (simp add: leftover_block)
qed

section \<open>Counting\<close>

definition counts :: "nat \<Rightarrow> w32 \<times> w32 \<Rightarrow> bool" where
  "counts n c \<longleftrightarrow> c = (of_nat (8 * n), of_nat (8 * n div 2 ^ 32))"

lemma w32_counter_index: "unat (drop_bit 3 w AND 0x3f) = unat w div 8 mod 64" for w :: w32
proof -
  have m: "(0x3f :: w32) = mask 6" by (simp add: mask_eq_exp_minus_1)
  show ?thesis
    by (simp only: m take_bit_eq_mask [symmetric] unsigned_take_bit_eq unat_drop_bit_eq take_bit_eq_mod drop_bit_eq_div)
      (simp add: unat_div unat_mod)
qed

lemma counts_index:
  assumes "counts n c"
  shows "unat (drop_bit 3 (fst c) AND 0x3f) = n mod 64"
proof -
  have "unat (drop_bit 3 (fst c) AND 0x3f) = (8 * n mod 2 ^ 32) div 8 mod 64"
    using assms by (simp only: w32_counter_index counts_def fst_conv unat_of_nat) simp
  also have "8 * n mod 2 ^ 32 = 8 * (n mod 2 ^ 29)" using mult_mod_right [of 8 n "2 ^ 29"] by simp
  also have "8 * (n mod 2 ^ 29) div 8 mod 64 = n mod 64" by (simp add: mod_mod_cancel)
  finally show ?thesis .
qed

lemma div_add_carry:
  "0 < k \<Longrightarrow> (x + y) div k = x div k + y div k + (if (x + y) mod k < y mod k then 1 else 0)" for x y k :: nat
proof -
  assume k: "0 < k"
  have split: "x mod k < k" "y mod k < k" using k by simp_all
  have "(x + y) div k = x div k + y div k + (x mod k + y mod k) div k" by (rule div_add1_eq)
  moreover have "(x + y) mod k = (x mod k + y mod k) mod k" by (rule mod_add_eq [symmetric])
  moreover have "(x mod k + y mod k) div k = (if (x mod k + y mod k) mod k < y mod k then 1 else 0)"
  proof (cases "x mod k + y mod k < k")
    case False
    moreover from False split have "x mod k + y mod k - k < k" by linarith
    ultimately have "(x mod k + y mod k) mod k = x mod k + y mod k - k" "(x mod k + y mod k) div k = 1"
      using split by (simp_all add: le_mod_geq div_if)
    moreover have "x mod k + y mod k - k < y mod k" using False split by linarith
    ultimately show ?thesis by simp
  qed simp
  ultimately show ?thesis by simp
qed

lemma counts_add:
  fixes l :: nat
  assumes "counts n c" "l < 2 ^ 32"
  defines "add \<equiv> push_bit 3 (of_nat l :: w32)"
  shows "counts (n + l) (fst c + add, (if fst c + add < add then snd c + 1 else snd c) + drop_bit 29 (of_nat l))"
proof -
  have add: "add = of_nat (8 * l)" by (simp add: add_def push_bit_eq_mult)
  have high: "drop_bit 29 (of_nat l :: w32) = of_nat (8 * l div 2 ^ 32)"
  proof (rule word_unat_eq_iff [THEN iffD2])
    have quot: "8 * l div 2 ^ 32 = l div 2 ^ 29" using div_mult_mult1 [of 8 l "2 ^ 29"] by simp
    have small: "l mod 2 ^ 32 = l" "l div 2 ^ 29 mod 2 ^ 32 = l div 2 ^ 29"
      using assms(2) by (simp_all add: order.strict_trans1 [OF div_le_dividend])
    show "unat (drop_bit 29 (of_nat l :: w32)) = unat (of_nat (8 * l div 2 ^ 32) :: w32)"
      by (simp only: quot unat_drop_bit_eq unat_of_nat, simp only: drop_bit_eq_div len_bit0 len_bit1 len_num1 mult_1_right numeral_times_numeral
          semiring_norm small)
  qed
  define x where "x = 8 * n"
  define y where "y = 8 * l"
  have c: "c = (of_nat x, of_nat (x div 2 ^ 32))" using assms(1) by (simp add: counts_def x_def)
  have less: "(of_nat x + of_nat y :: w32) < of_nat y \<longleftrightarrow> (x + y) mod 2 ^ 32 < y mod 2 ^ 32"
    by (simp add: word_less_nat_alt unat_of_nat flip: of_nat_add)
  have carry: "(x + y) div 2 ^ 32 = x div 2 ^ 32 + y div 2 ^ 32 + (if (x + y) mod 2 ^ 32 < y mod 2 ^ 32 then 1 else 0)"
    by (rule div_add_carry) simp
  have "8 * (n + l) = x + y" by (simp add: x_def y_def)
  then show ?thesis
    unfolding counts_def add high y_def [symmetric] c fst_conv snd_conv less
    by (cases "(x + y) mod 2 ^ 32 < y mod 2 ^ 32") (simp_all only: carry if_True if_False of_nat_add of_nat_1 of_nat_0 ac_simps add_0_right add_0_left refl)
qed

section \<open>The streaming digest\<close>

text \<open>The context after the bytes \<open>m\<close>.\<close>

definition holds :: "bytes \<Rightarrow> md5_context \<Rightarrow> bool" where
  "holds m ctx \<longleftrightarrow> md5_state ctx = absorb md5_start m \<and> length (md5_buffer ctx) = 64
     \<and> take (length m mod 64) (md5_buffer ctx) = leftover m \<and> counts (length m) (md5_count ctx)"

lemma MD5_Init_holds: "length junk = 64 \<Longrightarrow> holds [] (MD5_Init junk)"
  by (simp add: holds_def MD5_Init_def absorb_short leftover_def md5_start_def counts_def)

lemma w32_less: "a < 2 ^ 32 \<Longrightarrow> b < 2 ^ 32 \<Longrightarrow> (of_nat a :: w32) < of_nat b \<longleftrightarrow> a < b"
  by (simp add: word_less_nat_alt unat_of_nat)

lemma w32_wrap: "(of_nat (2 ^ 32 + y) :: w32) = of_nat y"
  by (simp only: word_unat_eq_iff unat_of_nat) simp

text \<open>The loop over the full blocks ends at \<open>last_index\<close>, and reads past the input if the test wraps there.\<close>

definition last_index :: "nat \<Rightarrow> nat \<Rightarrow> nat" where
  "last_index i n = i + 64 * ((n - i) div 64)"

lemma last_index_step: "i + 64 \<le> n \<Longrightarrow> last_index (i + 64) n = last_index i n"
  using div_add_self1 [of 64 "n - (i + 64)"] by (simp add: last_index_def)

lemma last_index_le: "i \<le> n \<Longrightarrow> last_index i n \<le> n"
  using times_div_less_eq_dividend [of 64 "n - i"] unfolding last_index_def by linarith

lemma md5_blocks_run:
  "i \<le> length buf \<Longrightarrow> length buf < 2 ^ 32 \<Longrightarrow>
   md5_blocks buf i ctx =
     (if last_index i (length buf) + 63 < 2 ^ 32
      then Inr (last_index i (length buf), ctx\<lparr>md5_state := absorb (md5_state ctx) (drop i buf)\<rparr>)
      else Inl (Undefined ''MD5_Transform reads past the input''))"
proof (induction buf i ctx rule: md5_blocks.induct)
  case (1 buf i ctx)
  have wrap: "(of_nat i + 63 :: w32) = of_nat (i + 63)" by simp
  show ?case
  proof (cases "i + 64 \<le> length buf")
    case True
    then have guard: "(of_nat i + 63 :: w32) < of_nat (length buf)"
      unfolding wrap using 1(3) by (subst w32_less) simp_all
    have "md5_blocks buf i ctx = md5_blocks buf (i + 64) (ctx\<lparr>md5_state := MD5_Transform (take 64 (drop i buf)) (md5_state ctx)\<rparr>)"
      using True guard by (subst md5_blocks.simps) simp
    moreover have "absorb (MD5_Transform (take 64 (drop i buf)) (md5_state ctx)) (drop 64 (drop i buf)) = absorb (md5_state ctx) (drop i buf)"
      using True by (intro absorb_next) simp
    ultimately show ?thesis using 1 True guard by (simp add: last_index_step add.commute [of 64])
  next
    case False
    then have here: "last_index i (length buf) = i" using 1(2) by (simp add: last_index_def)
    show ?thesis
    proof (cases "i + 63 < 2 ^ 32")
      case True
      then have "\<not> (of_nat i + 63 :: w32) < of_nat (length buf)"
        unfolding wrap using False 1(3) by (subst w32_less) simp_all
      then show ?thesis using here True False 1(2) by (subst md5_blocks.simps) (simp add: absorb_short)
    next
      case wrapped: False
      then have "of_nat (i + 63) = (of_nat (i + 63 - 2 ^ 32) :: w32)" using w32_wrap [of "i + 63 - 2 ^ 32"] by simp
      then have "(of_nat i + 63 :: w32) < of_nat (length buf)"
        unfolding wrap using wrapped 1(2, 3) by (simp only:, subst w32_less) simp_all
      then show ?thesis using here wrapped False by (subst md5_blocks.simps) simp
    qed
  qed
qed

text \<open>The counters after \<open>l\<close> more bytes.\<close>

definition count_up :: "nat \<Rightarrow> w32 \<times> w32 \<Rightarrow> w32 \<times> w32" where
  "count_up l c = (let add = push_bit 3 (of_nat l :: w32) in
     (fst c + add, (if fst c + add < add then snd c + 1 else snd c) + drop_bit 29 (of_nat l)))"

lemma count_up: "counts n c \<Longrightarrow> l < 2 ^ 32 \<Longrightarrow> counts (n + l) (count_up l c)"
  unfolding count_up_def Let_def by (rule counts_add)

lemma MD5_Update_eq:
  assumes "holds m ctx"
  shows "MD5_Update buf ctx =
     (let k = length m mod 64; ctx1 = ctx\<lparr>md5_count := count_up (length buf) (md5_count ctx)\<rparr>
      in if 64 - k \<le> length buf
         then rbind (md5_copy k buf 0 (64 - k) ctx1) (\<lambda>ctx2.
              rbind (md5_blocks buf (64 - k) (ctx2\<lparr>md5_state := MD5_Transform (md5_buffer ctx2) (md5_state ctx2)\<rparr>)) (\<lambda>(i, ctx3).
              md5_copy 0 buf i (length buf - i) ctx3))
         else md5_copy k buf 0 (length buf) ctx1)"
proof -
  have "unat (drop_bit 3 (fst (md5_count ctx)) AND 0x3f) = length m mod 64"
    using assms by (simp only: holds_def counts_index)
  then show ?thesis unfolding MD5_Update_def count_up_def Let_def by (simp only:)
qed

text \<open>What a chunk does: it fits into the open block, or it closes it.\<close>

lemma MD5_Update_short:
  assumes "holds m ctx" "length m mod 64 + length buf < 64"
  obtains ctx' where "MD5_Update buf ctx = Inr ctx'" "holds (m @ buf) ctx'"
proof -
  define k where "k = length m mod 64"
  define c where "c = count_up (length buf) (md5_count ctx)"
  define ctx' where "ctx' = ctx\<lparr>md5_count := c, md5_buffer := blit k buf (md5_buffer ctx)\<rparr>"
  have c: "counts (length m + length buf) c" using assms unfolding c_def by (intro count_up) (simp_all add: holds_def)
  have len: "length (m @ buf) mod 64 = k + length buf"
    using assms(2) mod_less [of "k + length buf" 64] by (simp add: k_def mod_add_left_eq)
  have whole: "length (leftover m @ buf) < 64" using assms(2) by simp
  have "absorb md5_start (m @ buf) = absorb md5_start m" "leftover (m @ buf) = leftover m @ buf"
    using whole by (simp_all only: absorb_append [of _ m buf] absorb_short leftover_append [of m buf] leftover_short)
  then have "holds (m @ buf) ctx'"
    using assms c len unfolding holds_def by (simp add: ctx'_def blit_def k_def)
  moreover have "MD5_Update buf ctx = Inr ctx'"
    using assms unfolding MD5_Update_eq [OF assms(1)] by (simp add: Let_def md5_copy_def ctx'_def holds_def k_def c_def)
  ultimately show ?thesis by (intro that)
qed

lemma last_index_fits:
  assumes "k < 64" "64 \<le> k + n"
  shows "last_index (64 - k) n + 63 < 2 ^ 32 \<longleftrightarrow> k + n < 2 ^ 32"
proof -
  define q where "q = (k + n) div 64"
  have "n - (64 - k) = k + n - 64" using assms by simp
  then have "last_index (64 - k) n + k = 64 * q" "1 \<le> q"
    using assms le_div_geq [of 64 "k + n"] by (simp_all add: last_index_def q_def)
  moreover have "k + n < 2 ^ 32 \<longleftrightarrow> q < 2 ^ 26" unfolding q_def by (simp add: div_less_iff_less_mult)
  ultimately show ?thesis using assms(1) by simp linarith
qed

lemma MD5_Update_long:
  assumes "holds m ctx" "64 \<le> length m mod 64 + length buf" "length buf < 2 ^ 32"
  shows "if length m mod 64 + length buf < 2 ^ 32 then \<exists>ctx'. MD5_Update buf ctx = Inr ctx' \<and> holds (m @ buf) ctx'
         else MD5_Update buf ctx = Inl (Undefined ''MD5_Transform reads past the input'')"
proof -
  define k where "k = length m mod 64"
  define p where "p = 64 - k"
  define c where "c = count_up (length buf) (md5_count ctx)"
  define b where "b = leftover m @ take p buf"
  define s where "s = absorb (MD5_Transform b (md5_state ctx)) (drop p buf)"
  define i where "i = last_index p (length buf)"
  define ctx' where "ctx' = ctx\<lparr>md5_count := c, md5_state := s, md5_buffer := blit 0 (drop i buf) b\<rparr>"
  have p: "k < 64" "p + k = 64" "p \<le> length buf" using assms(2) by (simp_all add: p_def k_def)
  have b: "length b = 64" "leftover m @ buf = b @ drop p buf" using p by (simp_all add: b_def k_def)
  have fits: "i + 63 < 2 ^ 32 \<longleftrightarrow> k + length buf < 2 ^ 32"
    using last_index_fits [of k "length buf"] assms(2) p(1) by (simp add: i_def p_def k_def)
  have rest: "drop i buf = leftover (drop p buf)" by (simp add: i_def last_index_def leftover_def add.commute)
  have i: "i \<le> length buf" "length buf - i < 64"
    using last_index_le [OF p(3)] arg_cong [OF rest, of length] by (simp_all add: i_def)
  have c: "counts (length m + length buf) c" using assms unfolding c_def by (intro count_up) (simp_all add: holds_def)
  have fill: "blit k (take p buf) (md5_buffer ctx) = b"
    using assms(1) p by (simp add: blit_def b_def holds_def k_def)
  have run: "MD5_Update buf ctx = (if k + length buf < 2 ^ 32 then Inr ctx' else Inl (Undefined ''MD5_Transform reads past the input''))"
    using assms(1) p b i unfolding MD5_Update_eq [OF assms(1)] Let_def k_def [symmetric] p_def [symmetric]
      md5_blocks_run [OF p(3) assms(3)] i_def [symmetric] fits
    by (simp add: md5_copy_def fill holds_def ctx'_def s_def c_def)
  have all: "absorb md5_start (m @ buf) = s" "leftover (m @ buf) = drop i buf"
    using assms(1) b rest by (simp_all add: absorb_append [of _ m buf] leftover_append [of m buf] absorb_block leftover_block s_def holds_def)
  then have "length (m @ buf) mod 64 = length buf - i" using length_leftover [of "m @ buf"] by simp
  then have "holds (m @ buf) ctx'"
    using all c b i unfolding holds_def by (simp add: ctx'_def blit_def)
  then show ?thesis using run by (simp add: k_def)
qed

text \<open>A chunk is taken in whole or, when it and the open block come to \<open>2 ^ 32\<close> bytes or more, is undefined.\<close>

lemma MD5_Update_cases:
  assumes "holds m ctx" "length buf < 2 ^ 32"
  shows "if length m mod 64 + length buf < 2 ^ 32 then \<exists>ctx'. MD5_Update buf ctx = Inr ctx' \<and> holds (m @ buf) ctx'
         else MD5_Update buf ctx = Inl (Undefined ''MD5_Transform reads past the input'')"
proof (cases "length m mod 64 + length buf < 64")
  case True
  then show ?thesis using MD5_Update_short [OF assms(1) True] by auto
next
  case False
  then show ?thesis using MD5_Update_long [OF assms(1) _ assms(2)] by simp
qed

lemma MD5_Encode_count: "MD5_Encode [of_nat n, of_nat (n div 2 ^ 32)] = le64 n"
proof -
  have byte: "ucast (drop_bit j (of_nat a :: w32) AND 0xff) = (of_nat (a div 2 ^ j) :: 8 word)" if "j + 8 \<le> 32" for j a
  proof -
    have m: "(0xff :: w32) = mask 8" by (simp add: mask_eq_exp_minus_1)
    have "of_nat (a div 2 ^ j) = (of_nat (drop_bit j a) :: 8 word)" by (simp add: drop_bit_eq_div)
    then show ?thesis
      using that by (auto intro!: bit_eqI simp: m bit_simps)
  qed
  show ?thesis
    using byte [of 0] byte [of 8] byte [of 16] byte [of 24]
    by (simp add: le64_def upt_rec div_mult2_eq [symmetric])
qed

section \<open>The digest of a message in pieces\<close>

fun MD5_Updates :: "bytes list \<Rightarrow> md5_context \<Rightarrow> md5_context result" where
  "MD5_Updates [] ctx = Inr ctx"
| "MD5_Updates (buf # bufs) ctx = rbind (MD5_Update buf ctx) (MD5_Updates bufs)"

definition md5_cleared :: md5_context where
  "md5_cleared = \<lparr>md5_state = (0, 0, 0, 0), md5_count = (0, 0), md5_buffer = replicate 64 0\<rparr>"

lemma MD5_Updates_holds:
  "holds m ctx \<Longrightarrow> \<forall>buf\<in>set bufs. length buf < 2 ^ 32 \<Longrightarrow> MD5_Updates bufs ctx = Inr ctx' \<Longrightarrow> holds (m @ concat bufs) ctx'"
proof (induction bufs arbitrary: m ctx)
  case (Cons buf bufs)
  then obtain ctx1 where "MD5_Update buf ctx = Inr ctx1" "holds (m @ buf) ctx1"
    using MD5_Update_cases [of m ctx buf] by (auto split: if_splits)
  then show ?case using Cons.IH [of "m @ buf" ctx1] Cons.prems by simp
qed simp

lemma MD5_Updates_total:
  "holds m ctx \<Longrightarrow> \<forall>buf\<in>set bufs. length buf + 63 < 2 ^ 32 \<Longrightarrow> \<exists>ctx'. MD5_Updates bufs ctx = Inr ctx' \<and> holds (m @ concat bufs) ctx'"
proof (induction bufs arbitrary: m ctx)
  case (Cons buf bufs)
  have "length m mod 64 + length buf < 2 ^ 32" using Cons.prems(2) mod_less_divisor [of 64 "length m"] by simp linarith
  then obtain ctx1 where "MD5_Update buf ctx = Inr ctx1" "holds (m @ buf) ctx1"
    using MD5_Update_cases [OF Cons.prems(1), of buf] by auto
  then show ?case using Cons.IH [of "m @ buf" ctx1] Cons.prems by simp
qed simp

lemma PADDING_take:
  assumes "k < 64"
  shows "take (if k < 56 then 56 - k else 120 - k) PADDING = 0x80 # replicate ((119 - k) mod 64) 0"
proof (cases "k < 56")
  case True
  then have "56 - k = Suc (55 - k)" "(119 - k) mod 64 = 55 - k" using mod_add_self1 [of 64 "55 - k"] by simp_all
  then show ?thesis using True by (simp add: PADDING_def)
next
  case False
  then have "120 - k = Suc (119 - k)" "119 - k < 64" using assms by simp_all
  then show ?thesis using False by (simp add: PADDING_def)
qed

lemma MD5_Final_holds:
  assumes "holds m ctx"
  shows "MD5_Final ctx = Inr (md5 m, md5_cleared)"
proof -
  define k where "k = length m mod 64"
  define pad where "pad = take (if k < 56 then 56 - k else 120 - k) PADDING"
  have index: "unat (drop_bit 3 (fst (md5_count ctx)) AND 0x3f) = k"
    using assms by (simp only: holds_def counts_index k_def)
  have bits: "MD5_Encode [fst (md5_count ctx), snd (md5_count ctx)] = le64 (8 * length m)"
    using assms by (simp only: holds_def counts_def fst_conv snd_conv MD5_Encode_count)
  have pad: "pad = 0x80 # replicate ((119 - k) mod 64) 0" "length pad \<le> 64"
    using PADDING_take [of k] by (simp_all add: pad_def PADDING_def k_def)
  obtain ctx1 ctx2 where upd: "MD5_Update pad ctx = Inr ctx1" "MD5_Update (le64 (8 * length m)) ctx1 = Inr ctx2"
    "holds (m @ pad @ le64 (8 * length m)) ctx2"
    using MD5_Updates_total [OF assms, of "[pad, le64 (8 * length m)]"] pad(2)
    by (auto simp: rbind_eq_Inr_iff le64_def)
  moreover have "m @ pad @ le64 (8 * length m) = padded m" by (simp add: padded_def pad k_def)
  ultimately have "md5_state ctx2 = absorb md5_start (padded m)" by (simp add: holds_def)
  then show ?thesis
    using upd unfolding MD5_Final_def Let_def index bits pad_def [symmetric] by (simp add: md5_def md5_cleared_def split: prod.splits)
qed

lemma MD5_Calculate_holds:
  assumes "length junk = 64" "length content < 2 ^ 32"
  shows "MD5_Calculate junk content = Inr (hex_text (md5 content))"
proof -
  obtain ctx where "MD5_Update content (MD5_Init junk) = Inr ctx" "holds content ctx"
    using MD5_Update_cases [OF MD5_Init_holds [OF assms(1)] assms(2)] assms(2) by auto
  then show ?thesis by (simp add: MD5_Calculate_def MD5_Final_holds)
qed

text \<open>
  C34. The digest does not depend on how a message is cut. Whatever the 64 bytes of the context's buffer hold at the
  start, updating it with the pieces of a message, each of less than \<open>2 ^ 32 - 63\<close> bytes, and finishing gives
  the MD5 digest of the whole message: the blocks of the message, padded with a one bit, zeros and its length in
  bits, absorbed in order from the initial state. The context is then cleared. \<open>MD5_Calculate\<close> writes the
  hexadecimal text of that digest for every content whose length fits its parameter.
\<close>

theorem md5_of_the_pieces:
  assumes "length junk = 64" "\<forall>buf\<in>set bufs. length buf + 63 < 2 ^ 32" "length content < 2 ^ 32"
  shows "rbind (MD5_Updates bufs (MD5_Init junk)) MD5_Final = Inr (md5 (concat bufs), md5_cleared)
       \<and> MD5_Calculate junk content = Inr (hex_text (md5 content))"
proof -
  obtain ctx where "MD5_Updates bufs (MD5_Init junk) = Inr ctx" "holds (concat bufs) ctx"
    using MD5_Updates_total [OF MD5_Init_holds [OF assms(1)] assms(2)] by auto
  then show ?thesis using assms by (simp add: MD5_Final_holds MD5_Calculate_holds)
qed

theorem md5_of_the_pieces_witness:
  "rbind (MD5_Updates [[0x61], [], [0x62, 0x63]] (MD5_Init (replicate 64 7))) MD5_Final = Inr (md5 [0x61, 0x62, 0x63], md5_cleared)
   \<and> MD5_Calculate (replicate 64 7) (replicate 4294967295 0x61) = Inr (hex_text (md5 (replicate 4294967295 0x61)))"
  using md5_of_the_pieces [of "replicate 64 7" "[[0x61], [], [0x62, 0x63]]" "replicate 4294967295 0x61"]
  by (simp del: MD5_Updates.simps)

text \<open>
  The reach of \<open>MD5_Update\<close>. After pieces that together leave \<open>k\<close> bytes in the open block, a piece of
  \<open>n < 2 ^ 32\<close> bytes is taken in, with the bytes after the last full block in the buffer, if \<open>k + n < 2 ^ 32\<close>. If
  not, the test \<open>i + 63 < len\<close> wraps at the last index and \<open>MD5_Transform\<close> reads a block past the end of the input.
\<close>

theorem md5_update_reach:
  assumes "length junk = 64" "\<forall>b\<in>set bufs. length b < 2 ^ 32" "MD5_Updates bufs (MD5_Init junk) = Inr ctx" "length buf < 2 ^ 32"
  shows "if length (concat bufs) mod 64 + length buf < 2 ^ 32
         then \<exists>ctx'. MD5_Update buf ctx = Inr ctx' \<and> length (md5_buffer ctx') = 64
                \<and> take (length (concat bufs @ buf) mod 64) (md5_buffer ctx') = leftover (concat bufs @ buf)
         else MD5_Update buf ctx = Inl (Undefined ''MD5_Transform reads past the input'')"
proof -
  have "holds (concat bufs) ctx" using MD5_Updates_holds [OF MD5_Init_holds [OF assms(1)] assms(2, 3)] by simp
  from MD5_Update_cases [OF this assms(4)] show ?thesis by (auto simp: holds_def split: if_splits)
qed

theorem md5_update_reach_witness:
  "\<exists>ctx. MD5_Updates [[0x61]] (MD5_Init (replicate 64 7)) = Inr ctx
     \<and> MD5_Update (replicate 4294967295 0) ctx = Inl (Undefined ''MD5_Transform reads past the input'')"
proof -
  have "\<exists>ctx. MD5_Updates [[0x61]] (MD5_Init (replicate 64 7)) = Inr ctx"
    by (simp add: MD5_Init_def MD5_Update_def md5_copy_def)
  then obtain ctx where "MD5_Updates [[0x61]] (MD5_Init (replicate 64 7)) = Inr ctx" ..
  then show ?thesis
    using md5_update_reach [of "replicate 64 7" "[[0x61]]" ctx "replicate 4294967295 0"] by simp
qed

text \<open>The table of the steps is the published one: the words of the block and the shifts of the four rounds.\<close>

lemma md5_steps_pattern:
  "map (\<lambda>(r, i, s, ac). (i, s)) md5_steps =
   map (\<lambda>k. if k < 16 then (k, [7, 12, 17, 22] ! (k mod 4)) else if k < 32 then ((5 * k + 1) mod 16, [5, 9, 14, 20] ! (k mod 4))
            else if k < 48 then ((3 * k + 5) mod 16, [4, 11, 16, 23] ! (k mod 4)) else (7 * k mod 16, [6, 10, 15, 21] ! (k mod 4)))
     [0 ..< 64]"
  by code_simp

end
