(* ===== verification/Aes.thy ===== *)
theory Aes
  imports AesTables
begin

unbundle bit_operations_syntax

text \<open>
  The AES cipher (\<open>third/muduo-win/src/base/security/aes_core.cpp\<close>, the variant without \<open>AES_ASM\<close> and \<open>FULL_UNROLL\<close>). A state is its
  four columns. The round keys are read at an offset that the source advances as a pointer; an access outside
  \<open>rd_key\<close>, the user's key or the block is undefined. A null pointer is \<open>None\<close>.
\<close>

section \<open>The code\<close>

type_synonym columns = "u32 \<times> u32 \<times> u32 \<times> u32"

record AES_KEY =
  rd_key :: "u32 list"
  rounds :: int

definition rcon :: "u32 list" where
  "rcon = [0x01000000, 0x02000000, 0x04000000, 0x08000000, 0x10000000, 0x20000000, 0x40000000, 0x80000000, 0x1B000000, 0x36000000]"

definition GETU32 :: "bytes \<Rightarrow> nat \<Rightarrow> u32" where
  "GETU32 p i = push_bit 24 (ucast (p ! i)) XOR push_bit 16 (ucast (p ! (i + 1))) XOR push_bit 8 (ucast (p ! (i + 2))) XOR ucast (p ! (i + 3))"

definition PUTU32 :: "u32 \<Rightarrow> bytes" where
  "PUTU32 st = [ucast (drop_bit 24 st), ucast (drop_bit 16 st), ucast (drop_bit 8 st), ucast st]"

definition get_block :: "bytes \<Rightarrow> columns" where
  "get_block p = (GETU32 p 0, GETU32 p 4, GETU32 p 8, GETU32 p 12)"

definition put_block :: "columns \<Rightarrow> bytes" where
  "put_block = (\<lambda>(s0, s1, s2, s3). PUTU32 s0 @ PUTU32 s1 @ PUTU32 s2 @ PUTU32 s3)"

text \<open>The four words of the round key at an offset.\<close>

definition rk_at :: "u32 list \<Rightarrow> nat \<Rightarrow> columns" where
  "rk_at rk p = (rk ! p, rk ! (p + 1), rk ! (p + 2), rk ! (p + 3))"

fun add_key :: "columns \<Rightarrow> columns \<Rightarrow> columns" where
  "add_key (k0, k1, k2, k3) (s0, s1, s2, s3) = (s0 XOR k0, s1 XOR k1, s2 XOR k2, s3 XOR k3)"

text \<open>A column of a full round and of the last round, in both directions.\<close>

definition te_column :: "u32 \<Rightarrow> u32 \<Rightarrow> u32 \<Rightarrow> u32 \<Rightarrow> u32" where
  "te_column a b c d =
     Te0 ! unat (drop_bit 24 a) XOR Te1 ! unat (drop_bit 16 b AND 0xff) XOR Te2 ! unat (drop_bit 8 c AND 0xff) XOR Te3 ! unat (d AND 0xff)"

definition te_last_column :: "u32 \<Rightarrow> u32 \<Rightarrow> u32 \<Rightarrow> u32 \<Rightarrow> u32" where
  "te_last_column a b c d =
     (Te2 ! unat (drop_bit 24 a) AND 0xff000000) XOR (Te3 ! unat (drop_bit 16 b AND 0xff) AND 0x00ff0000)
     XOR (Te0 ! unat (drop_bit 8 c AND 0xff) AND 0x0000ff00) XOR (Te1 ! unat (d AND 0xff) AND 0x000000ff)"

definition td_column :: "u32 \<Rightarrow> u32 \<Rightarrow> u32 \<Rightarrow> u32 \<Rightarrow> u32" where
  "td_column a b c d =
     Td0 ! unat (drop_bit 24 a) XOR Td1 ! unat (drop_bit 16 b AND 0xff) XOR Td2 ! unat (drop_bit 8 c AND 0xff) XOR Td3 ! unat (d AND 0xff)"

definition td_last_column :: "u32 \<Rightarrow> u32 \<Rightarrow> u32 \<Rightarrow> u32 \<Rightarrow> u32" where
  "td_last_column a b c d =
     push_bit 24 (ucast (Td4 ! unat (drop_bit 24 a))) XOR push_bit 16 (ucast (Td4 ! unat (drop_bit 16 b AND 0xff)))
     XOR push_bit 8 (ucast (Td4 ! unat (drop_bit 8 c AND 0xff))) XOR ucast (Td4 ! unat (d AND 0xff))"

fun enc_columns :: "(u32 \<Rightarrow> u32 \<Rightarrow> u32 \<Rightarrow> u32 \<Rightarrow> u32) \<Rightarrow> columns \<Rightarrow> columns \<Rightarrow> columns" where
  "enc_columns f k (s0, s1, s2, s3) = add_key k (f s0 s1 s2 s3, f s1 s2 s3 s0, f s2 s3 s0 s1, f s3 s0 s1 s2)"

fun dec_columns :: "(u32 \<Rightarrow> u32 \<Rightarrow> u32 \<Rightarrow> u32 \<Rightarrow> u32) \<Rightarrow> columns \<Rightarrow> columns \<Rightarrow> columns" where
  "dec_columns f k (s0, s1, s2, s3) = add_key k (f s0 s3 s2 s1, f s1 s0 s3 s2, f s2 s1 s0 s3, f s3 s2 s1 s0)"

text \<open>
  The loop over the full rounds, two in a pass and one in the last; \<open>r\<close> is the \<open>int\<close> that it counts down. With
  \<open>r \<le> 0\<close> it runs until it has passed the end of the round keys.
\<close>

function full_rounds :: "(columns \<Rightarrow> columns \<Rightarrow> columns) \<Rightarrow> u32 list \<Rightarrow> nat \<Rightarrow> int \<Rightarrow> columns \<Rightarrow> (columns \<times> nat) result" where
  "full_rounds f rk p r s =
     (if p + 8 \<le> length rk
      then let t = f (rk_at rk (p + 4)) s
           in if r - 1 = 0 then Inr (t, p + 8)
              else if p + 12 \<le> length rk then full_rounds f rk (p + 8) (r - 1) (f (rk_at rk (p + 8)) t)
              else Inl (Undefined ''read past rd_key'')
      else Inl (Undefined ''read past rd_key''))"
  by pat_completeness auto
termination by (relation "measure (\<lambda>(f, rk, p, r, s). length rk - p)") auto

declare full_rounds.simps [simp del]

definition aes_block :: "(columns \<Rightarrow> columns \<Rightarrow> columns) \<Rightarrow> (columns \<Rightarrow> columns \<Rightarrow> columns) \<Rightarrow> bytes \<Rightarrow> AES_KEY \<Rightarrow> bytes result" where
  "aes_block full final inp key =
     (if length inp < 16 then Inl (Undefined ''read past the block'')
      else if length (rd_key key) < 4 then Inl (Undefined ''read past rd_key'')
      else rbind (full_rounds full (rd_key key) 0 (rounds key div 2) (add_key (rk_at (rd_key key) 0) (get_block inp))) (\<lambda>(t, p).
           if p + 4 \<le> length (rd_key key) then Inr (put_block (final (rk_at (rd_key key) p) t))
           else Inl (Undefined ''read past rd_key'')))"

definition AES_encrypt :: "bytes \<Rightarrow> AES_KEY \<Rightarrow> bytes result" where
  "AES_encrypt = aes_block (enc_columns te_column) (enc_columns te_last_column)"

definition AES_decrypt :: "bytes \<Rightarrow> AES_KEY \<Rightarrow> bytes result" where
  "AES_decrypt = aes_block (dec_columns td_column) (dec_columns td_last_column)"

text \<open>The key schedules. The loops write the words after \<open>rk + p\<close>; \<open>i\<close> is the index into \<open>rcon\<close>.\<close>

definition sub_rot :: "u32 \<Rightarrow> u32" where
  "sub_rot temp =
     (Te2 ! unat (drop_bit 16 temp AND 0xff) AND 0xff000000) XOR (Te3 ! unat (drop_bit 8 temp AND 0xff) AND 0x00ff0000)
     XOR (Te0 ! unat (temp AND 0xff) AND 0x0000ff00) XOR (Te1 ! unat (drop_bit 24 temp) AND 0x000000ff)"

definition sub_word :: "u32 \<Rightarrow> u32" where
  "sub_word temp =
     (Te2 ! unat (drop_bit 24 temp) AND 0xff000000) XOR (Te3 ! unat (drop_bit 16 temp AND 0xff) AND 0x00ff0000)
     XOR (Te0 ! unat (drop_bit 8 temp AND 0xff) AND 0x0000ff00) XOR (Te1 ! unat (temp AND 0xff) AND 0x000000ff)"

function expand128 :: "nat \<Rightarrow> nat \<Rightarrow> u32 list \<Rightarrow> u32 list result" where
  "expand128 i p rk =
     (if i < length rcon \<and> p + 8 \<le> length rk
      then let r4 = rk ! p XOR sub_rot (rk ! (p + 3)) XOR rcon ! i;
               r5 = rk ! (p + 1) XOR r4; r6 = rk ! (p + 2) XOR r5; r7 = rk ! (p + 3) XOR r6;
               rk' = rk[p + 4 := r4, p + 5 := r5, p + 6 := r6, p + 7 := r7]
           in if i + 1 = 10 then Inr rk' else expand128 (i + 1) (p + 4) rk'
      else Inl (Undefined ''write past rd_key''))"
  by pat_completeness auto
termination by (relation "measure (\<lambda>(i, p, rk). length rcon - i)") auto

function expand192 :: "nat \<Rightarrow> nat \<Rightarrow> u32 list \<Rightarrow> u32 list result" where
  "expand192 i p rk =
     (if i < length rcon \<and> p + 12 \<le> length rk + (if i + 1 = 8 then 2 else 0)
      then let r6 = rk ! p XOR sub_rot (rk ! (p + 5)) XOR rcon ! i;
               r7 = rk ! (p + 1) XOR r6; r8 = rk ! (p + 2) XOR r7; r9 = rk ! (p + 3) XOR r8;
               rk' = rk[p + 6 := r6, p + 7 := r7, p + 8 := r8, p + 9 := r9]
           in if i + 1 = 8 then Inr rk'
              else let r10 = rk ! (p + 4) XOR r9; r11 = rk ! (p + 5) XOR r10
                   in expand192 (i + 1) (p + 6) (rk'[p + 10 := r10, p + 11 := r11])
      else Inl (Undefined ''write past rd_key''))"
  by pat_completeness auto
termination by (relation "measure (\<lambda>(i, p, rk). length rcon - i)") auto

function expand256 :: "nat \<Rightarrow> nat \<Rightarrow> u32 list \<Rightarrow> u32 list result" where
  "expand256 i p rk =
     (if i < length rcon \<and> p + 16 \<le> length rk + (if i + 1 = 7 then 4 else 0)
      then let r8 = rk ! p XOR sub_rot (rk ! (p + 7)) XOR rcon ! i;
               r9 = rk ! (p + 1) XOR r8; r10 = rk ! (p + 2) XOR r9; r11 = rk ! (p + 3) XOR r10;
               rk' = rk[p + 8 := r8, p + 9 := r9, p + 10 := r10, p + 11 := r11]
           in if i + 1 = 7 then Inr rk'
              else let r12 = rk ! (p + 4) XOR sub_word r11;
                       r13 = rk ! (p + 5) XOR r12; r14 = rk ! (p + 6) XOR r13; r15 = rk ! (p + 7) XOR r14
                   in expand256 (i + 1) (p + 8) (rk'[p + 12 := r12, p + 13 := r13, p + 14 := r14, p + 15 := r15])
      else Inl (Undefined ''write past rd_key''))"
  by pat_completeness auto
termination by (relation "measure (\<lambda>(i, p, rk). length rcon - i)") auto

declare expand128.simps [simp del] expand192.simps [simp del] expand256.simps [simp del]

definition load_words :: "bytes \<Rightarrow> nat \<Rightarrow> nat \<Rightarrow> u32 list \<Rightarrow> u32 list" where
  "load_words userKey a b rk = fold (\<lambda>i rk. rk[i := GETU32 userKey (4 * i)]) [a ..< b] rk"

definition AES_set_encrypt_key :: "bytes option \<Rightarrow> int \<Rightarrow> AES_KEY option \<Rightarrow> (int \<times> AES_KEY option) result" where
  "AES_set_encrypt_key userKey bits key =
     (case (userKey, key) of
        (Some uk, Some k) \<Rightarrow>
          if bits \<noteq> 128 \<and> bits \<noteq> 192 \<and> bits \<noteq> 256 then Inr (- 2, key)
          else if 8 * int (length uk) < bits then Inl (Undefined ''read past the user key'')
          else let nr = (if bits = 128 then 10 else if bits = 192 then 12 else 14);
                   rk = load_words uk 0 4 (rd_key k)
               in rbind (if bits = 128 then expand128 0 0 rk
                         else let rk = load_words uk 4 6 rk
                              in if bits = 192 then expand192 0 0 rk
                                 else expand256 0 0 (load_words uk 6 8 rk)) (\<lambda>rk.
                  Inr (0, Some (k\<lparr>rd_key := rk, rounds := nr\<rparr>)))
      | _ \<Rightarrow> Inr (- 1, key))"

definition swap_word :: "nat \<Rightarrow> nat \<Rightarrow> u32 list \<Rightarrow> u32 list" where
  "swap_word i j rk = rk[i := rk ! j, j := rk ! i]"

function swap_keys :: "nat \<Rightarrow> nat \<Rightarrow> u32 list \<Rightarrow> u32 list" where
  "swap_keys i j rk =
     (if i < j
      then swap_keys (i + 4) (j - 4)
             (swap_word (i + 3) (j + 3) (swap_word (i + 2) (j + 2) (swap_word (i + 1) (j + 1) (swap_word i j rk))))
      else rk)"
  by pat_completeness auto
termination by (relation "measure (\<lambda>(i, j, rk). j - i)") auto

declare swap_keys.simps [simp del]

definition imc_word :: "u32 \<Rightarrow> u32" where
  "imc_word w =
     Td0 ! unat (Te1 ! unat (drop_bit 24 w) AND 0xff) XOR Td1 ! unat (Te1 ! unat (drop_bit 16 w AND 0xff) AND 0xff)
     XOR Td2 ! unat (Te1 ! unat (drop_bit 8 w AND 0xff) AND 0xff) XOR Td3 ! unat (Te1 ! unat (w AND 0xff) AND 0xff)"

definition imc_at :: "nat \<Rightarrow> u32 list \<Rightarrow> u32 list" where
  "imc_at p rk = rk[p := imc_word (rk ! p), p + 1 := imc_word (rk ! (p + 1)), p + 2 := imc_word (rk ! (p + 2)), p + 3 := imc_word (rk ! (p + 3))]"

definition AES_set_decrypt_key :: "bytes option \<Rightarrow> int \<Rightarrow> AES_KEY option \<Rightarrow> (int \<times> AES_KEY option) result" where
  "AES_set_decrypt_key userKey bits key =
     rbind (AES_set_encrypt_key userKey bits key) (\<lambda>(status, key).
     case key of
       None \<Rightarrow> Inr (status, key)
     | Some k \<Rightarrow>
         if status < 0 then Inr (status, key)
         else let n = nat (rounds k)
              in if 4 * n + 4 \<le> length (rd_key k)
                 then Inr (0, Some (k\<lparr>rd_key := fold (\<lambda>i. imc_at (4 * i)) [1 ..< n] (swap_keys 0 (4 * n) (rd_key k))\<rparr>))
                 else Inl (Undefined ''access past rd_key''))"

section \<open>The steps of the cipher\<close>

text \<open>Mixing a column and its inverse; substituting and shifting the rows and its inverse.\<close>

definition mix :: "u32 \<Rightarrow> u32" where
  "mix w = (let a = byte3 w; b = byte2 w; c = byte1 w; d = byte0 w in
     pack (xtime a XOR mul3 b XOR c XOR d) (a XOR xtime b XOR mul3 c XOR d)
          (a XOR b XOR xtime c XOR mul3 d) (mul3 a XOR b XOR c XOR xtime d))"

definition imix :: "u32 \<Rightarrow> u32" where
  "imix w = (let a = byte3 w; b = byte2 w; c = byte1 w; d = byte0 w in
     pack (mule a XOR mulb b XOR muld c XOR mul9 d) (mul9 a XOR mule b XOR mulb c XOR muld d)
          (muld a XOR mul9 b XOR mule c XOR mulb d) (mulb a XOR muld b XOR mul9 c XOR mule d))"

lemma imix_xor: "imix (v XOR w) = imix v XOR imix w"
  by (simp add: imix_def Let_def byte_xor mul_xor pack_xor ac_simps)

lemma imix_mix [simp]: "imix (mix w) = w"
  by (simp add: imix_def mix_def Let_def mul_xor mul_defs xtime_xor ac_simps)

fun mix4 :: "columns \<Rightarrow> columns" where
  "mix4 (s0, s1, s2, s3) = (mix s0, mix s1, mix s2, mix s3)"

fun imix4 :: "columns \<Rightarrow> columns" where
  "imix4 (s0, s1, s2, s3) = (imix s0, imix s1, imix s2, imix s3)"

definition sub_column :: "u32 \<Rightarrow> u32 \<Rightarrow> u32 \<Rightarrow> u32 \<Rightarrow> u32" where
  "sub_column a b c d = pack (sub (byte3 a)) (sub (byte2 b)) (sub (byte1 c)) (sub (byte0 d))"

definition isub_column :: "u32 \<Rightarrow> u32 \<Rightarrow> u32 \<Rightarrow> u32 \<Rightarrow> u32" where
  "isub_column a b c d = pack (isub (byte3 a)) (isub (byte2 b)) (isub (byte1 c)) (isub (byte0 d))"

fun sub_shift :: "columns \<Rightarrow> columns" where
  "sub_shift (s0, s1, s2, s3) = (sub_column s0 s1 s2 s3, sub_column s1 s2 s3 s0, sub_column s2 s3 s0 s1, sub_column s3 s0 s1 s2)"

fun isub_shift :: "columns \<Rightarrow> columns" where
  "isub_shift (s0, s1, s2, s3) = (isub_column s0 s3 s2 s1, isub_column s1 s0 s3 s2, isub_column s2 s1 s0 s3, isub_column s3 s2 s1 s0)"

lemma isub_shift_sub_shift [simp]: "isub_shift (sub_shift s) = s"
  by (cases s) (simp add: isub_column_def sub_column_def)

lemma imix4_add_key: "imix4 (add_key k s) = add_key (imix4 k) (imix4 s)"
  by (cases s; cases k) (simp add: imix_xor)

lemma imix4_mix4 [simp]: "imix4 (mix4 s) = s"
  by (cases s) simp

lemma add_key_twice [simp]: "add_key k (add_key k s) = s"
  by (cases s; cases k) (simp add: xor.assoc)

lemma byte0_drop [simp]: "byte0 (drop_bit 16 w) = byte2 w" "byte0 (drop_bit 8 w) = byte1 w"
  by (simp_all add: byte_defs)

text \<open>The tables do one round at a time.\<close>

lemma te_column_eq: "te_column a b c d = mix (sub_column a b c d)"
  unfolding te_column_def index_byte Te_read by (simp add: mix_def sub_column_def Let_def pack_xor ac_simps)

lemma td_column_eq: "td_column a b c d = imix (isub_column a b c d)"
  unfolding td_column_def index_byte Td_read by (simp add: imix_def isub_column_def Let_def pack_xor ac_simps)

lemma byte_and:
  "byte3 (v AND w) = byte3 v AND byte3 w" "byte2 (v AND w) = byte2 v AND byte2 w"
  "byte1 (v AND w) = byte1 v AND byte1 w" "byte0 (v AND w) = byte0 v AND byte0 w"
  by (auto intro!: bit_eqI simp: byte_defs bit_simps)

lemma and_byte: "x AND 0xff = x" "x AND 0xff00 = 0" "x AND 0xff0000 = 0" "x AND 0xff000000 = 0" for x :: u8
proof -
  have n: "(0xff :: u8) = - 1" "(0xff00 :: u8) = 0" "(0xff0000 :: u8) = 0" "(0xff000000 :: u8) = 0" by code_simp+
  show "x AND 0xff = x" "x AND 0xff00 = 0" "x AND 0xff0000 = 0" "x AND 0xff000000 = 0" unfolding n by simp_all
qed

lemma pack_AND:
  "pack a b c d AND 0xff000000 = pack a 0 0 0" "pack a b c d AND 0x00ff0000 = pack 0 b 0 0"
  "pack a b c d AND 0x0000ff00 = pack 0 0 c 0" "pack a b c d AND 0x000000ff = pack 0 0 0 d"
  by (subst pack_bytes [symmetric], simp only: byte_and byte_pack, simp add: byte_defs and_byte)+

lemma te_last_column_eq: "te_last_column a b c d = sub_column a b c d"
  unfolding te_last_column_def index_byte Te_read pack_AND by (simp add: sub_column_def pack_xor)

lemma td_last_column_eq: "td_last_column a b c d = isub_column a b c d"
  unfolding td_last_column_def index_byte isub_def [symmetric] by (simp add: isub_column_def pack_def)

lemma te_round: "enc_columns te_column k s = add_key k (mix4 (sub_shift s))"
  by (cases s) (simp add: te_column_eq)

lemma te_last_round: "enc_columns te_last_column k s = add_key k (sub_shift s)"
  by (cases s) (simp add: te_last_column_eq)

lemma td_round: "dec_columns td_column k s = add_key k (imix4 (isub_shift s))"
  by (cases s) (simp add: td_column_eq)

lemma td_last_round: "dec_columns td_last_column k s = add_key k (isub_shift s)"
  by (cases s) (simp add: td_last_column_eq)

text \<open>A round of decryption under the transformed key undoes a round of encryption.\<close>

lemma undo_round:
  "dec_columns td_column (imix4 k) (sub_shift (enc_columns te_column k s)) = sub_shift s"
  by (simp add: te_round td_round imix4_add_key)

lemma undo_rounds:
  "fold (\<lambda>i. dec_columns td_column (imix4 (K i))) (rev xs) (sub_shift (fold (\<lambda>i. enc_columns te_column (K i)) xs s)) = sub_shift s"
  by (induction xs arbitrary: s) (simp_all add: undo_round)

lemma GETU32_pack: "GETU32 p i = pack (p ! i) (p ! (i + 1)) (p ! (i + 2)) (p ! (i + 3))"
  by (simp add: GETU32_def pack_def)

lemma PUTU32_bytes: "PUTU32 w = [byte3 w, byte2 w, byte1 w, byte0 w]"
  by (simp add: PUTU32_def byte_defs)

lemma get_put_block [simp]: "get_block (put_block s) = s"
  by (cases s) (simp add: get_block_def put_block_def GETU32_pack PUTU32_bytes)

lemma length_put_block [simp]: "length (put_block s) = 16"
  by (cases s) (simp add: put_block_def PUTU32_bytes)

lemma put_get_block: "length p = 16 \<Longrightarrow> put_block (get_block p) = p"
proof -
  assume "length p = 16"
  then have "map ((!) p) [0 ..< 16] = p" using map_nth [of p] by simp
  moreover have "put_block (get_block p) = map ((!) p) [0 ..< 16]"
    by (simp add: get_block_def put_block_def GETU32_pack PUTU32_bytes upt_rec) (simp add: eval_nat_numeral)
  ultimately show ?thesis by simp
qed

lemma full_rounds_run:
  "1 \<le> r \<Longrightarrow> 4 * (a + 2 * r) \<le> length rk \<Longrightarrow>
   full_rounds f rk (4 * a) (int r) s = Inr (fold (\<lambda>i. f (rk_at rk (4 * i))) [a + 1 ..< a + 2 * r] s, 4 * (a + 2 * r))"
proof (induction r arbitrary: a s rule: nat_induct_at_least)
  case base
  then show ?case by (subst full_rounds.simps) (simp add: upt_rec add.commute)
next
  case (Suc r)
  have "full_rounds f rk (4 * a) (int (Suc r)) s = full_rounds f rk (4 * (a + 2)) (int r) (f (rk_at rk (4 * (a + 2))) (f (rk_at rk (4 * (a + 1))) s))"
    using Suc.hyps Suc.prems by (subst full_rounds.simps) (simp add: Let_def add.commute)
  moreover have "[a + 1 ..< a + 2 * Suc r] = (a + 1) # (a + 2) # [a + 2 + 1 ..< a + 2 + 2 * r]" using Suc.hyps by (simp add: upt_conv_Cons)
  moreover have "a + 2 * Suc r = a + 2 + 2 * r" "4 * (a + 2 + 2 * r) \<le> length rk" using Suc.prems by simp_all
  ultimately show ?case using Suc.IH [of "a + 2"] by (simp only: fold_simps)
qed

lemma aes_block_run:
  assumes "rounds key = int (2 * r)" "1 \<le> r" "4 * (2 * r + 1) \<le> length (rd_key key)" "length inp = 16"
  shows "aes_block f g inp key = Inr (put_block (g (rk_at (rd_key key) (4 * (2 * r)))
           (fold (\<lambda>i. f (rk_at (rd_key key) (4 * i))) [1 ..< 2 * r] (add_key (rk_at (rd_key key) 0) (get_block inp)))))"
  using assms full_rounds_run [of r 0 "rd_key key" f] by (simp add: aes_block_def)

text \<open>Decryption under the keys in the other order, all but the outer two transformed, is the inverse of encryption.\<close>

lemma decrypt_encrypt:
  fixes ek dk :: AES_KEY and r :: nat
  defines "n \<equiv> 2 * r"
  assumes keys: "rounds ek = int n" "rounds dk = int n" "1 \<le> r" "4 * (n + 1) \<le> length (rd_key ek)" "4 * (n + 1) \<le> length (rd_key dk)"
    and dk: "\<And>i. i \<le> n \<Longrightarrow> rk_at (rd_key dk) (4 * i) =
      (if i = 0 \<or> i = n then rk_at (rd_key ek) (4 * (n - i)) else imix4 (rk_at (rd_key ek) (4 * (n - i))))"
    and inp: "length inp = 16"
  shows "\<exists>c. AES_encrypt inp ek = Inr c \<and> length c = 16 \<and> AES_decrypt c dk = Inr inp"
proof -
  define K where "K i = rk_at (rd_key ek) (4 * i)" for i
  define x where "x = fold (\<lambda>i. enc_columns te_column (K i)) [1 ..< n] (add_key (K 0) (get_block inp))"
  define c where "c = put_block (add_key (K n) (sub_shift x))"
  have enc: "AES_encrypt inp ek = Inr c"
    unfolding AES_encrypt_def using keys inp
    by (subst aes_block_run [of _ r]) (simp_all add: n_def c_def x_def K_def te_last_round)
  have rev: "rev [1 ..< n] = map (\<lambda>i. n - i) [1 ..< n]"
    by (rule nth_equalityI) (auto simp: rev_nth)
  have "fold (\<lambda>i. dec_columns td_column (rk_at (rd_key dk) (4 * i))) [1 ..< n] y
      = fold (\<lambda>i. dec_columns td_column (imix4 (K i))) (rev [1 ..< n]) y" for y
    unfolding rev fold_map by (rule fold_cong) (auto simp: dk K_def)
  then have "fold (\<lambda>i. dec_columns td_column (rk_at (rd_key dk) (4 * i))) [1 ..< n] (sub_shift x) = sub_shift (add_key (K 0) (get_block inp))"
    by (simp add: x_def undo_rounds)
  moreover have "rk_at (rd_key dk) 0 = K n" "rk_at (rd_key dk) (4 * n) = K 0"
    using dk [of 0] dk [of n] by (simp_all add: K_def)
  ultimately have "AES_decrypt c dk = Inr inp"
    unfolding AES_decrypt_def using keys inp
    by (subst aes_block_run [of _ r]) (simp_all add: n_def [symmetric] c_def td_last_round put_get_block)
  then show ?thesis using enc by (simp add: c_def)
qed

section \<open>The key schedules\<close>

lemma sub_word_eq: "sub_word w = pack (sub (byte3 w)) (sub (byte2 w)) (sub (byte1 w)) (sub (byte0 w))"
  unfolding sub_word_def index_byte Te_read pack_AND by (simp add: pack_xor)

lemma sub_rot_eq: "sub_rot w = pack (sub (byte2 w)) (sub (byte1 w)) (sub (byte0 w)) (sub (byte3 w))"
  unfolding sub_rot_def index_byte Te_read pack_AND by (simp add: pack_xor)

text \<open>Word \<open>i\<close> of the expanded key, for a key of \<open>nk\<close> words.\<close>

function key_word :: "nat \<Rightarrow> bytes \<Rightarrow> nat \<Rightarrow> u32" where
  "key_word nk uk i =
     (if nk = 0 \<or> i < nk then GETU32 uk (4 * i)
      else let w = key_word nk uk (i - 1) in
        key_word nk uk (i - nk) XOR
        (if i mod nk = 0
         then pack (sub (byte2 w)) (sub (byte1 w)) (sub (byte0 w)) (sub (byte3 w)) XOR rcon ! (i div nk - 1)
         else if 6 < nk \<and> i mod nk = 4 then pack (sub (byte3 w)) (sub (byte2 w)) (sub (byte1 w)) (sub (byte0 w))
         else w))"
  by pat_completeness auto
termination by (relation "measure (\<lambda>(nk, uk, i). i)") auto

declare key_word.simps [simp del]

lemma length_rcon [simp]: "length rcon = 10"
  by (simp add: rcon_def)

lemma key_word_head: "0 < nk \<Longrightarrow> key_word nk uk (nk + nk * i) =
   key_word nk uk (nk * i) XOR sub_rot (key_word nk uk (nk * i + (nk - 1))) XOR rcon ! i"
  by (subst key_word.simps) (simp add: Let_def sub_rot_eq ac_simps)

lemma key_word_tail:
  assumes "0 < c" "c < nk"
  shows "key_word nk uk (nk + nk * i + c) = key_word nk uk (nk * i + c) XOR
     (if 6 < nk \<and> c = 4 then sub_word (key_word nk uk (nk + nk * i + (c - 1))) else key_word nk uk (nk + nk * i + (c - 1)))"
proof -
  have "(nk + nk * i + c) mod nk = c" using assms(2) mod_mult_self2 [of c nk "Suc i"] by (simp add: ac_simps)
  moreover have "nk + nk * i + c - nk = nk * i + c" "nk + nk * i + c - 1 = nk + nk * i + (c - 1)" using assms(1) by simp_all
  ultimately show ?thesis using assms by (subst key_word.simps) (simp only: Let_def sub_word_eq, simp)
qed

definition expanded :: "nat \<Rightarrow> bytes \<Rightarrow> nat \<Rightarrow> u32 list \<Rightarrow> bool" where
  "expanded nk uk n rk \<longleftrightarrow> length rk = 60 \<and> (\<forall>j<n. rk ! j = key_word nk uk j)"

lemma expanded_nth: "expanded nk uk n rk \<Longrightarrow> j < n \<Longrightarrow> rk ! j = key_word nk uk j"
  by (simp add: expanded_def)

lemma expanded_snoc:
  "expanded nk uk n rk \<Longrightarrow> n < 60 \<Longrightarrow> v = key_word nk uk n \<Longrightarrow> n' = n + 1 \<Longrightarrow> expanded nk uk n' (rk[n := v])"
  by (auto simp: expanded_def nth_list_update less_Suc_eq)

text \<open>A loop that counts up to \<open>n\<close> and keeps an invariant ends.\<close>

lemma count_up_loop:
  fixes n :: nat
  assumes step: "\<And>i x. E i x \<Longrightarrow> i < n \<Longrightarrow> \<exists>y. (if i + 1 = n then F i x = Inr y \<and> Q y else F i x = F (i + 1) y \<and> E (i + 1) y)"
    and "E i x" "i < n"
  shows "\<exists>y. F i x = Inr y \<and> Q y"
  using assms(2, 3)
proof (induction "n - i" arbitrary: i x)
  case (Suc m)
  then obtain y where y: "if i + 1 = n then F i x = Inr y \<and> Q y else F i x = F (i + 1) y \<and> E (i + 1) y" using step by blast
  show ?case
  proof (cases "i + 1 = n")
    case False
    then show ?thesis using y Suc.hyps(1) [of "i + 1" y] Suc.hyps(2) Suc.prems(2) by auto
  qed (use y in auto)
qed simp

lemma expand128_expanded:
  assumes "expanded 4 uk 4 rk"
  shows "\<exists>rk'. expand128 0 0 rk = Inr rk' \<and> expanded 4 uk 44 rk'"
proof -
  have "\<exists>y. (if i + 1 = 10 then expand128 i (4 * i) x = Inr y \<and> expanded 4 uk 44 y
             else expand128 i (4 * i) x = expand128 (i + 1) (4 * (i + 1)) y \<and> expanded 4 uk (4 * (i + 1) + 4) y)"
    if e: "expanded 4 uk (4 * i + 4) x" and i: "i < 10" for i x
  proof -
    note nth = expanded_nth [OF e]
    have fits: "i < length rcon" "4 * i + 8 \<le> length x" using i e by (auto simp: expanded_def)
    define r4 where "r4 = x ! (4 * i) XOR sub_rot (x ! (4 * i + 3)) XOR rcon ! i"
    define r5 where "r5 = x ! (4 * i + 1) XOR r4"
    define r6 where "r6 = x ! (4 * i + 2) XOR r5"
    define r7 where "r7 = x ! (4 * i + 3) XOR r6"
    define y where "y = x[4 * i + 4 := r4, 4 * i + 5 := r5, 4 * i + 6 := r6, 4 * i + 7 := r7]"
    have w: "r4 = key_word 4 uk (4 * i + 4)" "r5 = key_word 4 uk (4 * i + 5)" "r6 = key_word 4 uk (4 * i + 6)" "r7 = key_word 4 uk (4 * i + 7)"
      using key_word_head [of 4 uk i] key_word_tail [of 1 4 uk i] key_word_tail [of 2 4 uk i] key_word_tail [of 3 4 uk i]
      by (simp_all add: r7_def r6_def r5_def r4_def nth add.commute)
    have "expanded 4 uk (4 * i + 8) y"
      unfolding y_def by (rule e expanded_snoc | use i w in simp)+
    moreover have "expand128 i (4 * i) x = (if i + 1 = 10 then Inr y else expand128 (i + 1) (4 * i + 4) y)"
      by (subst expand128.simps)
        (simp only: fits simp_thms if_True Let_def r4_def [symmetric] r5_def [symmetric] r6_def [symmetric] r7_def [symmetric] y_def [symmetric])
    ultimately show ?thesis by (intro exI [of _ y]) (auto simp: add.commute)
  qed
  from count_up_loop [where E = "\<lambda>i. expanded 4 uk (4 * i + 4)" and F = "\<lambda>i. expand128 i (4 * i)" and i = 0, OF this] assms
  show ?thesis by simp
qed

lemma expand192_expanded:
  assumes "expanded 6 uk 6 rk"
  shows "\<exists>rk'. expand192 0 0 rk = Inr rk' \<and> expanded 6 uk 52 rk'"
proof -
  have "\<exists>y. (if i + 1 = 8 then expand192 i (6 * i) x = Inr y \<and> expanded 6 uk 52 y
             else expand192 i (6 * i) x = expand192 (i + 1) (6 * (i + 1)) y \<and> expanded 6 uk (6 * (i + 1) + 6) y)"
    if e: "expanded 6 uk (6 * i + 6) x" and i: "i < 8" for i x
  proof -
    note nth = expanded_nth [OF e]
    have fits: "i < length rcon" "6 * i + 12 \<le> length x + (if i + 1 = 8 then 2 else 0)" using i e by (auto simp: expanded_def)
    define r6 where "r6 = x ! (6 * i) XOR sub_rot (x ! (6 * i + 5)) XOR rcon ! i"
    define r7 where "r7 = x ! (6 * i + 1) XOR r6"
    define r8 where "r8 = x ! (6 * i + 2) XOR r7"
    define r9 where "r9 = x ! (6 * i + 3) XOR r8"
    define r10 where "r10 = x ! (6 * i + 4) XOR r9"
    define r11 where "r11 = x ! (6 * i + 5) XOR r10"
    define y where "y = x[6 * i + 6 := r6, 6 * i + 7 := r7, 6 * i + 8 := r8, 6 * i + 9 := r9]"
    define z where "z = y[6 * i + 10 := r10, 6 * i + 11 := r11]"
    have w: "r6 = key_word 6 uk (6 * i + 6)" "r7 = key_word 6 uk (6 * i + 7)" "r8 = key_word 6 uk (6 * i + 8)" "r9 = key_word 6 uk (6 * i + 9)"
        "r10 = key_word 6 uk (6 * i + 10)" "r11 = key_word 6 uk (6 * i + 11)"
      using key_word_head [of 6 uk i] key_word_tail [of 1 6 uk i] key_word_tail [of 2 6 uk i] key_word_tail [of 3 6 uk i]
        key_word_tail [of 4 6 uk i] key_word_tail [of 5 6 uk i]
      by (simp_all add: r11_def r10_def r9_def r8_def r7_def r6_def nth add.commute)
    have y: "expanded 6 uk (6 * i + 10) y"
      unfolding y_def by (rule e expanded_snoc | use i w in simp)+
    have z: "expanded 6 uk (6 * i + 12) z" if "i + 1 \<noteq> 8"
      unfolding z_def by (rule y expanded_snoc | use i w that in simp)+
    have "expand192 i (6 * i) x = (if i + 1 = 8 then Inr y else expand192 (i + 1) (6 * i + 6) z)"
      by (subst expand192.simps)
        (simp only: fits simp_thms if_True Let_def r6_def [symmetric] r7_def [symmetric] r8_def [symmetric] r9_def [symmetric]
          r10_def [symmetric] r11_def [symmetric] y_def [symmetric] z_def [symmetric])
    then show ?thesis using y z by (intro exI [of _ "if i + 1 = 8 then y else z"]) (auto simp: add.commute)
  qed
  from count_up_loop [where E = "\<lambda>i. expanded 6 uk (6 * i + 6)" and F = "\<lambda>i. expand192 i (6 * i)" and i = 0, OF this] assms
  show ?thesis by simp
qed

lemma expand256_expanded:
  assumes "expanded 8 uk 8 rk"
  shows "\<exists>rk'. expand256 0 0 rk = Inr rk' \<and> expanded 8 uk 60 rk'"
proof -
  have "\<exists>y. (if i + 1 = 7 then expand256 i (8 * i) x = Inr y \<and> expanded 8 uk 60 y
             else expand256 i (8 * i) x = expand256 (i + 1) (8 * (i + 1)) y \<and> expanded 8 uk (8 * (i + 1) + 8) y)"
    if e: "expanded 8 uk (8 * i + 8) x" and i: "i < 7" for i x
  proof -
    note nth = expanded_nth [OF e]
    have fits: "i < length rcon" "8 * i + 16 \<le> length x + (if i + 1 = 7 then 4 else 0)" using i e by (auto simp: expanded_def)
    define r8 where "r8 = x ! (8 * i) XOR sub_rot (x ! (8 * i + 7)) XOR rcon ! i"
    define r9 where "r9 = x ! (8 * i + 1) XOR r8"
    define r10 where "r10 = x ! (8 * i + 2) XOR r9"
    define r11 where "r11 = x ! (8 * i + 3) XOR r10"
    define r12 where "r12 = x ! (8 * i + 4) XOR sub_word r11"
    define r13 where "r13 = x ! (8 * i + 5) XOR r12"
    define r14 where "r14 = x ! (8 * i + 6) XOR r13"
    define r15 where "r15 = x ! (8 * i + 7) XOR r14"
    define y where "y = x[8 * i + 8 := r8, 8 * i + 9 := r9, 8 * i + 10 := r10, 8 * i + 11 := r11]"
    define z where "z = y[8 * i + 12 := r12, 8 * i + 13 := r13, 8 * i + 14 := r14, 8 * i + 15 := r15]"
    have w: "r8 = key_word 8 uk (8 * i + 8)" "r9 = key_word 8 uk (8 * i + 9)" "r10 = key_word 8 uk (8 * i + 10)" "r11 = key_word 8 uk (8 * i + 11)"
      using key_word_head [of 8 uk i] key_word_tail [of 1 8 uk i] key_word_tail [of 2 8 uk i] key_word_tail [of 3 8 uk i]
      by (simp_all add: r11_def r10_def r9_def r8_def nth add.commute)
    then have v: "r12 = key_word 8 uk (8 * i + 12)" "r13 = key_word 8 uk (8 * i + 13)" "r14 = key_word 8 uk (8 * i + 14)" "r15 = key_word 8 uk (8 * i + 15)"
      using key_word_tail [of 4 8 uk i] key_word_tail [of 5 8 uk i] key_word_tail [of 6 8 uk i] key_word_tail [of 7 8 uk i]
      by (simp_all add: r15_def r14_def r13_def r12_def nth add.commute)
    have y: "expanded 8 uk (8 * i + 12) y"
      unfolding y_def by (rule e expanded_snoc | use i w in simp)+
    have z: "expanded 8 uk (8 * i + 16) z" if "i + 1 \<noteq> 7"
      unfolding z_def by (rule y expanded_snoc | use i v that in simp)+
    have "expand256 i (8 * i) x = (if i + 1 = 7 then Inr y else expand256 (i + 1) (8 * i + 8) z)"
      by (subst expand256.simps)
        (simp only: fits simp_thms if_True Let_def r8_def [symmetric] r9_def [symmetric] r10_def [symmetric] r11_def [symmetric]
          r12_def [symmetric] r13_def [symmetric] r14_def [symmetric] r15_def [symmetric] y_def [symmetric] z_def [symmetric])
    then show ?thesis using y z by (intro exI [of _ "if i + 1 = 7 then y else z"]) (auto simp: add.commute)
  qed
  from count_up_loop [where E = "\<lambda>i. expanded 8 uk (8 * i + 8)" and F = "\<lambda>i. expand256 i (8 * i)" and i = 0, OF this] assms
  show ?thesis by simp
qed

lemma load_words_expanded:
  "expanded nk uk a rk \<Longrightarrow> a \<le> b \<Longrightarrow> b \<le> nk \<Longrightarrow> nk \<le> 60 \<Longrightarrow> expanded nk uk b (load_words uk a b rk)"
proof (induction b)
  case (Suc b)
  show ?case
  proof (cases "a = Suc b")
    case False
    then have "load_words uk a (Suc b) rk = (load_words uk a b rk)[b := GETU32 uk (4 * b)]" "expanded nk uk b (load_words uk a b rk)"
      using Suc by (simp_all add: load_words_def)
    then show ?thesis using Suc.prems by (auto intro!: expanded_snoc simp: key_word.simps [of nk uk b])
  qed (use Suc.prems in \<open>simp add: load_words_def\<close>)
qed (simp add: load_words_def)

definition nr_of :: "int \<Rightarrow> nat" where
  "nr_of bits = (if bits = 128 then 10 else if bits = 192 then 12 else 14)"

definition key_bits :: "int \<Rightarrow> bool" where
  "key_bits bits \<longleftrightarrow> bits = 128 \<or> bits = 192 \<or> bits = 256"

lemma set_encrypt_key_run:
  assumes "key_bits bits" "bits \<le> 8 * int (length uk)" "length (rd_key k) = 60"
  obtains rk where "AES_set_encrypt_key (Some uk) bits (Some k) = Inr (0, Some (k\<lparr>rd_key := rk, rounds := int (nr_of bits)\<rparr>))"
    "expanded (nat bits div 32) uk (4 * (nr_of bits + 1)) rk"
proof -
  have start: "expanded nk uk 0 (rd_key k)" for nk using assms(3) by (simp add: expanded_def)
  have load: "expanded 4 uk 4 (load_words uk 0 4 (rd_key k))"
    "expanded 6 uk 6 (load_words uk 4 6 (load_words uk 0 4 (rd_key k)))"
    "expanded 8 uk 8 (load_words uk 6 8 (load_words uk 4 6 (load_words uk 0 4 (rd_key k))))"
    by (rule start load_words_expanded | simp)+
  consider "bits = 128" | "bits = 192" | "bits = 256" using assms(1) by (auto simp: key_bits_def)
  then show ?thesis
  proof cases
    case 1
    then show ?thesis using expand128_expanded [OF load(1)] assms(2) that by (auto simp: AES_set_encrypt_key_def nr_of_def)
  next
    case 2
    then show ?thesis using expand192_expanded [OF load(2)] assms(2) that by (auto simp: AES_set_encrypt_key_def nr_of_def)
  next
    case 3
    then show ?thesis using expand256_expanded [OF load(3)] assms(2) that by (auto simp: AES_set_encrypt_key_def nr_of_def)
  qed
qed

text \<open>The words of the round keys in blocks of four.\<close>

fun set_at :: "nat \<Rightarrow> columns \<Rightarrow> u32 list \<Rightarrow> u32 list" where
  "set_at a (k0, k1, k2, k3) rk = rk[4 * a := k0, 4 * a + 1 := k1, 4 * a + 2 := k2, 4 * a + 3 := k3]"

lemma four_times_eq: "4 * i + c = 4 * a + d \<longleftrightarrow> i = a \<and> c = d" if "c < 4" "d < 4" for i a c d :: nat
  using that by presburger

lemma length_set_at [simp]: "length (set_at a k rk) = length rk"
  by (cases k) simp

lemma rk_at_set_at: "4 * a + 4 \<le> length rk \<Longrightarrow> rk_at (set_at a k rk) (4 * i) = (if i = a then k else rk_at rk (4 * i))"
  using four_times_eq [of 0 _ i a] four_times_eq [of 1 _ i a] four_times_eq [of 2 _ i a] four_times_eq [of 3 _ i a]
  by (cases k) (auto simp: rk_at_def nth_list_update)

lemma imc_word_eq: "imc_word w = imix w"
proof -
  have "byte0 (Te1 ! unat x) = sub x" for x :: u8 by (simp add: Te_read)
  then show ?thesis
    unfolding imc_word_def index_byte(1, 2, 3) by (simp add: index_byte(4) Td_read imix_def Let_def pack_xor ac_simps)
qed

lemma imc_at_set: "imc_at (4 * a) rk = set_at a (imix4 (rk_at rk (4 * a))) rk"
  by (simp add: imc_at_def rk_at_def imc_word_eq)

lemma four_times_neq: "i \<noteq> a \<Longrightarrow> c < 4 \<Longrightarrow> d < 4 \<Longrightarrow> 4 * i + c \<noteq> 4 * a + d" for i a c d :: nat
  by (simp add: four_times_eq)

lemma swap_word_nth:
  "p < length rk \<Longrightarrow> q < length rk \<Longrightarrow> swap_word p q rk ! k = (if k = q then rk ! p else if k = p then rk ! q else rk ! k)"
  by (simp add: swap_word_def nth_list_update)

lemma length_swap_word [simp]: "length (swap_word p q rk) = length rk"
  by (simp add: swap_word_def)

lemma rk_at_swap:
  fixes rk :: "u32 list"
  assumes "a \<noteq> b" "4 * a + 4 \<le> length rk" "4 * b + 4 \<le> length rk"
  defines "rk' \<equiv> swap_word (4 * a + 3) (4 * b + 3) (swap_word (4 * a + 2) (4 * b + 2) (swap_word (4 * a + 1) (4 * b + 1) (swap_word (4 * a) (4 * b) rk)))"
  shows "length rk' = length rk"
    "rk_at rk' (4 * i) = (if i = a then rk_at rk (4 * b) else if i = b then rk_at rk (4 * a) else rk_at rk (4 * i))"
proof -
  have dist: "4 * j + c = 4 * l + d \<longleftrightarrow> j = l \<and> c = d" "4 * j + c = 4 * l \<longleftrightarrow> j = l \<and> c = 0" "4 * j = 4 * l + d \<longleftrightarrow> j = l \<and> d = 0"
    if "c < 4" "d < 4" for j l c d :: nat using that by presburger+
  have "rk' ! (4 * i) = (if i = a then rk ! (4 * b) else if i = b then rk ! (4 * a) else rk ! (4 * i))"
    "rk' ! (4 * i + 1) = (if i = a then rk ! (4 * b + 1) else if i = b then rk ! (4 * a + 1) else rk ! (4 * i + 1))"
    "rk' ! (4 * i + 2) = (if i = a then rk ! (4 * b + 2) else if i = b then rk ! (4 * a + 2) else rk ! (4 * i + 2))"
    "rk' ! (4 * i + 3) = (if i = a then rk ! (4 * b + 3) else if i = b then rk ! (4 * a + 3) else rk ! (4 * i + 3))"
    unfolding rk'_def using assms(1-3) by (simp_all add: swap_word_nth dist del: One_nat_def)
  then show "rk_at rk' (4 * i) = (if i = a then rk_at rk (4 * b) else if i = b then rk_at rk (4 * a) else rk_at rk (4 * i))"
    by (simp add: rk_at_def)
qed (simp add: rk'_def)

lemma swap_keys_run:
  assumes "4 * b + 4 \<le> length rk"
  shows "length (swap_keys (4 * a) (4 * b) rk) = length rk
    \<and> rk_at (swap_keys (4 * a) (4 * b) rk) (4 * i) = (if a \<le> i \<and> i \<le> b then rk_at rk (4 * (a + b - i)) else rk_at rk (4 * i))"
  using assms
proof (induction "b - a" arbitrary: a b rk rule: less_induct)
  case less
  show ?case
  proof (cases "a < b")
    case True
    define rk' where "rk' = swap_word (4 * a + 3) (4 * b + 3) (swap_word (4 * a + 2) (4 * b + 2) (swap_word (4 * a + 1) (4 * b + 1) (swap_word (4 * a) (4 * b) rk)))"
    note swap = rk_at_swap [of a b rk, folded rk'_def]
    have "swap_keys (4 * a) (4 * b) rk = swap_keys (4 * (a + 1)) (4 * (b - 1)) rk'"
      using True by (subst swap_keys.simps) (simp add: rk'_def diff_mult_distrib2 add.commute)
    moreover have "length rk' = length rk" using swap(1) True less.prems by simp
    moreover note less.hyps [of "b - 1" "a + 1" rk']
    moreover have "a + 1 + (b - 1) - i = a + b - i" using True by simp
    ultimately show ?thesis using True less.prems swap(2) by auto
  next
    case False
    then have "swap_keys (4 * a) (4 * b) rk = rk" by (subst swap_keys.simps) simp
    moreover have "a + b - i = i" if "a \<le> i" "i \<le> b" using False that by simp
    ultimately show ?thesis by auto
  qed
qed

lemma imc_fold:
  assumes "4 * n \<le> length rk"
  shows "length (fold (\<lambda>i. imc_at (4 * i)) [1 ..< n] rk) = length rk
    \<and> rk_at (fold (\<lambda>i. imc_at (4 * i)) [1 ..< n] rk) (4 * i) = (if 1 \<le> i \<and> i < n then imix4 (rk_at rk (4 * i)) else rk_at rk (4 * i))"
  using assms
proof (induction n)
  case (Suc n)
  then show ?case by (cases "n = 0") (auto simp: imc_at_set rk_at_set_at)
qed simp

lemma set_decrypt_key_run:
  assumes "key_bits bits" "bits \<le> 8 * int (length uk)" "length (rd_key k) = 60"
  defines "n \<equiv> nr_of bits"
  obtains rk ek where "AES_set_decrypt_key (Some uk) bits (Some k) = Inr (0, Some (k\<lparr>rd_key := rk, rounds := int n\<rparr>))"
    "expanded (nat bits div 32) uk (4 * (n + 1)) ek" "length rk = 60"
    "\<forall>i\<le>n. rk_at rk (4 * i) = (if i = 0 \<or> i = n then rk_at ek (4 * (n - i)) else imix4 (rk_at ek (4 * (n - i))))"
proof -
  obtain ek where ek: "AES_set_encrypt_key (Some uk) bits (Some k) = Inr (0, Some (k\<lparr>rd_key := ek, rounds := int n\<rparr>))"
    "expanded (nat bits div 32) uk (4 * (n + 1)) ek"
    unfolding n_def by (rule set_encrypt_key_run [OF assms(1-3)])
  define sw where "sw = swap_keys 0 (4 * n) ek"
  define rk where "rk = fold (\<lambda>i. imc_at (4 * i)) [1 ..< n] sw"
  have len: "length ek = 60" "4 * n + 4 \<le> length ek" using ek(2) by (simp_all add: expanded_def n_def nr_of_def)
  have set: "AES_set_decrypt_key (Some uk) bits (Some k) = Inr (0, Some (k\<lparr>rd_key := rk, rounds := int n\<rparr>))"
    using ek(1) len by (simp add: AES_set_decrypt_key_def rk_def sw_def)
  have sw: "length sw = 60" "rk_at sw (4 * i) = (if i \<le> n then rk_at ek (4 * (n - i)) else rk_at ek (4 * i))" for i
    using swap_keys_run [of n ek 0 i] len by (auto simp: sw_def)
  have rk: "length rk = 60" "rk_at rk (4 * i) = (if 1 \<le> i \<and> i < n then imix4 (rk_at sw (4 * i)) else rk_at sw (4 * i))" for i
    using imc_fold [of n sw i] sw(1) len by (auto simp: rk_def)
  have "\<forall>i\<le>n. rk_at rk (4 * i) = (if i = 0 \<or> i = n then rk_at ek (4 * (n - i)) else imix4 (rk_at ek (4 * (n - i))))"
    using rk(2) sw(2) sw(2) [of 0] by auto
  then show ?thesis using set ek(2) rk(1) by (intro that)
qed

text \<open>The words that a round reads are fixed by the user's key, whatever the structure held before.\<close>

lemma expanded_rk_at:
  "expanded nk uk (4 * (n + 1)) rk \<Longrightarrow> expanded nk uk (4 * (n + 1)) rk' \<Longrightarrow> i \<le> n \<Longrightarrow> rk_at rk (4 * i) = rk_at rk' (4 * i)"
  by (simp add: rk_at_def expanded_def)

section \<open>The cipher as published\<close>

text \<open>The state is a list of 16 bytes, column by column.\<close>

definition SubBytes :: "bytes \<Rightarrow> bytes" where
  "SubBytes st = map sub st"

definition ShiftRows :: "bytes \<Rightarrow> bytes" where
  "ShiftRows st = map (\<lambda>i. st ! ((i + 4 * (i mod 4)) mod 16)) [0 ..< 16]"

definition MixColumns :: "bytes \<Rightarrow> bytes" where
  "MixColumns st = concat (map (\<lambda>c.
     let a = st ! (4 * c); b = st ! (4 * c + 1); d = st ! (4 * c + 2); e = st ! (4 * c + 3)
     in [xtime a XOR mul3 b XOR d XOR e, a XOR xtime b XOR mul3 d XOR e, a XOR b XOR xtime d XOR mul3 e, mul3 a XOR b XOR d XOR xtime e]) [0 ..< 4])"

definition AddRoundKey :: "bytes \<Rightarrow> bytes \<Rightarrow> bytes" where
  "AddRoundKey k st = map2 (XOR) st k"

definition round_key :: "nat \<Rightarrow> bytes \<Rightarrow> nat \<Rightarrow> bytes" where
  "round_key nk uk i = concat (map (\<lambda>j. let w = key_word nk uk (4 * i + j) in [byte3 w, byte2 w, byte1 w, byte0 w]) [0 ..< 4])"

definition Cipher :: "nat \<Rightarrow> nat \<Rightarrow> bytes \<Rightarrow> bytes \<Rightarrow> bytes" where
  "Cipher nr nk uk block =
     AddRoundKey (round_key nk uk nr) (ShiftRows (SubBytes
       (fold (\<lambda>i st. AddRoundKey (round_key nk uk i) (MixColumns (ShiftRows (SubBytes st)))) [1 ..< nr]
         (AddRoundKey (round_key nk uk 0) block))))"

lemma upt_4: "[0 ..< 4] = [0, 1, 2, 3 :: nat]"
  by (simp add: upt_rec)

lemma upt_16: "[0 ..< 16] = [0, 1, 2, 3, 4, 5, 6, 7, 8, 9, 10, 11, 12, 13, 14, 15 :: nat]"
  by (simp add: upt_rec)

lemma put_block_sub_shift: "put_block (sub_shift s) = ShiftRows (SubBytes (put_block s))"
  by (cases s) (simp add: put_block_def PUTU32_bytes ShiftRows_def SubBytes_def sub_column_def upt_16)

lemma put_block_mix4: "put_block (mix4 s) = MixColumns (put_block s)"
  by (cases s) (simp add: put_block_def PUTU32_bytes MixColumns_def mix_def Let_def upt_4)

lemma put_block_add_key: "put_block (add_key k s) = AddRoundKey (put_block k) (put_block s)"
  by (cases s; cases k) (simp add: put_block_def PUTU32_bytes AddRoundKey_def byte_xor)

lemma put_block_round_key: "expanded nk uk (4 * (n + 1)) rk \<Longrightarrow> i \<le> n \<Longrightarrow> put_block (rk_at rk (4 * i)) = round_key nk uk i"
  by (simp add: expanded_def put_block_def rk_at_def PUTU32_bytes round_key_def Let_def upt_4)

lemma put_block_rounds:
  "put_block (fold (\<lambda>i. enc_columns te_column (K i)) xs s)
   = fold (\<lambda>i st. AddRoundKey (put_block (K i)) (MixColumns (ShiftRows (SubBytes st)))) xs (put_block s)"
  by (induction xs arbitrary: s) (simp_all add: te_round put_block_add_key put_block_mix4 put_block_sub_shift)

section \<open>Properties\<close>

text \<open>
  C35. Decryption undoes encryption. For every user key of 128, 192 or 256 bits, both set-up functions return 0
  whatever the key structures held before, every block of 16 bytes is encrypted to 16 bytes, and decrypting these
  under the decryption schedule gives the block back. No access leaves the block, the user's key or the 60 words
  of \<open>rd_key\<close>.
\<close>

theorem aes_decrypt_encrypt:
  assumes "key_bits bits" "bits \<le> 8 * int (length uk)" "length (rd_key k) = 60" "length (rd_key k') = 60" "length block = 16"
  shows "\<exists>ek dk c. AES_set_encrypt_key (Some uk) bits (Some k) = Inr (0, Some ek)
       \<and> AES_set_decrypt_key (Some uk) bits (Some k') = Inr (0, Some dk)
       \<and> AES_encrypt block ek = Inr c \<and> length c = 16 \<and> AES_decrypt c dk = Inr block"
proof -
  obtain e where e: "AES_set_encrypt_key (Some uk) bits (Some k) = Inr (0, Some (k\<lparr>rd_key := e, rounds := int (nr_of bits)\<rparr>))"
    "expanded (nat bits div 32) uk (4 * (nr_of bits + 1)) e"
    by (rule set_encrypt_key_run [OF assms(1-3)])
  obtain d e' where d: "AES_set_decrypt_key (Some uk) bits (Some k') = Inr (0, Some (k'\<lparr>rd_key := d, rounds := int (nr_of bits)\<rparr>))"
    "expanded (nat bits div 32) uk (4 * (nr_of bits + 1)) e'" "length d = 60"
    "\<forall>i\<le>nr_of bits. rk_at d (4 * i) = (if i = 0 \<or> i = nr_of bits then rk_at e' (4 * (nr_of bits - i)) else imix4 (rk_at e' (4 * (nr_of bits - i))))"
    by (rule set_decrypt_key_run [OF assms(1, 2, 4)])
  define r where "r = nr_of bits div 2"
  have r: "nr_of bits = 2 * r" "1 \<le> r" "4 * (nr_of bits + 1) \<le> 60" by (simp_all add: r_def nr_of_def)
  have "\<exists>c. AES_encrypt block (k\<lparr>rd_key := e, rounds := int (nr_of bits)\<rparr>) = Inr c \<and> length c = 16
      \<and> AES_decrypt c (k'\<lparr>rd_key := d, rounds := int (nr_of bits)\<rparr>) = Inr block"
    using decrypt_encrypt [of "k\<lparr>rd_key := e, rounds := int (nr_of bits)\<rparr>" r "k'\<lparr>rd_key := d, rounds := int (nr_of bits)\<rparr>" block]
      r e(2) d(3, 4) assms(5) expanded_rk_at [OF e(2) d(2)]
    by (simp add: expanded_def)
  then show ?thesis using e(1) d(1) by blast
qed

theorem aes_decrypt_encrypt_witness:
  "\<exists>ek dk c. AES_set_encrypt_key (Some (replicate 24 3)) 192 (Some \<lparr>rd_key = replicate 60 7, rounds = 0\<rparr>) = Inr (0, Some ek)
     \<and> AES_set_decrypt_key (Some (replicate 24 3)) 192 (Some \<lparr>rd_key = replicate 60 8, rounds = 1\<rparr>) = Inr (0, Some dk)
     \<and> AES_encrypt (replicate 16 5) ek = Inr c \<and> length c = 16 \<and> AES_decrypt c dk = Inr (replicate 16 5)"
  by (rule aes_decrypt_encrypt) (simp_all add: key_bits_def)

text \<open>
  C36. The table-driven code is the published cipher. After the set-up of a user key of 128, 192 or 256 bits, the
  encryption of a block is the result of 10, 12 or 14 rounds of substituting the bytes, shifting the rows, mixing
  the columns (not in the last round) and adding the round key, where the round keys are the words of the published
  key expansion.
\<close>

theorem aes_encrypt_is_the_cipher:
  assumes "key_bits bits" "bits \<le> 8 * int (length uk)" "length (rd_key k) = 60" "length block = 16"
  shows "\<exists>ek. AES_set_encrypt_key (Some uk) bits (Some k) = Inr (0, Some ek) \<and> rounds ek = int (nr_of bits)
       \<and> AES_encrypt block ek = Inr (Cipher (nr_of bits) (nat bits div 32) uk block)"
proof -
  define n where "n = nr_of bits"
  define r where "r = n div 2"
  obtain e where e: "AES_set_encrypt_key (Some uk) bits (Some k) = Inr (0, Some (k\<lparr>rd_key := e, rounds := int n\<rparr>))"
    "expanded (nat bits div 32) uk (4 * (n + 1)) e"
    unfolding n_def by (rule set_encrypt_key_run [OF assms(1-3)])
  have r: "n = 2 * r" "1 \<le> r" "4 * (n + 1) \<le> length e" using e(2) by (simp_all add: r_def n_def nr_of_def expanded_def)
  note keys = put_block_round_key [OF e(2)]
  have rounds: "fold (\<lambda>i st. AddRoundKey (put_block (rk_at e (4 * i))) (MixColumns (ShiftRows (SubBytes st)))) [1 ..< n] x
      = fold (\<lambda>i st. AddRoundKey (round_key (nat bits div 32) uk i) (MixColumns (ShiftRows (SubBytes st)))) [1 ..< n] x" for x
    by (rule fold_cong) (auto simp: keys)
  have "AES_encrypt block (k\<lparr>rd_key := e, rounds := int n\<rparr>) = Inr (Cipher n (nat bits div 32) uk block)"
    unfolding AES_encrypt_def using r assms(4) keys [of 0]
    by (subst aes_block_run [of _ r])
      (simp_all add: Cipher_def te_last_round put_block_add_key put_block_sub_shift put_block_rounds rounds [unfolded One_nat_def] keys put_get_block flip: r(1))
  then show ?thesis using e(1) by (auto simp: n_def)
qed

theorem aes_encrypt_is_the_cipher_witness:
  "\<exists>ek. AES_set_encrypt_key (Some (replicate 16 3)) 128 (Some \<lparr>rd_key = replicate 60 7, rounds = 0\<rparr>) = Inr (0, Some ek) \<and> rounds ek = 10
     \<and> AES_encrypt (replicate 16 5) ek = Inr (Cipher 10 4 (replicate 16 3) (replicate 16 5))"
  using aes_encrypt_is_the_cipher [of 128 "replicate 16 3" "\<lparr>rd_key = replicate 60 7, rounds = 0\<rparr>" "replicate 16 5"]
  by (simp add: key_bits_def nr_of_def)

text \<open>The refusals: a null pointer is -1, another number of bits -2; the structure is left as it was.\<close>

lemma aes_set_key_refused:
  "AES_set_encrypt_key None bits key = Inr (- 1, key)" "AES_set_encrypt_key uk bits None = Inr (- 1, None)"
  "\<not> key_bits bits \<Longrightarrow> AES_set_encrypt_key (Some u) bits (Some k) = Inr (- 2, Some k)"
  "\<not> key_bits bits \<Longrightarrow> AES_set_decrypt_key (Some u) bits (Some k) = Inr (- 2, Some k)"
  by (simp_all add: AES_set_encrypt_key_def AES_set_decrypt_key_def key_bits_def split: option.split)

end
