(* ===== verification/Locks.thy ===== *)
theory Locks
  imports TimerQueue "HOL-Library.Signed_Division"
begin

text \<open>
  Mutexes and condition variables (\<open>third/muduo/base/Mutex.h\<close>, \<open>Condition.h\<close>, \<open>Condition.cc\<close>, and \<open>CurrentThread.h\<close>). A method is the list of its
  atomic actions, and a step of a thread is one action, so the accesses to \<open>holder_\<close> outside the lock interleave with
  those of other threads. A thread is its kernel id. Threads use a mutex through \<open>MutexLockGuard\<close>: while the guard
  lives they wait, assert that they hold the lock, or leave its scope. Of pthread: a mutex has at most one owner,
  unlocking or waiting without owning it is undefined, and a waiting thread owns the mutex again when it returns.
\<close>

section \<open>Thread ids\<close>

text \<open>\<open>t_cachedTid\<close> is a variable of each thread; \<open>gettid\<close> gives the id of the thread.\<close>

definition cacheTid :: "int \<Rightarrow> int \<Rightarrow> int" where
  "cacheTid gettid cached = (if cached = 0 then gettid else cached)"

definition CurrentThread_tid :: "int \<Rightarrow> int \<Rightarrow> int" where
  "CurrentThread_tid gettid cached = (if cached = 0 then cacheTid gettid cached else cached)"

section \<open>The lock\<close>

datatype lock_act = PthreadLock | PthreadUnlock | AssignHolder | UnassignHolder | CondBlock | CondReturn | AssertLocked

record locks =
  mutex_owner :: "int option"
  holder :: int
  cond_waiters :: "int set"
  cachedTid :: "int \<Rightarrow> int"
  guarded :: "int \<Rightarrow> bool"
  todo :: "int \<Rightarrow> lock_act list"

definition MutexLock_ctor :: locks where
  "MutexLock_ctor = \<lparr>mutex_owner = None, holder = 0, cond_waiters = {}, cachedTid = (\<lambda>_. 0), guarded = (\<lambda>_. False), todo = (\<lambda>_. [])\<rparr>"

text \<open>The constructor of a thread's guard, its destructor, and what is called between them.\<close>

definition MutexLock_lock :: "lock_act list" where
  "MutexLock_lock = [PthreadLock, AssignHolder]"

definition MutexLock_unlock :: "lock_act list" where
  "MutexLock_unlock = [UnassignHolder, PthreadUnlock]"

definition Condition_wait :: "lock_act list" where
  "Condition_wait = [UnassignHolder, CondBlock, CondReturn, AssignHolder]"

definition MutexLock_assertLocked :: "lock_act list" where
  "MutexLock_assertLocked = [AssertLocked]"

definition isLockedByThisThread :: "int \<Rightarrow> locks \<Rightarrow> bool" where
  "isLockedByThisThread t s \<longleftrightarrow> holder s = CurrentThread_tid t (cachedTid s t)"

definition assignHolder :: "int \<Rightarrow> locks \<Rightarrow> locks" where
  "assignHolder t s = (let c = CurrentThread_tid t (cachedTid s t)
     in s\<lparr>holder := c, cachedTid := (cachedTid s)(t := c)\<rparr>)"

definition unassignHolder :: "locks \<Rightarrow> locks" where
  "unassignHolder s = s\<lparr>holder := 0\<rparr>"

text \<open>One action of thread \<open>t\<close>; \<open>None\<close> while it blocks.\<close>

fun lock_exec :: "int \<Rightarrow> lock_act \<Rightarrow> locks \<Rightarrow> locks result option" where
  "lock_exec t PthreadLock s = (if mutex_owner s = None then Some (Inr (s\<lparr>mutex_owner := Some t\<rparr>)) else None)"
| "lock_exec t PthreadUnlock s =
     Some (if mutex_owner s = Some t then Inr (s\<lparr>mutex_owner := None\<rparr>) else Inl (Undefined ''unlock of a mutex of another thread''))"
| "lock_exec t AssignHolder s = Some (Inr (assignHolder t s))"
| "lock_exec t UnassignHolder s = Some (Inr (unassignHolder s))"
| "lock_exec t CondBlock s =
     Some (if mutex_owner s = Some t then Inr (s\<lparr>mutex_owner := None, cond_waiters := insert t (cond_waiters s)\<rparr>)
           else Inl (Undefined ''wait without the mutex''))"
| "lock_exec t CondReturn s =
     (if t \<notin> cond_waiters s \<and> mutex_owner s = None then Some (Inr (s\<lparr>mutex_owner := Some t\<rparr>)) else None)"
| "lock_exec t AssertLocked s =
     Some (rbind (cassert (isLockedByThisThread t s) ''isLockedByThisThread()'') (\<lambda>_. Inr s))"

definition Condition_notify :: "int \<Rightarrow> locks \<Rightarrow> locks" where
  "Condition_notify t s = s\<lparr>cond_waiters := cond_waiters s - {t}\<rparr>"

definition Condition_notifyAll :: "locks \<Rightarrow> locks" where
  "Condition_notifyAll s = s\<lparr>cond_waiters := {}\<rparr>"

definition MutexLock_dtor :: "locks \<Rightarrow> locks result" where
  "MutexLock_dtor s = rbind (cassert (holder s = 0) ''holder_ == 0'') (\<lambda>_. Inr s)"

definition begin_call :: "int \<Rightarrow> bool \<Rightarrow> lock_act list \<Rightarrow> locks \<Rightarrow> locks" where
  "begin_call t g as s = s\<lparr>guarded := (guarded s)(t := g), todo := (todo s)(t := as)\<rparr>"

text \<open>
  \<open>notify\<close> wakes a waiting thread that the system chooses; a thread may also wake by a timeout or for no reason,
  which is the same step.
\<close>

inductive lock_step :: "locks \<Rightarrow> locks \<Rightarrow> bool" where
  enter: "t \<noteq> 0 \<Longrightarrow> todo s t = [] \<Longrightarrow> \<not> guarded s t \<Longrightarrow> lock_step s (begin_call t True MutexLock_lock s)"
| leave: "todo s t = [] \<Longrightarrow> guarded s t \<Longrightarrow> lock_step s (begin_call t False MutexLock_unlock s)"
| wait: "todo s t = [] \<Longrightarrow> guarded s t \<Longrightarrow> lock_step s (begin_call t True Condition_wait s)"
| check: "todo s t = [] \<Longrightarrow> guarded s t \<Longrightarrow> lock_step s (begin_call t True MutexLock_assertLocked s)"
| act: "todo s t = a # as \<Longrightarrow> lock_exec t a s = Some (Inr s') \<Longrightarrow> lock_step s (s'\<lparr>todo := (todo s')(t := as)\<rparr>)"
| notify: "t \<in> cond_waiters s \<or> cond_waiters s = {} \<Longrightarrow> lock_step s (Condition_notify t s)"
| notifyAll: "lock_step s (Condition_notifyAll s)"

text \<open>Where a thread is: whether it owns the mutex there, and whether it has written its id into \<open>holder_\<close>.\<close>

definition owns :: "bool \<Rightarrow> lock_act list \<Rightarrow> bool" where
  "owns g as \<longleftrightarrow> (g, as) \<in> {(True, [AssignHolder]), (True, []), (True, MutexLock_assertLocked), (True, Condition_wait),
     (True, tl Condition_wait), (False, MutexLock_unlock), (False, tl MutexLock_unlock)}"

definition marked :: "bool \<Rightarrow> lock_act list \<Rightarrow> bool" where
  "marked g as \<longleftrightarrow> (g, as) \<in> {(True, []), (True, MutexLock_assertLocked), (True, Condition_wait), (False, MutexLock_unlock)}"

definition thread_ok :: "locks \<Rightarrow> int \<Rightarrow> bool" where
  "thread_ok s t \<longleftrightarrow>
     (holder s = t \<longleftrightarrow> marked (guarded s t) (todo s t)) \<and> (mutex_owner s = Some t \<longleftrightarrow> owns (guarded s t) (todo s t)) \<and>
     cachedTid s t \<in> {0, t} \<and>
     (owns (guarded s t) (todo s t) \<or> (guarded s t, todo s t) \<in> {(False, []), (True, MutexLock_lock), (True, tl (tl Condition_wait))})"

definition lock_inv :: "locks \<Rightarrow> bool" where
  "lock_inv s \<longleftrightarrow> todo s 0 = [] \<and> \<not> guarded s 0 \<and> mutex_owner s \<noteq> Some 0 \<and> (\<forall>t. t \<noteq> 0 \<longrightarrow> thread_ok s t)"

lemmas lock_call_defs = MutexLock_lock_def MutexLock_unlock_def Condition_wait_def MutexLock_assertLocked_def
lemmas lock_place_defs = owns_def marked_def lock_call_defs

lemma marked_owns: "marked g as \<Longrightarrow> owns g as"
  by (auto simp: marked_def owns_def)

lemma lock_inv_init: "lock_inv MutexLock_ctor"
  by (simp add: lock_inv_def thread_ok_def MutexLock_ctor_def lock_place_defs)

lemma lock_inv_tid: "lock_inv s \<Longrightarrow> t \<noteq> 0 \<Longrightarrow> CurrentThread_tid t (cachedTid s t) = t"
  by (auto simp: lock_inv_def thread_ok_def CurrentThread_tid_def cacheTid_def)

lemma lock_inv_holder: "lock_inv s \<Longrightarrow> holder s \<noteq> 0 \<Longrightarrow> mutex_owner s = Some (holder s)"
  by (auto simp: lock_inv_def thread_ok_def dest: marked_owns)

text \<open>A step of one thread leaves the others where they are.\<close>

lemma lock_inv_frame:
  assumes "lock_inv s" "t \<noteq> 0" "thread_ok s' t"
    and others: "\<And>u. u \<noteq> t \<Longrightarrow> (guarded s' u, todo s' u, cachedTid s' u) = (guarded s u, todo s u, cachedTid s u)"
    and holders: "\<And>u. u \<noteq> t \<Longrightarrow> u \<noteq> 0 \<Longrightarrow> holder s' = u \<longleftrightarrow> holder s = u"
    and owner: "\<And>u. u \<noteq> t \<Longrightarrow> mutex_owner s' = Some u \<longleftrightarrow> mutex_owner s = Some u"
  shows "lock_inv s'"
proof -
  have "thread_ok s' u" if "u \<noteq> 0" for u
  proof (cases "u = t")
    case False
    then show ?thesis using assms(1) that others [OF False] holders [OF False that] owner [OF False] by (auto simp: lock_inv_def thread_ok_def)
  qed (use assms(3) in simp)
  moreover have "todo s' 0 = []" "\<not> guarded s' 0" "mutex_owner s' \<noteq> Some 0"
    using assms(1, 2) others [of 0] owner [of 0] by (simp_all add: lock_inv_def)
  ultimately show ?thesis by (simp add: lock_inv_def)
qed

lemma lock_inv_nonzero: "lock_inv s \<Longrightarrow> todo s t \<noteq> [] \<or> guarded s t \<Longrightarrow> t \<noteq> 0 \<and> thread_ok s t"
  by (cases "t = 0") (auto simp: lock_inv_def)

lemma lock_inv_call:
  assumes "lock_inv s" "todo s t = []"
  shows "t \<noteq> 0 \<Longrightarrow> \<not> guarded s t \<Longrightarrow> lock_inv (begin_call t True MutexLock_lock s)"
    and "guarded s t \<Longrightarrow> lock_inv (begin_call t False MutexLock_unlock s)"
    and "guarded s t \<Longrightarrow> lock_inv (begin_call t True Condition_wait s)"
    and "guarded s t \<Longrightarrow> lock_inv (begin_call t True MutexLock_assertLocked s)"
proof -
  have ok: "t \<noteq> 0 \<Longrightarrow> thread_ok s t" using assms(1) by (simp add: lock_inv_def)
  have g: "guarded s t \<Longrightarrow> t \<noteq> 0" using assms(1) by (auto simp: lock_inv_def)
  show "t \<noteq> 0 \<Longrightarrow> \<not> guarded s t \<Longrightarrow> lock_inv (begin_call t True MutexLock_lock s)"
    using ok assms(2) by (intro lock_inv_frame [OF assms(1), of t]) (simp_all add: begin_call_def thread_ok_def lock_place_defs)
  show "guarded s t \<Longrightarrow> lock_inv (begin_call t False MutexLock_unlock s)"
    using ok g assms(2) by (intro lock_inv_frame [OF assms(1), of t]) (simp_all add: begin_call_def thread_ok_def lock_place_defs)
  show "guarded s t \<Longrightarrow> lock_inv (begin_call t True Condition_wait s)"
    using ok g assms(2) by (intro lock_inv_frame [OF assms(1), of t]) (simp_all add: begin_call_def thread_ok_def lock_place_defs)
  show "guarded s t \<Longrightarrow> lock_inv (begin_call t True MutexLock_assertLocked s)"
    using ok g assms(2) by (intro lock_inv_frame [OF assms(1), of t]) (simp_all add: begin_call_def thread_ok_def lock_place_defs)
qed

lemma thread_ok_place:
  assumes "thread_ok s t" "todo s t = a # as"
  shows "(guarded s t, a, as) \<in> {(True, PthreadLock, [AssignHolder]), (True, AssignHolder, []), (True, AssertLocked, []),
     (True, UnassignHolder, [CondBlock, CondReturn, AssignHolder]), (True, CondBlock, [CondReturn, AssignHolder]),
     (True, CondReturn, [AssignHolder]), (False, UnassignHolder, [PthreadUnlock]), (False, PthreadUnlock, [])}"
  using assms unfolding thread_ok_def lock_place_defs by auto

lemma lock_exec_frame:
  assumes "lock_exec t a s = Some (Inr s')"
  shows "guarded s' = guarded s" "todo s' = todo s" "u \<noteq> t \<Longrightarrow> cachedTid s' u = cachedTid s u"
    "u \<noteq> t \<Longrightarrow> mutex_owner s' = Some u \<longleftrightarrow> mutex_owner s = Some u"
  using assms by (cases a; auto simp: assignHolder_def unassignHolder_def Let_def cassert_def rbind_eq_Inr_iff split: if_splits)+

lemma lock_exec_holder:
  assumes "lock_exec t a s = Some (Inr s')"
  shows "holder s' = (if a = AssignHolder then CurrentThread_tid t (cachedTid s t) else if a = UnassignHolder then 0 else holder s)"
  using assms by (cases a; auto simp: assignHolder_def unassignHolder_def Let_def cassert_def rbind_eq_Inr_iff split: if_splits)

lemma lock_inv_act:
  assumes "lock_inv s" "todo s t = a # as" "lock_exec t a s = Some (Inr s')"
  shows "lock_inv (s'\<lparr>todo := (todo s')(t := as)\<rparr>)"
proof -
  have t: "t \<noteq> 0" "thread_ok s t" using lock_inv_nonzero [OF assms(1), of t] assms(2) by auto
  note tid = lock_inv_tid [OF assms(1) t(1)]
  have place: "a = AssignHolder \<or> a = UnassignHolder \<Longrightarrow> mutex_owner s = Some t" "a = UnassignHolder \<Longrightarrow> holder s = t"
    using thread_ok_place [OF t(2) assms(2)] t(2) assms(2) by (auto simp: thread_ok_def lock_place_defs)
  have "thread_ok (s'\<lparr>todo := (todo s')(t := as)\<rparr>) t"
    using thread_ok_place [OF t(2) assms(2)] assms(2, 3) t unfolding insert_iff
    by (elim disjE) (auto simp: thread_ok_def assignHolder_def unassignHolder_def Let_def lock_place_defs cassert_def tid split: if_splits)
  moreover have "holder s' = u \<longleftrightarrow> holder s = u" if "u \<noteq> t" "u \<noteq> 0" for u
    using that t(1) tid place lock_inv_holder [OF assms(1)] unfolding lock_exec_holder [OF assms(3)] by auto
  ultimately show ?thesis
    by (intro lock_inv_frame [OF assms(1) t(1)]) (simp_all add: lock_exec_frame [OF assms(3)])
qed

lemma lock_inv_waiters: "lock_inv (s\<lparr>cond_waiters := W\<rparr>) \<longleftrightarrow> lock_inv s"
  by (simp add: lock_inv_def thread_ok_def)

interpretation lock_run: inductive_invariant "(=) MutexLock_ctor" lock_step lock_inv
proof
  fix s s'
  assume "lock_inv s" "lock_step s s'"
  from this(2, 1) show "lock_inv s'"
    by cases (simp_all add: lock_inv_call lock_inv_act Condition_notify_def Condition_notifyAll_def lock_inv_waiters)
qed (simp add: lock_inv_init)

text \<open>Between a thread's calls, and in its assertions, inside the scope of its guard.\<close>

definition inside :: "locks \<Rightarrow> int \<Rightarrow> bool" where
  "inside s t \<longleftrightarrow> guarded s t \<and> todo s t \<in> {[], MutexLock_assertLocked}"

lemma lock_exec_fine:
  assumes "lock_inv s" "todo s t = a # as"
  shows "lock_exec t a s \<noteq> Some (Inl e)"
proof -
  have t: "t \<noteq> 0" "thread_ok s t" using lock_inv_nonzero [OF assms(1), of t] assms(2) by auto
  then show ?thesis
    using thread_ok_place [OF t(2) assms(2)] lock_inv_tid [OF assms(1) t(1)] assms(2) unfolding insert_iff
    by (elim disjE) (auto simp: thread_ok_def lock_place_defs isLockedByThisThread_def)
qed

text \<open>
  C37. The lock and its record of the holder. However the actions of any number of threads interleave, waits,
  notifications and spurious wakeups included: no action fails, so \<open>assertLocked\<close> inside a guard always passes and no
  thread unlocks or waits on a mutex it does not own; at most one thread is inside its guard; whoever is inside finds
  \<open>isLockedByThisThread\<close> true, and whoever has no guard finds it false, although \<open>holder_\<close> is read without the lock;
  and when no thread is using the lock, its destructor passes.
\<close>

theorem lock_holder_is_right:
  assumes "reaches ((=) MutexLock_ctor) lock_step s" "t \<noteq> 0"
  shows "(\<forall>a as e. todo s t = a # as \<longrightarrow> lock_exec t a s \<noteq> Some (Inl e)) \<and>
         (inside s t \<longrightarrow> isLockedByThisThread t s \<and> (\<forall>u. u \<noteq> 0 \<longrightarrow> inside s u \<longrightarrow> u = t)) \<and>
         (\<not> guarded s t \<and> todo s t = [] \<longrightarrow> \<not> isLockedByThisThread t s) \<and>
         ((\<forall>u. \<not> guarded s u \<and> todo s u = []) \<longrightarrow> MutexLock_dtor s = Inr s)"
proof -
  have inv: "lock_inv s" using assms(1) by (rule lock_run.inv_reaches)
  have ok: "thread_ok s u" if "u \<noteq> 0" for u using inv that by (simp add: lock_inv_def)
  have own: "mutex_owner s = Some u" "holder s = u" if "inside s u" "u \<noteq> 0" for u
    using ok [OF that(2)] that(1) by (auto simp: inside_def thread_ok_def lock_place_defs)
  have dtor: "MutexLock_dtor s = Inr s" if "\<forall>u. \<not> guarded s u \<and> todo s u = []"
  proof (cases "holder s = 0")
    case False
    then show ?thesis using ok [OF False] that by (auto simp: thread_ok_def lock_place_defs)
  qed (simp add: MutexLock_dtor_def cassert_def)
  have out: "\<not> isLockedByThisThread t s" if "\<not> guarded s t" "todo s t = []"
    using ok [OF assms(2)] that lock_inv_tid [OF inv assms(2)] by (auto simp: thread_ok_def lock_place_defs isLockedByThisThread_def)
  have ins: "isLockedByThisThread t s \<and> (\<forall>u. u \<noteq> 0 \<longrightarrow> inside s u \<longrightarrow> u = t)" if "inside s t"
    using own [OF that assms(2)] own(1) lock_inv_tid [OF inv assms(2)] by (auto simp: isLockedByThisThread_def)
  show ?thesis using lock_exec_fine [OF inv, of t] dtor out ins by blast
qed

definition lock_taken :: locks where
  "lock_taken = (assignHolder 7 ((begin_call 7 True MutexLock_lock MutexLock_ctor)\<lparr>mutex_owner := Some 7\<rparr>))\<lparr>todo := \<lambda>_. []\<rparr>"

lemma lock_taken_reached: "reaches ((=) MutexLock_ctor) lock_step lock_taken"
proof -
  let ?s1 = "begin_call 7 True MutexLock_lock MutexLock_ctor"
  let ?s2 = "?s1\<lparr>mutex_owner := Some 7, todo := (todo ?s1)(7 := [AssignHolder])\<rparr>"
  have "reaches ((=) MutexLock_ctor) lock_step MutexLock_ctor" by (rule reaches_init) simp
  then have "reaches ((=) MutexLock_ctor) lock_step ?s1"
    by (rule reaches_step) (rule lock_step.enter, simp_all add: MutexLock_ctor_def)
  then have "reaches ((=) MutexLock_ctor) lock_step ?s2"
    by (rule reaches_step) (use lock_step.act [of ?s1 7 PthreadLock "[AssignHolder]" "?s1\<lparr>mutex_owner := Some 7\<rparr>"] in
      \<open>simp add: begin_call_def MutexLock_lock_def MutexLock_ctor_def\<close>)
  then show ?thesis
    by (rule reaches_step) (use lock_step.act [of ?s2 7 AssignHolder "[]" "assignHolder 7 ?s2"] in
      \<open>simp add: begin_call_def MutexLock_lock_def MutexLock_ctor_def lock_taken_def assignHolder_def Let_def fun_upd_def if_distrib cong: if_cong\<close>)
qed

theorem lock_holder_is_right_witness:
  "inside lock_taken 7 \<and> isLockedByThisThread 7 lock_taken \<and> \<not> isLockedByThisThread 8 lock_taken"
proof -
  have "inside lock_taken 7" "\<not> guarded lock_taken 8 \<and> todo lock_taken 8 = []"
    by (simp_all add: inside_def lock_taken_def assignHolder_def begin_call_def MutexLock_ctor_def Let_def)
  then show ?thesis
    using lock_holder_is_right [OF lock_taken_reached, of 7] lock_holder_is_right [OF lock_taken_reached, of 8] by simp
qed

section \<open>Waiting with a deadline\<close>

text \<open>
  The deadline of \<open>waitForSeconds\<close> in seconds and nanoseconds; \<open>seconds\<close>, a \<open>double\<close> in the source, is a rational. Division of
  \<open>int64_t\<close> truncates, and a value outside its range is undefined. \<open>pthread_cond_timedwait\<close> refuses a deadline whose
  nanoseconds are not between 0 and \<open>999999999\<close> and returns at once with \<open>EINVAL\<close>; otherwise \<open>r\<close> is what it returns.
\<close>

definition fits_int64 :: "int \<Rightarrow> bool" where
  "fits_int64 x \<longleftrightarrow> - (2 ^ 63) \<le> x \<and> x < 2 ^ 63"

datatype timedwait_result = Woken | ETIMEDOUT | EINVAL

definition kNanoSecondsPerSecond :: int where "kNanoSecondsPerSecond = 1000000000"

definition wait_deadline :: "int \<times> int \<Rightarrow> rat \<Rightarrow> (int \<times> int) result" where
  "wait_deadline now seconds =
     (let nanoseconds = trunc_rat (seconds * of_int kNanoSecondsPerSecond);
          total = snd now + nanoseconds;
          tv_sec = fst now + total sdiv kNanoSecondsPerSecond
      in if fits_int64 nanoseconds \<and> fits_int64 total \<and> fits_int64 tv_sec
         then Inr (tv_sec, total smod kNanoSecondsPerSecond)
         else Inl (Undefined ''overflow of int64_t''))"

definition Condition_waitForSeconds :: "int \<times> int \<Rightarrow> rat \<Rightarrow> timedwait_result \<Rightarrow> bool result" where
  "Condition_waitForSeconds now seconds r =
     rbind (wait_deadline now seconds) (\<lambda>(_, tv_nsec).
     Inr ((if 0 \<le> tv_nsec \<and> tv_nsec < kNanoSecondsPerSecond then r else EINVAL) = ETIMEDOUT))"

text \<open>The pause of \<open>sleepUsec\<close>.\<close>

definition CurrentThread_sleepUsec :: "int \<Rightarrow> int \<times> int" where
  "CurrentThread_sleepUsec usec = (usec sdiv kMicroSecondsPerSecond, (usec smod kMicroSecondsPerSecond) * 1000)"

lemma sdiv_nonneg: "0 \<le> a \<Longrightarrow> 0 < b \<Longrightarrow> a sdiv b = a div b" "0 \<le> a \<Longrightarrow> 0 < b \<Longrightarrow> a smod b = a mod b" for a b :: int
  by (simp_all add: signed_divide_int_def signed_modulo_int_def sgn_if minus_mult_div_eq_mod)

lemma smod_negative: "a < 0 \<Longrightarrow> 0 < b \<Longrightarrow> \<not> b dvd a \<Longrightarrow> a smod b < 0" for a b :: int
proof -
  assume a: "a < 0" "0 < b" "\<not> b dvd a"
  then have "a smod b = - ((- a) mod b)" using sdiv_nonneg(2) [of "- a" b] by simp
  moreover have "(- a) mod b \<noteq> 0" using a(3) by (simp add: mod_eq_0_iff_dvd)
  moreover have "0 \<le> (- a) mod b" using a(2) by simp
  ultimately show ?thesis by linarith
qed



lemma sleepUsec_exact:
  assumes "0 \<le> usec"
  shows "case CurrentThread_sleepUsec usec of (s, n) \<Rightarrow> 0 \<le> n \<and> n < 1000000000 \<and> s * 1000000000 + n = usec * 1000"
proof -
  have "usec div 1000000 * 1000000000 + usec mod 1000000 * 1000 = usec * 1000"
    using arg_cong [OF div_mult_mod_eq [of usec 1000000], of "\<lambda>x. x * 1000"] by (simp only: distrib_right mult.assoc)
  then show ?thesis using sdiv_nonneg [OF assms, of 1000000] by (simp add: CurrentThread_sleepUsec_def kMicroSecondsPerSecond_def)
qed

end
