(* ===== verification/AsyncLog.thy ===== *)
theory AsyncLog
  imports Prelude
begin

text \<open>
  The background logger of the Windows copy of muduo (\<open>third/muduo-win/src/base/async_logging.cc\<close>, \<open>log_file.cc\<close>, the \<open>AppendFile\<close> of \<open>file_util.cc\<close>
  and the \<open>FixedBuffer\<close> of \<open>log_stream.h\<close>). Buffers are objects behind shared pointers, so they live in a store and the fields hold
  addresses: two fields may hold the same one. Logging threads call \<open>append\<close> in a critical section; the
  writer's loop takes the full buffers in another, writes them without the lock, and keeps two for later. A
  step is one critical section, one buffer written, or the end of a round. A logging thread that writes to a buffer
  the writer still has to read is a data race. The clock and the results of \<open>fwrite\<close> are arguments.
\<close>

section \<open>Files\<close>

record append_file =
  file_data :: bytes
  writtenBytes :: nat

definition AppendFile_ctor :: append_file where
  "AppendFile_ctor = \<lparr>file_data = [], writtenBytes = 0\<rparr>"

text \<open>\<open>fwrite\<close> takes \<open>w\<close> bytes of what it is given; the loop stops when it takes none.\<close>

fun append_retry :: "nat list \<Rightarrow> bytes \<Rightarrow> bytes" where
  "append_retry (w # ws) rest =
     (if rest = [] then [] else if w = 0 then [] else take w rest @ append_retry ws (drop w rest))"
| "append_retry [] rest = []"

definition AppendFile_append :: "nat list \<Rightarrow> bytes \<Rightarrow> append_file \<Rightarrow> append_file" where
  "AppendFile_append ws logline f = (case ws of
       [] \<Rightarrow> f\<lparr>writtenBytes := writtenBytes f + length logline\<rparr>
     | w # ws' \<Rightarrow> f\<lparr>file_data := file_data f @ take w logline @ append_retry ws' (drop w logline),
                   writtenBytes := writtenBytes f + length logline\<rparr>)"

text \<open>The files of a log, the open one first.\<close>

record log_file =
  rollSize :: nat
  flushInterval :: int
  checkEveryN :: int
  lf_count :: int
  startOfPeriod :: int
  lastRoll :: int
  lashFlush :: int
  lf_files :: "append_file list"

definition kRollPerSeconds :: int where "kRollPerSeconds = 60 * 60 * 24"

definition rollFile :: "int \<Rightarrow> log_file \<Rightarrow> bool \<times> log_file" where
  "rollFile now l =
     (let start = now div kRollPerSeconds * kRollPerSeconds
      in if lashFlush l < now
         then (True, l\<lparr>lastRoll := now, lashFlush := now, startOfPeriod := start, lf_files := AppendFile_ctor # lf_files l\<rparr>)
         else (False, l))"

definition LogFile_ctor :: "nat \<Rightarrow> int \<Rightarrow> int \<Rightarrow> int \<Rightarrow> log_file" where
  "LogFile_ctor roll flushi everyN now =
     snd (rollFile now \<lparr>rollSize = roll, flushInterval = flushi, checkEveryN = everyN, lf_count = 0, startOfPeriod = 0, lastRoll = 0,
       lashFlush = 0, lf_files = []\<rparr>)"

text \<open>\<open>now\<close> is the clock in \<open>_append_unlock\<close>, \<open>now'\<close> the one in \<open>rollFile\<close>.\<close>

definition LogFile_append :: "nat list \<Rightarrow> int \<Rightarrow> int \<Rightarrow> bytes \<Rightarrow> log_file \<Rightarrow> log_file result" where
  "LogFile_append ws now now' logline l =
     (case lf_files l of
        [] \<Rightarrow> Inl (Undefined ''file_ is null'')
      | f # fs \<Rightarrow>
          let f1 = AppendFile_append ws logline f;
              l1 = l\<lparr>lf_files := f1 # fs\<rparr>
          in Inr (if writtenBytes f1 > rollSize l then snd (rollFile now' l1)
                  else if lf_count l1 + 1 \<ge> checkEveryN l
                  then let l2 = l1\<lparr>lf_count := 0\<rparr>;
                           thisPeriod = now div kRollPerSeconds * kRollPerSeconds
                       in if thisPeriod \<noteq> startOfPeriod l2 then snd (rollFile now' l2)
                          else if flushInterval l2 < now - lashFlush l2 then l2\<lparr>lashFlush := now\<rparr>
                          else l2
                  else l1\<lparr>lf_count := lf_count l1 + 1\<rparr>))"

section \<open>Buffers\<close>

definition LogBuffer_avail :: "nat \<Rightarrow> bytes \<Rightarrow> nat" where
  "LogBuffer_avail sz b = sz - length b"

definition LogBuffer_append :: "nat \<Rightarrow> bytes \<Rightarrow> bytes \<Rightarrow> bytes" where
  "LogBuffer_append sz buf b = (if LogBuffer_avail sz b > length buf then b @ buf else b)"

definition kLargeBuffer :: nat where "kLargeBuffer = 4000 * 1000"

section \<open>The logger\<close>

type_synonym addr = nat

datatype writer_at = LoopTop | WritingOut | LeftLoop

record async_log =
  store :: "addr \<Rightarrow> bytes"
  fresh :: addr
  currentBuffer :: addr
  nextBuffer :: "addr option"
  full_buffers :: "addr list"
  al_running :: bool
  newBuffer1 :: "addr option"
  newBuffer2 :: "addr option"
  bufferToWrite :: "addr list"
  unwritten :: "addr list"
  writer :: writer_at
  al_output :: "bytes list"

text \<open>The constructor, \<open>start\<close>, and the thread up to its loop, which makes two more buffers.\<close>

definition AsyncLogging_start :: async_log where
  "AsyncLogging_start = \<lparr>store = (\<lambda>_. []), fresh = 4, currentBuffer = 0, nextBuffer = Some 1, full_buffers = [], al_running = True,
     newBuffer1 = Some 2, newBuffer2 = Some 3, bufferToWrite = [], unwritten = [], writer = LoopTop, al_output = []\<rparr>"

definition buffer_write :: "addr \<Rightarrow> bytes \<Rightarrow> async_log \<Rightarrow> async_log result" where
  "buffer_write b logline s =
     (if b \<in> set (unwritten s) then Inl (Undefined ''data race on a buffer'')
      else Inr (s\<lparr>store := (store s)(b := LogBuffer_append kLargeBuffer logline (store s b))\<rparr>))"

definition AsyncLogging_append :: "bytes \<Rightarrow> async_log \<Rightarrow> async_log result" where
  "AsyncLogging_append logline s =
     (if LogBuffer_avail kLargeBuffer (store s (currentBuffer s)) > length logline
      then buffer_write (currentBuffer s) logline s
      else let s1 = s\<lparr>full_buffers := full_buffers s @ [currentBuffer s]\<rparr>;
               s2 = (case nextBuffer s1 of
                       Some b \<Rightarrow> s1\<lparr>currentBuffer := b\<rparr>
                     | None \<Rightarrow> s1\<lparr>currentBuffer := fresh s1, store := (store s1)(fresh s1 := []), fresh := fresh s1 + 1\<rparr>)
           in buffer_write (currentBuffer s2) logline s2)"

text \<open>The critical section of the writer, with the assertions before and after it and the dropping of too many buffers.\<close>

definition writer_take :: "bytes \<Rightarrow> async_log \<Rightarrow> async_log result" where
  "writer_take notice s =
     (case (newBuffer1 s, newBuffer2 s) of
        (Some n1, Some n2) \<Rightarrow>
          rbind (cassert (store s n1 = []) ''newBuffer1 && newBuffer1->length() == 0'') (\<lambda>_.
          rbind (cassert (store s n2 = []) ''newBuffer2 && newBuffer2->length() == 0'') (\<lambda>_.
          rbind (cassert (bufferToWrite s = []) ''bufferToWrite.empty()'') (\<lambda>_.
            let bs = full_buffers s @ [currentBuffer s];
                s1 = s\<lparr>currentBuffer := n1, newBuffer1 := None, full_buffers := []\<rparr>;
                s2 = (if nextBuffer s1 = None then s1\<lparr>nextBuffer := Some n2, newBuffer2 := None\<rparr> else s1)
            in Inr (if length bs > 25
                    then s2\<lparr>bufferToWrite := take 2 bs, unwritten := take 2 bs, writer := WritingOut, al_output := al_output s2 @ [notice]\<rparr>
                    else s2\<lparr>bufferToWrite := bs, unwritten := bs, writer := WritingOut\<rparr>))))
      | _ \<Rightarrow> Inl (AssertFail ''newBuffer1 && newBuffer2''))"

definition writer_out :: "async_log \<Rightarrow> async_log" where
  "writer_out s = (case unwritten s of
       [] \<Rightarrow> s
     | b # bs \<Rightarrow> s\<lparr>al_output := al_output s @ [store s b], unwritten := bs\<rparr>)"

text \<open>The end of a round: two of the written buffers are kept, emptied.\<close>

definition writer_recycle :: "async_log \<Rightarrow> async_log result" where
  "writer_recycle s =
     (let s0 = s\<lparr>bufferToWrite := take 2 (bufferToWrite s)\<rparr>
      in rbind (case newBuffer1 s0 of
                  Some _ \<Rightarrow> Inr s0
                | None \<Rightarrow> rbind (cassert (bufferToWrite s0 \<noteq> []) ''!bufferToWrite.empty()'') (\<lambda>_.
                    let b = last (bufferToWrite s0)
                    in Inr (s0\<lparr>newBuffer1 := Some b, bufferToWrite := butlast (bufferToWrite s0), store := (store s0)(b := [])\<rparr>))) (\<lambda>s1.
         rbind (case newBuffer2 s1 of
                  Some _ \<Rightarrow> Inr s1
                | None \<Rightarrow> rbind (cassert (bufferToWrite s1 \<noteq> []) ''!bufferToWrite.empty()'') (\<lambda>_.
                    let b = last (bufferToWrite s1)
                    in Inr (s1\<lparr>newBuffer2 := Some b, bufferToWrite := butlast (bufferToWrite s1), store := (store s1)(b := [])\<rparr>))) (\<lambda>s2.
         Inr (s2\<lparr>bufferToWrite := [], writer := (if al_running s2 then LoopTop else LeftLoop)\<rparr>))))"

definition AsyncLogging_stop :: "async_log \<Rightarrow> async_log" where
  "AsyncLogging_stop s = s\<lparr>al_running := False\<rparr>"

section \<open>Files keep what is written\<close>

definition log_text :: "log_file \<Rightarrow> bytes" where
  "log_text l = concat (map file_data (rev (lf_files l)))"

lemma rollFile_text [simp]: "log_text (snd (rollFile now l)) = log_text l"
  by (simp add: rollFile_def log_text_def Let_def AppendFile_ctor_def)

lemma rollFile_files [simp]: "lf_files (snd (rollFile now l)) = [] \<longleftrightarrow> lf_files l = [] \<and> now \<le> lashFlush l"
  by (auto simp: rollFile_def Let_def)

text \<open>A first \<open>fwrite\<close> that takes the whole line is enough; the line goes to the file that is open, before a new one is opened.\<close>

lemma LogFile_append_text:
  assumes "lf_files l \<noteq> []" "length logline \<le> w"
  shows "\<exists>l'. LogFile_append (w # ws) now now' logline l = Inr l' \<and> log_text l' = log_text l @ logline \<and> lf_files l' \<noteq> []"
proof -
  obtain f fs where f: "lf_files l = f # fs" using assms(1) by (cases "lf_files l") auto
  define l1 where "l1 = l\<lparr>lf_files := AppendFile_append (w # ws) logline f # fs\<rparr>"
  have none: "append_retry ws [] = []" by (cases ws) simp_all
  have kept: "log_text (l1\<lparr>lf_count := c\<rparr>) = log_text l @ logline" "log_text (l1\<lparr>lf_count := c, lashFlush := d\<rparr>) = log_text l @ logline"
    "log_text l1 = log_text l @ logline" for c d
    using assms(2) none by (simp_all add: l1_def log_text_def f AppendFile_append_def)
  have "lf_files l1 \<noteq> []" by (simp add: l1_def)
  then show ?thesis
    using kept unfolding LogFile_append_def f list.case Let_def l1_def [symmetric] by auto
qed

section \<open>A log that keeps up\<close>

text \<open>Steps while every line fits into the current buffer; \<open>ls\<close> are the lines so far.\<close>

inductive log_keeps_up :: "async_log \<times> bytes list \<Rightarrow> async_log \<times> bytes list \<Rightarrow> bool" where
  log: "length l < LogBuffer_avail kLargeBuffer (store s (currentBuffer s)) \<Longrightarrow> AsyncLogging_append l s = Inr s' \<Longrightarrow>
        log_keeps_up (s, ls) (s', ls @ [l])"
| take: "writer s = LoopTop \<Longrightarrow> writer_take notice s = Inr s' \<Longrightarrow> log_keeps_up (s, ls) (s', ls)"
| out: "writer s = WritingOut \<Longrightarrow> unwritten s \<noteq> [] \<Longrightarrow> log_keeps_up (s, ls) (writer_out s, ls)"
| recycle: "writer s = WritingOut \<Longrightarrow> unwritten s = [] \<Longrightarrow> writer_recycle s = Inr s' \<Longrightarrow> log_keeps_up (s, ls) (s', ls)"
| stop: "log_keeps_up (s, ls) (AsyncLogging_stop s, ls)"

definition swap_inv :: "async_log \<Rightarrow> bool" where
  "swap_inv s \<longleftrightarrow> nextBuffer s = Some 1 \<and> newBuffer2 s = Some 3 \<and> store s 3 = [] \<and> full_buffers s = [] \<and>
     (\<exists>spare. {currentBuffer s, spare} = {0, 2} \<and>
       (if writer s = WritingOut then newBuffer1 s = None \<and> bufferToWrite s = [spare] \<and> unwritten s \<in> {[spare], []}
        else newBuffer1 s = Some spare \<and> store s spare = [] \<and> bufferToWrite s = [] \<and> unwritten s = []))"

definition async_inv :: "async_log \<times> bytes list \<Rightarrow> bool" where
  "async_inv = (\<lambda>(s, ls). swap_inv s \<and> concat (al_output s) @ concat (map (store s) (unwritten s)) @ store s (currentBuffer s) = concat ls)"

lemma pair_02: "{a, b} = {0, 2} \<longleftrightarrow> a = 0 \<and> b = 2 \<or> a = 2 \<and> b = (0::nat)"
  by (auto simp: doubleton_eq_iff)

lemma swap_inv_cases:
  assumes "swap_inv s"
  obtains spare where "nextBuffer s = Some 1" "newBuffer2 s = Some 3" "store s 3 = []" "full_buffers s = []"
    "currentBuffer s = 0 \<and> spare = 2 \<or> currentBuffer s = 2 \<and> spare = 0"
    "if writer s = WritingOut then newBuffer1 s = None \<and> bufferToWrite s = [spare] \<and> unwritten s \<in> {[spare], []}
     else newBuffer1 s = Some spare \<and> store s spare = [] \<and> bufferToWrite s = [] \<and> unwritten s = []"
  using assms unfolding swap_inv_def pair_02 by blast

lemma logline_fits:
  assumes "swap_inv s" "length l < LogBuffer_avail kLargeBuffer (store s (currentBuffer s))"
  shows "AsyncLogging_append l s = Inr (s\<lparr>store := (store s)(currentBuffer s := store s (currentBuffer s) @ l)\<rparr>)"
  by (rule swap_inv_cases [OF assms(1)])
    (use assms(2) in \<open>auto simp: AsyncLogging_append_def buffer_write_def LogBuffer_append_def split: if_splits\<close>)

lemma take_fine:
  assumes "swap_inv s" "writer s = LoopTop"
  shows "\<exists>spare. newBuffer1 s = Some spare \<and> writer_take notice s = Inr (s\<lparr>currentBuffer := spare, newBuffer1 := None,
      full_buffers := [], bufferToWrite := [currentBuffer s], unwritten := [currentBuffer s], writer := WritingOut\<rparr>)"
  by (rule swap_inv_cases [OF assms(1)]) (use assms(2) in \<open>auto simp: writer_take_def cassert_def Let_def\<close>)

lemma recycle_fine:
  assumes "swap_inv s" "writer s = WritingOut" "unwritten s = []"
  shows "\<exists>spare. bufferToWrite s = [spare] \<and> writer_recycle s = Inr (s\<lparr>newBuffer1 := Some spare, store := (store s)(spare := []),
      bufferToWrite := [], writer := (if al_running s then LoopTop else LeftLoop)\<rparr>)"
  by (rule swap_inv_cases [OF assms(1)]) (use assms(2, 3) in \<open>auto simp: writer_recycle_def cassert_def\<close>)

lemma swap_inv_stop: "swap_inv (s\<lparr>al_running := r\<rparr>) = swap_inv s"
  by (simp add: swap_inv_def)

interpretation async_run: inductive_invariant "(=) (AsyncLogging_start, [])" log_keeps_up async_inv
proof
  fix x :: "async_log \<times> bytes list"
  assume "(AsyncLogging_start, []) = x"
  then show "async_inv x" by (auto simp: async_inv_def swap_inv_def AsyncLogging_start_def)
next
  fix x y
  assume "async_inv x" "log_keeps_up x y"
  from this(2, 1) show "async_inv y"
  proof cases
    case (log l s s' ls)
    then have inv: "swap_inv s" using \<open>async_inv x\<close> by (simp add: async_inv_def)
    show ?thesis
      by (rule swap_inv_cases [OF inv]) (use log \<open>async_inv x\<close> logline_fits [OF inv log(3)] in
        \<open>auto simp: async_inv_def swap_inv_def split: if_splits\<close>)
  next
    case (take s notice s' ls)
    then have inv: "swap_inv s" using \<open>async_inv x\<close> by (simp add: async_inv_def)
    show ?thesis
      by (rule swap_inv_cases [OF inv]) (use take \<open>async_inv x\<close> take_fine [OF inv take(3), of notice] in
        \<open>auto simp: async_inv_def swap_inv_def\<close>)
  next
    case (out s ls)
    then have inv: "swap_inv s" using \<open>async_inv x\<close> by (simp add: async_inv_def)
    show ?thesis
      by (rule swap_inv_cases [OF inv]) (use out \<open>async_inv x\<close> in \<open>auto simp: async_inv_def swap_inv_def writer_out_def\<close>)
  next
    case (recycle s s' ls)
    then have inv: "swap_inv s" using \<open>async_inv x\<close> by (simp add: async_inv_def)
    show ?thesis
      by (rule swap_inv_cases [OF inv]) (use recycle \<open>async_inv x\<close> recycle_fine [OF inv recycle(3, 4)] in
        \<open>auto simp: async_inv_def swap_inv_def\<close>)
  next
    case (stop s ls)
    then show ?thesis using \<open>async_inv x\<close> by (simp add: async_inv_def swap_inv_stop AsyncLogging_stop_def)
  qed
qed

text \<open>Two lines in a row that do not fit.\<close>

definition overflow_run :: "bytes \<Rightarrow> bytes \<Rightarrow> bytes \<Rightarrow> bytes \<Rightarrow> async_log result" where
  "overflow_run a b c notice =
     rbind (AsyncLogging_append a AsyncLogging_start) (\<lambda>s1.
     rbind (AsyncLogging_append b s1) (\<lambda>s2.
     rbind (AsyncLogging_append c s2) (\<lambda>s3.
     rbind (writer_take notice s3) (\<lambda>s4. Inr (writer_out (writer_out (writer_out s4)))))))"

lemma overflow_loses:
  assumes fit: "length a < kLargeBuffer" "length b < kLargeBuffer"
    and full: "kLargeBuffer \<le> length a + length b" "kLargeBuffer \<le> length b + length c"
  shows "\<exists>s. overflow_run a b c notice = Inr s \<and> al_output s = [a, b, b] \<and> unwritten s = [] \<and> store s (currentBuffer s) = []"
proof -
  define s1 where "s1 = AsyncLogging_start\<lparr>store := (\<lambda>_. [])(0 := a)\<rparr>"
  define s2 where "s2 = s1\<lparr>full_buffers := [0], currentBuffer := 1, store := ((\<lambda>_. [])(0 := a))(1 := b)\<rparr>"
  have "AsyncLogging_append a AsyncLogging_start = Inr s1"
    using fit by (simp add: AsyncLogging_append_def buffer_write_def LogBuffer_append_def LogBuffer_avail_def AsyncLogging_start_def s1_def)
  moreover have "AsyncLogging_append b s1 = Inr s2"
    using fit full by (simp add: AsyncLogging_append_def buffer_write_def LogBuffer_append_def LogBuffer_avail_def AsyncLogging_start_def
        s1_def s2_def Let_def)
  moreover have "AsyncLogging_append c s2 = Inr (s2\<lparr>full_buffers := [0, 1]\<rparr>)"
    using full by (simp add: AsyncLogging_append_def buffer_write_def LogBuffer_append_def LogBuffer_avail_def AsyncLogging_start_def
        s1_def s2_def Let_def)
  ultimately show ?thesis
    by (simp add: overflow_run_def s1_def s2_def AsyncLogging_start_def writer_take_def cassert_def writer_out_def Let_def)
qed

section \<open>Properties\<close>

text \<open>
  C39. What becomes of the lines. While every line finds room in the current buffer, the logger keeps up: in every state
  that its steps reach, the bytes in the files followed by those the writer has still to write and those in the current
  buffer are the lines, in order and once each, the assertions of the writer hold, and no buffer is written while the
  writer reads it. But \<open>append\<close> copies \<open>nextBuffer_\<close> where it should take it. If a line does not fit after one that did
  not fit either, the current buffer is the full one itself: the line is thrown away, and the buffer is put into the
  queue twice and written twice.
\<close>

theorem async_log_lines:
  assumes "reaches ((=) (AsyncLogging_start, [])) log_keeps_up (s, ls)"
    and "length a < kLargeBuffer" "length b < kLargeBuffer" "kLargeBuffer \<le> length a + length b" "kLargeBuffer \<le> length b + length c"
  shows "concat (al_output s) @ concat (map (store s) (unwritten s)) @ store s (currentBuffer s) = concat ls
       \<and> currentBuffer s \<notin> set (unwritten s)
       \<and> (writer s = LoopTop \<longrightarrow> (\<exists>s'. writer_take notice s = Inr s'))
       \<and> (writer s = WritingOut \<and> unwritten s = [] \<longrightarrow> (\<exists>s'. writer_recycle s = Inr s'))
       \<and> (\<exists>s'. overflow_run a b c notice = Inr s' \<and> al_output s' = [a, b, b] \<and> unwritten s' = [] \<and> store s' (currentBuffer s') = [])"
proof -
  have inv: "async_inv (s, ls)" using assms(1) by (rule async_run.inv_reaches)
  then have sw: "swap_inv s" by (simp add: async_inv_def)
  have "currentBuffer s \<notin> set (unwritten s)" by (rule swap_inv_cases [OF sw]) (auto split: if_splits)
  then show ?thesis
    using inv take_fine [OF sw, of notice] recycle_fine [OF sw] overflow_loses [OF assms(2-5), of notice] by (auto simp: async_inv_def)
qed

lemma log_one_line: "reaches ((=) (AsyncLogging_start, [])) log_keeps_up (AsyncLogging_start\<lparr>store := (\<lambda>_. [])(0 := [1, 2])\<rparr>, [[1, 2]])"
proof -
  have "reaches ((=) (AsyncLogging_start, [])) log_keeps_up (AsyncLogging_start, [])" by (rule reaches_init) simp
  then have "reaches ((=) (AsyncLogging_start, [])) log_keeps_up (AsyncLogging_start\<lparr>store := (\<lambda>_. [])(0 := [1, 2])\<rparr>, [] @ [[1, 2]])"
    by (rule reaches_step) (rule log_keeps_up.log, simp_all add: AsyncLogging_append_def buffer_write_def LogBuffer_append_def
        LogBuffer_avail_def AsyncLogging_start_def kLargeBuffer_def)
  then show ?thesis by simp
qed

theorem async_log_lines_witness:
  "(\<exists>s'. writer_take [] (AsyncLogging_start\<lparr>store := (\<lambda>_. [])(0 := [1, 2])\<rparr>) = Inr s')
   \<and> (\<exists>s'. overflow_run (replicate 3000000 1) (replicate 3000000 2) (replicate 3000000 3) [] = Inr s'
        \<and> al_output s' = [replicate 3000000 1, replicate 3000000 2, replicate 3000000 2] \<and> store s' (currentBuffer s') = [])"
  using async_log_lines [OF log_one_line, of "replicate 3000000 1" "replicate 3000000 2" "replicate 3000000 3" "[]"]
  by (auto simp: kLargeBuffer_def AsyncLogging_start_def)

end
