(* ===== verification/ConfigFile.thy ===== *)
theory ConfigFile
  imports Prelude "HOL-Library.Char_ord" "HOL-Library.List_Lexorder"
begin

text \<open>
  The configuration files of the Windows copy of muduo (\<open>third/muduo-win/src/base/config_file_reader.cc\<close>): lines \<open>key=value\<close>, with \<open>#\<close> for comments. A
  file is the list of its characters, \<open>None\<close> if it cannot be opened; the \<open>std::map\<close> is a list that is strictly
  sorted by its keys. C strings end at the first zero character. A line is read into 256 characters and
  written from 128; with Microsoft's compiler (\<open>msvc\<close>) a line too long for \<open>sprintf_s\<close> ends the process, with others it is cut.
\<close>

section \<open>The code\<close>

definition nul :: char where "nul = CHR 0x00"
definition newline :: char where "newline = CHR 0x0A"
definition blank :: "char \<Rightarrow> bool" where "blank c \<longleftrightarrow> c = CHR 0x20 \<or> c = CHR 0x09"

type_synonym config_map = "(string \<times> string) list"

record config =
  m_load_ok :: bool
  m_config_map :: config_map

text \<open>\<open>std::map::insert\<close> keeps an entry that is there; the assignment through the iterator replaces it.\<close>

fun map_insert :: "string \<Rightarrow> string \<Rightarrow> config_map \<Rightarrow> config_map" where
  "map_insert k v [] = [(k, v)]"
| "map_insert k v ((k', v') # m) =
     (if k < k' then (k, v) # (k', v') # m else if k = k' then (k', v') # m else (k', v') # map_insert k v m)"

definition map_assign :: "string \<Rightarrow> string \<Rightarrow> config_map \<Rightarrow> config_map" where
  "map_assign k v m = map (\<lambda>(k', v'). (k', if k' = k then v else v')) m"

definition c_str :: "string \<Rightarrow> string" where
  "c_str s = takeWhile (\<lambda>c. c \<noteq> nul) s"

definition TrimSpace :: "string \<Rightarrow> string option" where
  "TrimSpace name =
     (let start = dropWhile blank name
      in if start = [] then None else Some (rev (dropWhile blank (rev start))))"

definition ParseLine :: "string \<Rightarrow> config_map \<Rightarrow> config_map" where
  "ParseLine line m =
     (if CHR ''='' \<notin> set line then m
      else case (TrimSpace (takeWhile (\<lambda>c. c \<noteq> CHR ''='') line), TrimSpace (tl (dropWhile (\<lambda>c. c \<noteq> CHR ''='') line))) of
        (Some key, Some val) \<Rightarrow> map_insert key val m
      | _ \<Rightarrow> m)"

text \<open>\<open>fgets\<close> with a buffer of 256: up to 255 characters, and not past the end of the line.\<close>

definition fgets :: "string \<Rightarrow> string \<times> string" where
  "fgets s =
     (let line = takeWhile (\<lambda>c. c \<noteq> newline) s;
          n = (if length line < length s then length line + 1 else length line)
      in (take (min n 255) s, drop (min n 255) s))"

definition load_line :: "string \<Rightarrow> config_map \<Rightarrow> config_map result" where
  "load_line buf m =
     (let line = c_str buf
      in if line = [] then Inl (Undefined ''buf[len - 1] with len == 0'')
         else let line1 = (if last line = newline then butlast line else line);
                  line2 = takeWhile (\<lambda>c. c \<noteq> CHR ''#'') line1
              in Inr (if line2 = [] then m else ParseLine line2 m))"

lemma fgets_shorter: "s \<noteq> [] \<Longrightarrow> length (snd (fgets s)) < length s"
  by (cases s) (auto simp: fgets_def Let_def)

function load_lines :: "string \<Rightarrow> config_map \<Rightarrow> config_map result" where
  "load_lines s m =
     (if s = [] then Inr m
      else rbind (load_line (fst (fgets s)) m) (load_lines (snd (fgets s))))"
  by pat_completeness auto
termination by (relation "measure (\<lambda>(s, m). length s)") (auto simp: fgets_shorter)

declare load_lines.simps [simp del]

text \<open>The constructor. \<open>junk\<close> is the value of \<open>m_load_ok\<close> before anything is assigned to it.\<close>

definition ConfigFileReader_ctor :: "bool \<Rightarrow> string option \<Rightarrow> config result" where
  "ConfigFileReader_ctor junk file = (case file of
       None \<Rightarrow> Inr \<lparr>m_load_ok = junk, m_config_map = []\<rparr>
     | Some s \<Rightarrow> rbind (load_lines s []) (\<lambda>m. Inr \<lparr>m_load_ok = True, m_config_map = m\<rparr>))"

definition GetConfigName :: "string \<Rightarrow> config \<Rightarrow> string option" where
  "GetConfigName name c = (if \<not> m_load_ok c then None else map_of (m_config_map c) name)"

definition entry_text :: "string \<times> string \<Rightarrow> string" where
  "entry_text e = fst e @ CHR ''='' # snd e @ [newline]"

text \<open>
  \<open>opens\<close>: whether the file opens for writing; \<open>oks i\<close>: whether the \<open>fwrite\<close> of entry \<open>i\<close> succeeds. The result is the return value and
  what the file holds then.
\<close>

fun write_entries :: "bool \<Rightarrow> (nat \<Rightarrow> bool) \<Rightarrow> config_map \<Rightarrow> (int \<times> string) result" where
  "write_entries msvc oks [] = Inr (0, [])"
| "write_entries msvc oks (e # m) =
     (if msvc \<and> 128 \<le> length (entry_text e) then Inl (Fatal ''sprintf_s'')
      else if \<not> oks 0 then Inr (- 1, [])
      else rbind (write_entries msvc (\<lambda>i. oks (Suc i)) m) (\<lambda>(r, s). Inr (r, take 127 (entry_text e) @ s)))"

definition WriteFile :: "bool \<Rightarrow> bool \<Rightarrow> (nat \<Rightarrow> bool) \<Rightarrow> config_map \<Rightarrow> (int \<times> string option) result" where
  "WriteFile msvc opens oks m =
     (if \<not> opens then Inr (- 1, None) else rbind (write_entries msvc oks m) (\<lambda>(r, s). Inr (r, Some s)))"

definition SetConfigValue :: "bool \<Rightarrow> bool \<Rightarrow> (nat \<Rightarrow> bool) \<Rightarrow> string \<Rightarrow> string \<Rightarrow> config \<Rightarrow> (int \<times> string option \<times> config) result" where
  "SetConfigValue msvc opens oks name val c =
     (if \<not> m_load_ok c then Inr (- 1, None, c)
      else let m = (if map_of (m_config_map c) name \<noteq> None then map_assign name val (m_config_map c)
                    else map_insert name val (m_config_map c));
               c' = c\<lparr>m_config_map := m\<rparr>
           in rbind (WriteFile msvc opens oks m) (\<lambda>(r, s). Inr (r, s, c')))"

section \<open>Maps\<close>

definition sorted_map :: "config_map \<Rightarrow> bool" where
  "sorted_map m \<longleftrightarrow> sorted_wrt (<) (map fst m)"

lemma map_insert_keys [simp]: "set (map fst (map_insert k v m)) = insert k (set (map fst m))"
  by (induction k v m rule: map_insert.induct) (auto simp del: set_map)

lemma sorted_map_insert: "sorted_map m \<Longrightarrow> sorted_map (map_insert k v m)"
proof (induction k v m rule: map_insert.induct)
  case (2 k v k' v' m)
  then have "sorted_map (map_insert k v m)" if "\<not> k < k'" "k \<noteq> k'" using that by (simp add: sorted_map_def)
  moreover have "\<forall>x\<in>set (map fst (map_insert k v m)). k' < x" if "\<not> k < k'" "k \<noteq> k'"
    using 2(2) that unfolding map_insert_keys by (auto simp: sorted_map_def)
  ultimately show ?case using 2(2) by (auto simp: sorted_map_def simp del: set_map map_insert_keys)
qed (simp add: sorted_map_def)

lemma sorted_map_assign: "sorted_map (map_assign k v m) = sorted_map m"
  by (simp add: sorted_map_def map_assign_def comp_def split_def)

lemma map_of_insert: "sorted_map m \<Longrightarrow> map_of (map_insert k v m) x = (if x = k \<and> map_of m k = None then Some v else map_of m x)"
proof (induction k v m rule: map_insert.induct)
  case (2 k v k' v' m)
  have "map_of ((k', v') # m) k = None" if "k < k'"
    using 2(2) that by (force simp: sorted_map_def map_of_eq_None_iff)
  then show ?case using 2 by (auto simp: sorted_map_def)
qed simp

lemma map_of_assign: "map_of (map_assign k v m) x = (if x = k \<and> map_of m k \<noteq> None then Some v else map_of m x)"
  by (induction m) (auto simp: map_assign_def)

lemma map_insert_last: "\<forall>k'\<in>set (map fst m). k' < k \<Longrightarrow> map_insert k v m = m @ [(k, v)]"
  by (induction m) (auto dest: less_asym)

section \<open>Reading back what was written\<close>

text \<open>Texts that survive: no character that the format uses, and no blank at either end.\<close>

definition plain :: "string \<Rightarrow> bool" where
  "plain t \<longleftrightarrow> t \<noteq> [] \<and> nul \<notin> set t \<and> newline \<notin> set t \<and> CHR ''#'' \<notin> set t \<and> \<not> blank (hd t) \<and> \<not> blank (last t)"

definition plain_entry :: "string \<times> string \<Rightarrow> bool" where
  "plain_entry e \<longleftrightarrow> plain (fst e) \<and> plain (snd e) \<and> CHR ''='' \<notin> set (fst e) \<and> length (fst e) + length (snd e) \<le> 125"

lemma TrimSpace_plain: "plain t \<Longrightarrow> TrimSpace t = Some t"
proof -
  assume t: "plain t"
  then have "dropWhile blank t = t" by (cases t) (auto simp: plain_def)
  moreover have "dropWhile blank (rev t) = rev t" using t by (cases t rule: rev_cases) (auto simp: plain_def)
  ultimately show ?thesis using t by (simp add: TrimSpace_def plain_def)
qed

lemma takeWhile_neq_append: "c \<notin> set xs \<Longrightarrow> takeWhile (\<lambda>x. x \<noteq> c) (xs @ c # ys) = xs" "c \<notin> set xs \<Longrightarrow> dropWhile (\<lambda>x. x \<noteq> c) (xs @ c # ys) = c # ys"
  by (induction xs) auto

lemma takeWhile_neq_all: "c \<notin> set xs \<Longrightarrow> takeWhile (\<lambda>x. x \<noteq> c) xs = xs"
  by (induction xs) auto

lemma fgets_entry: "plain_entry e \<Longrightarrow> fgets (entry_text e @ s) = (entry_text e, s)"
proof -
  assume e: "plain_entry e"
  define l where "l = fst e @ CHR ''='' # snd e"
  have "newline \<notin> set l" "length l \<le> 126" using e by (auto simp: l_def plain_entry_def plain_def newline_def)
  moreover have "entry_text e @ s = l @ newline # s" by (simp add: entry_text_def l_def)
  moreover have "entry_text e = l @ [newline]" by (simp add: entry_text_def l_def)
  ultimately show ?thesis by (simp add: fgets_def takeWhile_neq_append Let_def min_def)
qed

lemma load_entry: "plain_entry e \<Longrightarrow> load_line (entry_text e) m = Inr (map_insert (fst e) (snd e) m)"
proof -
  assume e: "plain_entry e"
  define l where "l = fst e @ CHR ''='' # snd e"
  have l: "entry_text e = l @ [newline]" "l \<noteq> []" by (simp_all add: entry_text_def l_def)
  have "nul \<notin> set l" "CHR ''#'' \<notin> set l" using e by (auto simp: l_def plain_entry_def plain_def nul_def)
  moreover from this have "c_str (l @ [newline]) = l @ [newline]" by (simp add: c_str_def takeWhile_neq_all nul_def newline_def)
  moreover have "ParseLine l m = map_insert (fst e) (snd e) m"
    using e by (simp add: ParseLine_def l_def takeWhile_neq_append plain_entry_def TrimSpace_plain)
  ultimately show ?thesis using l by (simp add: load_line_def takeWhile_neq_all Let_def)
qed

lemma load_written:
  "\<forall>e\<in>set m. plain_entry e \<Longrightarrow> load_lines (concat (map entry_text m)) acc = Inr (fold (\<lambda>e. map_insert (fst e) (snd e)) m acc)"
proof (induction m arbitrary: acc)
  case (Cons e m)
  have "entry_text e \<noteq> []" by (simp add: entry_text_def)
  then show ?case using Cons by (subst load_lines.simps) (simp add: fgets_entry load_entry)
qed (simp add: load_lines.simps)

lemma fold_map_insert: "sorted_map (acc @ m) \<Longrightarrow> fold (\<lambda>e. map_insert (fst e) (snd e)) m acc = acc @ m"
proof (induction m arbitrary: acc)
  case (Cons e m)
  then have "map_insert (fst e) (snd e) acc = acc @ [e]" by (subst map_insert_last) (auto simp: sorted_map_def sorted_wrt_append)
  then show ?case using Cons.IH [of "acc @ [e]"] Cons.prems by simp
qed simp

lemma write_plain: "\<forall>e\<in>set m. plain_entry e \<Longrightarrow> write_entries msvc (\<lambda>_. True) m = Inr (0, concat (map entry_text m))"
  by (induction m) (auto simp: plain_entry_def entry_text_def)

lemma set_map_insert: "set (map_insert k v m) \<subseteq> insert (k, v) (set m)"
  by (induction k v m rule: map_insert.induct) auto

lemma set_map_assign: "e \<in> set (map_assign k v m) \<Longrightarrow> e = (k, v) \<or> e \<in> set m"
  by (auto simp: map_assign_def split: if_splits)

section \<open>Properties\<close>

text \<open>
  C40. A value that was set is read back. For a loaded configuration whose keys and values, like those that are set, are plain
  (not empty, without the characters of the format, without blanks at their ends, and short enough for the buffer of a line),
  \<open>SetConfigValue\<close> on a file that can be written returns 0, and a reader that opens the file it wrote has the same entries: it gives the new value for the
  name and the old ones for every other name, on every platform.
\<close>

theorem config_set_get:
  assumes "m_load_ok c" "sorted_map (m_config_map c)" "\<forall>e\<in>set (m_config_map c). plain_entry e" "plain_entry (name, val)"
  shows "\<exists>s c' d. SetConfigValue msvc True (\<lambda>_. True) name val c = Inr (0, Some s, c') \<and> ConfigFileReader_ctor junk (Some s) = Inr d
       \<and> m_config_map d = m_config_map c' \<and> sorted_map (m_config_map d)
       \<and> (\<forall>n. GetConfigName n d = (if n = name then Some val else GetConfigName n c))"
proof -
  define m where "m = (if map_of (m_config_map c) name \<noteq> None then map_assign name val (m_config_map c)
    else map_insert name val (m_config_map c))"
  have sorted: "sorted_map m" using assms(2) by (simp add: m_def sorted_map_insert sorted_map_assign)
  have plain: "\<forall>e\<in>set m. plain_entry e"
    using assms(3, 4) set_map_insert [of name val "m_config_map c"] set_map_assign [of _ name val "m_config_map c"] by (auto simp: m_def)
  have get: "map_of m n = (if n = name then Some val else map_of (m_config_map c) n)" for n
    using assms(2) by (auto simp: m_def map_of_insert map_of_assign)
  have "SetConfigValue msvc True (\<lambda>_. True) name val c = Inr (0, Some (concat (map entry_text m)), c\<lparr>m_config_map := m\<rparr>)"
    using assms(1) plain unfolding SetConfigValue_def Let_def m_def [symmetric] by (simp add: WriteFile_def write_plain)
  moreover have "ConfigFileReader_ctor junk (Some (concat (map entry_text m))) = Inr \<lparr>m_load_ok = True, m_config_map = m\<rparr>"
    using plain sorted fold_map_insert [of "[]" m] by (simp add: ConfigFileReader_ctor_def load_written)
  ultimately show ?thesis using sorted get assms(1) by (simp add: GetConfigName_def)
qed

theorem config_set_get_witness:
  "\<exists>s c' d. SetConfigValue True True (\<lambda>_. True) ''port'' ''80'' \<lparr>m_load_ok = True, m_config_map = [(''host'', ''a b=c'')]\<rparr> = Inr (0, Some s, c')
     \<and> ConfigFileReader_ctor False (Some s) = Inr d \<and> GetConfigName ''port'' d = Some ''80'' \<and> GetConfigName ''host'' d = Some ''a b=c''"
proof -
  let ?c = "\<lparr>m_load_ok = True, m_config_map = [(''host'', ''a b=c'')]\<rparr>"
  have "m_load_ok ?c" "sorted_map (m_config_map ?c)" "\<forall>e\<in>set (m_config_map ?c). plain_entry e" "plain_entry (''port'', ''80'')"
    by (simp_all add: sorted_map_def plain_entry_def plain_def blank_def nul_def newline_def)
  from config_set_get [OF this, of True False] show ?thesis by (fastforce simp: GetConfigName_def [of _ ?c])
qed

text \<open>What is not kept: a comment sign cuts a value, and a line that is too long is cut and runs into the next one.\<close>

lemma comment_sign_cuts:
  "rbind (write_entries False (\<lambda>_. True) [(''a'', ''b#c''), (''d'', ''e'')]) (\<lambda>(_, s). load_lines s []) = Inr [(''a'', ''b''), (''d'', ''e'')]"
  by code_simp

lemma long_line_runs_on:
  "rbind (write_entries False (\<lambda>_. True) [(''a'', replicate 130 CHR ''x''), (''d'', ''e'')]) (\<lambda>(_, s). load_lines s [])
   = Inr [(''a'', replicate 125 CHR ''x'' @ ''d=e'')]"
  by code_simp

end
