(* ===== verification/Spec2Isabelle.thy ===== *)
theory Spec2Isabelle
  imports Codec Poller TimerQueue UdpClient TcpServer TcpClient Logging WinTimers AnyBox ThreadPool LoopThread ChatServer ChatClient Reactor SelectPoller Base64 Md5 Aes Locks AsyncLog ConfigFile "HOL-Library.Sublist"
begin

text \<open>
  realtinet is a C++ library for reliable and unreliable UDP connections on top of muduo (an event loop library, of
  which the repository holds its own copies) and kcpp (a reliable-UDP session, a submodule that is not in the
  repository). This development models the library, the parts of muduo it runs on, muduo's TCP classes, its log
  output with the calendar behind it, its locks and task pool, the type-erased context of a connection, the
  timers, select poller, background logger, configuration files and cryptographic utilities of the Windows copy of muduo, and the length-header codecs
  and the chat servers and clients of the example programs, and proves what makes them correct. Source files are named relative to \<open>src/\<close>.

  \<^bold>\<open>The program.\<close> An \<open>EventLoop\<close> (one per thread) waits in a \<open>Poller\<close> for events of \<open>Channel\<close>s and timers, dispatches
  them to callbacks, and runs functors that other threads queued. A \<open>UdpServer\<close> has a \<open>UdpAcceptor\<close>, which for each
  datagram of a peer it does not know makes a \<open>UdpConnector\<close>; that connects a socket of its own to the peer and hands
  it to the server, which makes a \<open>UdpConnection\<close> in one of the loops of its pool. A \<open>UdpClient\<close> has one connector
  and at most one connection. A connection passes datagrams through a kcp session; what comes out goes
  through a \<open>Buffer\<close> to the user's message callback, usually a codec. \<open>TcpServer\<close>, \<open>Acceptor\<close>, \<open>TcpClient\<close>,
  \<open>Connector\<close> and \<open>TcpConnection\<close> are the TCP counterparts the UDP classes were derived from.

  \<^bold>\<open>How code is modelled.\<close> A class is a \<open>record\<close>, an enumeration a \<open>datatype\<close>, a method a function from the state to
  \<open>failure + state\<close> (\<open>result\<close>): a failed \<open>assert\<close>, \<open>LOG_FATAL\<close> and undefined behaviour are values, so a theorem
  \<open>rspec (f s) P\<close> says that \<open>f\<close> runs and ends in a state with \<open>P\<close>. What the system decides (results of \<open>read\<close>, \<open>write\<close>,
  \<open>connect\<close>, \<open>accept\<close>, the clock, descriptors) and what the user's callbacks do (lists of calls on the
  connection) are arguments or fields that any step may set. The life of an object is a step relation over its
  methods; \<open>reaches\<close> is reachability, and properties of all reachable states go through the locale
  \<open>inductive_invariant\<close>. Effects on other objects are recorded in logs and queues, in order. The state of a
  loop is only touched in its own thread, so a step is one call in that thread. Where threads share data under
  a mutex (the functors of a loop, the task pool, the list of a chat server), a step is one critical section of
  one thread, and steps of different threads follow each other in any order.

  \<^bold>\<open>The theories.\<close>
  \<^item> \<open>Prelude\<close>: failures, results, copies on vectors, ordered sets, decimal printing, reachability.
  \<^item> \<open>Endian\<close> (\<open>third/muduo/net/Endian.h\<close>) and \<open>Buffer\<close> (\<open>Buffer.h\<close>, \<open>Buffer.cc\<close>): the byte buffer with its two indices and the move
    to the front. It implements a plain byte string (locale \<open>byte_fifo\<close>): any sequence of operations has the same
    effect on both, and fails exactly where the byte string is too short.
  \<^item> \<open>Codec\<close> (\<open>test/udp_codec.h\<close>, \<open>test/tcp_codec.h\<close>): the length-header codecs. \<open>deframe\<close> specifies the parse; the locale
    \<open>framing\<close> gives for both codecs that messages survive any fragmentation.
  \<^item> \<open>Channel\<close>, \<open>Poller\<close> (\<open>Channel.cc\<close>, \<open>poller/EPollPoller.cc\<close>, \<open>poller/PollPoller.cc\<close>): event masks, dispatch, and both pollers against one
    contract (locale \<open>io_poller\<close>): the kernel watches exactly the channels that were added, each for its mask.
    They differ on a channel that was never enabled.
  \<^item> \<open>LoopPoller\<close> (\<open>Poller.h\<close>, \<open>poller/DefaultPoller.cc\<close>): the virtual methods of \<open>Poller\<close> as a record of functions and what the loop
    relies on (locale \<open>loop_poller\<close>), met by both pollers; the default one is the one over \<open>poll\<close>.
  \<^item> \<open>TimerQueue\<close> (\<open>Timer.h\<close>, \<open>TimerQueue.cc\<close>, \<open>base/Timestamp.h\<close>): the timer queue with callbacks that add and cancel timers; timers fire
    when due and in order, the timerfd is armed for the first one, no timer leaks or is used after it is freed.
  \<^item> \<open>EventLoop\<close> (\<open>EventLoop.cc\<close>, \<open>EventLoopThreadPool.cc\<close>): pending functors, wakeups, round robin; no wakeup is lost.
  \<^item> \<open>Reactor\<close> (\<open>EventLoop.cc\<close> again, with \<open>Channel.cc\<close>): rounds of the loop over a poller and channels that come and go, proved for any
    \<open>loop_poller\<close> by way of the locale \<open>active_handlers\<close>. Callbacks create, change, remove and destroy channels; the loop never
    uses one that is gone, and which ways to leave it stop the process.
  \<^item> \<open>StdMap\<close>, \<open>InetAddress\<close> (\<open>InetAddress.cc\<close>, \<open>SocketsOps.cc\<close>): \<open>std::map\<close> under a comparator that may not be an order, addresses and
    their text. The address comparator is not an order, and where it is.
  \<^item> \<open>Connectors\<close> (\<open>core/UdpConnector.cpp\<close>, \<open>third/muduo/net/Connector.cc\<close>): states, back-off and descriptors of both connectors.
  \<^item> \<open>UdpConnection\<close>, \<open>UdpServer\<close>, \<open>UdpClient\<close> (\<open>core/UdpConnection.cpp\<close>, \<open>core/UdpAcceptor.cpp\<close>, \<open>core/UdpServer.cpp\<close>, \<open>core/UdpClient.cpp\<close>):
    the library itself. The life cycle of a connection for any session and any callbacks, the receive loop,
    one connection per peer and the map of connections, the accounting of a client's connections, and
    what goes wrong: empty datagrams, a second close, crossed addresses, a peer that is shut out.
  \<^item> \<open>TcpConnection\<close>, \<open>TcpServer\<close>, \<open>TcpClient\<close> (\<open>third/muduo/net/TcpConnection.cc\<close>, \<open>Acceptor.cc\<close>, \<open>TcpServer.cc\<close>, \<open>TcpClient.cc\<close>): the output
    stream is unbroken and flushed by a shutdown, events never end the process, a close callback comes at
    most once, so the bookkeeping of server and client that the UDP copies break is right here.
  \<^item> \<open>LogStream\<close>, \<open>Calendar\<close>, \<open>TimeZone\<close>, \<open>Logging\<close> (\<open>third/muduo/base/LogStream.cc\<close>, \<open>Date.cc\<close>, \<open>TimeZone.cc\<close>, \<open>Logging.cc\<close>): formatting into a fixed
    array, the Gregorian calendar, zones with summer time, and the text of a log line.
  \<^item> \<open>AnyBox\<close> (\<open>core/any.h\<close>): the objects that are alive, in unions and on the heap. The two tables of functions satisfy one
    contract (locale \<open>storage_ops\<close>); programs over \<open>any\<close> refine programs over optional values, with exceptions, and
    leak nothing. Swapping a value with itself is undefined.
  \<^item> \<open>ThreadPool\<close> (\<open>third/muduo/base/ThreadPool.cc\<close>, \<open>CountDownLatch.cc\<close>): producers, workers and \<open>stop\<close> in any order. Both conditions
    of the pool satisfy the locale \<open>signalling\<close>, so no signal is lost; the queue is bounded and first in, first out;
    workers end after \<open>stop\<close>, and producers that wait then do not.
  \<^item> \<open>Locks\<close> (\<open>third/muduo/base/Mutex.h\<close>, \<open>Condition.h\<close>, \<open>Condition.cc\<close>): every method as its atomic actions, interleaved over any number of threads;
    the record of the holder is right whoever reads it, and the deadlines of timed waits are in range.
  \<^item> \<open>LoopThread\<close> (\<open>third/muduo/base/Thread.cc\<close>, \<open>third/muduo/net/EventLoopThread.cc\<close>): the handshake that starts the thread of a loop, and how its
    destructor can hang or use a loop that is gone.
  \<^item> \<open>WinTimers\<close> (\<open>third/muduo-win/src/net/TimeMinHeap.h\<close>, \<open>TimerQueue.cc\<close>): the array heap in which timers know their positions, against
    the contract of a priority queue (locale \<open>timer_heap\<close>), the queue over it, and what cancelling breaks.
  \<^item> \<open>SelectPoller\<close> (\<open>third/muduo-win/src/net/Poller/SelectPoller.cc\<close>): the poller over \<open>select\<close>, which forgets a channel that was muted once.
  \<^item> \<open>AsyncLog\<close> (\<open>third/muduo-win/src/base/async_logging.cc\<close>, \<open>log_file.cc\<close>, \<open>file_util.cc\<close>): logging threads and the writer over a store of shared buffers. Lines
    arrive in order and once each while they fit; the copied pointer that loses and repeats lines when they do not.
  \<^item> \<open>ConfigFile\<close> (\<open>third/muduo-win/src/base/config_file_reader.cc\<close>): parsing and writing, and which entries survive both.
  \<^item> \<open>Base64\<close>, \<open>Md5\<close>, \<open>AesTables\<close>, \<open>Aes\<close> (\<open>third/muduo-win/src/base/security/\<close>): encoding and decoding are inverse; the digest of a message in pieces is
    the digest of the padded message; the tables of AES contain what their comment says, the table-driven cipher is the published one, and
    decryption undoes encryption for every key and block.
  \<^item> \<open>ChatServer\<close> (\<open>test/udp_chat_server.cpp\<close>, \<open>test/tcp_chat_server.cpp\<close>): the copy-on-write list of connections and the broadcast, for any
    codec (locale \<open>chat_codec\<close>).
  \<^item> \<open>ChatClient\<close> (\<open>test/udp_chat_client.cpp\<close>, \<open>test/tcp_chat_client.cpp\<close>): the connection a client holds, what \<open>write\<close> sends on it, and
    the numbered lines of \<open>main\<close> with the reach of their buffer.
  \<^item> This theory: messages between two TCP connections through codec, buffers and sockets.

  \<^bold>\<open>Fuel and bounds.\<close> The receive loop of \<open>UdpConnection::handleRead\<close> ends only if the session drains what it holds; it has fuel, and
  \<open>read_loop_ends\<close> gives the fuel that is enough. The nesting of user callbacks through \<open>send\<close> has a depth, since a callback may
  send again; the invariants hold at every depth. The loop of the Windows timers is a \<open>partial_function\<close>: it returns when every repeating
  timer has an interval of a microsecond or more, and otherwise not. All other loops are total. Machine integers: masks, ports and headers are words; counters of type \<open>int\<close>
  fail at \<open>INT_MAX\<close>; the calendar lists every intermediate value and covers a million years, the text of a log line the
  years to 9999.

  \<^bold>\<open>Not modelled.\<close> The kcpp session is a parameter: each of its methods is a program of calls back into the connection. Of \<open>third/muduo-win\<close>, a second copy of muduo for Windows with utilities of its own, the timers, the select poller, the background
  logger, the configuration files and \<open>base/security\<close> are modelled; its event loop, connections and log lines repeat classes that are modelled from \<open>third/muduo\<close>. Of AES the variants
  that the sources switch off (\<open>FULL_UNROLL\<close>, \<open>AES_ASM\<close>) are left out. Of the chat clients, reading standard input and printing what arrives are left out. Socket options, \<open>getTcpInfo\<close> and the output function of the logger have no effect on the state.
\<close>

section \<open>Two connections and the codec\<close>

text \<open>What a receiver has parsed of a stream of frames is a prefix of the messages.\<close>

lemma deframe_prefix:
  assumes "list_all (\<lambda>m. length m \<le> kMaxFrame) ms" "prefix s (concat (map frame ms))"
  obtains ms1 rest where "deframe s = (ms1, False, rest)" "prefix ms1 ms"
proof -
  obtain t where t: "concat (map frame ms) = s @ t" using assms(2) by (auto simp: prefix_def)
  then have whole: "deframe (s @ t) = (ms, False, [])" using deframe_frames [OF assms(1)] by simp
  obtain ms1 bad rest where d: "deframe s = (ms1, bad, rest)" by (metis prod_cases3)
  then have bad: "\<not> bad" using whole deframe_bad_append [of s ms1 rest t] by auto
  then have "\<exists>ms2. ms = ms1 @ ms2"
    using deframe_append [of s ms1 rest t] d whole by (auto split: prod.splits)
  then show thesis using that d bad by (auto simp: prefix_def)
qed

text \<open>
  C5. Messages between two TCP connections: a sender in any reachable state that has taken the frames of \<open>ms\<close> (none
  longer than the codec allows), and a receiver in any reachable state with the codec as its message callback, which
  has read some prefix of the bytes the sender's socket took, as TCP promises. However the sender's socket
  split its writes and the reads split the stream, the application at the receiver has been given a prefix
  of \<open>ms\<close>, each message whole and in order, and all of \<open>ms\<close> once the sender's buffer is empty and everything was read.
\<close>

theorem tcp_end_to_end:
  assumes "reaches tcp_init (tcp_step S) a" "taken (tlog a) = concat (map frame ms)" "list_all (\<lambda>m. length m \<le> kMaxFrame) ms"
    and "t_messageCallback R = tcp_codec_callback" "reaches tcp_init (tcp_step R) b" "prefix (tchunks (tlog b)) (wire a)"
  shows "prefix (tapps (tlog b)) ms \<and>
     (content (t_out a) = [] \<and> tchunks (tlog b) = wire a \<longrightarrow> tapps (tlog b) = ms \<and> content (t_in b) = [])"
proof -
  have a: "taken (tlog a) = wire a @ content (t_out a)"
    using tcp_run.inv_reaches [OF assms(1)] by (simp add: tcp_ok_def out_ok_def)
  then have "prefix (tchunks (tlog b)) (concat (map frame ms))" using assms(2,6) by (metis prefix_prefix)
  then obtain ms1 rest where d: "deframe (tchunks (tlog b)) = (ms1, False, rest)" "prefix ms1 ms"
    using deframe_prefix [OF assms(3)] by blast
  have b: "tapps (tlog b) = ms1" "content (t_in b) = rest" using reached_in [OF assms(5,4)] d(1) by (simp_all add: in_ok_def)
  moreover have "ms1 = ms \<and> rest = []" if "content (t_out a) = []" "tchunks (tlog b) = wire a"
    using d(1) a that assms(2) deframe_frames [OF assms(3)] by simp
  ultimately show ?thesis using d(2) by auto
qed

text \<open>One message in a frame of five bytes; the receiver has read the header and then the rest.\<close>

definition e2e_env :: "bytes \<Rightarrow> tcp_env" where
  "e2e_env m = \<lparr>t_connectionCallback = \<lambda>c. if TcpConnection_connected c \<and> m \<noteq> [] then [TSend (frame m)] else [],
     t_messageCallback = tcp_codec_callback, t_writeCompleteCallback = False, t_highWaterMarkCallback = False\<rparr>"

definition e2e_sender :: "tcp_conn result" where
  "e2e_sender = TcpConnection_connectEstablished (e2e_env [7]) ((TcpConnection_ctor ''a'' 7 1)\<lparr>os_writes := [Inr 5]\<rparr>)"

definition e2e_half :: "tcp_conn result" where
  "e2e_half = rbind (TcpConnection_connectEstablished (e2e_env []) (TcpConnection_ctor ''b'' 8 1))
     (TcpConnection_handleRead (e2e_env []) (ReadOk [0, 0, 0, 1]) 0)"

definition e2e_receiver :: "tcp_conn result" where
  "e2e_receiver = rbind e2e_half (TcpConnection_handleRead (e2e_env []) (ReadOk [7]) 0)"

lemma e2e_sender_state: "rspec e2e_sender (\<lambda>a. wire a = [0, 0, 0, 1, 7] \<and> content (t_out a) = [] \<and> taken (tlog a) = [0, 0, 0, 1, 7])"
  by code_simp

lemma e2e_receiver_state: "rspec e2e_receiver (\<lambda>b. tchunks (tlog b) = [0, 0, 0, 1, 7])"
  by code_simp

lemma e2e_sender_reached: "e2e_sender = Inr a \<Longrightarrow> reaches tcp_init (tcp_step (e2e_env [7])) a"
proof -
  assume a: "e2e_sender = Inr a"
  let ?R = "reaches tcp_init (tcp_step (e2e_env [7]))"
  have "?R (TcpConnection_ctor ''a'' 7 1)" by (rule reaches_init) (auto simp: tcp_init_def)
  then have "?R ((TcpConnection_ctor ''a'' 7 1)\<lparr>os_writes := [Inr 5]\<rparr>)" by (rule reaches_step) (rule ts_os)
  then show "?R a" by (rule reaches_step) (rule ts_established, use a in \<open>simp add: e2e_sender_def\<close>)
qed

lemma e2e_receiver_reached: "e2e_receiver = Inr b \<Longrightarrow> reaches tcp_init (tcp_step (e2e_env [])) b"
proof -
  assume b: "e2e_receiver = Inr b"
  let ?R = "reaches tcp_init (tcp_step (e2e_env []))"
  obtain b0 b1 where r: "TcpConnection_connectEstablished (e2e_env []) (TcpConnection_ctor ''b'' 8 1) = Inr b0"
      "TcpConnection_handleRead (e2e_env []) (ReadOk [0, 0, 0, 1]) 0 b0 = Inr b1"
      "TcpConnection_handleRead (e2e_env []) (ReadOk [7]) 0 b1 = Inr b"
    using b by (auto simp: e2e_receiver_def e2e_half_def rbind_eq_Inr_iff)
  have room: "length (kread_data (ReadOk d)) \<le> readFd_offer x" if "length d \<le> 4" for d x
    using that by (simp add: kread_data_def readFd_offer_def extrabuf_size_def)
  have "?R (TcpConnection_ctor ''b'' 8 1)" by (rule reaches_init) (auto simp: tcp_init_def)
  then have "?R b0" by (rule reaches_step) (rule ts_established [OF r(1)])
  then have "?R b1" by (rule reaches_step) (rule ts_read [OF room r(2)], simp)
  then show "?R b" by (rule reaches_step) (rule ts_read [OF room r(3)], simp)
qed

theorem tcp_end_to_end_witness:
  "rspec e2e_receiver (\<lambda>b. tapps (tlog b) = [[7]] \<and> content (t_in b) = [])"
proof -
  obtain a where a: "e2e_sender = Inr a" "wire a = [0, 0, 0, 1, 7]" "content (t_out a) = []" "taken (tlog a) = [0, 0, 0, 1, 7]"
    using e2e_sender_state by (auto simp: rspec_iff)
  obtain b where b: "e2e_receiver = Inr b" "tchunks (tlog b) = [0, 0, 0, 1, 7]" using e2e_receiver_state by (auto simp: rspec_iff)
  have f: "concat (map frame [[7]]) = [0, 0, 0, 1, 7]" by code_simp
  have E: "t_messageCallback (e2e_env []) = tcp_codec_callback" by (simp add: e2e_env_def)
  from tcp_end_to_end [OF e2e_sender_reached [OF a(1)] _ _ E e2e_receiver_reached [OF b(1)], of "[[7]]"] show ?thesis
    unfolding b(1) rspec_Inr using a b(2) f by (simp add: kMaxFrame_def)
qed

end
